(* ===== verification/Prelude.thy ===== *)
theory Prelude
  imports Main "HOL-Library.Word" "HOL-Library.Multiset"
begin

text \<open>
  Shared vocabulary of the development: the Rust integer types, panics and
  non-termination as values, the standard-library arithmetic the crate calls
  (\<open>saturating_sub\<close>, \<open>div_ceil\<close>, \<open>trailing_zeros\<close>, \<open>is_power_of_two\<close>,
  \<open>next_power_of_two\<close>), and generic lemmas on association lists that the component
  theories share.
\<close>

unbundle bit_operations_syntax

named_theorems run_simps \<open>unfolding of the panic and computation combinators\<close>
named_theorems layout_simps \<open>definitions of the crate's constants\<close>

section \<open>Types\<close>

text \<open>
  Hashes and lock words are 64-bit words. A \<open>usize\<close> counter is a natural number whose
  range \<open>0 .. usize_max\<close> is enforced by the checked operations below (a 64-bit
  target, as \<open>ptr_size_bits\<close> assumes in shard selection).
\<close>

type_synonym u8 = "8 word"
type_synonym u64 = "64 word"
type_synonym usize = nat

definition usize_max :: usize where
  "usize_max = 2 ^ 64 - 1"

datatype ('a, 'e) result = Ok 'a | Err 'e

section \<open>Panics and non-termination\<close>

text \<open>
  \<open>'a run\<close> is the outcome of code that always ends: it returns or panics. \<open>'a comp\<close>
  adds the outcome of never returning (\<open>None\<close>): an endless loop or a lock that is never
  granted.
\<close>

datatype panic =
    Arithmetic_overflow
  | Assert_failed
  | Debug_assert_failed
  | Unwrap_failed string
  | Process_abort

datatype 'a run = Return 'a | Panic panic

type_synonym 'a comp = "'a run option"

fun run_bind :: "'a run \<Rightarrow> ('a \<Rightarrow> 'b run) \<Rightarrow> 'b run" where
  "run_bind (Return x) f = f x"
| "run_bind (Panic p) f = Panic p"

fun comp_bind :: "'a comp \<Rightarrow> ('a \<Rightarrow> 'b comp) \<Rightarrow> 'b comp" where
  "comp_bind None f = None"
| "comp_bind (Some (Panic p)) f = Some (Panic p)"
| "comp_bind (Some (Return x)) f = f x"

abbreviation returns :: "'a \<Rightarrow> 'a comp" where
  "returns x \<equiv> Some (Return x)"

fun lift_run :: "'a run \<Rightarrow> 'a comp" where
  "lift_run r = Some r"

lemma run_bind_Return_iff [run_simps]:
  "run_bind m f = Return y \<longleftrightarrow> (\<exists>x. m = Return x \<and> f x = Return y)"
  by (cases m) auto

lemma comp_bind_returns_iff [run_simps]:
  "comp_bind m f = returns y \<longleftrightarrow> (\<exists>x. m = returns x \<and> f x = returns y)"
proof (cases m)
  case (Some r)
  then show ?thesis by (cases r) auto
qed simp

lemma comp_bind_assoc:
  "comp_bind (comp_bind m f) g = comp_bind m (\<lambda>x. comp_bind (f x) g)"
proof (cases m)
  case (Some r)
  then show ?thesis by (cases r) auto
qed simp

lemma comp_bind_returns [simp]: "comp_bind m (\<lambda>x. returns x) = m"
proof (cases m)
  case (Some r)
  then show ?thesis by (cases r) auto
qed simp

section \<open>Integer operations of the standard library\<close>

text \<open>Checked \<open>+\<close> and \<open>-\<close> on \<open>usize\<close>: a debug build panics outside the range.\<close>

definition usize_add :: "usize \<Rightarrow> usize \<Rightarrow> usize run" where
  "usize_add a b = (if a + b \<le> usize_max then Return (a + b) else Panic Arithmetic_overflow)"

definition usize_sub :: "usize \<Rightarrow> usize \<Rightarrow> usize run" where
  "usize_sub a b = (if b \<le> a then Return (a - b) else Panic Arithmetic_overflow)"

text \<open>Code equations that compare against \<open>usize_max\<close> in binary.\<close>

lemma le_usize_max_code: "n \<le> usize_max \<longleftrightarrow> int n \<le> 18446744073709551615"
  by (simp add: usize_max_def)

lemma usize_add_code [code]:
  "usize_add a b = (if int (a + b) \<le> 18446744073709551615 then Return (a + b)
     else Panic Arithmetic_overflow)"
  by (simp add: usize_add_def usize_max_def)

definition saturating_sub :: "usize \<Rightarrow> usize \<Rightarrow> usize" where
  "saturating_sub a b = (if b \<le> a then a - b else 0)"

definition div_ceil :: "usize \<Rightarrow> usize \<Rightarrow> usize" where
  "div_ceil a b = (if a mod b > 0 then a div b + 1 else a div b)"

lemma saturating_sub_eq [simp]: "saturating_sub a b = a - b"
  by (simp add: saturating_sub_def)

lemma usize_add_Return [simp]: "a + b \<le> usize_max \<Longrightarrow> usize_add a b = Return (a + b)"
  by (simp add: usize_add_def)

lemma usize_sub_Return [simp]: "b \<le> a \<Longrightarrow> usize_sub a b = Return (a - b)"
  by (simp add: usize_sub_def)

lemma div_ceil_bounds:
  assumes "0 < b"
  shows "a \<le> div_ceil a b * b" and "div_ceil a b * b \<le> a + b - 1"
proof -
  have split: "a div b * b + a mod b = a" by simp
  have less: "a mod b < b" using assms by simp
  show "a \<le> div_ceil a b * b"
  proof (cases "a mod b > 0")
    case True
    then have "div_ceil a b * b = a div b * b + b" by (simp add: div_ceil_def)
    with split less show ?thesis by linarith
  next
    case False
    then have "div_ceil a b * b = a div b * b" by (simp add: div_ceil_def)
    with split False show ?thesis by linarith
  qed
  show "div_ceil a b * b \<le> a + b - 1"
  proof (cases "a mod b > 0")
    case True
    then have "div_ceil a b * b = a div b * b + b" by (simp add: div_ceil_def)
    with split True show ?thesis by linarith
  next
    case False
    then have "div_ceil a b * b = a div b * b" by (simp add: div_ceil_def)
    with split assms show ?thesis by linarith
  qed
qed

lemma div_ceil_pos: "0 < a \<Longrightarrow> 0 < b \<Longrightarrow> 0 < div_ceil a b"
  using div_ceil_bounds(1) [of b a] by (metis gr0I mult_zero_left not_less)

lemma div_ceil_le: "0 < b \<Longrightarrow> div_ceil a b \<le> a"
proof -
  assume b: "0 < b"
  have "div_ceil a b * 1 \<le> div_ceil a b * b" using b by simp
  with b show ?thesis
  proof (cases "a = 0")
    case True
    then show ?thesis by (simp add: div_ceil_def)
  next
    case False
    then have "a div b + 1 \<le> a \<or> b = 1"
      using b by (cases "b = 1") (auto simp: Suc_leI div_less_dividend)
    then show ?thesis using False by (auto simp: div_ceil_def)
  qed
qed

subsection \<open>Powers of two\<close>

fun count_ones :: "usize \<Rightarrow> nat" where
  "count_ones n = (if n = 0 then 0 else n mod 2 + count_ones (n div 2))"

fun trailing_zeros :: "usize \<Rightarrow> nat" where
  "trailing_zeros n = (if n = 0 then 64 else if odd n then 0 else 1 + trailing_zeros (n div 2))"

declare count_ones.simps [simp del] trailing_zeros.simps [simp del]

definition is_power_of_two :: "usize \<Rightarrow> bool" where
  "is_power_of_two n \<longleftrightarrow> count_ones n = 1"

function pow2_from :: "usize \<Rightarrow> usize \<Rightarrow> usize" where
  "pow2_from p n = (if p = 0 \<or> n \<le> p then p else pow2_from (2 * p) n)"
  by pat_completeness auto
termination
  by (relation "measure (\<lambda>(p, n). n - p)") auto

declare pow2_from.simps [simp del]

definition next_power_of_two :: "usize \<Rightarrow> usize run" where
  "next_power_of_two n =
     (let p = pow2_from 1 n in if p \<le> usize_max then Return p else Panic Arithmetic_overflow)"

lemma next_power_of_two_code [code]:
  "next_power_of_two n =
     (let p = pow2_from 1 n in if int p \<le> 18446744073709551615 then Return p
      else Panic Arithmetic_overflow)"
  by (simp add: next_power_of_two_def le_usize_max_code)

lemma count_ones_0 [simp]: "count_ones 0 = 0"
  by (simp add: count_ones.simps)

lemma count_ones_eq_0 [simp]: "count_ones n = 0 \<longleftrightarrow> n = 0"
proof (induction n rule: count_ones.induct)
  case (1 n)
  show ?case
  proof (cases "n = 0")
    case False
    with "1" have "count_ones (n div 2) = 0 \<longleftrightarrow> n div 2 = 0" by simp
    with False show ?thesis by (subst count_ones.simps) auto
  qed simp
qed

lemma count_ones_eq_1: "count_ones n = 1 \<longleftrightarrow> (\<exists>k. n = 2 ^ k)"
proof (induction n rule: count_ones.induct)
  case (1 n)
  consider "n = 0" | "n \<noteq> 0" "even n" | "odd n" by auto
  then show ?case
  proof cases
    case 1
    then show ?thesis by simp
  next
    case 2
    then have "count_ones n = count_ones (n div 2)"
      by (subst count_ones.simps) simp
    then have "count_ones n = 1 \<longleftrightarrow> (\<exists>k. n div 2 = 2 ^ k)"
      using "1" 2 by simp
    also have "\<dots> \<longleftrightarrow> (\<exists>k. n = 2 ^ k)"
    proof
      assume "\<exists>k. n div 2 = 2 ^ k"
      then obtain k where "n div 2 = 2 ^ k" ..
      with 2 have "n = 2 ^ Suc k" by auto
      then show "\<exists>k. n = 2 ^ k" ..
    next
      assume "\<exists>k. n = 2 ^ k"
      then obtain k where "n = 2 ^ k" ..
      with 2 show "\<exists>k. n div 2 = 2 ^ k" by (cases k) auto
    qed
    finally show ?thesis .
  next
    case 3
    then have "count_ones n = 1 \<longleftrightarrow> n div 2 = 0"
      by (subst count_ones.simps) (auto simp: odd_iff_mod_2_eq_one elim: oddE)
    also have "\<dots> \<longleftrightarrow> n = 2 ^ 0" using 3 by (auto elim: oddE)
    also have "\<dots> \<longleftrightarrow> (\<exists>k. n = 2 ^ k)"
      using 3 by (metis even_power even_numeral gr0I power_0)
    finally show ?thesis .
  qed
qed

lemma is_power_of_two_iff: "is_power_of_two n \<longleftrightarrow> (\<exists>k. n = 2 ^ k)"
  unfolding is_power_of_two_def by (rule count_ones_eq_1)

lemma trailing_zeros_pow2 [simp]: "trailing_zeros (2 ^ k) = k"
  by (induction k) (simp_all add: trailing_zeros.simps)

lemma pow2_from_spec:
  assumes "p = 2 ^ i"
  shows "(\<exists>k \<ge> i. pow2_from p n = 2 ^ k) \<and> n \<le> pow2_from p n
         \<and> (\<forall>j \<ge> i. n \<le> 2 ^ j \<longrightarrow> pow2_from p n \<le> 2 ^ j)"
  using assms
proof (induction p n arbitrary: i rule: pow2_from.induct)
  case (1 p n)
  show ?case
  proof (cases "n \<le> p")
    case True
    then have "pow2_from p n = p" by (simp add: pow2_from.simps [of p n])
    with True "1.prems" show ?thesis by (auto intro: exI [of _ i])
  next
    case False
    have p: "p \<noteq> 0" using "1.prems" by simp
    then have eq: "pow2_from p n = pow2_from (2 * p) n"
      using False by (simp add: pow2_from.simps [of p n])
    have "2 * p = 2 ^ Suc i" using "1.prems" by simp
    then have IH: "(\<exists>k \<ge> Suc i. pow2_from (2 * p) n = 2 ^ k) \<and> n \<le> pow2_from (2 * p) n
         \<and> (\<forall>j \<ge> Suc i. n \<le> 2 ^ j \<longrightarrow> pow2_from (2 * p) n \<le> 2 ^ j)"
      using "1.IH" False p by blast
    have "j \<noteq> i" if "n \<le> 2 ^ j" for j
      using that False "1.prems" by auto
    with IH show ?thesis
      unfolding eq by (metis Suc_leD Suc_leI le_neq_implies_less)
  qed
qed

lemma pow2_from_1:
  shows "\<exists>k. pow2_from 1 n = 2 ^ k" and "n \<le> pow2_from 1 n"
    and "n \<le> 2 ^ j \<Longrightarrow> pow2_from 1 n \<le> 2 ^ j"
  using pow2_from_spec [of 1 0 n] by auto

lemma next_power_of_two_Return:
  assumes "n \<le> 2 ^ 63"
  shows "next_power_of_two n = Return (pow2_from 1 n)"
proof -
  have "pow2_from 1 n \<le> 2 ^ 63" using assms by (rule pow2_from_1(3))
  then show ?thesis by (simp add: next_power_of_two_def usize_max_def)
qed

section \<open>Association lists and indices\<close>

lemma map_of_eq_SomeI:
  "distinct (map fst xs) \<Longrightarrow> (k, v) \<in> set xs \<Longrightarrow> map_of xs k = Some v"
  by simp

lemma map_of_mset_eq:
  assumes "mset xs = mset ys" and "distinct (map fst xs)"
  shows "map_of xs = map_of ys"
proof -
  have "distinct (map fst ys)"
    using assms by (metis mset_eq_imp_distinct_iff mset_map)
  moreover have "set xs = set ys" using assms(1) by (rule mset_eq_setD)
  ultimately show ?thesis using assms(2) by (simp add: map_of_inject_set)
qed

lemma distinct_mset_map:
  "mset xs = mset ys \<Longrightarrow> distinct (map f xs) \<longleftrightarrow> distinct (map f ys)"
  by (metis mset_eq_imp_distinct_iff mset_map)

section \<open>Counting the entries of a finite map\<close>

definition count_where :: "('e \<Rightarrow> bool) \<Rightarrow> ('k \<rightharpoonup> 'e) \<Rightarrow> nat" where
  "count_where P m = card {k. \<exists>e. m k = Some e \<and> P e}"

lemma finite_count_where [simp]: "finite (dom m) \<Longrightarrow> finite {k. \<exists>e. m k = Some e \<and> P e}"
  by (rule finite_subset [of _ "dom m"]) auto

lemma count_where_empty [simp]: "count_where P Map.empty = 0"
  by (simp add: count_where_def)

lemma count_where_delete:
  assumes "finite (dom m)" and "m k = Some e"
  shows "count_where P (m(k := None)) = (if P e then count_where P m - 1 else count_where P m)"
proof -
  have "{j. \<exists>f. (m(k := None)) j = Some f \<and> P f} = {j. \<exists>f. m j = Some f \<and> P f} - {k}"
    by auto
  with assms show ?thesis
    by (auto simp: count_where_def card_Diff_singleton_if)
qed

lemma count_where_insert:
  assumes "finite (dom m)" and "m k = None"
  shows "count_where P (m(k \<mapsto> e)) = (if P e then Suc (count_where P m) else count_where P m)"
proof -
  have "{j. \<exists>f. (m(k \<mapsto> e)) j = Some f \<and> P f} =
      (if P e then insert k {j. \<exists>f. m j = Some f \<and> P f} else {j. \<exists>f. m j = Some f \<and> P f})"
    using assms(2) by auto
  with assms show ?thesis by (auto simp: count_where_def)
qed

lemma count_where_pos_iff:
  "finite (dom m) \<Longrightarrow> 0 < count_where P m \<longleftrightarrow> (\<exists>k e. m k = Some e \<and> P e)"
  by (auto simp: count_where_def card_gt_0_iff)

lemma count_where_posI: "finite (dom m) \<Longrightarrow> m k = Some e \<Longrightarrow> P e \<Longrightarrow> 0 < count_where P m"
  by (auto simp: count_where_pos_iff)

lemma count_where_update:
  assumes "finite (dom m)" and "m k = Some e"
  shows "count_where P (m(k \<mapsto> e')) =
    (if P e then count_where P m - 1 else count_where P m) + (if P e' then 1 else 0)"
proof -
  have "count_where P ((m(k := None))(k \<mapsto> e')) =
      (if P e' then Suc (count_where P (m(k := None))) else count_where P (m(k := None)))"
    using assms by (intro count_where_insert) auto
  then show ?thesis using assms by (simp add: count_where_delete)
qed

lemma count_where_split:
  assumes "finite (dom m)" and "\<And>k e. m k = Some e \<Longrightarrow> P e \<noteq> Q e"
  shows "count_where P m + count_where Q m = card (dom m)"
proof -
  let ?A = "{k. \<exists>e. m k = Some e \<and> P e}" and ?B = "{k. \<exists>e. m k = Some e \<and> Q e}"
  have disj: "?A \<inter> ?B = {}" using assms(2) by fastforce
  have "card (?A \<union> ?B) = card ?A + card ?B"
    using assms(1) disj by (intro card_Un_disjoint) simp_all
  moreover have "?A \<union> ?B = dom m" using assms(2) by (auto simp: dom_def)
  ultimately show ?thesis by (simp only: count_where_def)
qed

lemma card_dom_delete: "finite (dom m) \<Longrightarrow> m k = Some e \<Longrightarrow> card (dom (m(k := None))) = card (dom m) - 1"
  by (simp add: card_Diff_singleton domI)

lemma card_dom_pos: "finite (dom m) \<Longrightarrow> m k = Some e \<Longrightarrow> 0 < card (dom m)"
  by (auto simp: card_gt_0_iff domI)

end
