(* ===== verification/Raw_Table.thy ===== *)
theory Raw_Table
  imports Prelude
begin

text \<open>
  The interface of \<open>hashbrown::raw::RawTable\<close> (version 0.14, feature \<open>raw\<close>), the one
  third-party container the crate stores its entries in. The operations are a record that
  every definition of the model takes as an argument; the locale \<open>raw_table\<close> states what
  the crate relies on. A bucket and an insert slot are indices. Writing through
  \<open>Bucket::as_mut\<close> (or through the atomic inside the entry) is \<open>rt_write\<close>. Cloning a table
  clones its elements, so \<open>rt_clone\<close> takes the element type's \<open>clone\<close> as an argument.

  The law \<open>slot_ok_remove\<close> is the one that \<open>docs/internals.md\<close> calls
  "InsertSlot stability during eviction": the crate keeps an insert slot across
  \<open>remove\<close> and \<open>erase\<close>, which never reallocate.
\<close>

record ('a, 't) RawTable =
  rt_new :: 't
  rt_with_capacity :: "usize \<Rightarrow> 't"
  rt_find :: "'t \<Rightarrow> u64 \<Rightarrow> ('a \<Rightarrow> bool) \<Rightarrow> nat option"
  rt_as_ref :: "'t \<Rightarrow> nat \<Rightarrow> 'a"
  rt_write :: "'t \<Rightarrow> nat \<Rightarrow> 'a \<Rightarrow> 't"
  rt_remove :: "'t \<Rightarrow> nat \<Rightarrow> 'a \<times> 't"
  rt_erase :: "'t \<Rightarrow> nat \<Rightarrow> 't"
  rt_find_or_find_insert_slot ::
    "'t \<Rightarrow> u64 \<Rightarrow> ('a \<Rightarrow> bool) \<Rightarrow> ('a \<Rightarrow> u64) \<Rightarrow> (nat, nat) result \<times> 't"
  rt_insert_in_slot :: "'t \<Rightarrow> u64 \<Rightarrow> nat \<Rightarrow> 'a \<Rightarrow> nat \<times> 't"
  rt_iter :: "'t \<Rightarrow> nat list"
  rt_into_iter :: "'t \<Rightarrow> 'a list"
  rt_len :: "'t \<Rightarrow> usize"
  rt_capacity :: "'t \<Rightarrow> usize"
  rt_try_reserve :: "'t \<Rightarrow> usize \<Rightarrow> ('a \<Rightarrow> u64) \<Rightarrow> (unit, unit) result \<times> 't"
  rt_shrink_to :: "'t \<Rightarrow> usize \<Rightarrow> ('a \<Rightarrow> u64) \<Rightarrow> 't"
  rt_clone :: "('a \<Rightarrow> 'a) \<Rightarrow> 't \<Rightarrow> 't"

text \<open>The equality closure \<open>|(mk, _)| mk == key\<close> and the hasher closure \<open>|(k, _)| hash_one(k)\<close>.\<close>

definition key_eq :: "'k \<Rightarrow> 'k \<times> 'e \<Rightarrow> bool" where
  "key_eq k = (\<lambda>(mk, _). mk = k)"

definition elem_hash :: "('k \<Rightarrow> u64) \<Rightarrow> 'k \<times> 'e \<Rightarrow> u64" where
  "elem_hash hash = (\<lambda>(k, _). hash k)"

text \<open>What a table holds, in iteration order, and the map from keys to entries it denotes.\<close>

definition rt_contents :: "('a, 't) RawTable \<Rightarrow> 't \<Rightarrow> 'a list" where
  "rt_contents T t = map (rt_as_ref T t) (rt_iter T t)"

definition rt_lookup :: "('k \<times> 'e, 't) RawTable \<Rightarrow> 't \<Rightarrow> 'k \<rightharpoonup> 'e" where
  "rt_lookup T t = map_of (rt_contents T t)"

definition rt_keys_distinct :: "('k \<times> 'e, 't) RawTable \<Rightarrow> 't \<Rightarrow> bool" where
  "rt_keys_distinct T t \<longleftrightarrow> distinct (map fst (rt_contents T t))"

lemma key_eq_iff [simp]: "key_eq k x \<longleftrightarrow> fst x = k"
  by (cases x) (simp add: key_eq_def)

lemma elem_hash_apply [simp]: "elem_hash hash x = hash (fst x)"
  by (cases x) (simp add: elem_hash_def)

locale raw_table =
  fixes T :: "('k \<times> 'e, 't) RawTable"
    and hash :: "'k \<Rightarrow> u64"
    and rt_wf :: "'t \<Rightarrow> bool"
    and slot_ok :: "'t \<Rightarrow> u64 \<Rightarrow> nat \<Rightarrow> bool"
  assumes wf_new: "rt_wf (rt_new T)"
    and iter_new: "rt_iter T (rt_new T) = []"
    and wf_with_capacity: "rt_wf (rt_with_capacity T n)"
    and iter_with_capacity: "rt_iter T (rt_with_capacity T n) = []"
    and iter_distinct: "rt_wf t \<Longrightarrow> distinct (rt_iter T t)"
    and find_Some: "rt_wf t \<Longrightarrow> rt_find T t h eq = Some b \<Longrightarrow>
      b \<in> set (rt_iter T t) \<and> eq (rt_as_ref T t b)"
    and find_None: "rt_wf t \<Longrightarrow> rt_find T t h eq = None \<Longrightarrow> b \<in> set (rt_iter T t) \<Longrightarrow>
      hash (fst (rt_as_ref T t b)) = h \<Longrightarrow> \<not> eq (rt_as_ref T t b)"
    and write_bucket: "rt_wf t \<Longrightarrow> b \<in> set (rt_iter T t) \<Longrightarrow> fst x = fst (rt_as_ref T t b) \<Longrightarrow>
      rt_wf (rt_write T t b x) \<and> rt_iter T (rt_write T t b x) = rt_iter T t \<and>
      rt_as_ref T (rt_write T t b x) = (rt_as_ref T t)(b := x)"
    and remove_bucket: "rt_wf t \<Longrightarrow> b \<in> set (rt_iter T t) \<Longrightarrow> rt_remove T t b = (x, t') \<Longrightarrow>
      x = rt_as_ref T t b \<and> rt_wf t' \<and> set (rt_iter T t') = set (rt_iter T t) - {b} \<and>
      (\<forall>c \<in> set (rt_iter T t'). rt_as_ref T t' c = rt_as_ref T t c)"
    and erase: "rt_wf t \<Longrightarrow> b \<in> set (rt_iter T t) \<Longrightarrow> rt_erase T t b = snd (rt_remove T t b)"
    and find_or_slot_contents: "rt_wf t \<Longrightarrow>
      rt_find_or_find_insert_slot T t h eq (elem_hash hash) = (r, t') \<Longrightarrow>
      rt_wf t' \<and> mset (rt_contents T t') = mset (rt_contents T t)"
    and find_or_slot_Ok: "rt_wf t \<Longrightarrow>
      rt_find_or_find_insert_slot T t h eq (elem_hash hash) = (Ok b, t') \<Longrightarrow>
      b \<in> set (rt_iter T t') \<and> eq (rt_as_ref T t' b)"
    and find_or_slot_Err: "rt_wf t \<Longrightarrow>
      rt_find_or_find_insert_slot T t h eq (elem_hash hash) = (Err slot, t') \<Longrightarrow>
      slot_ok t' h slot \<and> (\<forall>x \<in> set (rt_contents T t'). hash (fst x) = h \<longrightarrow> \<not> eq x)"
    and slot_ok_remove: "rt_wf t \<Longrightarrow> slot_ok t h slot \<Longrightarrow> b \<in> set (rt_iter T t) \<Longrightarrow>
      slot_ok (snd (rt_remove T t b)) h slot"
    and slot_ok_write: "rt_wf t \<Longrightarrow> slot_ok t h slot \<Longrightarrow> b \<in> set (rt_iter T t) \<Longrightarrow>
      fst x = fst (rt_as_ref T t b) \<Longrightarrow> slot_ok (rt_write T t b x) h slot"
    and insert_in_slot: "rt_wf t \<Longrightarrow> h = hash (fst x) \<Longrightarrow> slot_ok t h slot \<Longrightarrow>
      rt_insert_in_slot T t h slot x = (b, t') \<Longrightarrow>
      rt_wf t' \<and> b \<in> set (rt_iter T t') \<and> rt_as_ref T t' b = x \<and>
      mset (rt_contents T t') = add_mset x (mset (rt_contents T t))"
    and into_iter: "rt_wf t \<Longrightarrow> mset (rt_into_iter T t) = mset (rt_contents T t)"
    and len: "rt_wf t \<Longrightarrow> rt_len T t = length (rt_iter T t)"
    and len_le_capacity: "rt_wf t \<Longrightarrow> rt_len T t \<le> rt_capacity T t"
    and try_reserve: "rt_wf t \<Longrightarrow> rt_try_reserve T t n (elem_hash hash) = (res, t') \<Longrightarrow>
      rt_wf t' \<and> mset (rt_contents T t') = mset (rt_contents T t)"
    and shrink_to: "rt_wf t \<Longrightarrow> rt_wf (rt_shrink_to T t n (elem_hash hash)) \<and>
      mset (rt_contents T (rt_shrink_to T t n (elem_hash hash))) = mset (rt_contents T t)"
    and clone: "rt_wf t \<Longrightarrow> (\<And>x. fst (cl x) = fst x) \<Longrightarrow>
      rt_wf (rt_clone T cl t) \<and> mset (rt_contents T (rt_clone T cl t)) = mset (map cl (rt_contents T t))"
begin

text \<open>Client lemmas: each operation seen through \<open>rt_lookup\<close>.\<close>

lemma finite_dom_lookup: "finite (dom (rt_lookup T t))"
  by (simp add: rt_lookup_def finite_dom_map_of)

lemma lookup_empty: "rt_iter T t = [] \<Longrightarrow> rt_lookup T t = Map.empty \<and> rt_keys_distinct T t"
  by (simp add: rt_lookup_def rt_contents_def rt_keys_distinct_def)

lemma lookup_bucket:
  assumes "rt_keys_distinct T t" and "b \<in> set (rt_iter T t)" and "rt_as_ref T t b = (k, e)"
  shows "rt_lookup T t k = Some e"
proof -
  have "(k, e) \<in> set (rt_contents T t)"
    using assms(2,3) by (force simp: rt_contents_def)
  with assms(1) show ?thesis by (simp add: rt_lookup_def rt_keys_distinct_def)
qed

lemma lookup_SomeD:
  assumes "rt_lookup T t k = Some e"
  obtains b where "b \<in> set (rt_iter T t)" and "rt_as_ref T t b = (k, e)"
proof -
  have "(k, e) \<in> set (rt_contents T t)"
    using assms unfolding rt_lookup_def by (rule map_of_SomeD)
  then obtain b where "b \<in> set (rt_iter T t)" "(k, e) = rt_as_ref T t b"
    by (auto simp: rt_contents_def)
  then show thesis by (metis that)
qed

lemma bucket_eqI:
  assumes "rt_wf t" and "rt_keys_distinct T t"
    and "b \<in> set (rt_iter T t)" and "c \<in> set (rt_iter T t)"
    and "fst (rt_as_ref T t b) = fst (rt_as_ref T t c)"
  shows "b = c"
proof -
  have inj: "inj_on (fst \<circ> rt_as_ref T t) (set (rt_iter T t))"
    using assms(2) by (simp add: rt_keys_distinct_def rt_contents_def distinct_map)
  show ?thesis
    by (rule inj_onD [OF inj _ assms(3,4)]) (simp add: assms(5))
qed

lemma find_key_None:
  assumes "rt_wf t" and "rt_find T t (hash k) (key_eq k) = None"
  shows "rt_lookup T t k = None"
proof (rule ccontr)
  assume "rt_lookup T t k \<noteq> None"
  then obtain e where "rt_lookup T t k = Some e" by auto
  then obtain b where "b \<in> set (rt_iter T t)" "rt_as_ref T t b = (k, e)"
    by (rule lookup_SomeD)
  with find_None [OF assms, of b] show False by simp
qed

lemma find_key_Some:
  assumes "rt_wf t" and "rt_keys_distinct T t" and "rt_find T t h (key_eq k) = Some b"
  obtains e where "b \<in> set (rt_iter T t)" and "rt_as_ref T t b = (k, e)"
    and "rt_lookup T t k = Some e"
proof -
  obtain e where "b \<in> set (rt_iter T t)" "rt_as_ref T t b = (k, e)"
    using find_Some [OF assms(1,3)] by (cases "rt_as_ref T t b") auto
  with lookup_bucket [OF assms(2)] show thesis by (blast intro: that)
qed

lemma find_key_lookup:
  assumes "rt_wf t" and "rt_keys_distinct T t"
  shows "map_option (\<lambda>b. snd (rt_as_ref T t b)) (rt_find T t (hash k) (key_eq k)) = rt_lookup T t k"
proof (cases "rt_find T t (hash k) (key_eq k)")
  case None
  with find_key_None [OF assms(1)] show ?thesis by simp
next
  case (Some b)
  then show ?thesis by (rule find_key_Some [OF assms]) (simp add: Some)
qed

lemma write_lookup:
  assumes "rt_wf t" and "rt_keys_distinct T t" and "b \<in> set (rt_iter T t)"
    and "rt_as_ref T t b = (k, e)"
  shows "rt_wf (rt_write T t b (k, e'))" and "rt_keys_distinct T (rt_write T t b (k, e'))"
    and "rt_lookup T (rt_write T t b (k, e')) = (rt_lookup T t)(k \<mapsto> e')"
proof -
  let ?t = "rt_write T t b (k, e')"
  have w: "rt_wf ?t" "rt_iter T ?t = rt_iter T t" "rt_as_ref T ?t = (rt_as_ref T t)(b := (k, e'))"
    using write_bucket [OF assms(1,3), of "(k, e')"] assms(4) by auto
  show "rt_wf ?t" by (rule w)
  have fst_eq: "fst \<circ> rt_as_ref T ?t = fst \<circ> rt_as_ref T t"
    using w(3) assms(4) by (auto simp: fun_eq_iff)
  show kd: "rt_keys_distinct T ?t"
    using assms(2) by (simp add: rt_keys_distinct_def rt_contents_def w(2) fst_eq)
  show "rt_lookup T ?t = (rt_lookup T t)(k \<mapsto> e')"
  proof
    fix j
    show "rt_lookup T ?t j = ((rt_lookup T t)(k \<mapsto> e')) j"
    proof (cases "j = k")
      case True
      have "rt_lookup T ?t k = Some e'"
        using kd assms(3) w by (intro lookup_bucket [where b = b]) auto
      with True show ?thesis by simp
    next
      case False
      have "rt_lookup T ?t j = Some f \<longleftrightarrow> rt_lookup T t j = Some f" for f
      proof
        assume "rt_lookup T ?t j = Some f"
        then obtain c where "c \<in> set (rt_iter T ?t)" "rt_as_ref T ?t c = (j, f)"
          by (rule lookup_SomeD)
        with False w show "rt_lookup T t j = Some f"
          by (intro lookup_bucket [OF assms(2), of c]) (auto split: if_splits)
      next
        assume "rt_lookup T t j = Some f"
        then obtain c where "c \<in> set (rt_iter T t)" "rt_as_ref T t c = (j, f)"
          by (rule lookup_SomeD)
        with False w assms(4) show "rt_lookup T ?t j = Some f"
          by (intro lookup_bucket [OF kd, of c]) auto
      qed
      then have "rt_lookup T ?t j = rt_lookup T t j"
        by (metis option.exhaust)
      with False show ?thesis by simp
    qed
  qed
qed

lemma lookup_iff:
  "rt_keys_distinct T t \<Longrightarrow> rt_lookup T t k = Some e \<longleftrightarrow> (\<exists>b \<in> set (rt_iter T t). rt_as_ref T t b = (k, e))"
  using lookup_bucket lookup_SomeD by metis

lemma remove_lookup:
  assumes "rt_wf t" and "rt_keys_distinct T t" and "b \<in> set (rt_iter T t)"
    and "rt_as_ref T t b = (k, e)"
  shows "fst (rt_remove T t b) = (k, e)" and "rt_wf (snd (rt_remove T t b))"
    and "rt_keys_distinct T (snd (rt_remove T t b))"
    and "rt_lookup T (snd (rt_remove T t b)) = (rt_lookup T t)(k := None)"
proof -
  obtain x t' where eq: "rt_remove T t b = (x, t')" by fastforce
  have r: "x = rt_as_ref T t b" "rt_wf t'" "set (rt_iter T t') = set (rt_iter T t) - {b}"
      "\<And>c. c \<in> set (rt_iter T t') \<Longrightarrow> rt_as_ref T t' c = rt_as_ref T t c"
    using remove_bucket [OF assms(1,3) eq] by auto
  show "fst (rt_remove T t b) = (k, e)" using eq r(1) assms(4) by simp
  show "rt_wf (snd (rt_remove T t b))" using eq r(2) by simp
  have kd: "rt_keys_distinct T t'"
    using r(2-4) iter_distinct [OF r(2)] bucket_eqI [OF assms(1,2)]
    by (auto simp: rt_keys_distinct_def rt_contents_def distinct_map intro!: inj_onI)
  then show "rt_keys_distinct T (snd (rt_remove T t b))" using eq by simp
  have other: "fst (rt_as_ref T t c) \<noteq> k \<longleftrightarrow> c \<noteq> b" if "c \<in> set (rt_iter T t)" for c
    using bucket_eqI [OF assms(1-3) that] assms(4) by auto
  have "rt_lookup T t' j = Some f \<longleftrightarrow> ((rt_lookup T t)(k := None)) j = Some f" for j f
  proof -
    have "rt_lookup T t' j = Some f \<longleftrightarrow> (\<exists>c \<in> set (rt_iter T t) - {b}. rt_as_ref T t c = (j, f))"
      unfolding lookup_iff [OF kd] using r(3,4) by auto
    also have "\<dots> \<longleftrightarrow> (\<exists>c \<in> set (rt_iter T t). rt_as_ref T t c = (j, f) \<and> j \<noteq> k)"
      using other by fastforce
    also have "\<dots> \<longleftrightarrow> ((rt_lookup T t)(k := None)) j = Some f"
      by (simp add: lookup_iff [OF assms(2)])
    finally show ?thesis .
  qed
  then have "rt_lookup T t' = (rt_lookup T t)(k := None)" by (intro ext) (metis not_Some_eq)
  then show "rt_lookup T (snd (rt_remove T t b)) = (rt_lookup T t)(k := None)"
    using eq by (simp add: fun_eq_iff)
qed

lemma contents_eq_lookup:
  assumes "mset (rt_contents T t') = mset (rt_contents T t)" and "rt_keys_distinct T t"
  shows "rt_keys_distinct T t'" and "rt_lookup T t' = rt_lookup T t"
proof -
  show "rt_keys_distinct T t'"
    using assms by (simp add: rt_keys_distinct_def distinct_mset_map [of "rt_contents T t'" "rt_contents T t"])
  show "rt_lookup T t' = rt_lookup T t"
    using assms unfolding rt_lookup_def rt_keys_distinct_def
    by (intro map_of_mset_eq [symmetric]) auto
qed

lemma clone_lookup:
  assumes "rt_wf t" and "rt_keys_distinct T t"
  shows "rt_wf (rt_clone T (\<lambda>(k, e). (k, g e)) t)" (is "rt_wf ?t")
    and "rt_keys_distinct T (rt_clone T (\<lambda>(k, e). (k, g e)) t)"
    and "rt_lookup T (rt_clone T (\<lambda>(k, e). (k, g e)) t) = map_option g \<circ> rt_lookup T t"
proof -
  have c: "rt_wf ?t" "mset (rt_contents T ?t) = mset (map (\<lambda>(k, e). (k, g e)) (rt_contents T t))"
    using clone [OF assms(1), of "\<lambda>(k, e). (k, g e)"] by auto
  show "rt_wf ?t" by (fact c)
  have d: "distinct (map fst (map (\<lambda>(k, e). (k, g e)) (rt_contents T t)))"
    using assms(2) by (simp add: rt_keys_distinct_def comp_def split_def)
  then show "rt_keys_distinct T ?t" unfolding rt_keys_distinct_def distinct_mset_map [OF c(2)] .
  then have "rt_lookup T ?t = map_of (map (\<lambda>(k, e). (k, g e)) (rt_contents T t))"
    unfolding rt_lookup_def rt_keys_distinct_def by (intro map_of_mset_eq [OF c(2)])
  then show "rt_lookup T ?t = map_option g \<circ> rt_lookup T t"
    by (simp add: rt_lookup_def map_of_map)
qed

lemma insert_lookup:
  assumes "rt_wf t" and "rt_keys_distinct T t" and "rt_lookup T t k = None"
    and "slot_ok t (hash k) slot"
    and "rt_insert_in_slot T t (hash k) slot (k, e) = (b, t')"
  shows "rt_wf t'" and "rt_keys_distinct T t'" and "rt_lookup T t' = (rt_lookup T t)(k \<mapsto> e)"
    and "b \<in> set (rt_iter T t')" and "rt_as_ref T t' b = (k, e)"
proof -
  have i: "rt_wf t'" "b \<in> set (rt_iter T t')" "rt_as_ref T t' b = (k, e)"
      "mset (rt_contents T t') = mset ((k, e) # rt_contents T t)"
    using insert_in_slot [OF assms(1), of "hash k" "(k, e)" slot b t'] assms(4,5) by auto
  show "rt_wf t'" "b \<in> set (rt_iter T t')" "rt_as_ref T t' b = (k, e)" by (fact i)+
  have "k \<notin> fst ` set (rt_contents T t)"
    using assms(3) by (simp add: rt_lookup_def map_of_eq_None_iff)
  then have dist: "distinct (map fst ((k, e) # rt_contents T t))"
    using assms(2) by (simp add: rt_keys_distinct_def)
  then show "rt_keys_distinct T t'"
    unfolding rt_keys_distinct_def distinct_mset_map [OF i(4)] .
  have "map_of (rt_contents T t') = map_of ((k, e) # rt_contents T t)"
    using i(4) dist by (intro map_of_mset_eq [symmetric]) auto
  then show "rt_lookup T t' = (rt_lookup T t)(k \<mapsto> e)"
    by (simp add: rt_lookup_def)
qed

lemma find_or_slot_lookup:
  assumes "rt_wf t" and "rt_keys_distinct T t"
    and "rt_find_or_find_insert_slot T t (hash k) (key_eq k) (elem_hash hash) = (r, t')"
  shows "rt_wf t'" and "rt_keys_distinct T t'" and "rt_lookup T t' = rt_lookup T t"
proof -
  have wf: "rt_wf t'" and eq: "mset (rt_contents T t') = mset (rt_contents T t)"
    using find_or_slot_contents [OF assms(1,3)] by simp_all
  show "rt_wf t'" by (rule wf)
  show "rt_keys_distinct T t'" and "rt_lookup T t' = rt_lookup T t"
    by (rule contents_eq_lookup [OF eq assms(2)])+
qed

lemma find_or_slot_Ok_lookup:
  assumes "rt_wf t" and "rt_keys_distinct T t"
    and "rt_find_or_find_insert_slot T t (hash k) (key_eq k) (elem_hash hash) = (Ok b, t')"
  obtains e where "b \<in> set (rt_iter T t')" and "rt_as_ref T t' b = (k, e)"
    and "rt_lookup T t k = Some e"
proof -
  obtain e where b: "b \<in> set (rt_iter T t')" "rt_as_ref T t' b = (k, e)"
    using find_or_slot_Ok [OF assms(1,3)] by (cases "rt_as_ref T t' b") auto
  then have "rt_lookup T t' k = Some e"
    using find_or_slot_lookup(2) [OF assms] by (intro lookup_bucket)
  then have "rt_lookup T t k = Some e"
    using find_or_slot_lookup(3) [OF assms] by simp
  with b show thesis by (rule that)
qed

lemma find_or_slot_Err_lookup:
  assumes "rt_wf t" and "rt_keys_distinct T t"
    and "rt_find_or_find_insert_slot T t (hash k) (key_eq k) (elem_hash hash) = (Err slot, t')"
  shows "slot_ok t' (hash k) slot" and "rt_lookup T t k = None"
proof -
  note e = find_or_slot_Err [OF assms(1,3)]
  then show "slot_ok t' (hash k) slot" by simp
  have "rt_lookup T t' k = None"
    using e by (auto simp: rt_lookup_def map_of_eq_None_iff)
  then show "rt_lookup T t k = None"
    using find_or_slot_lookup(3) [OF assms] by simp
qed

lemma find_or_slot_cases:
  assumes "rt_wf t" and "rt_keys_distinct T t"
    and "rt_find_or_find_insert_slot T t (hash k) (key_eq k) (elem_hash hash) = (r, t')"
  shows "(\<exists>b. r = Ok b) \<longleftrightarrow> rt_lookup T t k \<noteq> None"
proof (cases r)
  case (Ok b)
  with assms(3) have "rt_find_or_find_insert_slot T t (hash k) (key_eq k) (elem_hash hash) = (Ok b, t')"
    by simp
  then obtain e where "rt_lookup T t k = Some e"
    by (rule find_or_slot_Ok_lookup [OF assms(1,2)])
  with Ok show ?thesis by simp
next
  case (Err slot)
  with find_or_slot_Err_lookup(2) [OF assms(1,2)] assms(3) show ?thesis by auto
qed

lemma card_dom_lookup:
  assumes "rt_wf t" and "rt_keys_distinct T t"
  shows "card (dom (rt_lookup T t)) = rt_len T t"
proof -
  have "card (dom (rt_lookup T t)) = length (rt_contents T t)"
    using assms(2) by (simp add: rt_lookup_def rt_keys_distinct_def dom_map_of_conv_image_fst
        distinct_card flip: set_map)
  then show ?thesis using len [OF assms(1)] by (simp add: rt_contents_def)
qed

lemmas table_simps = card_dom_lookup finite_dom_lookup

end

end
