(* ===== verification/Cache_Entry.thy ===== *)
theory Cache_Entry
  imports Prelude
begin

text \<open>
  \<open>src/util.rs\<close>: the value cell \<open>SharedValue\<close>, the per-entry eviction metadata
  \<open>CacheEntry\<close> with its saturating frequency counter, and \<open>map_in_place_2\<close>; and
  the constants of \<open>src/shard.rs\<close> that the metadata uses. Reading through
  \<open>get\<close> and \<open>as_ptr\<close> is \<open>sv_get\<close>; assigning through \<open>get_mut\<close> is
  \<open>sv_replace\<close>, which also returns the old value as \<open>mem::replace\<close> does.
\<close>

definition MAX_FREQ :: u8 where [layout_simps]: "MAX_FREQ = 3"
definition LOC_SMALL :: u8 where [layout_simps]: "LOC_SMALL = 0"
definition LOC_MAIN :: u8 where [layout_simps]: "LOC_MAIN = 1"

definition ptr_size_bits :: usize where
  "ptr_size_bits = 8 * 8"

datatype 'v SharedValue = SharedValue (sv_get: 'v)

definition sv_new :: "'v \<Rightarrow> 'v SharedValue" where
  "sv_new v = SharedValue v"

definition sv_into_inner :: "'v SharedValue \<Rightarrow> 'v" where
  "sv_into_inner c = (case c of SharedValue v \<Rightarrow> v)"

definition sv_replace :: "'v SharedValue \<Rightarrow> 'v \<Rightarrow> 'v \<times> 'v SharedValue" where
  "sv_replace c v = (sv_get c, SharedValue v)"

text \<open>\<open>vcl\<close> is the value type's own \<open>clone\<close>.\<close>

definition sv_clone :: "('v \<Rightarrow> 'v) \<Rightarrow> 'v SharedValue \<Rightarrow> 'v SharedValue" where
  "sv_clone vcl c = SharedValue (vcl (sv_get c))"

record 'v CacheEntry =
  entry_value :: "'v SharedValue"
  entry_freq :: u8
  entry_loc :: u8

definition CacheEntry_new :: "'v \<Rightarrow> u8 \<Rightarrow> 'v CacheEntry" where
  "CacheEntry_new v l = \<lparr>entry_value = sv_new v, entry_freq = 0, entry_loc = l\<rparr>"

text \<open>\<open>fetch_update\<close> stores the closure's \<open>Some\<close> and leaves the counter alone on \<open>None\<close>.\<close>

definition bump_fn :: "u8 \<Rightarrow> u8 option" where
  "bump_fn f = (if f < MAX_FREQ then Some (f + 1) else None)"

definition bump_freq :: "'v CacheEntry \<Rightarrow> 'v CacheEntry" where
  "bump_freq e = (case bump_fn (entry_freq e) of
     Some f \<Rightarrow> e\<lparr>entry_freq := f\<rparr> | None \<Rightarrow> e)"

definition CacheEntry_clone :: "('v \<Rightarrow> 'v) \<Rightarrow> 'v CacheEntry \<Rightarrow> 'v CacheEntry" where
  "CacheEntry_clone vcl e = \<lparr>entry_value = sv_clone vcl (entry_value e), entry_freq = entry_freq e,
     entry_loc = entry_loc e\<rparr>"

text \<open>
  The closure of \<open>alter\<close> may panic; the \<open>AbortOnPanic\<close> guard turns that into a
  process abort, and on success the guard is forgotten.
\<close>

definition AbortOnPanic_drop :: "panic \<Rightarrow> panic" where
  "AbortOnPanic_drop p = Process_abort"

definition map_in_place_2 :: "'k \<Rightarrow> 'v \<Rightarrow> ('k \<Rightarrow> 'v \<Rightarrow> 'v run) \<Rightarrow> 'v run" where
  "map_in_place_2 k v f =
     (case f k v of Return v' \<Rightarrow> Return v' | Panic p \<Rightarrow> Panic (AbortOnPanic_drop p))"

definition entry_val :: "'v CacheEntry \<Rightarrow> 'v" where
  "entry_val e = sv_get (entry_value e)"

section \<open>The frequency counter\<close>

lemma sv_simps [simp]:
  "sv_get (sv_new v) = v" "sv_into_inner c = sv_get c" "sv_clone vcl c = sv_new (vcl (sv_get c))"
  "sv_replace c v = (sv_get c, sv_new v)"
  by (cases c; simp add: sv_new_def sv_into_inner_def sv_clone_def sv_replace_def)+

lemma CacheEntry_new_simps [simp]:
  "entry_val (CacheEntry_new v l) = v" "entry_freq (CacheEntry_new v l) = 0"
  "entry_loc (CacheEntry_new v l) = l"
  by (simp_all add: CacheEntry_new_def entry_val_def)

lemma CacheEntry_clone_frame [simp]:
  "entry_freq (CacheEntry_clone vcl e) = entry_freq e" "entry_loc (CacheEntry_clone vcl e) = entry_loc e"
  "entry_val (CacheEntry_clone vcl e) = vcl (entry_val e)"
  by (simp_all add: CacheEntry_clone_def entry_val_def)

lemma CacheEntry_clone_id [simp]: "CacheEntry_clone (\<lambda>v. v) e = e"
  by (cases e) (simp add: CacheEntry_clone_def sv_new_def)

lemma unat_bump:
  assumes "unat f \<le> 3"
  shows "unat (case bump_fn f of Some g \<Rightarrow> g | None \<Rightarrow> f) = min 3 (unat f + 1)"
proof (cases "f < 3")
  case True
  then have "unat f < 3" by (simp add: word_less_nat_alt)
  then have "unat (f + 1) = unat f + 1" by (simp add: unat_word_ariths)
  with True \<open>unat f < 3\<close> show ?thesis by (simp add: bump_fn_def MAX_FREQ_def)
next
  case False
  then have "unat f = 3" using assms by (simp add: word_less_nat_alt)
  with False show ?thesis by (simp add: bump_fn_def MAX_FREQ_def)
qed

lemma bump_freq_freq:
  "entry_freq (bump_freq e) = (case bump_fn (entry_freq e) of Some g \<Rightarrow> g | None \<Rightarrow> entry_freq e)"
  by (simp add: bump_freq_def split: option.split)

lemma bump_freq_frame [simp]:
  "entry_loc (bump_freq e) = entry_loc e" "entry_value (bump_freq e) = entry_value e"
  "entry_val (bump_freq e) = entry_val e"
  by (simp_all add: bump_freq_def entry_val_def split: option.split)

lemma bump_freq_bound:
  "unat (entry_freq e) \<le> 3 \<Longrightarrow> unat (entry_freq (bump_freq e)) \<le> 3"
  by (simp add: bump_freq_freq unat_bump)

lemma bump_freq_funpow:
  "unat (entry_freq e) \<le> 3 \<Longrightarrow> unat (entry_freq ((bump_freq ^^ n) e)) = min 3 (unat (entry_freq e) + n)"
proof (induction n)
  case (Suc n)
  then have "unat (entry_freq ((bump_freq ^^ n) e)) \<le> 3" by simp
  with Suc show ?case by (simp add: bump_freq_freq unat_bump)
qed simp

end
