(* ===== verification/Shard.thy ===== *)
theory Shard
  imports Raw_Table Cache_Entry
begin

text \<open>
  \<open>src/shard.rs\<close>: one shard, that is the raw table together with the S3-FIFO state
  (two FIFO queues kept as parallel hash and key deques, the ghost set, the live
  counters and the capacities), and the eviction routines on it. A \<open>VecDeque\<close> is a
  list whose head is the front; the std \<open>HashSet<u64>\<close> is a set. The table operations
  \<open>T\<close> are a parameter (theory \<open>Raw_Table\<close>).
\<close>

type_synonym ('k, 'v, 't) table = "('k \<times> 'v CacheEntry, 't) RawTable"

record ('k, 't) ShardData =
  raw_map :: 't
  small_hashes :: "u64 list"
  small_keys :: "'k list"
  main_hashes :: "u64 list"
  main_keys :: "'k list"
  ghost_set :: "u64 set"
  small_live :: usize
  main_live :: usize
  shard_cap :: usize
  small_cap :: usize
  main_cap :: usize
  ghost_cap :: usize

definition shard_caps :: "usize \<Rightarrow> usize \<times> usize \<times> usize" where
  "shard_caps cap =
     (if cap = 0 then (0, 0, 0)
      else let s = max (div_ceil cap 10) 1; m = max (saturating_sub cap s) 1 in (s, m, cap))"

definition ShardData_new :: "('k, 'v, 't) table \<Rightarrow> usize \<Rightarrow> usize \<Rightarrow> ('k, 't) ShardData" where
  "ShardData_new T map_capacity cap =
     (let (sc, mc, gc) = shard_caps cap
      in \<lparr>raw_map = rt_with_capacity T map_capacity, small_hashes = [], small_keys = [],
          main_hashes = [], main_keys = [], ghost_set = {}, small_live = 0, main_live = 0,
          shard_cap = cap, small_cap = sc, main_cap = mc, ghost_cap = gc\<rparr>)"

definition ShardData_default :: "('k, 'v, 't) table \<Rightarrow> ('k, 't) ShardData" where
  "ShardData_default T =
     \<lparr>raw_map = rt_new T, small_hashes = [], small_keys = [], main_hashes = [], main_keys = [],
      ghost_set = {}, small_live = 0, main_live = 0, shard_cap = 0, small_cap = 0, main_cap = 0,
      ghost_cap = 0\<rparr>"

text \<open>
  The element type of the table is the pair of the key and its \<open>CacheEntry\<close>; a cloned key is equal
  to the key.
\<close>

definition elem_clone :: "('v \<Rightarrow> 'v) \<Rightarrow> 'k \<times> 'v CacheEntry \<Rightarrow> 'k \<times> 'v CacheEntry" where
  "elem_clone vcl = (\<lambda>(k, e). (k, CacheEntry_clone vcl e))"

definition ShardData_clone :: "('k, 'v, 't) table \<Rightarrow> ('v \<Rightarrow> 'v) \<Rightarrow> ('k, 't) ShardData \<Rightarrow> ('k, 't) ShardData" where
  "ShardData_clone T vcl s =
     \<lparr>raw_map = rt_clone T (elem_clone vcl) (raw_map s), small_hashes = small_hashes s, small_keys = small_keys s,
      main_hashes = main_hashes s, main_keys = main_keys s, ghost_set = ghost_set s,
      small_live = small_live s, main_live = main_live s, shard_cap = shard_cap s,
      small_cap = small_cap s, main_cap = main_cap s, ghost_cap = ghost_cap s\<rparr>"

definition total_live :: "('k, 't) ShardData \<Rightarrow> usize run" where
  "total_live s = usize_add (small_live s) (main_live s)"

definition shard_len :: "('k, 'v, 't) table \<Rightarrow> ('k, 't) ShardData \<Rightarrow> usize" where
  "shard_len T s = rt_len T (raw_map s)"

definition shard_capacity :: "('k, 'v, 't) table \<Rightarrow> ('k, 't) ShardData \<Rightarrow> usize" where
  "shard_capacity T s = rt_capacity T (raw_map s)"

text \<open>
  The inner loop of both eviction routines: pop one hash and one key in lock-step until a
  popped key is found in the table. Both \<open>pop_front\<close> calls happen before the match.
\<close>

fun pop_live :: "('k, 'v, 't) table \<Rightarrow> 't \<Rightarrow> u64 list \<Rightarrow> 'k list
    \<Rightarrow> (u64 \<times> 'k \<times> nat) option \<times> u64 list \<times> 'k list" where
  "pop_live T m [] ks = (None, [], tl ks)"
| "pop_live T m (h # hs) [] = (None, hs, [])"
| "pop_live T m (h # hs) (k # ks) =
     (case rt_find T m h (key_eq k) of
        Some b \<Rightarrow> (Some (h, k, b), hs, ks)
      | None \<Rightarrow> pop_live T m hs ks)"

definition add_to_ghost :: "u64 \<Rightarrow> ('k, 't) ShardData \<Rightarrow> ('k, 't) ShardData" where
  "add_to_ghost hash s =
     (let g = (if card (ghost_set s) \<ge> ghost_cap s then {} else ghost_set s)
      in s\<lparr>ghost_set := insert hash g\<rparr>)"

partial_function (option) evict_from_main ::
    "('k, 'v, 't) table \<Rightarrow> ('k, 't) ShardData \<Rightarrow> ('k, 't) ShardData comp" where
  "evict_from_main T s =
     (case pop_live T (raw_map s) (main_hashes s) (main_keys s) of
        (None, hs, ks) \<Rightarrow> returns (s\<lparr>main_hashes := hs, main_keys := ks\<rparr>)
      | (Some (hash, key, bucket), hs, ks) \<Rightarrow>
          (let (k, e) = rt_as_ref T (raw_map s) bucket; freq = entry_freq e
           in if freq > 0 then
                evict_from_main T (s\<lparr>
                  raw_map := rt_write T (raw_map s) bucket (k, e\<lparr>entry_freq := freq - 1\<rparr>),
                  main_hashes := hs @ [hash], main_keys := ks @ [key]\<rparr>)
              else (case usize_sub (main_live s) 1 of
                  Panic p \<Rightarrow> Some (Panic p)
                | Return n \<Rightarrow> returns (s\<lparr>
                    raw_map := snd (rt_remove T (raw_map s) bucket),
                    main_hashes := hs, main_keys := ks, main_live := n\<rparr>))))"

definition evict_from_small ::
    "('k, 'v, 't) table \<Rightarrow> ('k, 't) ShardData \<Rightarrow> ('k, 't) ShardData comp" where
  "evict_from_small T s =
     (case pop_live T (raw_map s) (small_hashes s) (small_keys s) of
        (None, hs, ks) \<Rightarrow> evict_from_main T (s\<lparr>small_hashes := hs, small_keys := ks\<rparr>)
      | (Some (hash, key, bucket), hs, ks) \<Rightarrow>
          (let s1 = s\<lparr>small_hashes := hs, small_keys := ks\<rparr>;
               (k, e) = rt_as_ref T (raw_map s1) bucket; freq = entry_freq e
           in if freq > 0 then
                comp_bind (lift_run (usize_sub (small_live s1) 1)) (\<lambda>n.
                comp_bind (lift_run (usize_add (main_live s1) 1)) (\<lambda>m.
                returns (s1\<lparr>
                  raw_map := rt_write T (raw_map s1) bucket (k, e\<lparr>entry_loc := LOC_MAIN\<rparr>),
                  small_live := n,
                  main_hashes := main_hashes s1 @ [hash], main_keys := main_keys s1 @ [key],
                  main_live := m\<rparr>)))
              else
                comp_bind (lift_run (usize_sub (small_live s1) 1)) (\<lambda>n.
                returns (add_to_ghost hash (s1\<lparr>
                  small_live := n, raw_map := snd (rt_remove T (raw_map s1) bucket)\<rparr>)))))"

definition evict_one :: "('k, 'v, 't) table \<Rightarrow> ('k, 't) ShardData \<Rightarrow> ('k, 't) ShardData comp" where
  "evict_one T s =
     (if small_live s \<ge> small_cap s then evict_from_small T s else evict_from_main T s)"

text \<open>
  \<open>while shard.shard_cap > 0 && shard.total_live() >= shard.shard_cap { shard.evict_one() }\<close>,
  the loop that \<open>_insert\<close>, \<open>VacantEntry::insert\<close> and \<open>VacantEntry::insert_entry\<close> share.
\<close>

partial_function (option) evict_while_full ::
    "('k, 'v, 't) table \<Rightarrow> ('k, 't) ShardData \<Rightarrow> ('k, 't) ShardData comp" where
  "evict_while_full T s =
     (if shard_cap s = 0 then returns s
      else (case total_live s of
          Panic p \<Rightarrow> Some (Panic p)
        | Return n \<Rightarrow>
            if n \<ge> shard_cap s then
              (case evict_one T s of
                 None \<Rightarrow> None
               | Some (Panic p) \<Rightarrow> Some (Panic p)
               | Some (Return s') \<Rightarrow> evict_while_full T s')
            else returns s))"

declare evict_from_main.simps [code] evict_while_full.simps [code]

definition ghost_remove :: "u64 \<Rightarrow> ('k, 't) ShardData \<Rightarrow> bool \<times> ('k, 't) ShardData" where
  "ghost_remove hash s = (hash \<in> ghost_set s, s\<lparr>ghost_set := ghost_set s - {hash}\<rparr>)"

text \<open>Registering a fresh entry with the eviction queue of its location.\<close>

definition enqueue :: "u8 \<Rightarrow> u64 \<Rightarrow> 'k \<Rightarrow> ('k, 't) ShardData \<Rightarrow> ('k, 't) ShardData run" where
  "enqueue l hash key s =
     (if l = LOC_MAIN then
        run_bind (usize_add (main_live s) 1) (\<lambda>n. Return (s\<lparr>
          main_hashes := main_hashes s @ [hash], main_keys := main_keys s @ [key], main_live := n\<rparr>))
      else
        run_bind (usize_add (small_live s) 1) (\<lambda>n. Return (s\<lparr>
          small_hashes := small_hashes s @ [hash], small_keys := small_keys s @ [key],
          small_live := n\<rparr>)))"

text \<open>
  The new-key path: ghost check, eviction, insertion at the slot found before, queue
  registration. The bucket of the new entry is returned as well.
\<close>

definition insert_new :: "('k, 'v, 't) table \<Rightarrow> u64 \<Rightarrow> 'k \<Rightarrow> nat \<Rightarrow> 'v
    \<Rightarrow> ('k, 't) ShardData \<Rightarrow> (nat \<times> ('k, 't) ShardData) comp" where
  "insert_new T hash key slot v s =
     (let (hit, s0) = ghost_remove hash s; l = (if hit then LOC_MAIN else LOC_SMALL)
      in comp_bind (evict_while_full T s0) (\<lambda>s1.
         let (b, t) = rt_insert_in_slot T (raw_map s1) hash slot (key, CacheEntry_new v l)
         in comp_bind (lift_run (enqueue l hash key (s1\<lparr>raw_map := t\<rparr>))) (\<lambda>s2. returns (b, s2))))"

text \<open>
  Removing a found bucket: \<open>map.remove(bucket)\<close> and the lazy decrement of the live
  counter of the entry's location (the FIFO queues keep the stale pair).
\<close>

definition live_dec :: "u8 \<Rightarrow> ('k, 't) ShardData \<Rightarrow> ('k, 't) ShardData" where
  "live_dec l s =
     (if l = LOC_SMALL then s\<lparr>small_live := saturating_sub (small_live s) 1\<rparr>
      else s\<lparr>main_live := saturating_sub (main_live s) 1\<rparr>)"

definition remove_found :: "('k, 'v, 't) table \<Rightarrow> nat \<Rightarrow> ('k, 't) ShardData
    \<Rightarrow> ('k \<times> 'v) \<times> ('k, 't) ShardData" where
  "remove_found T bucket s =
     (let l = entry_loc (snd (rt_as_ref T (raw_map s) bucket));
          ((k, e), t) = rt_remove T (raw_map s) bucket
      in ((k, sv_into_inner (entry_value e)), live_dec l (s\<lparr>raw_map := t\<rparr>)))"

definition clear_all :: "('k, 'v, 't) table \<Rightarrow> ('k, 't) ShardData \<Rightarrow> ('k, 't) ShardData" where
  "clear_all T s = s\<lparr>
     raw_map := foldl (rt_erase T) (raw_map s) (rt_iter T (raw_map s)),
     small_hashes := [], small_keys := [], main_hashes := [], main_keys := [],
     ghost_set := {}, small_live := 0, main_live := 0\<rparr>"

definition map_try_reserve :: "('k, 'v, 't) table \<Rightarrow> usize \<Rightarrow> ('k \<Rightarrow> u64) \<Rightarrow> ('k, 't) ShardData
    \<Rightarrow> (unit, unit) result \<times> ('k, 't) ShardData" where
  "map_try_reserve T additional hasher s =
     (let (r, t) = rt_try_reserve T (raw_map s) additional (elem_hash hasher)
      in (r, s\<lparr>raw_map := t\<rparr>))"

definition map_shrink_to :: "('k, 'v, 't) table \<Rightarrow> usize \<Rightarrow> ('k \<Rightarrow> u64) \<Rightarrow> ('k, 't) ShardData
    \<Rightarrow> ('k, 't) ShardData" where
  "map_shrink_to T min_capacity hasher s =
     s\<lparr>raw_map := rt_shrink_to T (raw_map s) min_capacity (elem_hash hasher)\<rparr>"

end
