(* ===== verification/Shard_Invariant.thy ===== *)
theory Shard_Invariant
  imports Shard
begin

text \<open>
  The invariant of a shard and the proof that eviction keeps it. The queues may hold stale
  pairs and even several pairs for one key (a key that was removed and inserted again), so
  the live counters are not the numbers of live entries. What is invariant is weaker:
  the counters together bound the table's size and stay below the capacity, the small
  counter exceeds the number of small entries by less than \<open>small_cap\<close>, and the main
  counter exceeds the number of main entries by at most \<open>shard_cap - small_cap\<close>. This is
  just enough for every eviction to find a victim, so no counter underflows and the
  eviction loop ends.
\<close>

named_theorems shard_simps \<open>unfolding of the shard's observations\<close>

definition shard_map :: "('k, 'v, 't) table \<Rightarrow> ('k, 't) ShardData \<Rightarrow> 'k \<rightharpoonup> 'v CacheEntry" where
  "shard_map T s = rt_lookup T (raw_map s)"

definition shard_vals :: "('k, 'v, 't) table \<Rightarrow> ('k, 't) ShardData \<Rightarrow> 'k \<rightharpoonup> 'v" where
  "shard_vals T s = (\<lambda>k. map_option entry_val (shard_map T s k))"

definition is_small :: "'v CacheEntry \<Rightarrow> bool" where
  "is_small e \<longleftrightarrow> entry_loc e = LOC_SMALL"

definition is_main :: "'v CacheEntry \<Rightarrow> bool" where
  "is_main e \<longleftrightarrow> entry_loc e = LOC_MAIN"

definition n_small :: "('k, 'v, 't) table \<Rightarrow> ('k, 't) ShardData \<Rightarrow> nat" where
  "n_small T s = count_where is_small (shard_map T s)"

definition n_main :: "('k, 'v, 't) table \<Rightarrow> ('k, 't) ShardData \<Rightarrow> nat" where
  "n_main T s = count_where is_main (shard_map T s)"

definition live :: "('k, 't) ShardData \<Rightarrow> nat" where
  "live s = small_live s + main_live s"

definition table_ok :: "('k, 'v, 't) table \<Rightarrow> ('t \<Rightarrow> bool) \<Rightarrow> ('k, 't) ShardData \<Rightarrow> bool" where
  "table_ok T tok s \<longleftrightarrow> tok (raw_map s) \<and> rt_keys_distinct T (raw_map s)"

definition entry_ok :: "('k, 't) ShardData \<Rightarrow> 'k \<Rightarrow> 'v CacheEntry \<Rightarrow> bool" where
  "entry_ok s k e \<longleftrightarrow> unat (entry_freq e) \<le> 3 \<and>
     (is_small e \<and> k \<in> set (small_keys s) \<or> is_main e \<and> k \<in> set (main_keys s))"

definition queues_ok :: "('k, 'v, 't) table \<Rightarrow> ('k \<Rightarrow> u64) \<Rightarrow> ('k, 't) ShardData \<Rightarrow> bool" where
  "queues_ok T hash s \<longleftrightarrow>
     small_hashes s = map hash (small_keys s) \<and> main_hashes s = map hash (main_keys s) \<and>
     (\<forall>k e. shard_map T s k = Some e \<longrightarrow> entry_ok s k e)"

definition caps_ok :: "('k, 't) ShardData \<Rightarrow> bool" where
  "caps_ok s \<longleftrightarrow> shard_cap s \<le> usize_max \<and>
     (small_cap s, main_cap s, ghost_cap s) = shard_caps (shard_cap s)"

definition ghost_ok :: "('k, 't) ShardData \<Rightarrow> bool" where
  "ghost_ok s \<longleftrightarrow> finite (ghost_set s) \<and> card (ghost_set s) \<le> ghost_cap s"

definition counts_ok :: "('k, 'v, 't) table \<Rightarrow> ('k, 't) ShardData \<Rightarrow> bool" where
  "counts_ok T s \<longleftrightarrow>
     (if shard_cap s = 0 then main_live s = 0 \<and> n_main T s = 0 \<and> small_live s = n_small T s
      else n_small T s + n_main T s \<le> live s \<and> live s \<le> shard_cap s \<and>
           small_live s + 1 \<le> n_small T s + small_cap s \<and>
           main_live s + small_cap s \<le> n_main T s + shard_cap s)"

definition shard_inv :: "('k, 'v, 't) table \<Rightarrow> ('k \<Rightarrow> u64) \<Rightarrow> ('t \<Rightarrow> bool) \<Rightarrow> ('k, 't) ShardData \<Rightarrow> bool" where
  "shard_inv T hash tok s \<longleftrightarrow>
     table_ok T tok s \<and> queues_ok T hash s \<and> caps_ok s \<and> ghost_ok s \<and> counts_ok T s"

definition same_caps :: "('k, 't) ShardData \<Rightarrow> ('k, 't) ShardData \<Rightarrow> bool" where
  "same_caps s s' \<longleftrightarrow> shard_cap s' = shard_cap s \<and> small_cap s' = small_cap s \<and>
     main_cap s' = main_cap s \<and> ghost_cap s' = ghost_cap s"

definition freq_sum :: "('k \<rightharpoonup> 'v CacheEntry) \<Rightarrow> nat" where
  "freq_sum m = (\<Sum>k \<in> dom m. unat (entry_freq (the (m k))))"

lemma loc_distinct [simp]: "LOC_SMALL \<noteq> LOC_MAIN" "LOC_MAIN \<noteq> LOC_SMALL"
  by (simp_all add: layout_simps)

lemma loc_of_new [simp]:
  "is_small (CacheEntry_new v LOC_SMALL)" "is_main (CacheEntry_new v LOC_MAIN)"
  "\<not> is_small (CacheEntry_new v LOC_MAIN)" "\<not> is_main (CacheEntry_new v LOC_SMALL)"
  by (simp_all add: is_small_def is_main_def)

lemma not_small_and_main: "is_small e \<Longrightarrow> \<not> is_main e"
  by (simp add: is_small_def is_main_def)

lemma loc_update [simp]:
  "is_small (e\<lparr>entry_freq := f\<rparr>) = is_small e" "is_main (e\<lparr>entry_freq := f\<rparr>) = is_main e"
  "is_main (e\<lparr>entry_loc := LOC_MAIN\<rparr>)" "\<not> is_small (e\<lparr>entry_loc := LOC_MAIN\<rparr>)"
  "is_small (e\<lparr>entry_value := c\<rparr>) = is_small e" "is_main (e\<lparr>entry_value := c\<rparr>) = is_main e"
  "is_small (bump_freq e) = is_small e" "is_main (bump_freq e) = is_main e"
  by (simp_all add: is_small_def is_main_def)

lemma entry_val_update [simp]:
  "entry_val (e\<lparr>entry_freq := f\<rparr>) = entry_val e" "entry_val (e\<lparr>entry_loc := l\<rparr>) = entry_val e"
  "entry_val (e\<lparr>entry_value := c\<rparr>) = sv_get c"
  by (simp_all add: entry_val_def)

lemma shard_vals_Some: "shard_map T s k = Some e \<Longrightarrow> shard_vals T s k = Some (entry_val e)"
  by (simp add: shard_vals_def)

lemma dom_shard_vals [simp]: "dom (shard_vals T s) = dom (shard_map T s)"
  by (auto simp: shard_vals_def dom_def)

lemma shard_vals_update:
  "shard_map T s' = (shard_map T s)(k \<mapsto> e) \<Longrightarrow> shard_vals T s' = (shard_vals T s)(k \<mapsto> entry_val e)"
  by (auto simp: shard_vals_def fun_eq_iff)

lemma shard_vals_delete:
  "shard_map T s' = (shard_map T s)(k := None) \<Longrightarrow> shard_vals T s' = (shard_vals T s)(k := None)"
  by (auto simp: shard_vals_def fun_eq_iff)

lemma shard_vals_same_val:
  assumes "shard_map T s' = (shard_map T s)(k \<mapsto> e')" and "shard_map T s k = Some e"
    and "entry_val e' = entry_val e"
  shows "shard_vals T s' = shard_vals T s"
  using assms by (auto simp: shard_vals_def fun_eq_iff)

lemma caps_facts:
  assumes "caps_ok s" and "shard_cap s > 0"
  shows "1 \<le> small_cap s" and "small_cap s \<le> shard_cap s" and "1 \<le> main_cap s"
    and "ghost_cap s = shard_cap s"
proof -
  have "div_ceil (shard_cap s) 10 \<le> shard_cap s" by (simp add: div_ceil_le)
  with assms show "1 \<le> small_cap s" "small_cap s \<le> shard_cap s" "1 \<le> main_cap s"
      "ghost_cap s = shard_cap s"
    by (auto simp: caps_ok_def shard_caps_def Let_def)
qed

lemma same_caps_refl [simp]: "same_caps s s"
  by (simp add: same_caps_def)

lemma same_caps_trans: "same_caps s s' \<Longrightarrow> same_caps s' s'' \<Longrightarrow> same_caps s s''"
  by (simp add: same_caps_def)

lemma caps_ok_same: "caps_ok s \<Longrightarrow> same_caps s s' \<Longrightarrow> caps_ok s'"
  by (simp add: caps_ok_def same_caps_def)

lemma ghost_ok_same: "ghost_ok s \<Longrightarrow> ghost_cap s' = ghost_cap s \<Longrightarrow> ghost_set s' = ghost_set s \<Longrightarrow> ghost_ok s'"
  by (simp add: ghost_ok_def)

lemma add_to_ghost_ok:
  assumes "ghost_ok s" and "0 < ghost_cap s"
  shows "ghost_ok (add_to_ghost h s)"
proof -
  have "card (insert h (ghost_set s)) \<le> Suc (card (ghost_set s))"
    using assms(1) by (simp add: ghost_ok_def card_insert_if)
  with assms show ?thesis by (auto simp: ghost_ok_def add_to_ghost_def Let_def)
qed

lemma add_to_ghost_frame [simp]:
  "raw_map (add_to_ghost h s) = raw_map s" "small_hashes (add_to_ghost h s) = small_hashes s"
  "small_keys (add_to_ghost h s) = small_keys s" "main_hashes (add_to_ghost h s) = main_hashes s"
  "main_keys (add_to_ghost h s) = main_keys s" "small_live (add_to_ghost h s) = small_live s"
  "main_live (add_to_ghost h s) = main_live s" "shard_cap (add_to_ghost h s) = shard_cap s"
  "small_cap (add_to_ghost h s) = small_cap s" "main_cap (add_to_ghost h s) = main_cap s"
  "ghost_cap (add_to_ghost h s) = ghost_cap s"
  by (simp_all add: add_to_ghost_def Let_def)

lemma freq_sum_decrement:
  assumes "finite (dom m)" and "m k = Some e" and "entry_freq e > 0"
  shows "freq_sum (m(k \<mapsto> e\<lparr>entry_freq := entry_freq e - 1\<rparr>)) < freq_sum m"
proof -
  let ?e = "e\<lparr>entry_freq := entry_freq e - 1\<rparr>"
  have dom: "dom (m(k \<mapsto> ?e)) = dom m" using assms(2) by auto
  have lt: "unat (entry_freq ?e) < unat (entry_freq e)"
    using assms(3) by (simp add: measure_unat)
  have "(\<Sum>j \<in> dom m. unat (entry_freq (the ((m(k \<mapsto> ?e)) j))))
      < (\<Sum>j \<in> dom m. unat (entry_freq (the (m j))))"
  proof (rule sum_strict_mono_ex1 [OF assms(1)])
    show "\<forall>j \<in> dom m. unat (entry_freq (the ((m(k \<mapsto> ?e)) j))) \<le> unat (entry_freq (the (m j)))"
      using lt assms(2) by auto
    show "\<exists>j \<in> dom m. unat (entry_freq (the ((m(k \<mapsto> ?e)) j))) < unat (entry_freq (the (m j)))"
      using lt assms(2) by (intro bexI [of _ k]) auto
  qed
  then show ?thesis unfolding freq_sum_def dom .
qed

end
