(* ===== verification/Shard_Eviction.thy ===== *)
theory Shard_Eviction
  imports Shard_Invariant
begin

text \<open>
  Total correctness of the eviction routines of \<open>src/shard.rs\<close> under the shard
  invariant: every call returns, no counter underflows, the invariant is kept, and the
  loop that makes room for an insertion evicts at most one entry. The lemmas are proved
  once for every table that satisfies the \<open>raw_table\<close> interface.
\<close>

definition keeps_slots :: "('t \<Rightarrow> u64 \<Rightarrow> nat \<Rightarrow> bool) \<Rightarrow> ('k, 't) ShardData \<Rightarrow> ('k, 't) ShardData \<Rightarrow> bool" where
  "keeps_slots sok s s' \<longleftrightarrow> (\<forall>h slot. sok (raw_map s) h slot \<longrightarrow> sok (raw_map s') h slot)"

lemma keeps_slots_refl [simp]: "keeps_slots sok s s"
  by (simp add: keeps_slots_def)

lemma keeps_slots_trans: "keeps_slots sok s s' \<Longrightarrow> keeps_slots sok s' s'' \<Longrightarrow> keeps_slots sok s s''"
  by (simp add: keeps_slots_def)

text \<open>What a round of the main queue's loop does not touch.\<close>

definition main_frame :: "('k, 't) ShardData \<Rightarrow> ('k, 't) ShardData \<Rightarrow> bool" where
  "main_frame s s' \<longleftrightarrow> same_caps s s' \<and> small_keys s' = small_keys s \<and> small_live s' = small_live s \<and>
     ghost_set s' = ghost_set s"

locale shard_table = raw_table T hash rt_wf slot_ok
  for T :: "('k, 'v, 't) table" and hash :: "'k \<Rightarrow> u64"
    and rt_wf :: "'t \<Rightarrow> bool" and slot_ok :: "'t \<Rightarrow> u64 \<Rightarrow> nat \<Rightarrow> bool"
begin

lemma finite_shard_map [simp]: "finite (dom (shard_map T s))"
  by (simp add: shard_map_def finite_dom_lookup)

lemma pop_live_spec:
  assumes "table_ok T rt_wf s" and "pop_live T (raw_map s) (map hash ks) ks = (r, hs', ks')"
  shows "hs' = map hash ks' \<and>
    (case r of
       None \<Rightarrow> \<forall>k \<in> set ks. shard_map T s k = None
     | Some (h, k, b) \<Rightarrow> h = hash k \<and> (\<exists>st e. ks = st @ k # ks' \<and>
         (\<forall>j \<in> set st. shard_map T s j = None) \<and> b \<in> set (rt_iter T (raw_map s)) \<and>
         rt_as_ref T (raw_map s) b = (k, e) \<and> shard_map T s k = Some e))"
  using assms(2)
proof (induction ks arbitrary: r hs' ks')
  case Nil
  then show ?case by auto
next
  case (Cons k ks)
  have wf: "rt_wf (raw_map s)" "rt_keys_distinct T (raw_map s)"
    using assms(1) by (simp_all add: table_ok_def)
  show ?case
  proof (cases "rt_find T (raw_map s) (hash k) (key_eq k)")
    case None
    have dead: "shard_map T s k = None"
      using find_key_None [OF wf(1) None] by (simp add: shard_map_def)
    have "pop_live T (raw_map s) (map hash ks) ks = (r, hs', ks')"
      using Cons.prems None by simp
    from Cons.IH [OF this] dead show ?thesis
      by (auto split: option.splits intro: exI [of _ "k # _"])
  next
    case (Some b)
    with Cons.prems have r: "r = Some (hash k, k, b)" "hs' = map hash ks" "ks' = ks" by auto
    obtain e where "b \<in> set (rt_iter T (raw_map s))" "rt_as_ref T (raw_map s) b = (k, e)"
        "shard_map T s k = Some e"
      using find_key_Some [OF wf Some] by (auto simp: shard_map_def)
    then show ?thesis unfolding r by (auto intro!: exI [of _ "[]"])
  qed
qed

lemma pop_live_NoneD:
  assumes "table_ok T rt_wf s" and "pop_live T (raw_map s) (map hash ks) ks = (None, hs', ks')"
    and "k \<in> set ks"
  shows "shard_map T s k = None"
  using pop_live_spec [OF assms(1,2)] assms(3) by simp

lemma pop_live_SomeE:
  assumes "table_ok T rt_wf s"
    and "pop_live T (raw_map s) (map hash ks) ks = (Some (h, k, b), hs', ks')"
  obtains st e where "h = hash k" and "hs' = map hash ks'" and "ks = st @ k # ks'"
    and "\<And>j. j \<in> set st \<Longrightarrow> shard_map T s j = None"
    and "b \<in> set (rt_iter T (raw_map s))" and "rt_as_ref T (raw_map s) b = (k, e)"
    and "shard_map T s k = Some e"
  using pop_live_spec [OF assms] by auto

text \<open>A table write or removal at a live bucket, seen from the shard.\<close>

lemma shard_write:
  assumes "table_ok T rt_wf s" and "b \<in> set (rt_iter T (raw_map s))"
    and "rt_as_ref T (raw_map s) b = (k, e)"
    and "raw_map s' = rt_write T (raw_map s) b (k, e')"
  shows "table_ok T rt_wf s'" and "shard_map T s' = (shard_map T s)(k \<mapsto> e')"
    and "keeps_slots slot_ok s s'"
proof -
  have wf: "rt_wf (raw_map s)" "rt_keys_distinct T (raw_map s)"
    using assms(1) by (simp_all add: table_ok_def)
  note w = write_lookup [OF wf assms(2,3), of e']
  show "table_ok T rt_wf s'" using w by (simp add: table_ok_def assms(4))
  show "shard_map T s' = (shard_map T s)(k \<mapsto> e')" using w by (simp add: shard_map_def assms(4))
  show "keeps_slots slot_ok s s'"
    using slot_ok_write [OF wf(1) _ assms(2), of _ _ "(k, e')"] assms(3)
    by (simp add: keeps_slots_def assms(4))
qed

lemma shard_remove:
  assumes "table_ok T rt_wf s" and "b \<in> set (rt_iter T (raw_map s))"
    and "rt_as_ref T (raw_map s) b = (k, e)"
    and "raw_map s' = snd (rt_remove T (raw_map s) b)"
  shows "table_ok T rt_wf s'" and "shard_map T s' = (shard_map T s)(k := None)"
    and "keeps_slots slot_ok s s'"
proof -
  have wf: "rt_wf (raw_map s)" "rt_keys_distinct T (raw_map s)"
    using assms(1) by (simp_all add: table_ok_def)
  note w = remove_lookup [OF wf assms(2,3)]
  show "table_ok T rt_wf s'" using w by (simp add: table_ok_def assms(4))
  show "shard_map T s' = (shard_map T s)(k := None)" using w by (simp add: shard_map_def assms(4))
  show "keeps_slots slot_ok s s'"
    using slot_ok_remove [OF wf(1) _ assms(2)] by (simp add: keeps_slots_def assms(4))
qed

lemma queues_ok_update:
  assumes "queues_ok T hash s" and "shard_map T s' = (shard_map T s)(k := x)"
    and "small_hashes s' = map hash (small_keys s')" and "main_hashes s' = map hash (main_keys s')"
    and "\<And>e. x = Some e \<Longrightarrow> entry_ok s' k e"
    and "\<And>j e. j \<noteq> k \<Longrightarrow> shard_map T s j = Some e \<Longrightarrow> j \<in> set (small_keys s) \<Longrightarrow> j \<in> set (small_keys s')"
    and "\<And>j e. j \<noteq> k \<Longrightarrow> shard_map T s j = Some e \<Longrightarrow> j \<in> set (main_keys s) \<Longrightarrow> j \<in> set (main_keys s')"
  shows "queues_ok T hash s'"
proof -
  have "entry_ok s' j e" if "shard_map T s' j = Some e" for j e
  proof (cases "j = k")
    case True
    with that assms(2,5) show ?thesis by simp
  next
    case False
    with that assms(2) have e: "shard_map T s j = Some e" by simp
    with assms(1) have "entry_ok s j e" by (simp add: queues_ok_def)
    with assms(6,7) [OF False e] show ?thesis by (auto simp: entry_ok_def)
  qed
  with assms(3,4) show ?thesis by (simp add: queues_ok_def)
qed

lemma counts_delete:
  assumes "shard_map T s k = Some e" and "shard_map T s' = (shard_map T s)(k := None)"
  shows "n_small T s' = (if is_small e then n_small T s - 1 else n_small T s)"
    and "n_main T s' = (if is_main e then n_main T s - 1 else n_main T s)"
    and "is_small e \<Longrightarrow> 0 < n_small T s" and "is_main e \<Longrightarrow> 0 < n_main T s"
  using assms count_where_delete [OF finite_shard_map assms(1)] count_where_posI [OF finite_shard_map assms(1)]
  by (auto simp: n_small_def n_main_def)

lemma counts_replace:
  assumes "shard_map T s k = Some e" and "shard_map T s' = (shard_map T s)(k \<mapsto> e')"
  shows "n_small T s' = (if is_small e then n_small T s - 1 else n_small T s) + (if is_small e' then 1 else 0)"
    and "n_main T s' = (if is_main e then n_main T s - 1 else n_main T s) + (if is_main e' then 1 else 0)"
    and "is_small e \<Longrightarrow> 0 < n_small T s" and "is_main e \<Longrightarrow> 0 < n_main T s"
  using assms count_where_update [OF finite_shard_map assms(1)] count_where_posI [OF finite_shard_map assms(1)]
  by (auto simp: n_small_def n_main_def)

lemma counts_insert:
  assumes "shard_map T s k = None" and "shard_map T s' = (shard_map T s)(k \<mapsto> e)"
  shows "n_small T s' = n_small T s + (if is_small e then 1 else 0)"
    and "n_main T s' = n_main T s + (if is_main e then 1 else 0)"
  using assms count_where_insert [OF finite_shard_map assms(1)]
  by (auto simp: n_small_def n_main_def)

lemma counts_ok_same:
  assumes "counts_ok T s" and "n_small T s' = n_small T s" and "n_main T s' = n_main T s"
    and "small_live s' = small_live s" and "main_live s' = main_live s" and "same_caps s s'"
  shows "counts_ok T s'"
  using assms by (auto simp: counts_ok_def live_def same_caps_def split: if_splits)

text \<open>Replacing an entry by one of the same location keeps the whole invariant.\<close>

lemma shard_inv_same_loc:
  assumes inv: "shard_inv T hash rt_wf s"
    and tab: "table_ok T rt_wf s'" "shard_map T s k = Some e" "shard_map T s' = (shard_map T s)(k \<mapsto> e')"
    and loc: "entry_loc e' = entry_loc e" "unat (entry_freq e') \<le> 3"
    and frame: "s' = s\<lparr>raw_map := t\<rparr>"
  shows "shard_inv T hash rt_wf s'"
proof -
  have ls: "is_small e' = is_small e" "is_main e' = is_main e"
    using loc(1) by (simp_all add: is_small_def is_main_def)
  have eo: "entry_ok s k e" using inv tab(2) by (simp add: shard_inv_def queues_ok_def)
  have "queues_ok T hash s'"
  proof (rule queues_ok_update [where s = s and k = k])
    show "queues_ok T hash s" using inv by (simp add: shard_inv_def)
    show "shard_map T s' = (shard_map T s)(k \<mapsto> e')" by (rule tab)
  qed (use inv eo ls loc frame in \<open>auto simp: shard_inv_def queues_ok_def entry_ok_def\<close>)
  moreover have "n_small T s' = n_small T s" "n_main T s' = n_main T s"
    using counts_replace [OF tab(2,3)] ls by auto
  then have "counts_ok T s'"
    using inv by (intro counts_ok_same [of s s']) (simp_all add: shard_inv_def same_caps_def frame)
  moreover have "caps_ok s'" "ghost_ok s'"
    using inv by (auto simp: shard_inv_def caps_ok_def ghost_ok_def frame)
  ultimately show ?thesis using tab(1) by (simp add: shard_inv_def)
qed

section \<open>Evicting from the main queue\<close>

lemma requeue_main:
  assumes inv: "shard_inv T hash rt_wf s" and mk: "main_keys s = st @ k # ks"
    and st: "\<And>j. j \<in> set st \<Longrightarrow> shard_map T s j = None"
    and b: "b \<in> set (rt_iter T (raw_map s))" "rt_as_ref T (raw_map s) b = (k, e)" "shard_map T s k = Some e"
    and f: "entry_freq e > 0"
    and s': "s' = s\<lparr>raw_map := rt_write T (raw_map s) b (k, e\<lparr>entry_freq := entry_freq e - 1\<rparr>),
               main_hashes := map hash ks @ [hash k], main_keys := ks @ [k]\<rparr>"
  shows "shard_inv T hash rt_wf s'" and "shard_vals T s' = shard_vals T s"
    and "freq_sum (shard_map T s') < freq_sum (shard_map T s)" and "keeps_slots slot_ok s s'"
proof -
  let ?e = "e\<lparr>entry_freq := entry_freq e - 1\<rparr>"
  have tab: "table_ok T rt_wf s" using inv by (simp add: shard_inv_def)
  have "raw_map s' = rt_write T (raw_map s) b (k, ?e)" by (simp add: s')
  note w = shard_write [OF tab b(1,2) this]
  have eo: "entry_ok s k e" using inv b(3) by (simp add: shard_inv_def queues_ok_def)
  have fq: "unat (entry_freq ?e) \<le> 3"
    using eo measure_unat [of "entry_freq e"] f by (simp add: entry_ok_def word_gt_0)
  have "queues_ok T hash s'"
  proof (rule queues_ok_update [where s = s and k = k])
    show "j \<in> set (main_keys s')" if "shard_map T s j = Some e'" "j \<in> set (main_keys s)" for j e'
      using that st by (auto simp: s' mk)
  qed (use inv eo fq w(2) in \<open>auto simp: s' shard_inv_def queues_ok_def entry_ok_def\<close>)
  moreover have "n_small T s' = n_small T s" "n_main T s' = n_main T s"
    using counts_replace [OF b(3) w(2)] by auto
  then have "counts_ok T s'"
    using inv by (intro counts_ok_same [of s s']) (simp_all add: shard_inv_def same_caps_def s')
  moreover have "caps_ok s'" "ghost_ok s'"
    using inv by (simp_all add: shard_inv_def caps_ok_def ghost_ok_def s')
  ultimately show "shard_inv T hash rt_wf s'" using w(1) by (simp add: shard_inv_def)
  show "shard_vals T s' = shard_vals T s"
    by (rule shard_vals_same_val [OF w(2) b(3)]) simp
  show "freq_sum (shard_map T s') < freq_sum (shard_map T s)"
    unfolding w(2) using b(3) f by (intro freq_sum_decrement) auto
  show "keeps_slots slot_ok s s'" by (rule w(3))
qed

lemma remove_main:
  assumes inv: "shard_inv T hash rt_wf s" and mk: "main_keys s = st @ k # ks"
    and st: "\<And>j. j \<in> set st \<Longrightarrow> shard_map T s j = None"
    and b: "b \<in> set (rt_iter T (raw_map s))" "rt_as_ref T (raw_map s) b = (k, e)" "shard_map T s k = Some e"
    and full: "0 < shard_cap s" "small_live s < small_cap s" "live s = shard_cap s"
    and s': "s' = s\<lparr>raw_map := snd (rt_remove T (raw_map s) b), main_hashes := map hash ks,
               main_keys := ks, main_live := main_live s - 1\<rparr>"
  shows "shard_inv T hash rt_wf s'" and "shard_vals T s' = (shard_vals T s)(k := None)"
    and "keeps_slots slot_ok s s'" and "live s' + 1 = live s"
proof -
  have tab: "table_ok T rt_wf s" using inv by (simp add: shard_inv_def)
  have "raw_map s' = snd (rt_remove T (raw_map s) b)" by (simp add: s')
  note w = shard_remove [OF tab b(1,2) this]
  have caps: "small_cap s \<le> shard_cap s"
    using inv full(1) by (auto simp: shard_inv_def dest: caps_facts)
  then have ml: "0 < main_live s" using full by (simp add: live_def)
  have eo: "entry_ok s k e" using inv b(3) by (simp add: shard_inv_def queues_ok_def)
  have "queues_ok T hash s'"
  proof (rule queues_ok_update [where s = s and k = k])
    show "j \<in> set (main_keys s')" if "j \<noteq> k" "shard_map T s j = Some e'" "j \<in> set (main_keys s)" for j e'
      using that st by (auto simp: s' mk)
  qed (use inv w(2) in \<open>auto simp: s' shard_inv_def queues_ok_def\<close>)
  moreover have "is_small e \<noteq> is_main e"
    using eo not_small_and_main by (auto simp: entry_ok_def)
  then have "counts_ok T s'"
    using inv counts_delete [OF b(3) w(2)] ml full
    by (auto simp: shard_inv_def counts_ok_def live_def s' split: if_splits)
  moreover have "caps_ok s'" "ghost_ok s'"
    using inv by (simp_all add: shard_inv_def caps_ok_def ghost_ok_def s')
  ultimately show "shard_inv T hash rt_wf s'" using w(1) by (simp add: shard_inv_def)
  show "shard_vals T s' = (shard_vals T s)(k := None)" by (rule shard_vals_delete [OF w(2)])
  show "keeps_slots slot_ok s s'" by (rule w(3))
  show "live s' + 1 = live s" using ml by (simp add: live_def s')
qed

lemma main_queue_live:
  assumes "shard_inv T hash rt_wf s" and "0 < shard_cap s" and "small_live s < small_cap s"
    and "live s = shard_cap s"
  obtains k e where "k \<in> set (main_keys s)" and "shard_map T s k = Some e"
proof -
  have "main_live s + small_cap s \<le> n_main T s + shard_cap s"
    using assms(1,2) by (simp add: shard_inv_def counts_ok_def)
  then have "0 < n_main T s" using assms(3,4) by (simp add: live_def)
  then obtain k e where "shard_map T s k = Some e" "is_main e"
    by (auto simp: n_main_def count_where_pos_iff)
  moreover have "k \<in> set (main_keys s)"
    using assms(1) calculation not_small_and_main
    by (auto simp: shard_inv_def queues_ok_def entry_ok_def)
  ultimately show thesis by (intro that)
qed

lemma main_head:
  assumes inv: "shard_inv T hash rt_wf s" and full: "0 < shard_cap s" "small_live s < small_cap s" "live s = shard_cap s"
  obtains st k e b ks where
    "pop_live T (raw_map s) (main_hashes s) (main_keys s) = (Some (hash k, k, b), map hash ks, ks)"
    and "main_keys s = st @ k # ks" and "\<And>j. j \<in> set st \<Longrightarrow> shard_map T s j = None"
    and "b \<in> set (rt_iter T (raw_map s))" and "rt_as_ref T (raw_map s) b = (k, e)"
    and "shard_map T s k = Some e"
proof -
  have tab: "table_ok T rt_wf s" and hs: "main_hashes s = map hash (main_keys s)"
    using inv by (simp_all add: shard_inv_def queues_ok_def)
  obtain r hs' ks' where pop: "pop_live T (raw_map s) (map hash (main_keys s)) (main_keys s) = (r, hs', ks')"
    by (metis prod_cases3)
  obtain k0 e0 where "k0 \<in> set (main_keys s)" "shard_map T s k0 = Some e0"
    using main_queue_live [OF inv full] by blast
  then have "r \<noteq> None" using pop_live_NoneD [OF tab, of "main_keys s" hs' ks' k0] pop
    by (cases r) auto
  then obtain h k b where r: "r = Some (h, k, b)" by (metis not_None_eq prod_cases3)
  from pop_live_SomeE [OF tab pop [unfolded r]] show thesis
    using that hs pop r by metis
qed

text \<open>
  One round of the loop in \<open>evict_from_main\<close>: the first live key of the main queue goes to its
  back with a lower frequency and the loop goes on, or it is evicted and the loop ends.
\<close>

lemma evict_from_main_cases:
  assumes inv: "shard_inv T hash rt_wf s" and full: "0 < shard_cap s" "small_live s < small_cap s" "live s = shard_cap s"
  obtains (requeue) st k e ks s1 where "main_keys s = st @ k # ks" and "\<And>j. j \<in> set st \<Longrightarrow> shard_map T s j = None"
      and "shard_map T s k = Some e" and "0 < entry_freq e" and "evict_from_main T s = evict_from_main T s1"
      and "shard_inv T hash rt_wf s1" and "shard_map T s1 = (shard_map T s)(k \<mapsto> e\<lparr>entry_freq := entry_freq e - 1\<rparr>)"
      and "main_keys s1 = ks @ [k]" and "main_live s1 = main_live s" and "main_frame s s1"
      and "keeps_slots slot_ok s s1" and "freq_sum (shard_map T s1) < freq_sum (shard_map T s)"
    | (evict) st k e ks s1 where "main_keys s = st @ k # ks" and "\<And>j. j \<in> set st \<Longrightarrow> shard_map T s j = None"
      and "shard_map T s k = Some e" and "entry_freq e = 0" and "evict_from_main T s = returns s1"
      and "shard_inv T hash rt_wf s1" and "shard_map T s1 = (shard_map T s)(k := None)"
      and "main_keys s1 = ks" and "main_live s1 + 1 = main_live s" and "main_frame s s1" and "keeps_slots slot_ok s s1"
proof -
  have tab: "table_ok T rt_wf s" using inv by (simp add: shard_inv_def)
  obtain st k e b ks where pop:
      "pop_live T (raw_map s) (main_hashes s) (main_keys s) = (Some (hash k, k, b), map hash ks, ks)"
    and p: "main_keys s = st @ k # ks" "\<And>j. j \<in> set st \<Longrightarrow> shard_map T s j = None"
      "b \<in> set (rt_iter T (raw_map s))" "rt_as_ref T (raw_map s) b = (k, e)" "shard_map T s k = Some e"
    using main_head [OF inv full] by metis
  show thesis
  proof (cases "entry_freq e > 0")
    case True
    define s1 where "s1 = s\<lparr>raw_map := rt_write T (raw_map s) b (k, e\<lparr>entry_freq := entry_freq e - 1\<rparr>),
               main_hashes := map hash ks @ [hash k], main_keys := ks @ [k]\<rparr>"
    note q = requeue_main [OF inv p True s1_def]
    have "evict_from_main T s = evict_from_main T s1"
      by (subst evict_from_main.simps) (simp add: pop p(4) True s1_def Let_def)
    moreover have "shard_map T s1 = (shard_map T s)(k \<mapsto> e\<lparr>entry_freq := entry_freq e - 1\<rparr>)"
      by (rule shard_write(2) [OF tab p(3,4)]) (simp add: s1_def)
    ultimately show thesis
      by (intro requeue [OF p(1,2,5) True _ q(1)] q(3,4)) (simp_all add: s1_def main_frame_def same_caps_def)
  next
    case False
    then have f0: "entry_freq e = 0" by (simp add: word_gt_0)
    define s1 where "s1 = s\<lparr>raw_map := snd (rt_remove T (raw_map s) b), main_hashes := map hash ks,
               main_keys := ks, main_live := main_live s - 1\<rparr>"
    note q = remove_main [OF inv p full s1_def]
    have ml: "1 \<le> main_live s" using q(4) by (simp add: live_def s1_def)
    then have "evict_from_main T s = returns s1"
      by (subst evict_from_main.simps) (simp add: pop p(4) f0 s1_def Let_def)
    moreover have "shard_map T s1 = (shard_map T s)(k := None)"
      by (rule shard_remove(2) [OF tab p(3,4)]) (simp add: s1_def)
    ultimately show thesis
      using ml by (intro evict [OF p(1,2,5) f0 _ q(1)] q(3)) (simp_all add: s1_def main_frame_def same_caps_def)
  qed
qed

lemma main_frame_full:
  assumes "main_frame s s1" and "main_live s1 = main_live s"
    and "0 < shard_cap s" and "small_live s < small_cap s" and "live s = shard_cap s"
  shows "0 < shard_cap s1" and "small_live s1 < small_cap s1" and "live s1 = shard_cap s1"
  using assms by (simp_all add: main_frame_def same_caps_def live_def)

lemma evict_from_main_total:
  assumes "shard_inv T hash rt_wf s" and "0 < shard_cap s" and "small_live s < small_cap s"
    and "live s = shard_cap s"
  shows "\<exists>s' k. evict_from_main T s = returns s' \<and> shard_inv T hash rt_wf s' \<and> same_caps s s' \<and>
    keeps_slots slot_ok s s' \<and> shard_map T s k \<noteq> None \<and> live s' + 1 = live s \<and>
    shard_vals T s' = (shard_vals T s)(k := None) \<and> ghost_set s' = ghost_set s"
  using assms
proof (induction "freq_sum (shard_map T s)" arbitrary: s rule: less_induct)
  case less
  from less.prems show ?case
  proof (cases rule: evict_from_main_cases)
    case (requeue st k e ks s1)
    have v: "shard_vals T s1 = shard_vals T s" by (rule shard_vals_same_val [OF requeue(7,3)]) simp
    then have d: "dom (shard_map T s1) = dom (shard_map T s)" by (metis dom_shard_vals)
    obtain s' j where s': "evict_from_main T s1 = returns s'" "shard_inv T hash rt_wf s'"
        "same_caps s1 s'" "keeps_slots slot_ok s1 s'" "shard_map T s1 j \<noteq> None" "live s' + 1 = live s1"
        "shard_vals T s' = (shard_vals T s1)(j := None)" "ghost_set s' = ghost_set s1"
      using less.hyps [OF requeue(12,6) main_frame_full [OF requeue(10,9) less.prems(2-4)]] by blast
    have "same_caps s s'" "keeps_slots slot_ok s s'" "live s1 = live s" "ghost_set s1 = ghost_set s"
      using requeue(9-11) same_caps_trans [OF _ s'(3)] keeps_slots_trans [OF _ s'(4)] by (auto simp: main_frame_def live_def)
    with s' v d requeue(5) show ?thesis by (metis domIff)
  next
    case (evict st k e ks s1)
    have "same_caps s s1" "live s1 + 1 = live s" "ghost_set s1 = ghost_set s"
      using evict(9,10) by (auto simp: main_frame_def live_def)
    with evict(3,5,6,11) shard_vals_delete [OF evict(7)] show ?thesis by blast
  qed
qed

section \<open>Evicting from the small queue\<close>

lemma small_queue_live:
  assumes "shard_inv T hash rt_wf s" and "0 < shard_cap s" and "small_cap s \<le> small_live s"
  obtains k e where "k \<in> set (small_keys s)" and "shard_map T s k = Some e"
proof -
  have "small_live s + 1 \<le> n_small T s + small_cap s"
    using assms(1,2) by (simp add: shard_inv_def counts_ok_def)
  then have "0 < n_small T s" using assms(3) by simp
  then obtain k e where "shard_map T s k = Some e" "is_small e"
    by (auto simp: n_small_def count_where_pos_iff)
  moreover have "k \<in> set (small_keys s)"
    using assms(1) calculation not_small_and_main
    by (auto simp: shard_inv_def queues_ok_def entry_ok_def)
  ultimately show thesis by (intro that)
qed

lemma small_head:
  assumes inv: "shard_inv T hash rt_wf s" and full: "0 < shard_cap s" "small_cap s \<le> small_live s"
  obtains st k e b ks where
    "pop_live T (raw_map s) (small_hashes s) (small_keys s) = (Some (hash k, k, b), map hash ks, ks)"
    and "small_keys s = st @ k # ks" and "\<And>j. j \<in> set st \<Longrightarrow> shard_map T s j = None"
    and "b \<in> set (rt_iter T (raw_map s))" and "rt_as_ref T (raw_map s) b = (k, e)"
    and "shard_map T s k = Some e"
proof -
  have tab: "table_ok T rt_wf s" and hs: "small_hashes s = map hash (small_keys s)"
    using inv by (simp_all add: shard_inv_def queues_ok_def)
  obtain r hs' ks' where pop: "pop_live T (raw_map s) (map hash (small_keys s)) (small_keys s) = (r, hs', ks')"
    by (metis prod_cases3)
  obtain k0 e0 where "k0 \<in> set (small_keys s)" "shard_map T s k0 = Some e0"
    using small_queue_live [OF inv full] by blast
  then have "r \<noteq> None" using pop_live_NoneD [OF tab, of "small_keys s" hs' ks' k0] pop
    by (cases r) auto
  then obtain h k b where r: "r = Some (h, k, b)" by (metis not_None_eq prod_cases3)
  from pop_live_SomeE [OF tab pop [unfolded r]] show thesis
    using that hs pop r by metis
qed

lemma promote_small:
  assumes inv: "shard_inv T hash rt_wf s" and sk: "small_keys s = st @ k # ks"
    and st: "\<And>j. j \<in> set st \<Longrightarrow> shard_map T s j = None"
    and b: "b \<in> set (rt_iter T (raw_map s))" "rt_as_ref T (raw_map s) b = (k, e)" "shard_map T s k = Some e"
    and full: "0 < shard_cap s" "small_cap s \<le> small_live s"
    and s': "s' = s\<lparr>small_hashes := map hash ks, small_keys := ks,
               raw_map := rt_write T (raw_map s) b (k, e\<lparr>entry_loc := LOC_MAIN\<rparr>),
               small_live := small_live s - 1, main_hashes := main_hashes s @ [hash k],
               main_keys := main_keys s @ [k], main_live := main_live s + 1\<rparr>"
  shows "shard_inv T hash rt_wf s'" and "shard_vals T s' = shard_vals T s"
    and "keeps_slots slot_ok s s'" and "live s' = live s"
proof -
  let ?e = "e\<lparr>entry_loc := LOC_MAIN\<rparr>"
  have tab: "table_ok T rt_wf s" using inv by (simp add: shard_inv_def)
  have "raw_map s' = rt_write T (raw_map s) b (k, ?e)" by (simp add: s')
  note w = shard_write [OF tab b(1,2) this]
  have eo: "entry_ok s k e" using inv b(3) by (simp add: shard_inv_def queues_ok_def)
  have sl: "1 \<le> small_live s"
    using inv full by (auto simp: shard_inv_def dest: caps_facts)
  have "queues_ok T hash s'"
  proof (rule queues_ok_update [where s = s and k = k])
    show "j \<in> set (small_keys s')" if "j \<noteq> k" "shard_map T s j = Some e'" "j \<in> set (small_keys s)" for j e'
      using that st by (auto simp: s' sk)
  qed (use inv eo w(2) in \<open>auto simp: s' shard_inv_def queues_ok_def entry_ok_def\<close>)
  moreover have "counts_ok T s'"
  proof -
    have "is_small e \<noteq> is_main e"
      using eo not_small_and_main by (auto simp: entry_ok_def)
    then show ?thesis
      using inv counts_replace [OF b(3) w(2)] sl full
      by (auto simp: shard_inv_def counts_ok_def live_def s' split: if_splits)
  qed
  moreover have "caps_ok s'" "ghost_ok s'"
    using inv by (simp_all add: shard_inv_def caps_ok_def ghost_ok_def s')
  ultimately show "shard_inv T hash rt_wf s'" using w(1) by (simp add: shard_inv_def)
  show "shard_vals T s' = shard_vals T s" by (rule shard_vals_same_val [OF w(2) b(3)]) simp
  show "keeps_slots slot_ok s s'" by (rule w(3))
  show "live s' = live s" using sl by (simp add: live_def s')
qed

lemma remove_small:
  assumes inv: "shard_inv T hash rt_wf s" and sk: "small_keys s = st @ k # ks"
    and st: "\<And>j. j \<in> set st \<Longrightarrow> shard_map T s j = None"
    and b: "b \<in> set (rt_iter T (raw_map s))" "rt_as_ref T (raw_map s) b = (k, e)" "shard_map T s k = Some e"
    and full: "0 < shard_cap s" "small_cap s \<le> small_live s"
    and s': "s' = add_to_ghost (hash k) (s\<lparr>small_hashes := map hash ks, small_keys := ks,
               small_live := small_live s - 1, raw_map := snd (rt_remove T (raw_map s) b)\<rparr>)"
  shows "shard_inv T hash rt_wf s'" and "shard_vals T s' = (shard_vals T s)(k := None)"
    and "keeps_slots slot_ok s s'" and "live s' + 1 = live s"
proof -
  have tab: "table_ok T rt_wf s" using inv by (simp add: shard_inv_def)
  have "raw_map s' = snd (rt_remove T (raw_map s) b)" by (simp add: s')
  note w = shard_remove [OF tab b(1,2) this]
  have eo: "entry_ok s k e" using inv b(3) by (simp add: shard_inv_def queues_ok_def)
  have sl: "1 \<le> small_live s" and gc: "ghost_cap s = shard_cap s"
    using inv full by (auto simp: shard_inv_def dest: caps_facts)
  have "queues_ok T hash s'"
  proof (rule queues_ok_update [where s = s and k = k])
    show "j \<in> set (small_keys s')" if "j \<noteq> k" "shard_map T s j = Some e'" "j \<in> set (small_keys s)" for j e'
      using that st by (auto simp: s' sk)
  qed (use inv w(2) in \<open>auto simp: s' shard_inv_def queues_ok_def\<close>)
  moreover have "counts_ok T s'"
  proof -
    have "is_small e \<noteq> is_main e"
      using eo not_small_and_main by (auto simp: entry_ok_def)
    then show ?thesis
      using inv counts_delete [OF b(3) w(2)] sl full
      by (auto simp: shard_inv_def counts_ok_def live_def s' split: if_splits)
  qed
  moreover have "caps_ok s'" using inv by (simp add: shard_inv_def caps_ok_def s')
  moreover have "ghost_ok s'"
    unfolding s' using inv full(1) gc
    by (intro add_to_ghost_ok) (simp_all add: shard_inv_def ghost_ok_def)
  ultimately show "shard_inv T hash rt_wf s'" using w(1) by (simp add: shard_inv_def)
  show "shard_vals T s' = (shard_vals T s)(k := None)" by (rule shard_vals_delete [OF w(2)])
  show "keeps_slots slot_ok s s'" by (rule w(3))
  show "live s' + 1 = live s" using sl by (simp add: live_def s')
qed

text \<open>\<open>evict_from_small\<close>: the first live key of the small queue is promoted or evicted.\<close>

lemma evict_from_small_cases:
  assumes inv: "shard_inv T hash rt_wf s" and full: "0 < shard_cap s" "small_cap s \<le> small_live s"
  obtains (promote) st k e ks s1 where "small_keys s = st @ k # ks" and "\<And>j. j \<in> set st \<Longrightarrow> shard_map T s j = None"
      and "shard_map T s k = Some e" and "0 < entry_freq e" and "evict_from_small T s = returns s1"
      and "shard_inv T hash rt_wf s1" and "shard_map T s1 = (shard_map T s)(k \<mapsto> e\<lparr>entry_loc := LOC_MAIN\<rparr>)"
      and "small_keys s1 = ks" and "small_live s1 + 1 = small_live s" and "main_keys s1 = main_keys s @ [k]"
      and "main_live s1 = main_live s + 1" and "ghost_set s1 = ghost_set s" and "same_caps s s1" and "keeps_slots slot_ok s s1"
    | (evict) st k e ks s1 where "small_keys s = st @ k # ks" and "\<And>j. j \<in> set st \<Longrightarrow> shard_map T s j = None"
      and "shard_map T s k = Some e" and "entry_freq e = 0" and "evict_from_small T s = returns s1"
      and "shard_inv T hash rt_wf s1" and "shard_map T s1 = (shard_map T s)(k := None)"
      and "small_keys s1 = ks" and "small_live s1 + 1 = small_live s" and "main_keys s1 = main_keys s"
      and "main_live s1 = main_live s" and "hash k \<in> ghost_set s1" and "same_caps s s1" and "keeps_slots slot_ok s s1"
      and "ghost_set s1 \<subseteq> insert (hash k) (ghost_set s)"
proof -
  have tab: "table_ok T rt_wf s" using inv by (simp add: shard_inv_def)
  have sl: "1 \<le> small_live s" using inv full by (auto simp: shard_inv_def dest: caps_facts)
  have ml: "main_live s + 1 \<le> usize_max"
    using inv full(1) sl by (auto simp: shard_inv_def caps_ok_def counts_ok_def live_def)
  obtain st k e b ks where pop:
      "pop_live T (raw_map s) (small_hashes s) (small_keys s) = (Some (hash k, k, b), map hash ks, ks)"
    and p: "small_keys s = st @ k # ks" "\<And>j. j \<in> set st \<Longrightarrow> shard_map T s j = None"
      "b \<in> set (rt_iter T (raw_map s))" "rt_as_ref T (raw_map s) b = (k, e)" "shard_map T s k = Some e"
    using small_head [OF inv full] by metis
  show thesis
  proof (cases "entry_freq e > 0")
    case True
    define s1 where "s1 = s\<lparr>small_hashes := map hash ks, small_keys := ks,
               raw_map := rt_write T (raw_map s) b (k, e\<lparr>entry_loc := LOC_MAIN\<rparr>),
               small_live := small_live s - 1, main_hashes := main_hashes s @ [hash k],
               main_keys := main_keys s @ [k], main_live := main_live s + 1\<rparr>"
    note q = promote_small [OF inv p full s1_def]
    have "evict_from_small T s = returns s1"
      using sl ml by (simp add: evict_from_small_def pop p(4) True s1_def Let_def)
    moreover have "shard_map T s1 = (shard_map T s)(k \<mapsto> e\<lparr>entry_loc := LOC_MAIN\<rparr>)"
      by (rule shard_write(2) [OF tab p(3,4)]) (simp add: s1_def)
    ultimately show thesis
      using sl by (intro promote [OF p(1,2,5) True _ q(1)] q(3)) (simp_all add: s1_def same_caps_def)
  next
    case False
    then have f0: "entry_freq e = 0" by (simp add: word_gt_0)
    define s1 where "s1 = add_to_ghost (hash k) (s\<lparr>small_hashes := map hash ks, small_keys := ks,
               small_live := small_live s - 1, raw_map := snd (rt_remove T (raw_map s) b)\<rparr>)"
    note q = remove_small [OF inv p full s1_def]
    have "evict_from_small T s = returns s1"
      using sl by (simp add: evict_from_small_def pop p(4) f0 s1_def Let_def)
    moreover have "shard_map T s1 = (shard_map T s)(k := None)"
      by (rule shard_remove(2) [OF tab p(3,4)]) (simp add: s1_def)
    moreover have "hash k \<in> ghost_set s1" "ghost_set s1 \<subseteq> insert (hash k) (ghost_set s)"
      by (auto simp: s1_def add_to_ghost_def Let_def)
    ultimately show thesis
      using sl by (intro evict [OF p(1,2,5) f0 _ q(1)] q(3)) (simp_all add: s1_def same_caps_def)
  qed
qed

lemma evict_from_small_total:
  assumes "shard_inv T hash rt_wf s" and "0 < shard_cap s" and "small_cap s \<le> small_live s"
  shows "\<exists>s'. evict_from_small T s = returns s' \<and> shard_inv T hash rt_wf s' \<and> same_caps s s' \<and>
    keeps_slots slot_ok s s' \<and>
    ((\<exists>k. shard_map T s k \<noteq> None \<and> shard_vals T s' = (shard_vals T s)(k := None)) \<and> live s' + 1 = live s
     \<or> shard_vals T s' = shard_vals T s \<and> live s' = live s \<and> small_live s' < small_live s)"
  using assms
proof (cases rule: evict_from_small_cases)
  case (promote st k e ks s1)
  have "shard_vals T s1 = shard_vals T s" by (rule shard_vals_same_val [OF promote(7,3)]) simp
  moreover have "live s1 = live s" "small_live s1 < small_live s" using promote(9,11) by (simp_all add: live_def)
  ultimately show ?thesis using promote(5,6,13,14) by blast
next
  case (evict st k e ks s1)
  have "live s1 + 1 = live s" using evict(9,11) by (simp add: live_def)
  with evict(3,5,6,13,14) shard_vals_delete [OF evict(7)] show ?thesis by blast
qed

lemma evict_one_total:
  assumes "shard_inv T hash rt_wf s" and "0 < shard_cap s" and "live s = shard_cap s"
  shows "\<exists>s'. evict_one T s = returns s' \<and> shard_inv T hash rt_wf s' \<and> same_caps s s' \<and>
    keeps_slots slot_ok s s' \<and>
    ((\<exists>k. shard_map T s k \<noteq> None \<and> shard_vals T s' = (shard_vals T s)(k := None)) \<and> live s' + 1 = live s
     \<or> shard_vals T s' = shard_vals T s \<and> live s' = live s \<and> small_live s' < small_live s)"
proof (cases "small_cap s \<le> small_live s")
  case True
  with evict_from_small_total [OF assms(1,2) True] show ?thesis by (simp add: evict_one_def)
next
  case False
  then have "small_live s < small_cap s" by simp
  from evict_from_main_total [OF assms(1,2) this assms(3)] False show ?thesis
    by (simp add: evict_one_def) blast
qed

section \<open>The eviction loop\<close>

lemma total_live_Return:
  "shard_inv T hash rt_wf s \<Longrightarrow> 0 < shard_cap s \<Longrightarrow> total_live s = Return (live s)"
  by (auto simp: total_live_def live_def shard_inv_def counts_ok_def caps_ok_def)

lemma evict_while_full_idle:
  assumes "shard_inv T hash rt_wf s" and "shard_cap s = 0 \<or> live s < shard_cap s"
  shows "evict_while_full T s = returns s"
  using assms total_live_Return [OF assms(1)]
  by (cases "shard_cap s = 0") (auto simp: evict_while_full.simps [of T s])

lemma evict_while_full_total:
  assumes "shard_inv T hash rt_wf s" and "0 < shard_cap s" and "live s = shard_cap s"
  shows "\<exists>s' k. evict_while_full T s = returns s' \<and> shard_inv T hash rt_wf s' \<and> same_caps s s' \<and>
    keeps_slots slot_ok s s' \<and> shard_map T s k \<noteq> None \<and>
    shard_vals T s' = (shard_vals T s)(k := None) \<and> live s' + 1 = shard_cap s"
  using assms
proof (induction "small_live s" arbitrary: s rule: less_induct)
  case less
  note prems = less.prems
  obtain s1 where one: "evict_one T s = returns s1" "shard_inv T hash rt_wf s1" "same_caps s s1"
      "keeps_slots slot_ok s s1"
      "(\<exists>k. shard_map T s k \<noteq> None \<and> shard_vals T s1 = (shard_vals T s)(k := None)) \<and> live s1 + 1 = live s
       \<or> shard_vals T s1 = shard_vals T s \<and> live s1 = live s \<and> small_live s1 < small_live s"
    using evict_one_total [OF prems] by blast
  have step: "evict_while_full T s = evict_while_full T s1"
    using prems total_live_Return [OF prems(1,2)] one(1)
    by (simp add: evict_while_full.simps [of T s])
  have caps: "shard_cap s1 = shard_cap s" using one(3) by (simp add: same_caps_def)
  from one(5) show ?case
  proof (elim disjE conjE exE)
    fix k assume k: "shard_map T s k \<noteq> None" "shard_vals T s1 = (shard_vals T s)(k := None)"
      and l: "live s1 + 1 = live s"
    have "evict_while_full T s1 = returns s1"
      using one(2) l caps prems(3) by (intro evict_while_full_idle) auto
    with step one k l prems(3) show ?thesis by metis
  next
    assume v: "shard_vals T s1 = shard_vals T s" and l: "live s1 = live s"
      and sm: "small_live s1 < small_live s"
    have "0 < shard_cap s1" "live s1 = shard_cap s1" using caps prems(2,3) l by simp_all
    from less.hyps [OF sm one(2) this] obtain s' k where
      s': "evict_while_full T s1 = returns s'" "shard_inv T hash rt_wf s'" "same_caps s1 s'"
        "keeps_slots slot_ok s1 s'" "shard_map T s1 k \<noteq> None"
        "shard_vals T s' = (shard_vals T s1)(k := None)" "live s' + 1 = shard_cap s1"
      by blast
    have "shard_map T s k \<noteq> None"
      using s'(5) v dom_shard_vals [of T s] dom_shard_vals [of T s1] by (metis domIff)
    with s' v caps step same_caps_trans [OF one(3) s'(3)] keeps_slots_trans [OF one(4) s'(4)]
    show ?thesis by metis
  qed
qed

text \<open>The loop as insertion uses it: it makes room, and has a victim exactly when there was none.\<close>

lemma evict_for_insert:
  assumes inv: "shard_inv T hash rt_wf s"
  shows "\<exists>s' vict. evict_while_full T s = returns s' \<and> shard_inv T hash rt_wf s' \<and> same_caps s s' \<and>
    keeps_slots slot_ok s s' \<and> (shard_cap s \<noteq> 0 \<longrightarrow> live s' < shard_cap s) \<and>
    (vict = None \<longleftrightarrow> shard_cap s = 0 \<or> live s < shard_cap s) \<and>
    (case vict of None \<Rightarrow> s' = s
     | Some j \<Rightarrow> shard_map T s j \<noteq> None \<and> shard_vals T s' = (shard_vals T s)(j := None))"
proof (cases "shard_cap s = 0 \<or> live s < shard_cap s")
  case True
  then show ?thesis
    using inv evict_while_full_idle [OF inv True] by (intro exI [of _ s] exI [of _ None]) (auto simp: same_caps_def)
next
  case False
  then have "0 < shard_cap s" "live s = shard_cap s" using inv by (auto simp: shard_inv_def counts_ok_def)
  from evict_while_full_total [OF inv this] obtain s' j where
    "evict_while_full T s = returns s'" "shard_inv T hash rt_wf s'" "same_caps s s'" "keeps_slots slot_ok s s'"
    "shard_map T s j \<noteq> None" "shard_vals T s' = (shard_vals T s)(j := None)" "live s' + 1 = shard_cap s" by blast
  then show ?thesis using False by (intro exI [of _ s'] exI [of _ "Some j"]) auto
qed

end

end
