(* ===== verification/Shard_Ops.thy ===== *)
theory Shard_Ops
  imports Shard_Eviction
begin

text \<open>
  The bodies that \<open>NeoCache\<close>'s methods (\<open>src/lib.rs\<close>) run on one shard while they hold
  its lock: insert, the three removals, lookup with the frequency bump, retain. Each gets
  its effect on the map of values and the preservation of the shard invariant.
  A \<open>FnMut\<close> closure of the source is a function of its own captured state.
\<close>

definition insert_locked :: "('k, 'v, 't) table \<Rightarrow> ('k \<Rightarrow> u64) \<Rightarrow> 'k \<Rightarrow> 'v \<Rightarrow> ('k, 't) ShardData
    \<Rightarrow> ('v option \<times> ('k, 't) ShardData) comp" where
  "insert_locked T hasher key v s =
     (case rt_find_or_find_insert_slot T (raw_map s) (hasher key) (key_eq key) (elem_hash hasher) of
        (Ok bucket, t) \<Rightarrow>
          (let (k, e) = rt_as_ref T t bucket; (old, c) = sv_replace (entry_value e) v
           in returns (Some old, s\<lparr>raw_map := rt_write T t bucket (k, e\<lparr>entry_value := c\<rparr>)\<rparr>))
      | (Err slot, t) \<Rightarrow>
          comp_bind (insert_new T (hasher key) key slot v (s\<lparr>raw_map := t\<rparr>)) (\<lambda>(b, s').
          returns (None, s')))"

definition remove_locked :: "('k, 'v, 't) table \<Rightarrow> ('k \<Rightarrow> u64) \<Rightarrow> 'k \<Rightarrow> ('k, 't) ShardData
    \<Rightarrow> ('k \<times> 'v) option \<times> ('k, 't) ShardData" where
  "remove_locked T hasher key s =
     (case rt_find T (raw_map s) (hasher key) (key_eq key) of
        Some bucket \<Rightarrow> (let (kv, s') = remove_found T bucket s in (Some kv, s'))
      | None \<Rightarrow> (None, s))"

definition remove_if_locked :: "('k, 'v, 't) table \<Rightarrow> ('k \<Rightarrow> u64) \<Rightarrow> 'k \<Rightarrow> ('k \<Rightarrow> 'v \<Rightarrow> bool)
    \<Rightarrow> ('k, 't) ShardData \<Rightarrow> ('k \<times> 'v) option \<times> ('k, 't) ShardData" where
  "remove_if_locked T hasher key f s =
     (case rt_find T (raw_map s) (hasher key) (key_eq key) of
        Some bucket \<Rightarrow>
          (let (k, e) = rt_as_ref T (raw_map s) bucket
           in if f k (sv_get (entry_value e))
              then (let (kv, s') = remove_found T bucket s in (Some kv, s'))
              else (None, s))
      | None \<Rightarrow> (None, s))"

text \<open>The predicate of \<open>remove_if_mut\<close> returns its verdict and the value it leaves behind.\<close>

definition remove_if_mut_locked :: "('k, 'v, 't) table \<Rightarrow> ('k \<Rightarrow> u64) \<Rightarrow> 'k \<Rightarrow> ('k \<Rightarrow> 'v \<Rightarrow> bool \<times> 'v)
    \<Rightarrow> ('k, 't) ShardData \<Rightarrow> ('k \<times> 'v) option \<times> ('k, 't) ShardData" where
  "remove_if_mut_locked T hasher key f s =
     (case rt_find T (raw_map s) (hasher key) (key_eq key) of
        Some bucket \<Rightarrow>
          (let (k, e) = rt_as_ref T (raw_map s) bucket;
               (verdict, v) = f k (sv_get (entry_value e));
               s1 = s\<lparr>raw_map := rt_write T (raw_map s) bucket (k, e\<lparr>entry_value := sv_new v\<rparr>)\<rparr>
           in if verdict then (let (kv, s') = remove_found T bucket s1 in (Some kv, s'))
              else (None, s1))
      | None \<Rightarrow> (None, s))"

text \<open>
  \<open>_get\<close> and \<open>_get_mut\<close>: find, bump the frequency counter, hand out the bucket
  (the key and value pointers of the returned \<open>Ref\<close> or \<open>RefMut\<close>).
\<close>

definition get_locked :: "('k, 'v, 't) table \<Rightarrow> ('k \<Rightarrow> u64) \<Rightarrow> 'k \<Rightarrow> ('k, 't) ShardData
    \<Rightarrow> nat option \<times> ('k, 't) ShardData" where
  "get_locked T hasher key s =
     (case rt_find T (raw_map s) (hasher key) (key_eq key) of
        Some bucket \<Rightarrow>
          (let (k, e) = rt_as_ref T (raw_map s) bucket
           in (Some bucket, s\<lparr>raw_map := rt_write T (raw_map s) bucket (k, bump_freq e)\<rparr>))
      | None \<Rightarrow> (None, s))"

fun retain_buckets :: "('k, 'v, 't) table \<Rightarrow> ('s \<Rightarrow> 'k \<Rightarrow> 'v \<Rightarrow> bool \<times> 'v \<times> 's) \<Rightarrow> nat list
    \<Rightarrow> 's \<Rightarrow> ('k, 't) ShardData \<Rightarrow> 's \<times> ('k, 't) ShardData" where
  "retain_buckets T f [] st s = (st, s)"
| "retain_buckets T f (bucket # bs) st s =
     (let (k, e) = rt_as_ref T (raw_map s) bucket;
          (keep, v, st') = f st k (sv_get (entry_value e));
          s1 = s\<lparr>raw_map := rt_write T (raw_map s) bucket (k, e\<lparr>entry_value := sv_new v\<rparr>)\<rparr>;
          s2 = (if keep then s1 else live_dec (entry_loc e) (s1\<lparr>raw_map := rt_erase T (raw_map s1) bucket\<rparr>))
      in retain_buckets T f bs st' s2)"

definition retain_locked :: "('k, 'v, 't) table \<Rightarrow> ('s \<Rightarrow> 'k \<Rightarrow> 'v \<Rightarrow> bool \<times> 'v \<times> 's)
    \<Rightarrow> 's \<Rightarrow> ('k, 't) ShardData \<Rightarrow> 's \<times> ('k, 't) ShardData" where
  "retain_locked T f st s = retain_buckets T f (rt_iter T (raw_map s)) st s"

context shard_table
begin

lemma inv_tab: "shard_inv T hash rt_wf s \<Longrightarrow> rt_wf (raw_map s)"
  "shard_inv T hash rt_wf s \<Longrightarrow> rt_keys_distinct T (raw_map s)"
  "shard_inv T hash rt_wf s \<Longrightarrow> table_ok T rt_wf s"
  by (simp_all add: shard_inv_def table_ok_def)

lemma unbounded_ghost: "shard_inv T hash rt_wf s \<Longrightarrow> shard_cap s = 0 \<Longrightarrow> ghost_set s = {}"
  by (auto simp: shard_inv_def ghost_ok_def caps_ok_def shard_caps_def)

text \<open>Rehashing keeps the invariant: the elements are the same, only buckets move.\<close>

lemma shard_inv_rehash:
  assumes "shard_inv T hash rt_wf s" and "rt_wf t" and "rt_keys_distinct T t"
    and "rt_lookup T t = shard_map T s"
  shows "shard_inv T hash rt_wf (s\<lparr>raw_map := t\<rparr>)"
proof -
  have m: "shard_map T (s\<lparr>raw_map := t\<rparr>) = shard_map T s"
    using assms(4) by (simp add: shard_map_def)
  have "queues_ok T hash (s\<lparr>raw_map := t\<rparr>)"
    using assms(1) by (simp add: shard_inv_def queues_ok_def entry_ok_def m)
  moreover have "counts_ok T (s\<lparr>raw_map := t\<rparr>)"
    using assms(1) by (intro counts_ok_same [of s "s\<lparr>raw_map := t\<rparr>"])
      (simp_all add: shard_inv_def n_small_def n_main_def m same_caps_def)
  moreover have "caps_ok (s\<lparr>raw_map := t\<rparr>)" "ghost_ok (s\<lparr>raw_map := t\<rparr>)"
    using assms(1) by (simp_all add: shard_inv_def caps_ok_def ghost_ok_def)
  ultimately show ?thesis using assms(2,3) by (simp add: shard_inv_def table_ok_def)
qed

lemma ghost_remove_inv:
  assumes "shard_inv T hash rt_wf s" and "ghost_remove h s = (hit, s0)"
  shows "shard_inv T hash rt_wf s0" and "hit \<longleftrightarrow> h \<in> ghost_set s" and "raw_map s0 = raw_map s"
    and "live s0 = live s" and "same_caps s s0" and "shard_map T s0 = shard_map T s"
    and "small_live s0 = small_live s" and "main_live s0 = main_live s"
proof -
  have s0: "s0 = s\<lparr>ghost_set := ghost_set s - {h}\<rparr>" and hit: "hit = (h \<in> ghost_set s)"
    using assms(2) by (auto simp: ghost_remove_def)
  show "hit \<longleftrightarrow> h \<in> ghost_set s" "raw_map s0 = raw_map s" "live s0 = live s" "same_caps s s0"
      "small_live s0 = small_live s" "main_live s0 = main_live s"
    using hit by (simp_all add: s0 live_def same_caps_def)
  show m: "shard_map T s0 = shard_map T s" by (simp add: s0 shard_map_def)
  have "card (ghost_set s - {h}) \<le> card (ghost_set s)"
    using assms(1) by (intro card_mono) (auto simp: shard_inv_def ghost_ok_def)
  then have "ghost_ok s0" using assms(1) by (simp add: shard_inv_def ghost_ok_def s0)
  moreover have "n_small T s0 = n_small T s" "n_main T s0 = n_main T s"
    by (simp_all add: n_small_def n_main_def m)
  then have "counts_ok T s0"
    using assms(1) by (intro counts_ok_same [of s s0])
      (simp_all add: shard_inv_def same_caps_def s0)
  ultimately show "shard_inv T hash rt_wf s0"
    using assms(1) m by (simp add: shard_inv_def table_ok_def queues_ok_def caps_ok_def entry_ok_def s0)
qed

section \<open>Inserting a new key\<close>

lemma enqueue_inv:
  assumes inv: "shard_inv T hash rt_wf s" and absent: "shard_map T s k = None"
    and room: "if shard_cap s = 0 then small_live s < usize_max \<and> l = LOC_SMALL else live s < shard_cap s"
    and loc: "l = LOC_SMALL \<or> l = LOC_MAIN"
    and tab: "rt_wf t" "rt_keys_distinct T t" "rt_lookup T t = (shard_map T s)(k \<mapsto> CacheEntry_new v l)"
  shows "\<exists>s'. enqueue l (hash k) k (s\<lparr>raw_map := t\<rparr>) = Return s' \<and> shard_inv T hash rt_wf s' \<and>
    same_caps s s' \<and> raw_map s' = t \<and> ghost_set s' = ghost_set s \<and> live s' = live s + 1"
proof -
  have cap: "shard_cap s \<le> usize_max" using inv by (simp add: shard_inv_def caps_ok_def)
  define s' where "s' = (if l = LOC_MAIN
    then s\<lparr>raw_map := t, main_hashes := main_hashes s @ [hash k], main_keys := main_keys s @ [k],
           main_live := main_live s + 1\<rparr>
    else s\<lparr>raw_map := t, small_hashes := small_hashes s @ [hash k], small_keys := small_keys s @ [k],
           small_live := small_live s + 1\<rparr>)"
  have "enqueue l (hash k) k (s\<lparr>raw_map := t\<rparr>) = Return s'"
    using room cap loc
    by (auto simp: enqueue_def s'_def live_def split: if_splits)
  moreover have m: "shard_map T s' = (shard_map T s)(k \<mapsto> CacheEntry_new v l)"
    using tab(3) by (simp add: shard_map_def s'_def)
  have "queues_ok T hash s'"
  proof (rule queues_ok_update [OF _ m])
    show "queues_ok T hash s" using inv by (simp add: shard_inv_def)
  qed (use inv loc in \<open>auto simp: s'_def shard_inv_def queues_ok_def entry_ok_def\<close>)
  moreover have "counts_ok T s'"
    using inv room counts_insert [OF absent m] loc
    by (auto simp: shard_inv_def counts_ok_def live_def s'_def split: if_splits)
  moreover have "caps_ok s'" "ghost_ok s'" "same_caps s s'" "raw_map s' = t"
      "ghost_set s' = ghost_set s" "live s' = live s + 1"
    using inv by (simp_all add: shard_inv_def caps_ok_def ghost_ok_def same_caps_def s'_def live_def)
  moreover have "table_ok T rt_wf s'" using tab calculation by (simp add: table_ok_def)
  ultimately show ?thesis by (auto simp: shard_inv_def)
qed

text \<open>
  What an insertion of a fresh key leaves: at most one victim, chosen exactly when the
  live counters have reached the capacity.
\<close>

lemma insert_new_total:
  assumes inv: "shard_inv T hash rt_wf s" and absent: "shard_map T s k = None"
    and slot: "slot_ok (raw_map s) (hash k) slot"
    and room: "shard_cap s = 0 \<Longrightarrow> small_live s < usize_max"
  shows "\<exists>b s' vict. insert_new T (hash k) k slot v s = returns (b, s') \<and> shard_inv T hash rt_wf s' \<and>
    same_caps s s' \<and> b \<in> set (rt_iter T (raw_map s')) \<and>
    rt_as_ref T (raw_map s') b = (k, the (shard_map T s' k)) \<and>
    shard_map T s' k = Some (CacheEntry_new v (if hash k \<in> ghost_set s then LOC_MAIN else LOC_SMALL)) \<and>
    (vict = None \<longleftrightarrow> shard_cap s = 0 \<or> live s < shard_cap s) \<and>
    (case vict of None \<Rightarrow> shard_vals T s' = (shard_vals T s)(k \<mapsto> v)
     | Some j \<Rightarrow> shard_map T s j \<noteq> None \<and> shard_vals T s' = (shard_vals T s)(j := None, k \<mapsto> v))"
proof -
  obtain hit s0 where g: "ghost_remove (hash k) s = (hit, s0)" by fastforce
  note g0 = ghost_remove_inv [OF inv g]
  define l where "l = (if hit then LOC_MAIN else LOC_SMALL)"
  have l: "l = LOC_SMALL \<or> l = LOC_MAIN" by (simp add: l_def)
  have vals0: "shard_vals T s0 = shard_vals T s" using g0(6) by (simp add: shard_vals_def)
  have caps0: "shard_cap s0 = shard_cap s" using g0(5) by (simp add: same_caps_def)
  from evict_for_insert [OF g0(1)] obtain s1 vict where e: "evict_while_full T s0 = returns s1" "shard_inv T hash rt_wf s1"
      "same_caps s0 s1" "keeps_slots slot_ok s0 s1" "shard_cap s \<noteq> 0 \<longrightarrow> live s1 < shard_cap s"
      "vict = None \<longleftrightarrow> shard_cap s = 0 \<or> live s < shard_cap s"
      "case vict of None \<Rightarrow> s1 = s0
       | Some j \<Rightarrow> shard_map T s j \<noteq> None \<and> shard_vals T s1 = (shard_vals T s)(j := None)"
    unfolding caps0 g0(4,6) vals0 by blast
  have v1: "case vict of None \<Rightarrow> shard_vals T s1 = shard_vals T s
       | Some j \<Rightarrow> shard_vals T s1 = (shard_vals T s)(j := None)"
    using e(7) vals0 by (auto split: option.splits)
  have free: "small_live s1 < usize_max \<and> l = LOC_SMALL" if "shard_cap s = 0"
    using unbounded_ghost [OF inv that] g0(2,7) room that e(6,7) by (auto simp: l_def split: option.splits)
  have "shard_vals T s1 k = None"
    using v1 absent by (auto simp: shard_vals_def [of T s] split: option.splits)
  then have absent1: "shard_map T s1 k = None" by (simp add: shard_vals_def)
  have slot1: "slot_ok (raw_map s1) (hash k) slot"
    using e(4) slot g0(3) by (simp add: keeps_slots_def)
  obtain b t where ins: "rt_insert_in_slot T (raw_map s1) (hash k) slot (k, CacheEntry_new v l) = (b, t)"
    by fastforce
  note i = insert_lookup [OF inv_tab(1,2) [OF e(2)] absent1 [unfolded shard_map_def] slot1 ins]
  have "if shard_cap s1 = 0 then small_live s1 < usize_max \<and> l = LOC_SMALL else live s1 < shard_cap s1"
    using e(3,5) caps0 free by (simp add: same_caps_def)
  from enqueue_inv [OF e(2) absent1 this l i(1,2)] i(3)
  obtain s' where q: "enqueue l (hash k) k (s1\<lparr>raw_map := t\<rparr>) = Return s'" "shard_inv T hash rt_wf s'"
      "same_caps s1 s'" "raw_map s' = t"
    by (auto simp: shard_map_def)
  have m': "shard_map T s' = (shard_map T s1)(k \<mapsto> CacheEntry_new v l)"
    using i(3) q(4) by (simp add: shard_map_def)
  have "insert_new T (hash k) k slot v s = returns (b, s')"
    using e(1) ins q(1) by (simp add: insert_new_def g Let_def l_def)
  moreover have "case vict of None \<Rightarrow> shard_vals T s' = (shard_vals T s)(k \<mapsto> v)
     | Some j \<Rightarrow> shard_map T s j \<noteq> None \<and> shard_vals T s' = (shard_vals T s)(j := None, k \<mapsto> v)"
    using e(7) v1 shard_vals_update [OF m'] by (auto split: option.splits)
  ultimately show ?thesis
    using q(2,4) same_caps_trans [OF g0(5) same_caps_trans [OF e(3) q(3)]] i(4,5) m' e(6) g0(2)
    by (intro exI [of _ b] exI [of _ s'] exI [of _ vict]) (simp add: l_def)
qed

lemma insert_locked_present:
  assumes inv: "shard_inv T hash rt_wf s" and present: "shard_map T s k = Some e"
  shows "\<exists>s'. insert_locked T hash k v s = returns (Some (entry_val e), s') \<and>
    shard_inv T hash rt_wf s' \<and> same_caps s s' \<and>
    shard_map T s' = (shard_map T s)(k \<mapsto> e\<lparr>entry_value := sv_new v\<rparr>)"
proof -
  obtain r t where f: "rt_find_or_find_insert_slot T (raw_map s) (hash k) (key_eq k) (elem_hash hash) = (r, t)"
    by fastforce
  note wf = inv_tab(1,2) [OF inv]
  have "\<exists>b. r = Ok b"
    using find_or_slot_cases [OF wf f] present by (simp add: shard_map_def)
  then obtain b where r: "r = Ok b" ..
  note f' = find_or_slot_lookup [OF wf f]
  obtain e' where b: "b \<in> set (rt_iter T t)" "rt_as_ref T t b = (k, e')" "rt_lookup T (raw_map s) k = Some e'"
    using find_or_slot_Ok_lookup [OF wf f [unfolded r]] by blast
  then have e': "e' = e" using present by (simp add: shard_map_def)
  define s1 where "s1 = s\<lparr>raw_map := t\<rparr>"
  have inv1: "shard_inv T hash rt_wf s1"
    unfolding s1_def using inv f' by (intro shard_inv_rehash) (simp_all add: shard_map_def)
  have m1: "shard_map T s1 = shard_map T s" using f'(3) by (simp add: s1_def shard_map_def)
  define s' where "s' = s1\<lparr>raw_map := rt_write T t b (k, e\<lparr>entry_value := sv_new v\<rparr>)\<rparr>"
  have "b \<in> set (rt_iter T (raw_map s1))" "rt_as_ref T (raw_map s1) b = (k, e)"
      "raw_map s' = rt_write T (raw_map s1) b (k, e\<lparr>entry_value := sv_new v\<rparr>)"
    using b e' by (simp_all add: s1_def s'_def)
  note w = shard_write [OF inv_tab(3) [OF inv1] this]
  have "unat (entry_freq e) \<le> 3"
    using inv present by (auto simp: shard_inv_def queues_ok_def entry_ok_def)
  then have "shard_inv T hash rt_wf s'"
    using present m1 by (intro shard_inv_same_loc [OF inv1 w(1) _ w(2)]) (simp_all add: s'_def)
  moreover have "insert_locked T hash k v s = returns (Some (entry_val e), s')"
    by (simp add: insert_locked_def f r b(2) e' s'_def s1_def entry_val_def)
  moreover have "same_caps s s'" by (simp add: same_caps_def s'_def s1_def)
  ultimately show ?thesis using w(2) m1 by auto
qed

lemma insert_locked_absent:
  assumes inv: "shard_inv T hash rt_wf s" and absent: "shard_map T s k = None"
    and room: "shard_cap s = 0 \<Longrightarrow> small_live s < usize_max"
  shows "\<exists>s' vict. insert_locked T hash k v s = returns (None, s') \<and> shard_inv T hash rt_wf s' \<and>
    same_caps s s' \<and>
    shard_map T s' k = Some (CacheEntry_new v (if hash k \<in> ghost_set s then LOC_MAIN else LOC_SMALL)) \<and>
    (vict = None \<longleftrightarrow> shard_cap s = 0 \<or> live s < shard_cap s) \<and>
    (case vict of None \<Rightarrow> shard_vals T s' = (shard_vals T s)(k \<mapsto> v)
     | Some j \<Rightarrow> shard_map T s j \<noteq> None \<and> shard_vals T s' = (shard_vals T s)(j := None, k \<mapsto> v))"
proof -
  obtain r t where f: "rt_find_or_find_insert_slot T (raw_map s) (hash k) (key_eq k) (elem_hash hash) = (r, t)"
    by fastforce
  note wf = inv_tab(1,2) [OF inv]
  have "\<nexists>b. r = Ok b"
    using find_or_slot_cases [OF wf f] absent by (simp add: shard_map_def)
  then obtain slot where r: "r = Err slot" by (cases r) auto
  note f' = find_or_slot_lookup [OF wf f]
  define s1 where "s1 = s\<lparr>raw_map := t\<rparr>"
  have inv1: "shard_inv T hash rt_wf s1"
    unfolding s1_def using inv f' by (intro shard_inv_rehash) (simp_all add: shard_map_def)
  have m1: "shard_map T s1 = shard_map T s" using f'(3) by (simp add: s1_def shard_map_def)
  have v1: "shard_vals T s1 = shard_vals T s" by (simp add: shard_vals_def m1)
  have fr: "shard_cap s1 = shard_cap s" "small_live s1 = small_live s" "live s1 = live s"
      "ghost_set s1 = ghost_set s" "\<And>s'. same_caps s1 s' = same_caps s s'"
    by (simp_all add: s1_def live_def same_caps_def)
  have slot: "slot_ok (raw_map s1) (hash k) slot"
    using find_or_slot_Err_lookup(1) [OF wf f [unfolded r]] by (simp add: s1_def)
  have ins: "insert_locked T hash k v s =
      comp_bind (insert_new T (hash k) k slot v s1) (\<lambda>(b, s'). returns (None, s'))"
    by (simp add: insert_locked_def f r s1_def)
  from insert_new_total [OF inv1 _ slot, of v] absent room obtain b s' vict where
    "insert_new T (hash k) k slot v s1 = returns (b, s')" and
    rest: "shard_inv T hash rt_wf s'" "same_caps s s'"
    "shard_map T s' k = Some (CacheEntry_new v (if hash k \<in> ghost_set s then LOC_MAIN else LOC_SMALL))"
    "vict = None \<longleftrightarrow> shard_cap s = 0 \<or> live s < shard_cap s"
    "case vict of None \<Rightarrow> shard_vals T s' = (shard_vals T s)(k \<mapsto> v)
     | Some j \<Rightarrow> shard_map T s j \<noteq> None \<and> shard_vals T s' = (shard_vals T s)(j := None, k \<mapsto> v)"
    unfolding m1 v1 fr by blast
  then have "insert_locked T hash k v s = returns (None, s')" by (simp add: ins)
  with rest show ?thesis by blast
qed

section \<open>Removal\<close>

lemma live_dec_frame [simp]:
  "raw_map (live_dec l s) = raw_map s" "same_caps s (live_dec l s)"
  "shard_map T (live_dec l s) = shard_map T s" "shard_vals T (live_dec l s) = shard_vals T s"
  by (simp_all add: live_dec_def same_caps_def shard_map_def shard_vals_def)

lemma live_dec_inv:
  assumes inv: "shard_inv T hash rt_wf s" and present: "shard_map T s k = Some e"
    and tab: "table_ok T rt_wf s1" "shard_map T s1 = (shard_map T s)(k := None)"
    and frame: "s1 = s\<lparr>raw_map := t\<rparr>"
  shows "shard_inv T hash rt_wf (live_dec (entry_loc e) s1)"
proof -
  let ?s = "live_dec (entry_loc e) s1"
  have eo: "entry_ok s k e" using inv present by (simp add: shard_inv_def queues_ok_def)
  have loc: "is_small e \<noteq> is_main e" using eo not_small_and_main by (auto simp: entry_ok_def)
  have m: "shard_map T ?s = (shard_map T s)(k := None)" using tab(2) by simp
  have "queues_ok T hash ?s"
  proof (rule queues_ok_update [OF _ m])
    show "queues_ok T hash s" using inv by (simp add: shard_inv_def)
  qed (use inv in \<open>auto simp: shard_inv_def queues_ok_def frame live_dec_def\<close>)
  moreover have "counts_ok T ?s"
  proof -
    note c = counts_delete [OF present m]
    have "small_cap s \<le> shard_cap s" "1 \<le> small_cap s" if "0 < shard_cap s"
      using inv that by (auto simp: shard_inv_def dest: caps_facts)
    moreover have "counts_ok T s" using inv by (simp add: shard_inv_def)
    ultimately show ?thesis
      using c loc by (auto simp: counts_ok_def live_def frame live_dec_def is_small_def is_main_def
          split: if_splits)
  qed
  moreover have "caps_ok ?s" "ghost_ok ?s"
    using inv by (simp_all add: shard_inv_def caps_ok_def ghost_ok_def live_dec_def frame)
  moreover have "table_ok T rt_wf ?s" using tab(1) by (simp add: table_ok_def)
  ultimately show ?thesis by (simp add: shard_inv_def)
qed

lemma remove_found_spec:
  assumes inv: "shard_inv T hash rt_wf s" and b: "b \<in> set (rt_iter T (raw_map s))"
    "rt_as_ref T (raw_map s) b = (k, e)"
  shows "\<exists>s'. remove_found T b s = ((k, entry_val e), s') \<and> shard_inv T hash rt_wf s' \<and>
    same_caps s s' \<and> shard_map T s' = (shard_map T s)(k := None)"
proof -
  define s1 where "s1 = s\<lparr>raw_map := snd (rt_remove T (raw_map s) b)\<rparr>"
  have "raw_map s1 = snd (rt_remove T (raw_map s) b)" by (simp add: s1_def)
  note w = shard_remove [OF inv_tab(3) [OF inv] b this]
  have "shard_map T s k = Some e"
    using lookup_bucket [OF inv_tab(2) [OF inv] b] by (simp add: shard_map_def)
  then have "shard_inv T hash rt_wf (live_dec (entry_loc e) s1)"
    using live_dec_inv [OF inv _ w(1,2)] by (simp add: s1_def)
  moreover have "fst (rt_remove T (raw_map s) b) = (k, e)"
    by (rule remove_lookup(1) [OF inv_tab(1,2) [OF inv] b])
  then have "remove_found T b s = ((k, entry_val e), live_dec (entry_loc e) s1)"
    by (cases "rt_remove T (raw_map s) b") (auto simp: remove_found_def s1_def b(2) entry_val_def)
  moreover have "same_caps s (live_dec (entry_loc e) s1)"
    by (simp add: same_caps_def live_dec_def s1_def)
  ultimately show ?thesis using w(2) by auto
qed

lemma remove_locked_spec:
  assumes inv: "shard_inv T hash rt_wf s"
  shows "\<exists>s'. remove_locked T hash k s = (map_option (\<lambda>v. (k, v)) (shard_vals T s k), s') \<and>
    shard_inv T hash rt_wf s' \<and> same_caps s s' \<and> shard_map T s' = (shard_map T s)(k := None)"
proof (cases "rt_find T (raw_map s) (hash k) (key_eq k)")
  case None
  then have "shard_map T s k = None"
    using find_key_None [OF inv_tab(1) [OF inv]] by (simp add: shard_map_def)
  with None inv show ?thesis by (auto simp: remove_locked_def shard_vals_def)
next
  case (Some b)
  obtain e where b: "b \<in> set (rt_iter T (raw_map s))" "rt_as_ref T (raw_map s) b = (k, e)"
      "shard_map T s k = Some e"
    using find_key_Some [OF inv_tab(1,2) [OF inv] Some] by (auto simp: shard_map_def)
  with remove_found_spec [OF inv b(1,2)] Some show ?thesis
    by (auto simp: remove_locked_def shard_vals_def)
qed

lemma remove_if_locked_spec:
  assumes inv: "shard_inv T hash rt_wf s"
  shows "\<exists>s'. remove_if_locked T hash k f s =
      (case shard_vals T s k of Some v \<Rightarrow> if f k v then Some (k, v) else None | None \<Rightarrow> None, s') \<and>
    shard_inv T hash rt_wf s' \<and> same_caps s s' \<and>
    shard_map T s' = (case shard_vals T s k of
       Some v \<Rightarrow> if f k v then (shard_map T s)(k := None) else shard_map T s | None \<Rightarrow> shard_map T s)"
proof (cases "rt_find T (raw_map s) (hash k) (key_eq k)")
  case None
  then have "shard_map T s k = None"
    using find_key_None [OF inv_tab(1) [OF inv]] by (simp add: shard_map_def)
  with None inv show ?thesis by (auto simp: remove_if_locked_def shard_vals_def)
next
  case (Some b)
  obtain e where b: "b \<in> set (rt_iter T (raw_map s))" "rt_as_ref T (raw_map s) b = (k, e)"
      "shard_map T s k = Some e"
    using find_key_Some [OF inv_tab(1,2) [OF inv] Some] by (auto simp: shard_map_def)
  with remove_found_spec [OF inv b(1,2)] Some inv show ?thesis
    by (auto simp: remove_if_locked_def shard_vals_def entry_val_def)
qed

lemma remove_if_mut_locked_spec:
  assumes inv: "shard_inv T hash rt_wf s"
  shows "\<exists>s'. remove_if_mut_locked T hash k f s =
      (case shard_vals T s k of
         Some v \<Rightarrow> (case f k v of (True, v') \<Rightarrow> Some (k, v') | (False, v') \<Rightarrow> None) | None \<Rightarrow> None, s') \<and>
    shard_inv T hash rt_wf s' \<and> same_caps s s' \<and>
    shard_vals T s' = (case shard_vals T s k of
       Some v \<Rightarrow> (case f k v of (True, v') \<Rightarrow> (shard_vals T s)(k := None)
                 | (False, v') \<Rightarrow> (shard_vals T s)(k \<mapsto> v')) | None \<Rightarrow> shard_vals T s)"
proof (cases "rt_find T (raw_map s) (hash k) (key_eq k)")
  case None
  then have "shard_map T s k = None"
    using find_key_None [OF inv_tab(1) [OF inv]] by (simp add: shard_map_def)
  with None inv show ?thesis by (auto simp: remove_if_mut_locked_def shard_vals_def)
next
  case (Some b)
  obtain e where b: "b \<in> set (rt_iter T (raw_map s))" "rt_as_ref T (raw_map s) b = (k, e)"
      "shard_map T s k = Some e"
    using find_key_Some [OF inv_tab(1,2) [OF inv] Some] by (auto simp: shard_map_def)
  obtain verdict v' where f: "f k (entry_val e) = (verdict, v')" by fastforce
  define s1 where "s1 = s\<lparr>raw_map := rt_write T (raw_map s) b (k, e\<lparr>entry_value := sv_new v'\<rparr>)\<rparr>"
  have raw1: "raw_map s1 = rt_write T (raw_map s) b (k, e\<lparr>entry_value := sv_new v'\<rparr>)"
    by (simp add: s1_def)
  note w = shard_write [OF inv_tab(3) [OF inv] b(1,2) raw1]
  have "unat (entry_freq e) \<le> 3"
    using inv b(3) by (auto simp: shard_inv_def queues_ok_def entry_ok_def)
  then have inv1: "shard_inv T hash rt_wf s1"
    using b(3) by (intro shard_inv_same_loc [OF inv w(1) _ w(2)]) (simp_all add: s1_def)
  have b1: "b \<in> set (rt_iter T (raw_map s1))" "rt_as_ref T (raw_map s1) b = (k, e\<lparr>entry_value := sv_new v'\<rparr>)"
    using write_bucket [OF inv_tab(1) [OF inv] b(1), of "(k, e\<lparr>entry_value := sv_new v'\<rparr>)"] b
    by (simp_all add: raw1)
  obtain s2 where s2: "remove_found T b s1 = ((k, v'), s2)" "shard_inv T hash rt_wf s2"
      "same_caps s1 s2" "shard_map T s2 = (shard_map T s1)(k := None)"
    using remove_found_spec [OF inv1 b1] by auto
  have caps: "same_caps s s1" by (simp add: same_caps_def s1_def)
  have v1: "shard_vals T s1 = (shard_vals T s)(k \<mapsto> v')" using shard_vals_update [OF w(2)] by simp
  have "remove_if_mut_locked T hash k f s =
      (if verdict then (Some (k, v'), s2) else (None, s1))"
    using Some b f s2(1) by (simp add: remove_if_mut_locked_def s1_def entry_val_def)
  then show ?thesis
    using inv1 s2 v1 caps same_caps_trans [OF caps s2(3)] shard_vals_delete [OF s2(4)]
      shard_vals_Some [OF b(3)] f
    by (auto split: bool.splits)
qed

section \<open>Lookup\<close>

lemma get_locked_spec:
  assumes inv: "shard_inv T hash rt_wf s"
  shows "case shard_map T s k of
      None \<Rightarrow> get_locked T hash k s = (None, s)
    | Some e \<Rightarrow> \<exists>b s'. get_locked T hash k s = (Some b, s') \<and> shard_inv T hash rt_wf s' \<and>
        (\<exists>t. s' = s\<lparr>raw_map := t\<rparr>) \<and> b \<in> set (rt_iter T (raw_map s')) \<and>
        rt_as_ref T (raw_map s') b = (k, bump_freq e) \<and>
        shard_map T s' = (shard_map T s)(k \<mapsto> bump_freq e)"
proof (cases "rt_find T (raw_map s) (hash k) (key_eq k)")
  case None
  then have "shard_map T s k = None"
    using find_key_None [OF inv_tab(1) [OF inv]] by (simp add: shard_map_def)
  with None show ?thesis by (simp add: get_locked_def)
next
  case (Some b)
  obtain e where b: "b \<in> set (rt_iter T (raw_map s))" "rt_as_ref T (raw_map s) b = (k, e)"
      "shard_map T s k = Some e"
    using find_key_Some [OF inv_tab(1,2) [OF inv] Some] by (auto simp: shard_map_def)
  define s1 where "s1 = s\<lparr>raw_map := rt_write T (raw_map s) b (k, bump_freq e)\<rparr>"
  have raw1: "raw_map s1 = rt_write T (raw_map s) b (k, bump_freq e)" by (simp add: s1_def)
  note w = shard_write [OF inv_tab(3) [OF inv] b(1,2) raw1]
  have "unat (entry_freq e) \<le> 3"
    using inv b(3) by (auto simp: shard_inv_def queues_ok_def entry_ok_def)
  then have "unat (entry_freq (bump_freq e)) \<le> 3" by (rule bump_freq_bound)
  then have "shard_inv T hash rt_wf s1"
    using b(3) by (intro shard_inv_same_loc [OF inv w(1) _ w(2)]) (simp_all add: s1_def)
  moreover have "b \<in> set (rt_iter T (raw_map s1))" "rt_as_ref T (raw_map s1) b = (k, bump_freq e)"
    using write_bucket [OF inv_tab(1) [OF inv] b(1), of "(k, bump_freq e)"] b by (simp_all add: raw1)
  moreover have "get_locked T hash k s = (Some b, s1)"
    using Some b by (simp add: get_locked_def s1_def)
  ultimately show ?thesis using b(3) w(2) by (auto simp: s1_def)
qed

end

end
