(* ===== verification/Raw_Lock.thy ===== *)
theory Raw_Lock
  imports Prelude
begin

text \<open>
  \<open>src/lock.rs\<close>: the 64-bit state word of \<open>RawRwLock\<close> and its methods, here as the
  calling thread runs them with no other thread taking a step: a compare-and-exchange
  whose expected value was just read succeeds, and a thread that parks is never woken, so
  the blocking methods return \<open>None\<close> where they would park. Interleavings of several
  threads are the subject of theory \<open>Lock_Protocol\<close>. The result of an unlock or a
  downgrade also says which parked threads it unparks.
\<close>

definition READERS_PARKED :: u64 where [layout_simps]: "READERS_PARKED = 1"
definition WRITERS_PARKED :: u64 where [layout_simps]: "WRITERS_PARKED = 2"
definition ONE_READER :: u64 where [layout_simps]: "ONE_READER = 4"
definition ONE_WRITER :: u64 where [layout_simps]: "ONE_WRITER = NOT (READERS_PARKED OR WRITERS_PARKED)"

datatype unpark = Unpark_none | Unpark_all_readers | Unpark_one_writer

definition compare_exchange :: "u64 \<Rightarrow> u64 \<Rightarrow> u64 \<Rightarrow> (u64, u64) result \<times> u64" where
  "compare_exchange state current new =
     (if state = current then (Ok state, new) else (Err state, state))"

definition checked_add :: "u64 \<Rightarrow> u64 \<Rightarrow> u64 option" where
  "checked_add a b = (if unat a + unat b < 2 ^ 64 then Some (a + b) else None)"

lemma checked_add_code [code]:
  "checked_add a b = (if uint a + uint b < 18446744073709551616 then Some (a + b) else None)"
proof -
  have "unat a + unat b < 2 ^ 64 \<longleftrightarrow> int (unat a + unat b) < int (2 ^ 64)" by (simp only: of_nat_less_iff)
  also have "\<dots> \<longleftrightarrow> uint a + uint b < 18446744073709551616" by simp
  finally show ?thesis by (simp add: checked_add_def)
qed

definition try_lock_exclusive :: "u64 \<Rightarrow> bool \<times> u64" where
  "try_lock_exclusive state = (case compare_exchange state 0 ONE_WRITER of
     (Ok _, st) \<Rightarrow> (True, st) | (Err _, st) \<Rightarrow> (False, st))"

definition lock_exclusive_slow :: "u64 \<Rightarrow> u64 comp" where
  "lock_exclusive_slow state =
     (if state AND ONE_WRITER = 0 then returns (state OR ONE_WRITER) else None)"

definition lock_exclusive :: "u64 \<Rightarrow> u64 comp" where
  "lock_exclusive state = (case compare_exchange state 0 ONE_WRITER of
     (Ok _, st) \<Rightarrow> returns st
   | (Err _, st) \<Rightarrow> (case compare_exchange st 0 ONE_WRITER of
        (Ok _, st') \<Rightarrow> returns st' | (Err _, st') \<Rightarrow> lock_exclusive_slow st'))"

definition unlock_exclusive_slow :: "u64 \<Rightarrow> (u64 \<times> unpark) run" where
  "unlock_exclusive_slow state =
     (let parked = state AND (READERS_PARKED OR WRITERS_PARKED)
      in if state AND ONE_WRITER \<noteq> ONE_WRITER \<or> parked = 0 then Panic Assert_failed
         else if parked = READERS_PARKED OR WRITERS_PARKED
         then Return (WRITERS_PARKED, Unpark_all_readers)
         else if parked = READERS_PARKED then Return (0, Unpark_all_readers)
         else if parked = WRITERS_PARKED then Return (0, Unpark_one_writer)
         else Panic Assert_failed)"

definition unlock_exclusive :: "u64 \<Rightarrow> (u64 \<times> unpark) run" where
  "unlock_exclusive state = (case compare_exchange state ONE_WRITER 0 of
     (Ok _, st) \<Rightarrow> Return (st, Unpark_none) | (Err _, st) \<Rightarrow> unlock_exclusive_slow st)"

definition try_lock_shared_fast :: "u64 \<Rightarrow> bool \<times> u64" where
  "try_lock_shared_fast state = (case checked_add state ONE_READER of
     Some new \<Rightarrow> if new AND ONE_WRITER \<noteq> ONE_WRITER then (True, new) else (False, state)
   | None \<Rightarrow> (False, state))"

definition try_lock_shared_slow :: "u64 \<Rightarrow> bool \<times> u64" where
  "try_lock_shared_slow state = (case checked_add state ONE_READER of
     Some new \<Rightarrow> if new AND ONE_WRITER = ONE_WRITER then (False, state) else (True, new)
   | None \<Rightarrow> (False, state))"

definition try_lock_shared :: "u64 \<Rightarrow> bool \<times> u64" where
  "try_lock_shared state = (case try_lock_shared_fast state of
     (True, st) \<Rightarrow> (True, st) | (False, st) \<Rightarrow> try_lock_shared_slow st)"

definition lock_shared_slow :: "u64 \<Rightarrow> u64 comp" where
  "lock_shared_slow state = (case checked_add state ONE_READER of
     Some new \<Rightarrow> if new AND ONE_WRITER = ONE_WRITER then Some (Panic Assert_failed) else returns new
   | None \<Rightarrow> None)"

definition lock_shared :: "u64 \<Rightarrow> u64 comp" where
  "lock_shared state = (case try_lock_shared_fast state of
     (True, st) \<Rightarrow> returns st
   | (False, st) \<Rightarrow> (case try_lock_shared_fast st of
        (True, st') \<Rightarrow> returns st' | (False, st') \<Rightarrow> lock_shared_slow st'))"

definition unlock_shared_slow :: "u64 \<Rightarrow> u64 \<times> unpark" where
  "unlock_shared_slow state = (case compare_exchange state WRITERS_PARKED 0 of
     (Ok _, st) \<Rightarrow> (st, Unpark_one_writer) | (Err _, st) \<Rightarrow> (st, Unpark_none))"

definition unlock_shared :: "u64 \<Rightarrow> u64 \<times> unpark" where
  "unlock_shared state =
     (let st = state - ONE_READER
      in if state = ONE_READER OR WRITERS_PARKED then unlock_shared_slow st else (st, Unpark_none))"

definition downgrade :: "u64 \<Rightarrow> u64 \<times> unpark" where
  "downgrade state =
     (state AND (ONE_READER OR WRITERS_PARKED),
      if state AND READERS_PARKED \<noteq> 0 then Unpark_all_readers else Unpark_none)"

section \<open>The encoding of the state word\<close>

text \<open>
  A word held by \<open>r\<close> readers is \<open>4 * r\<close> plus the two parking bits; a word held by the
  writer is \<open>ONE_WRITER\<close> plus the parking bits.
\<close>

lemma ONE_WRITER_eq: "ONE_WRITER = 18446744073709551612"
  by (simp add: layout_simps)

lemma ONE_WRITER_mask: "ONE_WRITER = NOT (mask 2)"
  by (simp add: layout_simps mask_eq_exp_minus_1)

lemma and_ONE_WRITER: "unat (x AND ONE_WRITER) = unat x div 4 * 4"
proof -
  have "x AND NOT (mask 2) = push_bit 2 (drop_bit 2 x)"
  proof (rule bit_word_eqI)
    fix n assume "n < LENGTH(64)"
    have "Suc (Suc (n - 2)) = n" if "2 \<le> n" using that by simp
    then show "bit (x AND NOT (mask 2)) n = bit (push_bit 2 (drop_bit 2 x)) n"
      using \<open>n < LENGTH(64)\<close> by (auto simp: bit_simps not_less)
  qed
  moreover have "unat (push_bit 2 (drop_bit 2 x)) = unat x div 4 * 4"
  proof -
    have "unat x div 4 * 4 < 2 ^ 64"
      using unsigned_less [of x, where 'a = nat] div_times_less_eq_dividend [of "unat x" 4] by simp
    then show ?thesis
      by (simp add: push_bit_eq_mult unat_word_ariths unat_drop_bit_eq drop_bit_eq_div)
  qed
  ultimately show ?thesis by (simp add: ONE_WRITER_mask)
qed

end
