(* ===== verification/Try_Result.thy ===== *)
theory Try_Result
  imports Prelude
begin

text \<open>
  \<open>src/try_result.rs\<close>: the outcome of the non-blocking lookups, with its queries and
  the panicking \<open>unwrap\<close>.
\<close>

datatype 'r TryResult = Present 'r | Absent | Locked

fun is_present :: "'r TryResult \<Rightarrow> bool" where
  "is_present (Present r) = True"
| "is_present _ = False"

fun is_absent :: "'r TryResult \<Rightarrow> bool" where
  "is_absent Absent = True"
| "is_absent _ = False"

fun is_locked :: "'r TryResult \<Rightarrow> bool" where
  "is_locked Locked = True"
| "is_locked _ = False"

fun tr_unwrap :: "'r TryResult \<Rightarrow> 'r run" where
  "tr_unwrap (Present r) = Return r"
| "tr_unwrap Locked = Panic (Unwrap_failed ''Called unwrap() on TryResult::Locked'')"
| "tr_unwrap Absent = Panic (Unwrap_failed ''Called unwrap() on TryResult::Absent'')"

fun tr_try_unwrap :: "'r TryResult \<Rightarrow> 'r option" where
  "tr_try_unwrap (Present r) = Some r"
| "tr_try_unwrap _ = None"

lemma try_unwrap_iff: "tr_try_unwrap x = Some r \<longleftrightarrow> tr_unwrap x = Return r"
  by (cases x) auto

end
