(* ===== verification/Neo_Cache.thy ===== *)
theory Neo_Cache
  imports Shard_Ops Raw_Lock Try_Result
begin

text \<open>
  \<open>src/lib.rs\<close>: the sharded cache. A shard sits behind a lock (\<open>RwLock\<close> of
  \<open>lock_api\<close> over the \<open>RawRwLock\<close> of \<open>src/lock.rs\<close>): here its state word and the
  data. A method that keeps its guard inside one call is \<open>with_write\<close> or \<open>with_read\<close>
  around the body of theory \<open>Shard_Ops\<close>; \<open>get\<close> and \<open>get_mut\<close> return a \<open>Ref\<close> that
  still holds the lock. A call that would wait for a lock held by an outstanding guard
  does not return (\<open>None\<close>). The hash function is the user's \<open>BuildHasher\<close>, a field
  of the cache; a borrowed lookup key \<open>Q\<close> is the key it stands for (the \<open>Borrow\<close>
  contract: equal hash, equal comparison).
\<close>

record 'd RwLock =
  rw_state :: u64
  rw_data :: 'd

record ('k, 't) NeoCache =
  shift :: usize
  shards :: "('k, 't) ShardData RwLock list"
  hasher :: "'k \<Rightarrow> u64"
  cache_capacity :: usize

text \<open>The guard of \<open>Ref\<close> or \<open>RefMut\<close> (which shard) and the bucket its key and value point into.\<close>

record Ref =
  ref_shard :: usize
  ref_bucket :: nat

section \<open>Constructors\<close>

definition ncb :: "usize \<Rightarrow> usize" where
  "ncb shard_amount = trailing_zeros shard_amount"

text \<open>\<open>std::thread::available_parallelism()\<close> is an input: \<open>None\<close> for its error case.\<close>

definition default_shard_amount :: "usize option \<Rightarrow> usize run" where
  "default_shard_amount parallelism =
     (let n = (case parallelism of None \<Rightarrow> 1 | Some p \<Rightarrow> p)
      in if n * 16 \<le> usize_max then next_power_of_two (n * 16) else Panic Arithmetic_overflow)"

definition reduced_shard_amount :: "usize \<Rightarrow> usize \<Rightarrow> usize run" where
  "reduced_shard_amount cap n =
     (if cap > 0 \<and> cap div n < 4
      then run_bind (next_power_of_two (cap div 4)) (\<lambda>p. Return (max p 2))
      else Return n)"

definition with_capacity_and_hasher_and_shard_amount ::
    "('k, 'v, 't) table \<Rightarrow> usize \<Rightarrow> ('k \<Rightarrow> u64) \<Rightarrow> usize \<Rightarrow> ('k, 't) NeoCache run" where
  "with_capacity_and_hasher_and_shard_amount T cap h amount =
     (if \<not> amount > 1 then Panic Assert_failed
      else if \<not> is_power_of_two amount then Panic Assert_failed
      else run_bind (reduced_shard_amount cap amount) (\<lambda>n.
           run_bind (usize_sub ptr_size_bits (ncb n)) (\<lambda>sh.
           let per_shard = (if cap = 0 then 0 else max (div_ceil cap n) 1)
           in Return \<lparr>shift = sh,
                shards = map (\<lambda>_. \<lparr>rw_state = 0, rw_data = ShardData_new T 0 per_shard\<rparr>) [0..<n],
                hasher = h, cache_capacity = cap\<rparr>)))"

definition with_capacity_and_hasher ::
    "('k, 'v, 't) table \<Rightarrow> usize option \<Rightarrow> usize \<Rightarrow> ('k \<Rightarrow> u64) \<Rightarrow> ('k, 't) NeoCache run" where
  "with_capacity_and_hasher T parallelism cap h =
     run_bind (default_shard_amount parallelism)
       (with_capacity_and_hasher_and_shard_amount T cap h)"

definition with_hasher ::
    "('k, 'v, 't) table \<Rightarrow> usize option \<Rightarrow> ('k \<Rightarrow> u64) \<Rightarrow> ('k, 't) NeoCache run" where
  "with_hasher T parallelism h = with_capacity_and_hasher T parallelism 0 h"

definition with_hasher_and_shard_amount ::
    "('k, 'v, 't) table \<Rightarrow> ('k \<Rightarrow> u64) \<Rightarrow> usize \<Rightarrow> ('k, 't) NeoCache run" where
  "with_hasher_and_shard_amount T h amount = with_capacity_and_hasher_and_shard_amount T 0 h amount"

text \<open>The constructors of the default hasher take the fresh \<open>RandomState\<close> as an argument.\<close>

definition NeoCache_new ::
    "('k, 'v, 't) table \<Rightarrow> usize option \<Rightarrow> ('k \<Rightarrow> u64) \<Rightarrow> usize \<Rightarrow> ('k, 't) NeoCache run" where
  "NeoCache_new T parallelism random_state cap =
     with_capacity_and_hasher T parallelism cap random_state"

definition with_shard_amount ::
    "('k, 'v, 't) table \<Rightarrow> ('k \<Rightarrow> u64) \<Rightarrow> usize \<Rightarrow> usize \<Rightarrow> ('k, 't) NeoCache run" where
  "with_shard_amount T random_state cap amount =
     with_capacity_and_hasher_and_shard_amount T cap random_state amount"

definition new_unbounded ::
    "('k, 'v, 't) table \<Rightarrow> usize option \<Rightarrow> ('k \<Rightarrow> u64) \<Rightarrow> ('k, 't) NeoCache run" where
  "new_unbounded T parallelism random_state = with_capacity_and_hasher T parallelism 0 random_state"

definition NeoCache_default ::
    "('k, 'v, 't) table \<Rightarrow> usize option \<Rightarrow> ('k \<Rightarrow> u64) \<Rightarrow> ('k, 't) NeoCache run" where
  "NeoCache_default T parallelism default_hasher = with_hasher T parallelism default_hasher"

section \<open>Hashing and shard selection\<close>

definition hash_u64 :: "('k, 't) NeoCache \<Rightarrow> 'k \<Rightarrow> u64" where
  "hash_u64 c item = hasher c item"

definition hash_usize :: "('k, 't) NeoCache \<Rightarrow> 'k \<Rightarrow> u64" where
  "hash_usize c item = hash_u64 c item"

definition determine_shard :: "('k, 't) NeoCache \<Rightarrow> u64 \<Rightarrow> usize" where
  "determine_shard c hash = unat (drop_bit (shift c) (push_bit 7 hash))"

definition shard_count :: "('k, 't) NeoCache \<Rightarrow> usize" where
  "shard_count c = length (shards c)"

definition shard_at :: "('k, 't) NeoCache \<Rightarrow> usize \<Rightarrow> ('k, 't) ShardData" where
  "shard_at c i = rw_data (shards c ! i)"

definition put_shard :: "('k, 't) NeoCache \<Rightarrow> usize \<Rightarrow> ('k, 't) ShardData \<Rightarrow> ('k, 't) NeoCache" where
  "put_shard c i s = c\<lparr>shards := (shards c)[i := (shards c ! i)\<lparr>rw_data := s\<rparr>]\<rparr>"

definition put_state :: "('k, 't) NeoCache \<Rightarrow> usize \<Rightarrow> u64 \<Rightarrow> ('k, 't) NeoCache" where
  "put_state c i st = c\<lparr>shards := (shards c)[i := (shards c ! i)\<lparr>rw_state := st\<rparr>]\<rparr>"

section \<open>Guards\<close>

text \<open>\<open>_get_read_shard\<close>: unlocked access, for the read-only view.\<close>

definition get_read_shard :: "('k, 't) NeoCache \<Rightarrow> usize \<Rightarrow> ('k, 't) ShardData run" where
  "get_read_shard c i =
     (if i < length (shards c) then Return (shard_at c i) else Panic Debug_assert_failed)"

definition yield_read_shard :: "('k, 't) NeoCache \<Rightarrow> usize \<Rightarrow> ('k, 't) NeoCache comp" where
  "yield_read_shard c i =
     (if i < length (shards c)
      then comp_bind (lock_shared (rw_state (shards c ! i))) (\<lambda>st. returns (put_state c i st))
      else Some (Panic Debug_assert_failed))"

definition yield_write_shard :: "('k, 't) NeoCache \<Rightarrow> usize \<Rightarrow> ('k, 't) NeoCache comp" where
  "yield_write_shard c i =
     (if i < length (shards c)
      then comp_bind (lock_exclusive (rw_state (shards c ! i))) (\<lambda>st. returns (put_state c i st))
      else Some (Panic Debug_assert_failed))"

definition try_yield_read_shard :: "('k, 't) NeoCache \<Rightarrow> usize \<Rightarrow> ('k, 't) NeoCache option run" where
  "try_yield_read_shard c i =
     (if i < length (shards c)
      then (case try_lock_shared (rw_state (shards c ! i)) of
              (True, st) \<Rightarrow> Return (Some (put_state c i st)) | (False, _) \<Rightarrow> Return None)
      else Panic Debug_assert_failed)"

definition try_yield_write_shard :: "('k, 't) NeoCache \<Rightarrow> usize \<Rightarrow> ('k, 't) NeoCache option run" where
  "try_yield_write_shard c i =
     (if i < length (shards c)
      then (case try_lock_exclusive (rw_state (shards c ! i)) of
              (True, st) \<Rightarrow> Return (Some (put_state c i st)) | (False, _) \<Rightarrow> Return None)
      else Panic Debug_assert_failed)"

text \<open>Dropping a guard unlocks the shard's lock.\<close>

definition drop_read_guard :: "('k, 't) NeoCache \<Rightarrow> usize \<Rightarrow> ('k, 't) NeoCache" where
  "drop_read_guard c i = put_state c i (fst (unlock_shared (rw_state (shards c ! i))))"

definition drop_write_guard :: "('k, 't) NeoCache \<Rightarrow> usize \<Rightarrow> ('k, 't) NeoCache run" where
  "drop_write_guard c i =
     run_bind (unlock_exclusive (rw_state (shards c ! i))) (\<lambda>(st, _). Return (put_state c i st))"

definition with_write :: "('k, 't) NeoCache \<Rightarrow> usize
    \<Rightarrow> (('k, 't) ShardData \<Rightarrow> ('a \<times> ('k, 't) ShardData) comp) \<Rightarrow> ('a \<times> ('k, 't) NeoCache) comp" where
  "with_write c i body =
     comp_bind (yield_write_shard c i) (\<lambda>c1.
     comp_bind (body (shard_at c1 i)) (\<lambda>(a, s).
     comp_bind (lift_run (drop_write_guard (put_shard c1 i s) i)) (\<lambda>c2. returns (a, c2))))"

definition with_read :: "('k, 't) NeoCache \<Rightarrow> usize
    \<Rightarrow> (('k, 't) ShardData \<Rightarrow> ('a \<times> ('k, 't) ShardData) comp) \<Rightarrow> ('a \<times> ('k, 't) NeoCache) comp" where
  "with_read c i body =
     comp_bind (yield_read_shard c i) (\<lambda>c1.
     comp_bind (body (shard_at c1 i)) (\<lambda>(a, s).
     returns (a, drop_read_guard (put_shard c1 i s) i)))"

section \<open>Insertion and removal\<close>

definition nc_insert :: "('k, 'v, 't) table \<Rightarrow> ('k, 't) NeoCache \<Rightarrow> 'k \<Rightarrow> 'v
    \<Rightarrow> ('v option \<times> ('k, 't) NeoCache) comp" where
  "nc_insert T c key v =
     (let hash = hash_u64 c key; idx = determine_shard c hash
      in with_write c idx (insert_locked T (hasher c) key v))"

definition nc_remove :: "('k, 'v, 't) table \<Rightarrow> ('k, 't) NeoCache \<Rightarrow> 'k
    \<Rightarrow> (('k \<times> 'v) option \<times> ('k, 't) NeoCache) comp" where
  "nc_remove T c key =
     (let hash = hash_u64 c key; idx = determine_shard c hash
      in with_write c idx (\<lambda>s. returns (remove_locked T (hasher c) key s)))"

definition nc_remove_if :: "('k, 'v, 't) table \<Rightarrow> ('k, 't) NeoCache \<Rightarrow> 'k \<Rightarrow> ('k \<Rightarrow> 'v \<Rightarrow> bool)
    \<Rightarrow> (('k \<times> 'v) option \<times> ('k, 't) NeoCache) comp" where
  "nc_remove_if T c key f =
     (let hash = hash_u64 c key; idx = determine_shard c hash
      in with_write c idx (\<lambda>s. returns (remove_if_locked T (hasher c) key f s)))"

definition nc_remove_if_mut :: "('k, 'v, 't) table \<Rightarrow> ('k, 't) NeoCache \<Rightarrow> 'k \<Rightarrow> ('k \<Rightarrow> 'v \<Rightarrow> bool \<times> 'v)
    \<Rightarrow> (('k \<times> 'v) option \<times> ('k, 't) NeoCache) comp" where
  "nc_remove_if_mut T c key f =
     (let hash = hash_u64 c key; idx = determine_shard c hash
      in with_write c idx (\<lambda>s. returns (remove_if_mut_locked T (hasher c) key f s)))"

section \<open>Lookup\<close>

definition nc_get :: "('k, 'v, 't) table \<Rightarrow> ('k, 't) NeoCache \<Rightarrow> 'k
    \<Rightarrow> (Ref option \<times> ('k, 't) NeoCache) comp" where
  "nc_get T c key =
     (let hash = hash_u64 c key; idx = determine_shard c hash
      in comp_bind (yield_read_shard c idx) (\<lambda>c1.
         case get_locked T (hasher c) key (shard_at c1 idx) of
           (Some b, s) \<Rightarrow> returns (Some \<lparr>ref_shard = idx, ref_bucket = b\<rparr>, put_shard c1 idx s)
         | (None, s) \<Rightarrow> returns (None, drop_read_guard c1 idx)))"

definition nc_get_mut :: "('k, 'v, 't) table \<Rightarrow> ('k, 't) NeoCache \<Rightarrow> 'k
    \<Rightarrow> (Ref option \<times> ('k, 't) NeoCache) comp" where
  "nc_get_mut T c key =
     (let hash = hash_u64 c key; idx = determine_shard c hash
      in comp_bind (yield_write_shard c idx) (\<lambda>c1.
         case get_locked T (hasher c) key (shard_at c1 idx) of
           (Some b, s) \<Rightarrow> returns (Some \<lparr>ref_shard = idx, ref_bucket = b\<rparr>, put_shard c1 idx s)
         | (None, s) \<Rightarrow> comp_bind (lift_run (drop_write_guard c1 idx)) (\<lambda>c2. returns (None, c2))))"

definition nc_try_get :: "('k, 'v, 't) table \<Rightarrow> ('k, 't) NeoCache \<Rightarrow> 'k
    \<Rightarrow> (Ref TryResult \<times> ('k, 't) NeoCache) run" where
  "nc_try_get T c key =
     (let hash = hash_u64 c key; idx = determine_shard c hash
      in run_bind (try_yield_read_shard c idx) (\<lambda>g. case g of
           None \<Rightarrow> Return (Locked, c)
         | Some c1 \<Rightarrow> (case get_locked T (hasher c) key (shard_at c1 idx) of
             (Some b, s) \<Rightarrow> Return (Present \<lparr>ref_shard = idx, ref_bucket = b\<rparr>, put_shard c1 idx s)
           | (None, s) \<Rightarrow> Return (Absent, drop_read_guard c1 idx))))"

definition nc_try_get_mut :: "('k, 'v, 't) table \<Rightarrow> ('k, 't) NeoCache \<Rightarrow> 'k
    \<Rightarrow> (Ref TryResult \<times> ('k, 't) NeoCache) run" where
  "nc_try_get_mut T c key =
     (let hash = hash_u64 c key; idx = determine_shard c hash
      in run_bind (try_yield_write_shard c idx) (\<lambda>g. case g of
           None \<Rightarrow> Return (Locked, c)
         | Some c1 \<Rightarrow> (case get_locked T (hasher c) key (shard_at c1 idx) of
             (Some b, s) \<Rightarrow> Return (Present \<lparr>ref_shard = idx, ref_bucket = b\<rparr>, put_shard c1 idx s)
           | (None, s) \<Rightarrow> run_bind (drop_write_guard c1 idx) (\<lambda>c2. Return (Absent, c2)))))"

text \<open>The pair a reference points to, and writing through a \<open>RefMut\<close>.\<close>

definition ref_pair :: "('k, 'v, 't) table \<Rightarrow> ('k, 't) NeoCache \<Rightarrow> Ref \<Rightarrow> 'k \<times> 'v" where
  "ref_pair T c r =
     (let (k, e) = rt_as_ref T (raw_map (shard_at c (ref_shard r))) (ref_bucket r)
      in (k, sv_get (entry_value e)))"

definition ref_write :: "('k, 'v, 't) table \<Rightarrow> ('k, 't) NeoCache \<Rightarrow> Ref \<Rightarrow> 'v \<Rightarrow> ('k, 't) NeoCache" where
  "ref_write T c r v =
     (let s = shard_at c (ref_shard r); (k, e) = rt_as_ref T (raw_map s) (ref_bucket r)
      in put_shard c (ref_shard r)
           (s\<lparr>raw_map := rt_write T (raw_map s) (ref_bucket r) (k, e\<lparr>entry_value := sv_new v\<rparr>)\<rparr>))"

definition nc_view :: "('k, 'v, 't) table \<Rightarrow> ('k, 't) NeoCache \<Rightarrow> 'k \<Rightarrow> ('k \<Rightarrow> 'v \<Rightarrow> 'r)
    \<Rightarrow> ('r option \<times> ('k, 't) NeoCache) comp" where
  "nc_view T c key f =
     comp_bind (nc_get T c key) (\<lambda>(r, c1). case r of
       None \<Rightarrow> returns (None, c1)
     | Some r \<Rightarrow> (let (k, v) = ref_pair T c1 r
                  in returns (Some (f k v), drop_read_guard c1 (ref_shard r))))"

definition nc_contains_key :: "('k, 'v, 't) table \<Rightarrow> ('k, 't) NeoCache \<Rightarrow> 'k
    \<Rightarrow> (bool \<times> ('k, 't) NeoCache) comp" where
  "nc_contains_key T c key =
     comp_bind (nc_get T c key) (\<lambda>(r, c1). case r of
       None \<Rightarrow> returns (False, c1)
     | Some r \<Rightarrow> returns (True, drop_read_guard c1 (ref_shard r)))"

definition nc_alter :: "('k, 'v, 't) table \<Rightarrow> ('k, 't) NeoCache \<Rightarrow> 'k \<Rightarrow> ('k \<Rightarrow> 'v \<Rightarrow> 'v run)
    \<Rightarrow> ('k, 't) NeoCache comp" where
  "nc_alter T c key f =
     comp_bind (nc_get_mut T c key) (\<lambda>(r, c1). case r of
       None \<Rightarrow> returns c1
     | Some r \<Rightarrow> (let (k, v) = ref_pair T c1 r
                  in comp_bind (lift_run (map_in_place_2 k v f)) (\<lambda>v'.
                     lift_run (drop_write_guard (ref_write T c1 r v') (ref_shard r)))))"

section \<open>Operations on all shards\<close>

text \<open>\<open>self.shards.iter().for_each(...)\<close>: one shard after the other, an accumulator threaded.\<close>

fun each_shard :: "('a \<Rightarrow> ('k, 't) NeoCache \<Rightarrow> usize \<Rightarrow> ('a \<times> ('k, 't) NeoCache) comp) \<Rightarrow> usize list
    \<Rightarrow> 'a \<Rightarrow> ('k, 't) NeoCache \<Rightarrow> ('a \<times> ('k, 't) NeoCache) comp" where
  "each_shard f [] a c = returns (a, c)"
| "each_shard f (i # is) a c = comp_bind (f a c i) (\<lambda>(a', c'). each_shard f is a' c')"

definition nc_len :: "('k, 'v, 't) table \<Rightarrow> ('k, 't) NeoCache \<Rightarrow> (usize \<times> ('k, 't) NeoCache) comp" where
  "nc_len T c =
     each_shard (\<lambda>n c i. with_read c i (\<lambda>s.
       comp_bind (lift_run (usize_add n (shard_len T s))) (\<lambda>m. returns (m, s)))) [0..<shard_count c] 0 c"

definition nc_capacity :: "('k, 'v, 't) table \<Rightarrow> ('k, 't) NeoCache \<Rightarrow> (usize \<times> ('k, 't) NeoCache) comp" where
  "nc_capacity T c =
     each_shard (\<lambda>n c i. with_read c i (\<lambda>s.
       comp_bind (lift_run (usize_add n (shard_capacity T s))) (\<lambda>m. returns (m, s)))) [0..<shard_count c] 0 c"

definition nc_is_empty :: "('k, 'v, 't) table \<Rightarrow> ('k, 't) NeoCache \<Rightarrow> (bool \<times> ('k, 't) NeoCache) comp" where
  "nc_is_empty T c = comp_bind (nc_len T c) (\<lambda>(n, c'). returns (n = 0, c'))"

definition nc_clear :: "('k, 'v, 't) table \<Rightarrow> ('k, 't) NeoCache \<Rightarrow> (unit \<times> ('k, 't) NeoCache) comp" where
  "nc_clear T c =
     each_shard (\<lambda>u c i. with_write c i (\<lambda>s. returns ((), clear_all T s))) [0..<shard_count c] () c"

definition nc_retain :: "('k, 'v, 't) table \<Rightarrow> ('k, 't) NeoCache
    \<Rightarrow> ('s \<Rightarrow> 'k \<Rightarrow> 'v \<Rightarrow> bool \<times> 'v \<times> 's) \<Rightarrow> 's \<Rightarrow> ('s \<times> ('k, 't) NeoCache) comp" where
  "nc_retain T c f st =
     each_shard (\<lambda>st c i. with_write c i (\<lambda>s. returns (retain_locked T f st s))) [0..<shard_count c] st c"

definition nc_shrink_to_fit :: "('k, 'v, 't) table \<Rightarrow> ('k, 't) NeoCache
    \<Rightarrow> (unit \<times> ('k, 't) NeoCache) comp" where
  "nc_shrink_to_fit T c =
     each_shard (\<lambda>u c i. with_write c i (\<lambda>s.
       let size = rt_len T (raw_map s)
       in returns ((), map_shrink_to T size (hasher c) s))) [0..<shard_count c] () c"

text \<open>\<open>?\<close> leaves the loop at the first shard whose reservation fails.\<close>

fun try_reserve_from :: "('k, 'v, 't) table \<Rightarrow> usize \<Rightarrow> usize list \<Rightarrow> ('k, 't) NeoCache
    \<Rightarrow> ((unit, unit) result \<times> ('k, 't) NeoCache) comp" where
  "try_reserve_from T additional [] c = returns (Ok (), c)"
| "try_reserve_from T additional (i # is) c =
     comp_bind (with_write c i (\<lambda>s. returns (map_try_reserve T additional (hasher c) s)))
       (\<lambda>(r, c'). case r of
          Err e \<Rightarrow> returns (Err (), c') | Ok u \<Rightarrow> try_reserve_from T additional is c')"

definition nc_try_reserve :: "('k, 'v, 't) table \<Rightarrow> ('k, 't) NeoCache \<Rightarrow> usize
    \<Rightarrow> ((unit, unit) result \<times> ('k, 't) NeoCache) comp" where
  "nc_try_reserve T c additional = try_reserve_from T additional [0..<shard_count c] c"

definition nc_clone :: "('k, 'v, 't) table \<Rightarrow> ('v \<Rightarrow> 'v) \<Rightarrow> ('k, 't) NeoCache
    \<Rightarrow> (('k, 't) NeoCache \<times> ('k, 't) NeoCache) comp" where
  "nc_clone T vcl c =
     comp_bind (each_shard (\<lambda>inner c i. with_read c i (\<lambda>s.
         returns (inner @ [\<lparr>rw_state = 0, rw_data = ShardData_clone T vcl s\<rparr>], s))) [0..<shard_count c] [] c)
       (\<lambda>(inner, c'). returns (\<lparr>shift = shift c, shards = inner, hasher = hasher c,
          cache_capacity = cache_capacity c\<rparr>, c'))"

fun nc_extend :: "('k, 'v, 't) table \<Rightarrow> ('k, 't) NeoCache \<Rightarrow> ('k \<times> 'v) list
    \<Rightarrow> ('k, 't) NeoCache comp" where
  "nc_extend T c [] = returns c"
| "nc_extend T c (pair # ps) =
     comp_bind (nc_insert T c (fst pair) (snd pair)) (\<lambda>(_, c'). nc_extend T c' ps)"

definition nc_from_iter :: "('k, 'v, 't) table \<Rightarrow> usize option \<Rightarrow> ('k \<Rightarrow> u64) \<Rightarrow> ('k \<times> 'v) list
    \<Rightarrow> ('k, 't) NeoCache comp" where
  "nc_from_iter T parallelism default_hasher ps =
     comp_bind (lift_run (NeoCache_default T parallelism default_hasher)) (\<lambda>c. nc_extend T c ps)"

section \<open>Operators\<close>

definition nc_shl :: "('k, 'v, 't) table \<Rightarrow> ('k, 't) NeoCache \<Rightarrow> 'k \<times> 'v
    \<Rightarrow> ('v option \<times> ('k, 't) NeoCache) comp" where
  "nc_shl T c pair = nc_insert T c (fst pair) (snd pair)"

definition unwrap_ref :: "Ref option \<times> ('k, 't) NeoCache \<Rightarrow> (Ref \<times> ('k, 't) NeoCache) comp" where
  "unwrap_ref = (\<lambda>(r, c). case r of
     Some r \<Rightarrow> returns (r, c)
   | None \<Rightarrow> Some (Panic (Unwrap_failed ''called `Option::unwrap()` on a `None` value'')))"

definition nc_shr :: "('k, 'v, 't) table \<Rightarrow> ('k, 't) NeoCache \<Rightarrow> 'k
    \<Rightarrow> (Ref \<times> ('k, 't) NeoCache) comp" where
  "nc_shr T c key = comp_bind (nc_get T c key) unwrap_ref"

definition nc_bitor :: "('k, 'v, 't) table \<Rightarrow> ('k, 't) NeoCache \<Rightarrow> 'k
    \<Rightarrow> (Ref \<times> ('k, 't) NeoCache) comp" where
  "nc_bitor T c key = comp_bind (nc_get_mut T c key) unwrap_ref"

definition nc_sub :: "('k, 'v, 't) table \<Rightarrow> ('k, 't) NeoCache \<Rightarrow> 'k
    \<Rightarrow> (('k \<times> 'v) option \<times> ('k, 't) NeoCache) comp" where
  "nc_sub T c key = nc_remove T c key"

definition nc_bitand :: "('k, 'v, 't) table \<Rightarrow> ('k, 't) NeoCache \<Rightarrow> 'k
    \<Rightarrow> (bool \<times> ('k, 't) NeoCache) comp" where
  "nc_bitand T c key = nc_contains_key T c key"

end
