(* ===== verification/Neo_Cache_Inv.thy ===== *)
theory Neo_Cache_Inv
  imports Neo_Cache
begin

text \<open>
  The invariant of a whole cache, what the constructors establish, shard selection, and
  the effect of running a body under a shard's lock. The observable content of a cache is
  \<open>cache_vals\<close>: the map from keys to values, read in the shard each key is routed to.
\<close>

definition per_shard_cap :: "usize \<Rightarrow> usize \<Rightarrow> usize" where
  "per_shard_cap cap n = (if cap = 0 then 0 else max (div_ceil cap n) 1)"

definition key_shard :: "('k, 't) NeoCache \<Rightarrow> 'k \<Rightarrow> usize" where
  "key_shard c k = determine_shard c (hasher c k)"

definition layout_ok :: "('k, 't) NeoCache \<Rightarrow> bool" where
  "layout_ok c \<longleftrightarrow> (\<exists>b. 1 \<le> b \<and> shift c + b = 64 \<and> length (shards c) = 2 ^ b)"

definition cache_inv :: "('k, 'v, 't) table \<Rightarrow> ('t \<Rightarrow> bool) \<Rightarrow> ('k, 't) NeoCache \<Rightarrow> bool" where
  "cache_inv T tok c \<longleftrightarrow> layout_ok c \<and>
     (\<forall>i < length (shards c).
        shard_inv T (hasher c) tok (shard_at c i) \<and>
        shard_cap (shard_at c i) = per_shard_cap (cache_capacity c) (length (shards c)) \<and>
        (\<forall>k \<in> dom (shard_map T (shard_at c i)). key_shard c k = i))"

definition quiet :: "('k, 't) NeoCache \<Rightarrow> bool" where
  "quiet c \<longleftrightarrow> (\<forall>l \<in> set (shards c). rw_state l = 0)"

definition cache_vals :: "('k, 'v, 't) table \<Rightarrow> ('k, 't) NeoCache \<Rightarrow> 'k \<rightharpoonup> 'v" where
  "cache_vals T c = (\<lambda>k. shard_vals T (shard_at c (key_shard c k)) k)"

definition cache_map :: "('k, 'v, 't) table \<Rightarrow> ('k, 't) NeoCache \<Rightarrow> 'k \<rightharpoonup> 'v CacheEntry" where
  "cache_map T c = (\<lambda>k. shard_map T (shard_at c (key_shard c k)) k)"

section \<open>Shard selection\<close>

lemma unat_drop_bit_less:
  assumes "n + b = 64"
  shows "unat (drop_bit n (w :: u64)) < 2 ^ b"
proof -
  have "(2::nat) ^ 64 = 2 ^ b * 2 ^ n" using assms by (metis add.commute power_add)
  moreover have "unat w < 2 ^ 64" using unsigned_less [of w, where 'a = nat] by simp
  ultimately have "unat w < 2 ^ b * 2 ^ n" by simp
  then have "unat w div 2 ^ n < 2 ^ b" by (simp add: less_mult_imp_div_less)
  then show ?thesis unfolding unat_drop_bit_eq by (simp add: drop_bit_eq_div)
qed

lemma determine_shard_less:
  "layout_ok c \<Longrightarrow> determine_shard c h < length (shards c)"
  by (auto simp: layout_ok_def determine_shard_def unat_drop_bit_less)

lemma key_shard_less: "cache_inv T tok c \<Longrightarrow> key_shard c k < length (shards c)"
  by (simp add: cache_inv_def key_shard_def determine_shard_less)

section \<open>The constructor\<close>

lemma reduced_shard_amount_spec:
  assumes "cap \<le> usize_max" and "n = 2 ^ b" and "1 \<le> b" and "n \<le> usize_max"
  shows "\<exists>b'. reduced_shard_amount cap n = Return (2 ^ b') \<and> 1 \<le> b' \<and> b' \<le> b"
proof (cases "cap > 0 \<and> cap div n < 4")
  case False
  with assms show ?thesis by (auto simp: reduced_shard_amount_def)
next
  case True
  have "cap div 4 \<le> 2 ^ 63" using assms(1) by (simp add: usize_max_def)
  then have np: "next_power_of_two (cap div 4) = Return (pow2_from 1 (cap div 4))"
    by (rule next_power_of_two_Return)
  obtain j where j: "pow2_from 1 (cap div 4) = 2 ^ j" using pow2_from_1(1) by blast
  have "cap < 4 * n" using True assms(2) by (simp add: less_mult_imp_div_less div_less_iff_less_mult)
  then have "cap div 4 \<le> 2 ^ b" using assms(2) by simp
  then have "(2::nat) ^ j \<le> 2 ^ b" using pow2_from_1(3) j by metis
  then have jb: "j \<le> b" by (rule power_le_imp_le_exp [rotated]) simp
  have "max ((2::nat) ^ j) 2 = 2 ^ max j 1"
    using one_le_power [of "2::nat" "j - 1"] by (cases j) (simp_all add: max_absorb1)
  then have "reduced_shard_amount cap n = Return (2 ^ max j 1)"
    using True np j by (simp add: reduced_shard_amount_def)
  with jb assms(3) show ?thesis by (intro exI [of _ "max j 1"]) simp
qed

lemma constructor_Return:
  assumes "cap \<le> usize_max" and "1 < n" and "is_power_of_two n" and "n \<le> usize_max"
  obtains b where "1 \<le> b" and "2 ^ b \<le> n" and "b \<le> 63" and
    "reduced_shard_amount cap n = Return (2 ^ b)" and
    "with_capacity_and_hasher_and_shard_amount T cap h n = Return \<lparr>shift = 64 - b,
       shards = map (\<lambda>_. \<lparr>rw_state = 0, rw_data = ShardData_new T 0 (per_shard_cap cap (2 ^ b))\<rparr>) [0..<2 ^ b],
       hasher = h, cache_capacity = cap\<rparr>"
proof -
  obtain a where a: "n = 2 ^ a" using assms(3) by (auto simp: is_power_of_two_iff)
  have a1: "1 \<le> a" using assms(2) a by (cases a) auto
  have "(2::nat) ^ a < 2 ^ 64" using assms(4) a by (simp add: usize_max_def)
  then have "a \<le> 63" using power_less_imp_less_exp [of "2::nat" a 64] by simp
  obtain b where b: "reduced_shard_amount cap n = Return (2 ^ b)" "1 \<le> b" "b \<le> a"
    using reduced_shard_amount_spec [OF assms(1) a a1 assms(4)] by blast
  have "usize_sub ptr_size_bits (ncb (2 ^ b)) = Return (64 - b)"
    using b(3) \<open>a \<le> 63\<close> by (simp add: ncb_def ptr_size_bits_def)
  then have "with_capacity_and_hasher_and_shard_amount T cap h n = Return \<lparr>shift = 64 - b,
       shards = map (\<lambda>_. \<lparr>rw_state = 0, rw_data = ShardData_new T 0 (per_shard_cap cap (2 ^ b))\<rparr>) [0..<2 ^ b],
       hasher = h, cache_capacity = cap\<rparr>"
    using assms(2,3) b(1)
    by (simp add: with_capacity_and_hasher_and_shard_amount_def per_shard_cap_def Let_def)
  moreover have "2 ^ b \<le> n" using b(3) a by simp
  ultimately show thesis using b \<open>a \<le> 63\<close> by (intro that) auto
qed

lemma per_shard_cap_le: "0 < n \<Longrightarrow> per_shard_cap cap n \<le> cap"
  using div_ceil_le [of n cap] by (auto simp: per_shard_cap_def)

lemma per_shard_cap_total:
  "0 < n \<Longrightarrow> 0 < cap \<Longrightarrow> cap \<le> per_shard_cap cap n * n \<and> per_shard_cap cap n * n \<le> cap + n - 1"
  using div_ceil_bounds [of n cap] div_ceil_pos [of cap n] by (simp add: per_shard_cap_def max_absorb1)

section \<open>Lock scopes\<close>

lemma lock_quiet [simp]:
  "lock_exclusive 0 = returns ONE_WRITER" "unlock_exclusive ONE_WRITER = Return (0, Unpark_none)"
  "lock_shared 0 = returns ONE_READER" "unlock_shared ONE_READER = (0, Unpark_none)"
  "try_lock_exclusive 0 = (True, ONE_WRITER)" "try_lock_shared 0 = (True, ONE_READER)"
  by (simp_all add: lock_exclusive_def unlock_exclusive_def compare_exchange_def lock_shared_def
      try_lock_shared_fast_def checked_add_def unlock_shared_def try_lock_exclusive_def
      try_lock_shared_def Let_def layout_simps)

lemma put_state_frame [simp]:
  "shift (put_state c i st) = shift c" "hasher (put_state c i st) = hasher c"
  "cache_capacity (put_state c i st) = cache_capacity c"
  "length (shards (put_state c i st)) = length (shards c)"
  "shard_at (put_state c i st) j = shard_at c j"
  by (cases "i < length (shards c)"; simp add: put_state_def shard_at_def nth_list_update list_update_beyond)+

lemma put_shard_frame [simp]:
  "shift (put_shard c i s) = shift c" "hasher (put_shard c i s) = hasher c"
  "cache_capacity (put_shard c i s) = cache_capacity c"
  "length (shards (put_shard c i s)) = length (shards c)"
  by (simp_all add: put_shard_def)

lemma shard_at_put:
  "i < length (shards c) \<Longrightarrow> shard_at (put_shard c i s) j = (if i = j then s else shard_at c j)"
  by (simp add: put_shard_def shard_at_def nth_list_update)

lemma put_shard_same: "put_shard c i (shard_at c i) = c"
  by (simp add: put_shard_def shard_at_def list_update_id)

lemma put_shard_twice: "put_shard (put_shard c i s) i s' = put_shard c i s'"
  by (cases "i < length (shards c)") (simp_all add: put_shard_def list_update_beyond)

lemma key_shard_put [simp]:
  "key_shard (put_shard c i s) k = key_shard c k" "key_shard (put_state c i st) k = key_shard c k"
  by (simp_all add: key_shard_def determine_shard_def)

lemma quiet_nth: "quiet c \<Longrightarrow> i < length (shards c) \<Longrightarrow> rw_state (shards c ! i) = 0"
  by (simp add: quiet_def)

lemma quiet_put_shard [simp]: "quiet c \<Longrightarrow> quiet (put_shard c i s)"
  by (cases "i < length (shards c)")
    (auto simp: quiet_def put_shard_def list_update_beyond dest!: set_update_subset_insert [THEN subsetD])

lemma state_shuffle:
  assumes "i < length (shards c)"
  shows "put_state (put_shard (put_state c i st) i s) i st' = put_shard (put_state c i st') i s"
    and "rw_state (shards (put_shard (put_state c i st) i s) ! i) = st"
    and "rw_state (shards (put_state c i st) ! i) = st"
    and "put_state (put_state c i st) i st' = put_state c i st'"
  using assms by (cases "shards c ! i"; simp add: put_state_def put_shard_def)+

lemma put_state_0: "quiet c \<Longrightarrow> i < length (shards c) \<Longrightarrow> put_state c i 0 = c"
proof -
  assume a: "quiet c" "i < length (shards c)"
  have "(shards c ! i)\<lparr>rw_state := 0\<rparr> = shards c ! i"
    using quiet_nth [OF a] by (cases "shards c ! i") simp
  then show ?thesis by (simp add: put_state_def list_update_id)
qed

lemma with_write_quiet:
  assumes "quiet c" and "i < length (shards c)"
  shows "with_write c i body = comp_bind (body (shard_at c i)) (\<lambda>(a, s). returns (a, put_shard c i s))"
  using assms
  by (simp add: with_write_def yield_write_shard_def quiet_nth drop_write_guard_def state_shuffle put_state_0)

lemma with_read_quiet:
  assumes "quiet c" and "i < length (shards c)"
  shows "with_read c i body = comp_bind (body (shard_at c i)) (\<lambda>(a, s). returns (a, put_shard c i s))"
  using assms
  by (simp add: with_read_def yield_read_shard_def quiet_nth drop_read_guard_def state_shuffle put_state_0)

section \<open>Updating one shard\<close>

lemma cache_inv_shard:
  assumes "cache_inv T tok c" and "i < length (shards c)"
  shows "shard_inv T (hasher c) tok (shard_at c i)"
    and "shard_cap (shard_at c i) = per_shard_cap (cache_capacity c) (length (shards c))"
    and "shard_map T (shard_at c i) k = Some e \<Longrightarrow> key_shard c k = i"
  using assms by (auto simp: cache_inv_def)

lemma cache_inv_put:
  assumes "cache_inv T tok c" and "i < length (shards c)"
    and "shard_inv T (hasher c) tok s" and "same_caps (shard_at c i) s"
    and "\<And>k. k \<in> dom (shard_map T s) \<Longrightarrow> k \<in> dom (shard_map T (shard_at c i)) \<or> key_shard c k = i"
  shows "cache_inv T tok (put_shard c i s)"
  using assms by (auto simp: cache_inv_def shard_at_put layout_ok_def same_caps_def)

lemma cache_vals_put:
  assumes "i < length (shards c)"
  shows "cache_vals T (put_shard c i s) =
    (\<lambda>k. if key_shard c k = i then shard_vals T s k else cache_vals T c k)"
  using assms by (auto simp: cache_vals_def shard_at_put fun_eq_iff)

lemma cache_vals_put_update:
  assumes "i < length (shards c)" and "key_shard c k = i"
    and "shard_vals T s = (shard_vals T (shard_at c i))(k := x)"
  shows "cache_vals T (put_shard c i s) = (cache_vals T c)(k := x)"
proof
  fix j
  show "cache_vals T (put_shard c i s) j = ((cache_vals T c)(k := x)) j"
    using assms by (cases "key_shard c j = i") (auto simp: cache_vals_def shard_at_put)
qed

lemma cache_vals_at: "cache_vals T c k = shard_vals T (shard_at c (key_shard c k)) k"
  by (simp add: cache_vals_def)

section \<open>Lock words\<close>

definition lock_word :: "('k, 't) NeoCache \<Rightarrow> usize \<Rightarrow> u64" where
  "lock_word c i = rw_state (shards c ! i)"

lemma lock_word_put_shard [simp]: "lock_word (put_shard c i s) j = lock_word c j"
proof (cases "i < length (shards c) \<and> i = j")
  case False
  then have "shards (put_shard c i s) ! j = shards c ! j" by (auto simp: put_shard_def list_update_beyond)
  then show ?thesis by (simp add: lock_word_def)
qed (simp add: lock_word_def put_shard_def)

lemma lock_word_put_state: "i < length (shards c) \<Longrightarrow> lock_word (put_state c i v) j = (if i = j then v else lock_word c j)"
  by (cases "i = j") (simp_all add: lock_word_def put_state_def)

lemma quiet_lock_word: "quiet c \<longleftrightarrow> (\<forall>i < length (shards c). lock_word c i = 0)"
  by (simp add: quiet_def lock_word_def all_set_conv_all_nth)

end
