(* ===== verification/Neo_Cache_Ops.thy ===== *)
theory Neo_Cache_Ops
  imports Neo_Cache_Inv
begin

text \<open>
  What the methods of \<open>NeoCache\<close> that touch one shard do to a cache at rest (no guard
  outstanding): each returns, keeps the invariant and changes the map of values as stated.
  The lemmas are proved once in the locale \<open>shard_table\<close>, for every table that obeys the
  contract of theory \<open>Raw_Table\<close>.
\<close>

definition cache_ok :: "('k, 'v, 't) table \<Rightarrow> ('k \<Rightarrow> u64) \<Rightarrow> ('t \<Rightarrow> bool) \<Rightarrow> ('k, 't) NeoCache \<Rightarrow> bool" where
  "cache_ok T hash tok c \<longleftrightarrow> hasher c = hash \<and> cache_inv T tok c \<and> quiet c"

definition same_config :: "('k, 't) NeoCache \<Rightarrow> ('k, 't) NeoCache \<Rightarrow> bool" where
  "same_config c c' \<longleftrightarrow> shift c' = shift c \<and> hasher c' = hasher c \<and>
     cache_capacity c' = cache_capacity c \<and> shard_count c' = shard_count c"

definition shard_full :: "('k, 't) ShardData \<Rightarrow> bool" where
  "shard_full s \<longleftrightarrow> shard_cap s \<noteq> 0 \<and> shard_cap s \<le> live s"

definition home :: "('k, 't) NeoCache \<Rightarrow> 'k \<Rightarrow> ('k, 't) ShardData" where
  "home c k = shard_at c (key_shard c k)"

lemma same_config_put [simp]: "same_config c (put_shard c i s)"
  by (simp add: same_config_def shard_count_def)

lemma same_config_refl [simp]: "same_config c c"
  by (simp add: same_config_def)

lemma same_config_trans: "same_config c c' \<Longrightarrow> same_config c' c'' \<Longrightarrow> same_config c c''"
  by (simp add: same_config_def)

lemma cache_vals_home: "cache_vals T c k = shard_vals T (home c k) k"
  by (simp add: cache_vals_def home_def)

lemma cache_map_home: "cache_map T c k = shard_map T (home c k) k"
  by (simp add: cache_map_def home_def)

lemma key_shard_eq: "determine_shard c (hash_u64 c k) = key_shard c k"
  by (simp add: key_shard_def hash_u64_def)

lemma cache_vals_put_evict:
  assumes "i < length (shards c)" and "key_shard c k = i" and "key_shard c j = i"
    and "shard_vals T s = (shard_vals T (shard_at c i))(j := None, k := x)"
  shows "cache_vals T (put_shard c i s) = (cache_vals T c)(j := None, k := x)"
proof
  fix l
  show "cache_vals T (put_shard c i s) l = ((cache_vals T c)(j := None, k := x)) l"
    using assms by (cases "key_shard c l = i") (auto simp: cache_vals_def shard_at_put)
qed

context shard_table
begin

lemma cache_okD:
  assumes "cache_ok T hash rt_wf c"
  shows "hasher c = hash" and "cache_inv T rt_wf c" and "quiet c"
  using assms by (simp_all add: cache_ok_def)

lemma home_okD:
  assumes "cache_ok T hash rt_wf c"
  shows "key_shard c k < length (shards c)" and "shard_inv T hash rt_wf (home c k)"
    and "shard_cap (home c k) = per_shard_cap (cache_capacity c) (shard_count c)"
  using assms cache_inv_shard(1,2) [of T rt_wf c "key_shard c k"]
  by (auto simp: cache_ok_def home_def shard_count_def key_shard_less)

text \<open>
  One body run under the write lock of the key's shard: the contract every such method
  goes through.
\<close>

lemma with_write_home:
  assumes "cache_ok T hash rt_wf c"
  shows "with_write c (key_shard c k) body =
    comp_bind (body (home c k)) (\<lambda>(a, s). returns (a, put_shard c (key_shard c k) s))"
  by (simp add: with_write_quiet [OF cache_okD(3) [OF assms] home_okD(1) [OF assms]] home_def)

lemma put_home_ok:
  assumes ok: "cache_ok T hash rt_wf c" and s: "shard_inv T hash rt_wf s" "same_caps (home c k) s"
    and dom: "dom (shard_vals T s) \<subseteq> insert k (dom (shard_vals T (home c k)))"
  shows "cache_ok T hash rt_wf (put_shard c (key_shard c k) s)"
    and "home (put_shard c (key_shard c k) s) k = s"
proof -
  note c = cache_okD [OF ok] home_okD [OF ok, of k]
  have "cache_inv T rt_wf (put_shard c (key_shard c k) s)"
    using c(1,2,4) s dom by (intro cache_inv_put) (auto simp: home_def)
  then show "cache_ok T hash rt_wf (put_shard c (key_shard c k) s)"
    using ok by (simp add: cache_ok_def)
  show "home (put_shard c (key_shard c k) s) k = s"
    using c(4) by (simp add: home_def shard_at_put)
qed

lemma vals_update_home:
  assumes "cache_ok T hash rt_wf c" and "shard_vals T s = (shard_vals T (home c k))(k := x)"
  shows "cache_vals T (put_shard c (key_shard c k) s) = (cache_vals T c)(k := x)"
  using assms home_okD(1) [OF assms(1)] by (intro cache_vals_put_update) (simp_all add: home_def)

lemma vals_same_home:
  assumes "cache_ok T hash rt_wf c" and "shard_vals T s = shard_vals T (home c k)"
  shows "cache_vals T (put_shard c (key_shard c k) s) = cache_vals T c"
proof -
  have "cache_vals T (put_shard c (key_shard c k) s) = (cache_vals T c)(k := cache_vals T c k)"
    using assms(2) by (intro vals_update_home [OF assms(1)]) (simp add: cache_vals_home)
  then show ?thesis by simp
qed

section \<open>Construction\<close>

lemma new_shard_empty: "shard_map T (ShardData_new T n cap) = Map.empty"
  using lookup_empty [OF iter_with_capacity]
  by (simp add: shard_map_def ShardData_new_def split: prod.split)

lemma new_shard_inv:
  assumes "cap \<le> usize_max"
  shows "shard_inv T hash rt_wf (ShardData_new T n cap)"
proof -
  let ?s = "ShardData_new T n cap"
  note defs = ShardData_new_def split_beta
  have "table_ok T rt_wf ?s"
    using wf_with_capacity lookup_empty [OF iter_with_capacity]
    by (simp add: table_ok_def ShardData_new_def split_beta)
  moreover have "queues_ok T hash ?s"
    by (simp add: queues_ok_def new_shard_empty) (simp add: ShardData_new_def split_beta)
  moreover have caps: "caps_ok ?s" using assms by (simp add: caps_ok_def defs)
  moreover have "ghost_ok ?s" by (simp add: ghost_ok_def defs)
  moreover have "counts_ok T ?s"
    using caps_facts [OF caps]
    by (auto simp: counts_ok_def n_small_def n_main_def live_def new_shard_empty)
      (auto simp: ShardData_new_def split_beta)
  ultimately show ?thesis by (simp add: shard_inv_def)
qed

lemma constructor_ok:
  assumes "cap \<le> usize_max" and "1 < n" and "is_power_of_two n" and "n \<le> usize_max"
  obtains c where "with_capacity_and_hasher_and_shard_amount T cap hash n = Return c"
    and "cache_ok T hash rt_wf c" and "cache_vals T c = Map.empty" and "cache_capacity c = cap"
    and "shard_count c \<le> n"
proof -
  obtain b where b: "1 \<le> b" "2 ^ b \<le> n" "b \<le> 63" and
    ret: "with_capacity_and_hasher_and_shard_amount T cap hash n = Return \<lparr>shift = 64 - b,
       shards = map (\<lambda>_. \<lparr>rw_state = 0, rw_data = ShardData_new T 0 (per_shard_cap cap (2 ^ b))\<rparr>) [0..<2 ^ b],
       hasher = hash, cache_capacity = cap\<rparr>" (is "_ = Return ?c")
    by (rule constructor_Return [OF assms])
  have at: "shard_at ?c i = ShardData_new T 0 (per_shard_cap cap (2 ^ b))" if "i < 2 ^ b" for i
    using that by (simp add: shard_at_def)
  have lay: "layout_ok ?c" using b(1,3) by (auto simp: layout_ok_def intro!: exI [of _ b])
  have cap: "per_shard_cap cap (2 ^ b) \<le> usize_max"
    using per_shard_cap_le [of "2 ^ b" cap] assms(1) by simp
  have "cache_inv T rt_wf ?c"
    using lay new_shard_inv [OF cap] at
    by (simp add: cache_inv_def new_shard_empty) (simp add: ShardData_new_def split_beta)
  then have "cache_ok T hash rt_wf ?c" by (simp add: cache_ok_def quiet_def)
  moreover have "cache_vals T ?c k = None" for k
  proof -
    have "key_shard ?c k < 2 ^ b"
      using determine_shard_less [OF lay] by (simp add: key_shard_def)
    then show ?thesis by (simp add: cache_vals_def at shard_vals_def new_shard_empty)
  qed
  ultimately show thesis using ret b(2) by (intro that) (auto simp: shard_count_def)
qed

section \<open>Insertion\<close>

lemma nc_insert_present:
  assumes ok: "cache_ok T hash rt_wf c" and present: "cache_map T c k = Some e"
  shows "\<exists>c'. nc_insert T c k v = returns (Some (entry_val e), c') \<and> cache_ok T hash rt_wf c' \<and>
    same_config c c' \<and> cache_vals T c' = (cache_vals T c)(k \<mapsto> v) \<and>
    cache_map T c' k = Some (e\<lparr>entry_value := sv_new v\<rparr>)"
proof -
  note c = cache_okD [OF ok] home_okD [OF ok, of k]
  obtain s' where s': "insert_locked T hash k v (home c k) = returns (Some (entry_val e), s')"
      "shard_inv T hash rt_wf s'" "same_caps (home c k) s'"
      "shard_map T s' = (shard_map T (home c k))(k \<mapsto> e\<lparr>entry_value := sv_new v\<rparr>)"
    using insert_locked_present [OF c(5) present [unfolded cache_map_home], of v] by blast
  have "dom (shard_vals T s') \<subseteq> insert k (dom (shard_vals T (home c k)))" using s'(4) by simp
  note w = put_home_ok [OF ok s'(2,3) this]
  have "nc_insert T c k v = returns (Some (entry_val e), put_shard c (key_shard c k) s')"
    using s'(1) by (simp add: nc_insert_def key_shard_eq c(1) with_write_home [OF ok])
  moreover have "cache_vals T (put_shard c (key_shard c k) s') = (cache_vals T c)(k \<mapsto> v)"
    using shard_vals_update [OF s'(4)] by (intro vals_update_home [OF ok]) simp
  moreover have "cache_map T (put_shard c (key_shard c k) s') k = Some (e\<lparr>entry_value := sv_new v\<rparr>)"
    using w(2) s'(4) by (simp add: cache_map_home)
  ultimately show ?thesis using w(1) same_config_put by blast
qed

lemma nc_insert_absent:
  assumes ok: "cache_ok T hash rt_wf c" and absent: "cache_vals T c k = None"
    and room: "cache_capacity c = 0 \<Longrightarrow> small_live (home c k) < usize_max"
  shows "\<exists>c' vict. nc_insert T c k v = returns (None, c') \<and> cache_ok T hash rt_wf c' \<and>
    same_config c c' \<and>
    cache_map T c' k = Some (CacheEntry_new v (if hash k \<in> ghost_set (home c k) then LOC_MAIN else LOC_SMALL)) \<and>
    (vict = None \<longleftrightarrow> \<not> shard_full (home c k)) \<and>
    (case vict of None \<Rightarrow> cache_vals T c' = (cache_vals T c)(k \<mapsto> v)
     | Some j \<Rightarrow> j \<noteq> k \<and> key_shard c j = key_shard c k \<and> cache_vals T c j \<noteq> None \<and>
         cache_vals T c' = (cache_vals T c)(j := None, k \<mapsto> v))"
proof -
  note c = cache_okD [OF ok] home_okD [OF ok, of k]
  have abs: "shard_map T (home c k) k = None"
    using absent by (simp add: cache_vals_home shard_vals_def)
  have "shard_cap (home c k) = 0 \<Longrightarrow> cache_capacity c = 0"
    using c(6) by (auto simp: per_shard_cap_def split: if_splits)
  then obtain s' vict where s': "insert_locked T hash k v (home c k) = returns (None, s')"
      "shard_inv T hash rt_wf s'" "same_caps (home c k) s'"
      "shard_map T s' k = Some (CacheEntry_new v (if hash k \<in> ghost_set (home c k) then LOC_MAIN else LOC_SMALL))"
      "vict = None \<longleftrightarrow> \<not> shard_full (home c k)"
      "case vict of None \<Rightarrow> shard_vals T s' = (shard_vals T (home c k))(k \<mapsto> v)
       | Some j \<Rightarrow> shard_map T (home c k) j \<noteq> None \<and>
           shard_vals T s' = (shard_vals T (home c k))(j := None, k \<mapsto> v)"
    using insert_locked_absent [OF c(5) abs, of v] room by (auto simp: shard_full_def not_le)
  have "dom (shard_vals T s') \<subseteq> insert k (dom (shard_vals T (home c k)))"
    using s'(6) by (cases vict) (auto simp del: dom_shard_vals)
  note w = put_home_ok [OF ok s'(2,3) this]
  let ?c = "put_shard c (key_shard c k) s'"
  have "nc_insert T c k v = returns (None, ?c)"
    using s'(1) by (simp add: nc_insert_def key_shard_eq c(1) with_write_home [OF ok])
  moreover have "cache_map T ?c k = Some (CacheEntry_new v (if hash k \<in> ghost_set (home c k) then LOC_MAIN else LOC_SMALL))"
    using w(2) s'(4) by (simp add: cache_map_home)
  moreover have "case vict of None \<Rightarrow> cache_vals T ?c = (cache_vals T c)(k \<mapsto> v)
     | Some j \<Rightarrow> j \<noteq> k \<and> key_shard c j = key_shard c k \<and> cache_vals T c j \<noteq> None \<and>
         cache_vals T ?c = (cache_vals T c)(j := None, k \<mapsto> v)"
  proof (cases vict)
    case None
    with s'(6) show ?thesis using vals_update_home [OF ok] by simp
  next
    case (Some j)
    then have j: "shard_map T (home c k) j \<noteq> None"
        "shard_vals T s' = (shard_vals T (home c k))(j := None, k \<mapsto> v)"
      using s'(6) by simp_all
    have "key_shard c j = key_shard c k"
      using cache_inv_shard(3) [OF c(2,4)] j(1) by (auto simp: home_def)
    moreover have "j \<noteq> k" using j(1) abs by auto
    ultimately show ?thesis
      using Some j c(4) cache_vals_put_evict [OF c(4), of k j T s' "Some v"]
      by (auto simp: home_def cache_vals_def shard_vals_def)
  qed
  ultimately show ?thesis using w(1) s'(5) same_config_put by blast
qed

section \<open>Removal\<close>

lemma nc_remove_spec:
  assumes ok: "cache_ok T hash rt_wf c"
  shows "\<exists>c'. nc_remove T c k = returns (map_option (\<lambda>v. (k, v)) (cache_vals T c k), c') \<and>
    cache_ok T hash rt_wf c' \<and> same_config c c' \<and> cache_vals T c' = (cache_vals T c)(k := None)"
proof -
  note c = cache_okD [OF ok] home_okD [OF ok, of k]
  obtain s' where s': "remove_locked T hash k (home c k) = (map_option (\<lambda>v. (k, v)) (shard_vals T (home c k) k), s')"
      "shard_inv T hash rt_wf s'" "same_caps (home c k) s'"
      "shard_map T s' = (shard_map T (home c k))(k := None)"
    using remove_locked_spec [OF c(5)] by blast
  have "dom (shard_vals T s') \<subseteq> insert k (dom (shard_vals T (home c k)))" using s'(4) by auto
  note w = put_home_ok [OF ok s'(2,3) this]
  have "nc_remove T c k = returns (map_option (\<lambda>v. (k, v)) (cache_vals T c k), put_shard c (key_shard c k) s')"
    using s'(1) by (simp add: nc_remove_def key_shard_eq c(1) cache_vals_home with_write_home [OF ok])
  moreover have "cache_vals T (put_shard c (key_shard c k) s') = (cache_vals T c)(k := None)"
    using shard_vals_delete [OF s'(4)] by (rule vals_update_home [OF ok])
  ultimately show ?thesis using w(1) same_config_put by blast
qed

lemma nc_remove_if_mut_spec:
  assumes ok: "cache_ok T hash rt_wf c"
  shows "\<exists>c'. nc_remove_if_mut T c k f = returns (case cache_vals T c k of
         Some v \<Rightarrow> (case f k v of (True, v') \<Rightarrow> Some (k, v') | (False, v') \<Rightarrow> None) | None \<Rightarrow> None, c') \<and>
    cache_ok T hash rt_wf c' \<and> same_config c c' \<and>
    cache_vals T c' = (case cache_vals T c k of
       Some v \<Rightarrow> (case f k v of (True, v') \<Rightarrow> (cache_vals T c)(k := None)
                 | (False, v') \<Rightarrow> (cache_vals T c)(k \<mapsto> v')) | None \<Rightarrow> cache_vals T c)"
proof -
  note c = cache_okD [OF ok] home_okD [OF ok, of k]
  let ?s = "home c k"
  obtain s' where s': "remove_if_mut_locked T hash k f ?s =
      (case shard_vals T ?s k of
         Some v \<Rightarrow> (case f k v of (True, v') \<Rightarrow> Some (k, v') | (False, v') \<Rightarrow> None) | None \<Rightarrow> None, s')"
      "shard_inv T hash rt_wf s'" "same_caps ?s s'"
      "shard_vals T s' = (case shard_vals T ?s k of
       Some v \<Rightarrow> (case f k v of (True, v') \<Rightarrow> (shard_vals T ?s)(k := None)
                 | (False, v') \<Rightarrow> (shard_vals T ?s)(k \<mapsto> v')) | None \<Rightarrow> shard_vals T ?s)"
    using remove_if_mut_locked_spec [OF c(5)] by blast
  have "dom (shard_vals T s') \<subseteq> insert k (dom (shard_vals T ?s))"
    using s'(4) by (auto simp del: dom_shard_vals split: option.splits prod.splits bool.splits if_splits)
  note w = put_home_ok [OF ok s'(2,3) this]
  have "nc_remove_if_mut T c k f = returns (case cache_vals T c k of
      Some v \<Rightarrow> (case f k v of (True, v') \<Rightarrow> Some (k, v') | (False, v') \<Rightarrow> None) | None \<Rightarrow> None,
      put_shard c (key_shard c k) s')"
    using s'(1) by (simp add: nc_remove_if_mut_def key_shard_eq c(1) cache_vals_home with_write_home [OF ok])
  moreover have "cache_vals T (put_shard c (key_shard c k) s') = (case cache_vals T c k of
       Some v \<Rightarrow> (case f k v of (True, v') \<Rightarrow> (cache_vals T c)(k := None)
                 | (False, v') \<Rightarrow> (cache_vals T c)(k \<mapsto> v')) | None \<Rightarrow> cache_vals T c)"
    using s'(4) vals_update_home [OF ok, of s' k] vals_same_home [OF ok, of s' k]
    by (auto simp: cache_vals_home [of T c k] split: option.splits prod.splits bool.splits)
  ultimately show ?thesis using w(1) same_config_put by blast
qed

lemma nc_remove_if_spec:
  assumes ok: "cache_ok T hash rt_wf c"
  shows "\<exists>c'. nc_remove_if T c k f = returns (case cache_vals T c k of
         Some v \<Rightarrow> if f k v then Some (k, v) else None | None \<Rightarrow> None, c') \<and>
    cache_ok T hash rt_wf c' \<and> same_config c c' \<and>
    cache_vals T c' = (case cache_vals T c k of
       Some v \<Rightarrow> if f k v then (cache_vals T c)(k := None) else cache_vals T c | None \<Rightarrow> cache_vals T c)"
proof -
  note c = cache_okD [OF ok] home_okD [OF ok, of k]
  let ?s = "home c k"
  obtain s' where s': "remove_if_locked T hash k f ?s =
      (case shard_vals T ?s k of Some v \<Rightarrow> if f k v then Some (k, v) else None | None \<Rightarrow> None, s')"
      "shard_inv T hash rt_wf s'" "same_caps ?s s'"
      "shard_map T s' = (case shard_vals T ?s k of
       Some v \<Rightarrow> if f k v then (shard_map T ?s)(k := None) else shard_map T ?s | None \<Rightarrow> shard_map T ?s)"
    using remove_if_locked_spec [OF c(5)] by blast
  have v': "shard_vals T s' = (case shard_vals T ?s k of
       Some v \<Rightarrow> if f k v then (shard_vals T ?s)(k := None) else shard_vals T ?s | None \<Rightarrow> shard_vals T ?s)"
    using s'(4) by (auto simp: fun_eq_iff shard_vals_def split: option.splits if_splits)
  then have "dom (shard_vals T s') \<subseteq> insert k (dom (shard_vals T ?s))"
    by (auto simp del: dom_shard_vals split: option.splits if_splits)
  note w = put_home_ok [OF ok s'(2,3) this]
  have "nc_remove_if T c k f = returns (case cache_vals T c k of
      Some v \<Rightarrow> if f k v then Some (k, v) else None | None \<Rightarrow> None, put_shard c (key_shard c k) s')"
    using s'(1) by (simp add: nc_remove_if_def key_shard_eq c(1) cache_vals_home with_write_home [OF ok])
  moreover have "cache_vals T (put_shard c (key_shard c k) s') = (case cache_vals T c k of
       Some v \<Rightarrow> if f k v then (cache_vals T c)(k := None) else cache_vals T c | None \<Rightarrow> cache_vals T c)"
    using v' vals_update_home [OF ok, of s' k] vals_same_home [OF ok, of s' k]
    by (auto simp: cache_vals_home [of T c k] split: option.splits)
  ultimately show ?thesis using w(1) same_config_put by blast
qed

section \<open>Lookup\<close>

text \<open>
  A lookup that hits returns a reference to the key's bucket and leaves its shard locked;
  \<open>hit_state c k st s\<close> is the cache in between: the shard of \<open>k\<close> holds \<open>s\<close> under the
  lock word \<open>st\<close>.
\<close>

abbreviation hit_state :: "('k, 't) NeoCache \<Rightarrow> 'k \<Rightarrow> u64 \<Rightarrow> ('k, 't) ShardData \<Rightarrow> ('k, 't) NeoCache" where
  "hit_state c k st s \<equiv> put_shard (put_state c (key_shard c k) st) (key_shard c k) s"

lemma hit_state_facts:
  assumes ok: "cache_ok T hash rt_wf c"
  shows "rw_state (shards (hit_state c k st s) ! key_shard c k) = st"
    and "shard_at (hit_state c k st s) (key_shard c k) = s"
    and "i \<noteq> key_shard c k \<Longrightarrow> shards (hit_state c k st s) ! i = shards c ! i"
    and "put_state (hit_state c k st s) (key_shard c k) 0 = put_shard c (key_shard c k) s"
  using home_okD(1) [OF ok, of k] cache_okD(3) [OF ok]
  by (simp_all add: state_shuffle shard_at_put put_state_0)
    (simp add: put_shard_def put_state_def)

lemma bumped_home:
  assumes ok: "cache_ok T hash rt_wf c" and hit: "cache_map T c k = Some e"
  obtains b s where "get_locked T hash k (home c k) = (Some b, s)"
    and "cache_ok T hash rt_wf (put_shard c (key_shard c k) s)"
    and "cache_vals T (put_shard c (key_shard c k) s) = cache_vals T c"
    and "cache_map T (put_shard c (key_shard c k) s) k = Some (bump_freq e)"
    and "b \<in> set (rt_iter T (raw_map s))" and "rt_as_ref T (raw_map s) b = (k, bump_freq e)"
proof -
  note c = cache_okD [OF ok] home_okD [OF ok, of k]
  have e: "shard_map T (home c k) k = Some e" using hit by (simp add: cache_map_home)
  obtain b s where s: "get_locked T hash k (home c k) = (Some b, s)" "shard_inv T hash rt_wf s"
      "\<exists>t. s = (home c k)\<lparr>raw_map := t\<rparr>" "b \<in> set (rt_iter T (raw_map s))"
      "rt_as_ref T (raw_map s) b = (k, bump_freq e)"
      "shard_map T s = (shard_map T (home c k))(k \<mapsto> bump_freq e)"
    using get_locked_spec [OF c(5), of k] e by auto
  have vals: "shard_vals T s = shard_vals T (home c k)"
    using s(6) e by (rule shard_vals_same_val) (simp add: entry_val_def)
  have caps: "same_caps (home c k) s" using s(3) by (auto simp: same_caps_def)
  have "dom (shard_vals T s) \<subseteq> insert k (dom (shard_vals T (home c k)))" using vals by auto
  note w = put_home_ok [OF ok s(2) caps this]
  show thesis
    using s(1) w(1) vals_same_home [OF ok vals] _ s(4,5)
    by (rule that) (use w(2) s(6) in \<open>simp add: cache_map_home\<close>)
qed

lemma nc_get_hit:
  assumes ok: "cache_ok T hash rt_wf c" and hit: "cache_map T c k = Some e"
  obtains b s where "nc_get T c k =
      returns (Some \<lparr>ref_shard = key_shard c k, ref_bucket = b\<rparr>, hit_state c k ONE_READER s)"
    and "nc_try_get T c k =
      Return (Present \<lparr>ref_shard = key_shard c k, ref_bucket = b\<rparr>, hit_state c k ONE_READER s)"
    and "nc_get_mut T c k =
      returns (Some \<lparr>ref_shard = key_shard c k, ref_bucket = b\<rparr>, hit_state c k ONE_WRITER s)"
    and "nc_try_get_mut T c k =
      Return (Present \<lparr>ref_shard = key_shard c k, ref_bucket = b\<rparr>, hit_state c k ONE_WRITER s)"
    and "cache_ok T hash rt_wf (put_shard c (key_shard c k) s)"
    and "cache_vals T (put_shard c (key_shard c k) s) = cache_vals T c"
    and "cache_map T (put_shard c (key_shard c k) s) k = Some (bump_freq e)"
    and "b \<in> set (rt_iter T (raw_map s))" and "rt_as_ref T (raw_map s) b = (k, bump_freq e)"
proof -
  note c = cache_okD [OF ok] home_okD [OF ok, of k]
  obtain b s where s: "get_locked T hash k (home c k) = (Some b, s)"
    "cache_ok T hash rt_wf (put_shard c (key_shard c k) s)"
    "cache_vals T (put_shard c (key_shard c k) s) = cache_vals T c"
    "cache_map T (put_shard c (key_shard c k) s) k = Some (bump_freq e)"
    "b \<in> set (rt_iter T (raw_map s))" "rt_as_ref T (raw_map s) b = (k, bump_freq e)"
    by (rule bumped_home [OF ok hit])
  note defs = Let_def key_shard_eq yield_read_shard_def yield_write_shard_def
    try_yield_read_shard_def try_yield_write_shard_def quiet_nth [OF c(3,4)] c(1,4) home_def
  show thesis
    using s(1) by (intro that [of b s] s(2-)) (simp_all add: defs nc_get_def nc_try_get_def nc_get_mut_def nc_try_get_mut_def)
qed

lemma nc_get_miss:
  assumes ok: "cache_ok T hash rt_wf c" and miss: "cache_map T c k = None"
  shows "nc_get T c k = returns (None, c)" and "nc_try_get T c k = Return (Absent, c)"
    and "nc_get_mut T c k = returns (None, c)" and "nc_try_get_mut T c k = Return (Absent, c)"
proof -
  note c = cache_okD [OF ok] home_okD [OF ok, of k]
  have g: "get_locked T hash k (home c k) = (None, home c k)"
    using get_locked_spec [OF c(5), of k] miss by (simp add: cache_map_home)
  note defs = Let_def key_shard_eq yield_read_shard_def yield_write_shard_def
    try_yield_read_shard_def try_yield_write_shard_def quiet_nth [OF c(3,4)] c(1,4) home_def
    drop_read_guard_def drop_write_guard_def state_shuffle [OF c(4)] put_state_0 [OF c(3,4)]
  show "nc_get T c k = returns (None, c)" "nc_try_get T c k = Return (Absent, c)"
    "nc_get_mut T c k = returns (None, c)" "nc_try_get_mut T c k = Return (Absent, c)"
    using g by (simp_all add: defs nc_get_def nc_try_get_def nc_get_mut_def nc_try_get_mut_def)
qed

lemma ref_pair_hit:
  assumes ok: "cache_ok T hash rt_wf c" and "rt_as_ref T (raw_map s) b = (k, bump_freq e)"
  shows "ref_pair T (hit_state c k st s) \<lparr>ref_shard = key_shard c k, ref_bucket = b\<rparr> = (k, entry_val e)"
  using assms(2) by (simp add: ref_pair_def hit_state_facts [OF ok] entry_val_def)

text \<open>The drop of either guard puts the cache back to rest.\<close>

lemma drop_hit_guard:
  assumes ok: "cache_ok T hash rt_wf c"
  shows "drop_read_guard (hit_state c k ONE_READER s) (key_shard c k) = put_shard c (key_shard c k) s"
    and "drop_write_guard (hit_state c k ONE_WRITER s) (key_shard c k) = Return (put_shard c (key_shard c k) s)"
  by (simp_all add: drop_read_guard_def drop_write_guard_def hit_state_facts [OF ok])

lemma nc_view_spec:
  assumes ok: "cache_ok T hash rt_wf c"
  shows "\<exists>c'. nc_view T c k f = returns (map_option (f k) (cache_vals T c k), c') \<and>
    cache_ok T hash rt_wf c' \<and> same_config c c' \<and> cache_vals T c' = cache_vals T c \<and>
    cache_map T c' k = map_option bump_freq (cache_map T c k)"
proof (cases "cache_map T c k")
  case None
  then show ?thesis
    using ok nc_get_miss(1) [OF ok None]
    by (auto simp: nc_view_def cache_vals_home cache_map_home shard_vals_def)
next
  case (Some e)
  then show ?thesis
    by (rule nc_get_hit [OF ok])
      (auto simp: nc_view_def ref_pair_hit [OF ok] drop_hit_guard [OF ok] Some cache_vals_home [of T c k]
        shard_vals_def simp flip: cache_map_home)
qed

lemma nc_contains_key_spec:
  assumes ok: "cache_ok T hash rt_wf c"
  shows "\<exists>c'. nc_contains_key T c k = returns (cache_vals T c k \<noteq> None, c') \<and>
    cache_ok T hash rt_wf c' \<and> same_config c c' \<and> cache_vals T c' = cache_vals T c"
proof (cases "cache_map T c k")
  case None
  then show ?thesis
    using ok nc_get_miss(1) [OF ok None]
    by (auto simp: nc_contains_key_def cache_vals_home cache_map_home shard_vals_def)
next
  case (Some e)
  then show ?thesis
    by (rule nc_get_hit [OF ok])
      (auto simp: nc_contains_key_def drop_hit_guard [OF ok] Some cache_vals_home [of T c k]
        shard_vals_def simp flip: cache_map_home)
qed

text \<open>Writing through the reference of a hit, then dropping the guard.\<close>

lemma ref_write_hit:
  assumes ok: "cache_ok T hash rt_wf c" and ok': "cache_ok T hash rt_wf (put_shard c (key_shard c k) s)"
    and vals: "cache_vals T (put_shard c (key_shard c k) s) = m"
    and b: "b \<in> set (rt_iter T (raw_map s))" "rt_as_ref T (raw_map s) b = (k, e)"
  obtains s' where "ref_write T (hit_state c k st s) \<lparr>ref_shard = key_shard c k, ref_bucket = b\<rparr> v = hit_state c k st s'"
    and "cache_ok T hash rt_wf (put_shard c (key_shard c k) s')"
    and "cache_vals T (put_shard c (key_shard c k) s') = m(k \<mapsto> v)"
    and "cache_map T (put_shard c (key_shard c k) s') k = Some (e\<lparr>entry_value := sv_new v\<rparr>)"
    and "b \<in> set (rt_iter T (raw_map s'))" and "rt_as_ref T (raw_map s') b = (k, e\<lparr>entry_value := sv_new v\<rparr>)"
proof -
  let ?c = "put_shard c (key_shard c k) s" and ?e = "e\<lparr>entry_value := sv_new v\<rparr>"
  have home: "home ?c k = s" using home_okD(1) [OF ok, of k] by (simp add: home_def shard_at_put)
  have inv: "shard_inv T hash rt_wf s" using home_okD(2) [OF ok', of k] home by simp
  define s' where "s' = s\<lparr>raw_map := rt_write T (raw_map s) b (k, ?e)\<rparr>"
  have raw: "raw_map s' = rt_write T (raw_map s) b (k, ?e)" by (simp add: s'_def)
  note w = shard_write [OF inv_tab(3) [OF inv] b raw]
  have present: "shard_map T s k = Some e"
    using lookup_bucket [OF inv_tab(2) [OF inv] b] by (simp add: shard_map_def)
  then have "unat (entry_freq e) \<le> 3"
    using inv by (auto simp: shard_inv_def queues_ok_def entry_ok_def)
  then have inv': "shard_inv T hash rt_wf s'"
    using present by (intro shard_inv_same_loc [OF inv w(1) _ w(2)]) (simp_all add: s'_def)
  have caps: "same_caps (home ?c k) s'" by (simp add: home s'_def same_caps_def)
  have v': "shard_vals T s' = (shard_vals T (home ?c k))(k \<mapsto> v)"
    using shard_vals_update [OF w(2)] by (simp add: home)
  then have "dom (shard_vals T s') \<subseteq> insert k (dom (shard_vals T (home ?c k)))"
    by (auto simp del: dom_shard_vals)
  note p = put_home_ok [OF ok' inv' caps this]
  have twice: "put_shard ?c (key_shard ?c k) s' = put_shard c (key_shard c k) s'"
    by (simp add: put_shard_twice)
  have "ref_write T (hit_state c k st s) \<lparr>ref_shard = key_shard c k, ref_bucket = b\<rparr> v = hit_state c k st s'"
    using b(2) by (simp add: ref_write_def hit_state_facts [OF ok] put_shard_twice s'_def)
  moreover have "cache_ok T hash rt_wf (put_shard c (key_shard c k) s')" using p(1) twice by simp
  moreover have "cache_vals T (put_shard c (key_shard c k) s') = m(k \<mapsto> v)"
    using vals_update_home [OF ok' v'] twice vals by simp
  moreover have "cache_map T (put_shard c (key_shard c k) s') k = Some ?e"
    using p(2) w(2) twice by (simp add: cache_map_home)
  moreover have "b \<in> set (rt_iter T (raw_map s'))" "rt_as_ref T (raw_map s') b = (k, ?e)"
    using write_bucket [OF inv_tab(1) [OF inv] b(1), of "(k, ?e)"] b by (simp_all add: raw)
  ultimately show thesis by (rule that)
qed

lemma nc_alter_spec:
  assumes ok: "cache_ok T hash rt_wf c"
  shows "case cache_vals T c k of
      None \<Rightarrow> nc_alter T c k f = returns c
    | Some v \<Rightarrow> (case f k v of
        Panic p \<Rightarrow> nc_alter T c k f = Some (Panic Process_abort)
      | Return v' \<Rightarrow> \<exists>c'. nc_alter T c k f = returns c' \<and> cache_ok T hash rt_wf c' \<and>
          same_config c c' \<and> cache_vals T c' = (cache_vals T c)(k \<mapsto> v'))"
proof (cases "cache_map T c k")
  case None
  then have "cache_vals T c k = None" by (simp add: cache_map_def cache_vals_def shard_vals_def)
  then show ?thesis using nc_get_miss(3) [OF ok None] by (simp add: nc_alter_def)
next
  case (Some e)
  then have v: "cache_vals T c k = Some (entry_val e)"
    by (simp add: cache_map_def cache_vals_def shard_vals_def)
  obtain b s where g: "nc_get_mut T c k =
      returns (Some \<lparr>ref_shard = key_shard c k, ref_bucket = b\<rparr>, hit_state c k ONE_WRITER s)"
    and s: "cache_ok T hash rt_wf (put_shard c (key_shard c k) s)"
    "cache_vals T (put_shard c (key_shard c k) s) = cache_vals T c"
    "b \<in> set (rt_iter T (raw_map s))" "rt_as_ref T (raw_map s) b = (k, bump_freq e)"
    by (rule nc_get_hit [OF ok Some])
  show ?thesis
  proof (cases "f k (entry_val e)")
    case (Panic p)
    then show ?thesis
      by (simp add: v nc_alter_def g ref_pair_hit [OF ok s(4)] map_in_place_2_def AbortOnPanic_drop_def)
  next
    case (Return v')
    show ?thesis
      by (rule ref_write_hit [OF ok s, of ONE_WRITER v'])
        (auto simp: v Return nc_alter_def g ref_pair_hit [OF ok s(4)] map_in_place_2_def drop_hit_guard [OF ok])
  qed
qed

end

end
