(* ===== verification/Shard_Bulk.thy ===== *)
theory Shard_Bulk
  imports Shard_Ops
begin

text \<open>
  The shard-wide operations: \<open>clear_all\<close>, \<open>retain\<close>, reserving, shrinking and cloning,
  and the bound on the number of entries of a shard.
\<close>

text \<open>What \<open>retain\<close> leaves of a map, for a closure whose verdict does not depend on its state.\<close>

definition retained :: "('k \<Rightarrow> 'v \<Rightarrow> bool \<times> 'v) \<Rightarrow> ('k \<rightharpoonup> 'v) \<Rightarrow> 'k \<rightharpoonup> 'v" where
  "retained p m = (\<lambda>k. case m k of None \<Rightarrow> None
     | Some v \<Rightarrow> (case p k v of (True, v') \<Rightarrow> Some v' | (False, v') \<Rightarrow> None))"

definition retained_on :: "'k set \<Rightarrow> ('k \<Rightarrow> 'v \<Rightarrow> bool \<times> 'v) \<Rightarrow> ('k \<rightharpoonup> 'v) \<Rightarrow> 'k \<rightharpoonup> 'v" where
  "retained_on K p m = (\<lambda>k. if k \<in> K then retained p m k else m k)"

lemma retained_on_step:
  assumes "m k = Some v" and "k \<notin> K"
  shows "retained_on K p (case p k v of (True, v') \<Rightarrow> m(k \<mapsto> v') | (False, v') \<Rightarrow> m(k := None)) =
    retained_on (insert k K) p m"
  using assms by (auto simp: retained_on_def retained_def fun_eq_iff split: prod.splits bool.splits)

context shard_table
begin

section \<open>The number of entries\<close>

lemma entries_split:
  assumes "shard_inv T hash rt_wf s"
  shows "card (dom (shard_map T s)) = n_small T s + n_main T s"
proof -
  have "is_small e \<noteq> is_main e" if "shard_map T s k = Some e" for k e
    using assms that not_small_and_main [of e] by (auto simp: shard_inv_def queues_ok_def entry_ok_def)
  then show ?thesis
    unfolding n_small_def n_main_def by (intro count_where_split [symmetric]) auto
qed

lemma shard_len_card:
  assumes "shard_inv T hash rt_wf s"
  shows "shard_len T s = card (dom (shard_map T s))"
  using card_dom_lookup [OF inv_tab(1,2) [OF assms]] by (simp add: shard_len_def shard_map_def)

lemma shard_len_bound:
  assumes "shard_inv T hash rt_wf s" and "shard_cap s \<noteq> 0"
  shows "shard_len T s \<le> live s" and "live s \<le> shard_cap s"
  using assms shard_len_card [OF assms(1)] entries_split [OF assms(1)]
  by (simp_all add: shard_inv_def counts_ok_def)

lemma shard_len_unbounded:
  assumes "shard_inv T hash rt_wf s" and "shard_cap s = 0"
  shows "shard_len T s = small_live s"
  using assms shard_len_card [OF assms(1)] entries_split [OF assms(1)]
  by (simp add: shard_inv_def counts_ok_def)

section \<open>Clearing\<close>

lemma erase_all:
  assumes "rt_wf t" and "rt_keys_distinct T t" and "set bs = set (rt_iter T t)" and "distinct bs"
  shows "rt_wf (foldl (rt_erase T) t bs) \<and> rt_iter T (foldl (rt_erase T) t bs) = []"
  using assms
proof (induction bs arbitrary: t)
  case Nil
  then show ?case by simp
next
  case (Cons b bs)
  have b: "b \<in> set (rt_iter T t)" using Cons.prems(3) by auto
  obtain x t' where r: "rt_remove T t b = (x, t')" by fastforce
  note e = remove_bucket [OF Cons.prems(1) b r] erase [OF Cons.prems(1) b]
  obtain k ent where "rt_as_ref T t b = (k, ent)" by fastforce
  note l = remove_lookup(2,3) [OF Cons.prems(1,2) b this]
  have "set bs = set (rt_iter T t')" using e(1) Cons.prems(3,4) by auto
  with Cons.IH [of t'] l r Cons.prems(4) show ?case by (simp add: e(2))
qed

lemma clear_all_spec:
  assumes inv: "shard_inv T hash rt_wf s"
  shows "shard_inv T hash rt_wf (clear_all T s)" and "same_caps s (clear_all T s)"
    and "shard_map T (clear_all T s) = Map.empty"
proof -
  have e: "rt_wf (raw_map (clear_all T s))" "rt_iter T (raw_map (clear_all T s)) = []"
    using erase_all [OF inv_tab(1,2) [OF inv] refl iter_distinct [OF inv_tab(1) [OF inv]]]
    by (simp_all add: clear_all_def)
  show m: "shard_map T (clear_all T s) = Map.empty"
    using lookup_empty [OF e(2)] by (simp add: shard_map_def)
  show caps: "same_caps s (clear_all T s)" by (simp add: same_caps_def clear_all_def)
  have c: "caps_ok (clear_all T s)" using inv caps by (auto simp: shard_inv_def intro: caps_ok_same)
  have "counts_ok T (clear_all T s)"
    using caps_facts [OF c] by (auto simp: counts_ok_def n_small_def n_main_def m live_def)
      (auto simp: clear_all_def)
  moreover have "queues_ok T hash (clear_all T s)"
    by (simp add: queues_ok_def m) (simp add: clear_all_def)
  ultimately show "shard_inv T hash rt_wf (clear_all T s)"
    using c e lookup_empty [OF e(2)]
    by (simp add: shard_inv_def table_ok_def ghost_ok_def) (simp add: clear_all_def)
qed

section \<open>Retaining\<close>

lemma retain_step:
  fixes keep :: bool and v' :: 'v
  assumes inv: "shard_inv T hash rt_wf s" and b: "b \<in> set (rt_iter T (raw_map s))"
    "rt_as_ref T (raw_map s) b = (k, e)"
  defines "s1 \<equiv> s\<lparr>raw_map := rt_write T (raw_map s) b (k, e\<lparr>entry_value := sv_new v'\<rparr>)\<rparr>"
  defines "s2 \<equiv> (if keep then s1 else live_dec (entry_loc e) (s1\<lparr>raw_map := rt_erase T (raw_map s1) b\<rparr>))"
  shows "shard_inv T hash rt_wf s2" and "same_caps s s2"
    and "shard_vals T s2 = (if keep then (shard_vals T s)(k \<mapsto> v') else (shard_vals T s)(k := None))"
    and "b' \<noteq> b \<Longrightarrow> b' \<in> set (rt_iter T (raw_map s)) \<Longrightarrow>
      b' \<in> set (rt_iter T (raw_map s2)) \<and> rt_as_ref T (raw_map s2) b' = rt_as_ref T (raw_map s) b'"
proof -
  let ?e = "e\<lparr>entry_value := sv_new v'\<rparr>"
  have raw1: "raw_map s1 = rt_write T (raw_map s) b (k, ?e)" by (simp add: s1_def)
  note w = shard_write [OF inv_tab(3) [OF inv] b raw1]
  have present: "shard_map T s k = Some e"
    using lookup_bucket [OF inv_tab(2) [OF inv] b] by (simp add: shard_map_def)
  then have "unat (entry_freq e) \<le> 3"
    using inv by (auto simp: shard_inv_def queues_ok_def entry_ok_def)
  then have inv1: "shard_inv T hash rt_wf s1"
    using present by (intro shard_inv_same_loc [OF inv w(1) _ w(2)]) (simp_all add: s1_def)
  note wb = write_bucket [OF inv_tab(1) [OF inv] b(1), of "(k, ?e)"]
  have b1: "b \<in> set (rt_iter T (raw_map s1))" "rt_as_ref T (raw_map s1) b = (k, ?e)"
    using wb b by (simp_all add: raw1)
  define s1e where "s1e = s1\<lparr>raw_map := rt_erase T (raw_map s1) b\<rparr>"
  have raw2: "raw_map s1e = snd (rt_remove T (raw_map s1) b)"
    using erase [OF inv_tab(1) [OF inv1] b1(1)] by (simp add: s1e_def)
  note r = shard_remove [OF inv_tab(3) [OF inv1] b1 raw2]
  have present1: "shard_map T s1 k = Some ?e" using w(2) by simp
  have inv2: "shard_inv T hash rt_wf (live_dec (entry_loc e) s1e)"
    using live_dec_inv [OF inv1 present1 r(1,2) s1e_def] by simp
  show "shard_inv T hash rt_wf s2" using inv1 inv2 by (simp add: s2_def s1e_def)
  show "same_caps s s2" by (simp add: same_caps_def s2_def s1_def live_dec_def)
  show "shard_vals T s2 = (if keep then (shard_vals T s)(k \<mapsto> v') else (shard_vals T s)(k := None))"
    using shard_vals_update [OF w(2)] shard_vals_delete [OF r(2)] by (simp add: s2_def s1e_def)
  assume b': "b' \<noteq> b" "b' \<in> set (rt_iter T (raw_map s))"
  obtain x t' where rm: "rt_remove T (raw_map s1) b = (x, t')" by fastforce
  note rb = remove_bucket [OF inv_tab(1) [OF inv1] b1(1) rm]
  have "b' \<in> set (rt_iter T (raw_map s1))" "rt_as_ref T (raw_map s1) b' = rt_as_ref T (raw_map s) b'"
    using wb b b' by (simp_all add: raw1)
  then show "b' \<in> set (rt_iter T (raw_map s2)) \<and> rt_as_ref T (raw_map s2) b' = rt_as_ref T (raw_map s) b'"
    using rb b'(1) raw2 rm by (auto simp: s2_def s1e_def)
qed

lemma retain_buckets_spec:
  assumes "shard_inv T hash rt_wf s" and "set bs \<subseteq> set (rt_iter T (raw_map s))" and "distinct bs"
    and f: "\<And>st k v. case f st k v of (keep, v', st') \<Rightarrow> (keep, v') = p k v"
  shows "\<exists>st' s'. retain_buckets T f bs st s = (st', s') \<and> shard_inv T hash rt_wf s' \<and> same_caps s s' \<and>
    shard_vals T s' = retained_on (fst ` rt_as_ref T (raw_map s) ` set bs) p (shard_vals T s)"
  using assms(1-3)
proof (induction bs arbitrary: st s)
  case Nil
  then show ?case by (simp add: retained_on_def)
next
  case (Cons b bs)
  obtain k e where ke: "rt_as_ref T (raw_map s) b = (k, e)" by fastforce
  obtain keep v' st1 where fe: "f st k (entry_val e) = (keep, v', st1)" by (metis prod_cases3)
  have b: "b \<in> set (rt_iter T (raw_map s))" using Cons.prems(2) by simp
  have p: "p k (entry_val e) = (keep, v')" using f [where st = st and k = k and v = "entry_val e"] fe by simp
  define s1 where "s1 = s\<lparr>raw_map := rt_write T (raw_map s) b (k, e\<lparr>entry_value := sv_new v'\<rparr>)\<rparr>"
  define s2 where "s2 = (if keep then s1 else live_dec (entry_loc e) (s1\<lparr>raw_map := rt_erase T (raw_map s1) b\<rparr>))"
  note st = retain_step [OF Cons.prems(1) b ke, where keep = keep and v' = v', folded s1_def, folded s2_def]
  have keeps: "b' \<in> set (rt_iter T (raw_map s2)) \<and> rt_as_ref T (raw_map s2) b' = rt_as_ref T (raw_map s) b'"
    if "b' \<in> set bs" for b'
    using that Cons.prems(2,3) by (intro st(4)) auto
  have sub: "set bs \<subseteq> set (rt_iter T (raw_map s2))"
    and same: "\<And>b'. b' \<in> set bs \<Longrightarrow> rt_as_ref T (raw_map s2) b' = rt_as_ref T (raw_map s) b'"
    using keeps by auto
  obtain st' s' where s': "retain_buckets T f bs st1 s2 = (st', s')" "shard_inv T hash rt_wf s'"
      "same_caps s2 s'"
      "shard_vals T s' = retained_on (fst ` rt_as_ref T (raw_map s2) ` set bs) p (shard_vals T s2)"
    using Cons.IH [OF st(1) sub, of st1] Cons.prems(3) by auto
  let ?K = "fst ` rt_as_ref T (raw_map s) ` set bs"
  have K: "fst ` rt_as_ref T (raw_map s2) ` set bs = ?K"
    unfolding image_image by (intro image_cong refl) (simp add: same)
  have "k \<notin> ?K"
  proof
    assume "k \<in> ?K"
    then obtain b' where "b' \<in> set bs" "fst (rt_as_ref T (raw_map s) b') = k" by auto
    then have "b' = b"
      using bucket_eqI [OF inv_tab(1,2) [OF Cons.prems(1)], of b' b] Cons.prems(2) ke by auto
    with \<open>b' \<in> set bs\<close> Cons.prems(3) show False by simp
  qed
  moreover have "shard_vals T s k = Some (entry_val e)"
    using lookup_bucket [OF inv_tab(2) [OF Cons.prems(1)] b ke]
    by (simp add: shard_vals_def shard_map_def)
  ultimately have "shard_vals T s' = retained_on (insert k ?K) p (shard_vals T s)"
    using retained_on_step [of "shard_vals T s" k "entry_val e" ?K p] s'(4) st(3) p
    by (cases keep) (simp_all add: K)
  moreover have "retain_buckets T f (b # bs) st s = (st', s')"
    using s'(1) fe by (cases keep) (simp_all add: ke Let_def s1_def s2_def entry_val_def)
  ultimately show ?case using s'(2) same_caps_trans [OF st(2) s'(3)] ke by auto
qed

lemma retain_locked_spec:
  assumes inv: "shard_inv T hash rt_wf s"
    and f: "\<And>st k v. case f st k v of (keep, v', st') \<Rightarrow> (keep, v') = p k v"
  shows "\<exists>st' s'. retain_locked T f st s = (st', s') \<and> shard_inv T hash rt_wf s' \<and> same_caps s s' \<and>
    shard_vals T s' = retained p (shard_vals T s)"
proof -
  have "dom (shard_vals T s) = fst ` rt_as_ref T (raw_map s) ` set (rt_iter T (raw_map s))"
    by (simp add: shard_map_def rt_lookup_def dom_map_of_conv_image_fst rt_contents_def)
  then have "retained_on (fst ` rt_as_ref T (raw_map s) ` set (rt_iter T (raw_map s))) p (shard_vals T s) =
      retained p (shard_vals T s)"
    by (auto simp: retained_on_def retained_def fun_eq_iff simp del: dom_shard_vals split: option.splits)
  with retain_buckets_spec [where f = f and p = p and st = st, OF inv order_refl
      iter_distinct [OF inv_tab(1) [OF inv]] f]
  show ?thesis by (simp add: retain_locked_def)
qed

section \<open>Reserving, shrinking, cloning\<close>

lemma map_try_reserve_spec:
  assumes inv: "shard_inv T hash rt_wf s" and r: "map_try_reserve T n hash s = (r, s')"
  shows "shard_inv T hash rt_wf s'" and "same_caps s s'" and "shard_map T s' = shard_map T s"
proof -
  obtain t where t: "rt_try_reserve T (raw_map s) n (elem_hash hash) = (r, t)" "s' = s\<lparr>raw_map := t\<rparr>"
    using r by (auto simp: map_try_reserve_def split: prod.splits)
  note c = try_reserve [OF inv_tab(1) [OF inv] t(1)]
  note l = contents_eq_lookup [OF conjunct2 [OF c] inv_tab(2) [OF inv]]
  show "shard_inv T hash rt_wf s'"
    unfolding t(2) using inv c l by (intro shard_inv_rehash) (simp_all add: shard_map_def)
  show "same_caps s s'" "shard_map T s' = shard_map T s"
    using l(2) by (simp_all add: t(2) same_caps_def shard_map_def)
qed

lemma map_shrink_to_spec:
  assumes inv: "shard_inv T hash rt_wf s"
  shows "shard_inv T hash rt_wf (map_shrink_to T n hash s)" and "same_caps s (map_shrink_to T n hash s)"
    and "shard_map T (map_shrink_to T n hash s) = shard_map T s"
proof -
  note c = shrink_to [OF inv_tab(1) [OF inv], of n]
  note l = contents_eq_lookup [OF conjunct2 [OF c] inv_tab(2) [OF inv]]
  show "shard_inv T hash rt_wf (map_shrink_to T n hash s)"
    unfolding map_shrink_to_def using inv c l by (intro shard_inv_rehash) (simp_all add: shard_map_def)
  show "same_caps s (map_shrink_to T n hash s)" "shard_map T (map_shrink_to T n hash s) = shard_map T s"
    using l(2) by (simp_all add: map_shrink_to_def same_caps_def shard_map_def)
qed

text \<open>The entries of a clone are the clones of the entries, and all else is the same.\<close>

lemma ShardData_clone_spec:
  assumes inv: "shard_inv T hash rt_wf s"
  shows "shard_inv T hash rt_wf (ShardData_clone T vcl s)" and "same_caps s (ShardData_clone T vcl s)"
    and "shard_map T (ShardData_clone T vcl s) = map_option (CacheEntry_clone vcl) \<circ> shard_map T s"
proof -
  have eq: "ShardData_clone T vcl s = s\<lparr>raw_map := rt_clone T (elem_clone vcl) (raw_map s)\<rparr>"
    by (cases s) (simp add: ShardData_clone_def)
  note l = clone_lookup [OF inv_tab(1,2) [OF inv], of "CacheEntry_clone vcl", folded elem_clone_def]
  show m: "shard_map T (ShardData_clone T vcl s) = map_option (CacheEntry_clone vcl) \<circ> shard_map T s"
    using l(3) by (simp add: eq shard_map_def)
  show "same_caps s (ShardData_clone T vcl s)" by (simp add: eq same_caps_def)
  have cnt: "count_where P (map_option (CacheEntry_clone vcl) \<circ> f) = count_where P f"
    if "\<And>e. P (CacheEntry_clone vcl e) = P e" for P f
    using that by (auto simp: count_where_def intro!: arg_cong [where f = card])
  have "entry_ok (ShardData_clone T vcl s) k (CacheEntry_clone vcl e) = entry_ok s k e" for k e
    by (simp add: entry_ok_def eq is_small_def is_main_def)
  then have "queues_ok T hash (ShardData_clone T vcl s)"
    using inv m by (auto simp: shard_inv_def queues_ok_def ShardData_clone_def)
  moreover have "n_small T (ShardData_clone T vcl s) = n_small T s" "n_main T (ShardData_clone T vcl s) = n_main T s"
    unfolding n_small_def n_main_def m by (rule cnt; simp add: is_small_def is_main_def)+
  ultimately show "shard_inv T hash rt_wf (ShardData_clone T vcl s)"
    using inv l(1,2)
    by (auto simp: shard_inv_def table_ok_def caps_ok_def ghost_ok_def counts_ok_def live_def ShardData_clone_def split: if_splits)
qed

end

end
