(* ===== verification/Neo_Cache_All.thy ===== *)
theory Neo_Cache_All
  imports Neo_Cache_Ops Shard_Bulk
begin

text \<open>
  The methods that visit every shard in turn (\<open>len\<close>, \<open>capacity\<close>, \<open>clear\<close>, \<open>retain\<close>,
  \<open>shrink_to_fit\<close>, \<open>try_reserve\<close>, \<open>clone\<close>): on a cache at rest a visit of all shards is a
  fold over the list of shards. Also the size of a cache and its bound.
\<close>

fun shards_fold :: "('a \<Rightarrow> 's \<Rightarrow> 'a \<times> 's) \<Rightarrow> 'a \<Rightarrow> 's list \<Rightarrow> 'a \<times> 's list" where
  "shards_fold g a [] = (a, [])"
| "shards_fold g a (s # ss) =
     (let (a1, s1) = g a s; (a2, ss2) = shards_fold g a1 ss in (a2, s1 # ss2))"

definition shard_list :: "('k, 't) NeoCache \<Rightarrow> ('k, 't) ShardData list" where
  "shard_list c = map rw_data (shards c)"

definition with_shards :: "('k, 't) NeoCache \<Rightarrow> ('k, 't) ShardData list \<Rightarrow> ('k, 't) NeoCache" where
  "with_shards c ss = c\<lparr>shards := map (\<lambda>s. \<lparr>rw_state = 0, rw_data = s\<rparr>) ss\<rparr>"

lemma length_shard_list [simp]: "length (shard_list c) = shard_count c"
  by (simp add: shard_list_def shard_count_def)

lemma shard_list_nth: "i < shard_count c \<Longrightarrow> shard_list c ! i = shard_at c i"
  by (simp add: shard_list_def shard_count_def shard_at_def)

lemma with_shards_frame [simp]:
  "hasher (with_shards c ss) = hasher c" "shift (with_shards c ss) = shift c"
  "cache_capacity (with_shards c ss) = cache_capacity c" "shard_count (with_shards c ss) = length ss"
  "shard_list (with_shards c ss) = ss" "key_shard (with_shards c ss) k = key_shard c k"
  "quiet (with_shards c ss)"
  by (simp_all add: with_shards_def shard_count_def shard_list_def key_shard_def determine_shard_def
      comp_def quiet_def)

lemma shard_at_with: "i < length ss \<Longrightarrow> shard_at (with_shards c ss) i = ss ! i"
  by (simp add: with_shards_def shard_at_def)

lemma with_shards_same: "quiet c \<Longrightarrow> with_shards c (shard_list c) = c"
proof -
  assume "quiet c"
  then have "map (\<lambda>s. \<lparr>rw_state = 0, rw_data = s\<rparr>) (map rw_data (shards c)) = shards c"
    by (intro nth_equalityI) (auto simp: quiet_def)
  then show ?thesis by (simp add: with_shards_def shard_list_def)
qed

lemma with_shards_put:
  "quiet c \<Longrightarrow> i < shard_count c \<Longrightarrow> put_shard c i s = with_shards c ((shard_list c)[i := s])"
proof -
  assume a: "quiet c" "i < shard_count c"
  have "quiet (put_shard c i s)" using a(1) by simp
  then have "put_shard c i s = with_shards (put_shard c i s) (shard_list (put_shard c i s))"
    by (simp add: with_shards_same)
  moreover have "shard_list (put_shard c i s) = (shard_list c)[i := s]"
    using a(2) by (simp add: shard_list_def put_shard_def map_update shard_count_def)
  moreover have "with_shards (put_shard c i s) ss = with_shards c ss" for ss
    by (simp add: with_shards_def put_shard_def)
  ultimately show ?thesis by simp
qed

lemma with_shards_twice [simp]: "with_shards (with_shards c ss) ss' = with_shards c ss'"
  by (simp add: with_shards_def)

lemma length_shards_fold: "shards_fold g a ss = (a', ss') \<Longrightarrow> length ss' = length ss"
  by (induction ss arbitrary: a a' ss') (auto split: prod.splits)

lemma shards_fold_map: "shards_fold (\<lambda>a s. (a, g s)) a ss = (a, map g ss)"
  by (induction ss) simp_all

lemma shards_fold_unit: "shards_fold (\<lambda>u s. ((), g s)) () ss = ((), map g ss)"
  using shards_fold_map [of g "()" ss] by simp

text \<open>
  One step on shard \<open>i\<close> per index, in order, is the fold. \<open>f\<close> is the locked body, \<open>P\<close>
  a condition on the accumulator and the shards under which it returns.
\<close>

lemma each_shard_from:
  assumes "shards_fold g a ss = (a', ss')"
    and "\<And>a s i c. quiet c \<Longrightarrow> shard_count c = n \<Longrightarrow> hasher c = h \<Longrightarrow> i < n \<Longrightarrow> shard_at c i = s \<Longrightarrow>
      s \<in> set ss \<Longrightarrow> f a c i = returns (fst (g a s), put_shard c i (snd (g a s)))"
    and "length pre + length ss = n" and "hasher c = h"
  shows "each_shard f [length pre..<n] a (with_shards c (pre @ ss)) =
    returns (a', with_shards c (pre @ ss'))"
  using assms
proof (induction ss arbitrary: a pre a' ss')
  case Nil
  then show ?case by simp
next
  case (Cons s ss)
  let ?c = "with_shards c (pre @ s # ss)" and ?i = "length pre"
  obtain a1 s1 where g: "g a s = (a1, s1)" by fastforce
  obtain a2 ss2 where r: "shards_fold g a1 ss = (a2, ss2)" by fastforce
  have res: "a' = a2" "ss' = s1 # ss2" using Cons.prems(1) g r by simp_all
  have i: "?i < n" using Cons.prems(3) by simp
  have "f a ?c ?i = returns (a1, put_shard ?c ?i s1)"
    using Cons.prems(2) [of ?c ?i s a] Cons.prems(3,4) i g
    by (simp add: shard_at_with)
  moreover have "put_shard ?c ?i s1 = with_shards c ((pre @ [s1]) @ ss)"
    using i Cons.prems(3) by (simp add: with_shards_put)
  moreover have "each_shard f [length (pre @ [s1])..<n] a1 (with_shards c ((pre @ [s1]) @ ss)) =
      returns (a2, with_shards c ((pre @ [s1]) @ ss2))"
    using Cons.prems by (intro Cons.IH [OF r]) auto
  ultimately show ?case using i by (simp add: upt_conv_Cons res)
qed

lemma each_shard_fold:
  assumes "quiet c" and "shards_fold g a (shard_list c) = (a', ss')"
    and "\<And>a s i c'. quiet c' \<Longrightarrow> shard_count c' = shard_count c \<Longrightarrow> hasher c' = hasher c \<Longrightarrow>
      i < shard_count c \<Longrightarrow> shard_at c' i = s \<Longrightarrow> s \<in> set (shard_list c) \<Longrightarrow>
      f a c' i = returns (fst (g a s), put_shard c' i (snd (g a s)))"
  shows "each_shard f [0..<shard_count c] a c = returns (a', with_shards c ss')"
  using each_shard_from [OF assms(2), where pre = "[]" and n = "shard_count c" and f = f and c = c and h = "hasher c"]
    assms(1,3) by (simp add: with_shards_same)

lemma each_shard_write:
  assumes "quiet c"
  shows "each_shard (\<lambda>a c i. with_write c i (\<lambda>s. returns (g a s))) [0..<shard_count c] a c =
    (case shards_fold g a (shard_list c) of (a', ss') \<Rightarrow> returns (a', with_shards c ss'))"
proof -
  obtain a' ss' where r: "shards_fold g a (shard_list c) = (a', ss')" by fastforce
  have "each_shard (\<lambda>a c i. with_write c i (\<lambda>s. returns (g a s))) [0..<shard_count c] a c =
      returns (a', with_shards c ss')"
    by (rule each_shard_fold [OF assms r])
      (auto simp: with_write_quiet shard_count_def split: prod.split)
  then show ?thesis by (simp add: r)
qed

lemma each_shard_sum:
  assumes "quiet c" and "set is \<subseteq> {..<shard_count c}"
    and "n + (\<Sum>i \<leftarrow> is. size_of (shard_at c i)) \<le> usize_max"
  shows "each_shard (\<lambda>n c i. with_read c i (\<lambda>s.
      comp_bind (lift_run (usize_add n (size_of s))) (\<lambda>m. returns (m, s)))) is n c =
    returns (n + (\<Sum>i \<leftarrow> is. size_of (shard_at c i)), c)"
  using assms(2,3)
proof (induction "is" arbitrary: n)
  case (Cons i "is")
  then have "i < length (shards c)" by (simp add: shard_count_def)
  then have "with_read c i (\<lambda>s. comp_bind (lift_run (usize_add n (size_of s))) (\<lambda>m. returns (m, s))) =
      returns (n + size_of (shard_at c i), c)"
    using Cons.prems(2) by (simp add: with_read_quiet [OF assms(1)] put_shard_same)
  with Cons show ?case by (simp add: add.assoc)
qed simp

context shard_table
begin

lemma cache_ok_shard:
  assumes "cache_ok T hash rt_wf c" and "i < shard_count c"
  shows "shard_inv T hash rt_wf (shard_at c i)"
    and "shard_cap (shard_at c i) = per_shard_cap (cache_capacity c) (shard_count c)"
    and "shard_map T (shard_at c i) k = Some e \<Longrightarrow> key_shard c k = i"
  using assms cache_inv_shard [OF cache_okD(2) [OF assms(1)], of i]
  by (auto simp: shard_count_def cache_ok_def)

lemma in_shard_list:
  assumes "cache_ok T hash rt_wf c" and "s \<in> set (shard_list c)"
  shows "shard_inv T hash rt_wf s"
  using assms by (auto simp: in_set_conv_nth shard_list_nth cache_ok_shard)

text \<open>Replacing every shard by one with no new keys keeps the invariant.\<close>

lemma with_shards_ok:
  assumes ok: "cache_ok T hash rt_wf c" and len: "length ss = shard_count c"
    and ss: "\<And>i. i < shard_count c \<Longrightarrow> shard_inv T hash rt_wf (ss ! i) \<and>
      same_caps (shard_at c i) (ss ! i) \<and> dom (shard_vals T (ss ! i)) \<subseteq> dom (shard_vals T (shard_at c i))"
  shows "cache_ok T hash rt_wf (with_shards c ss)"
    and "cache_vals T (with_shards c ss) k = shard_vals T (ss ! key_shard c k) k"
proof -
  have h: "hasher c = hash" using ok by (simp add: cache_ok_def)
  have "layout_ok (with_shards c ss)"
    using ok len by (simp add: cache_ok_def cache_inv_def layout_ok_def with_shards_def shard_count_def)
  moreover have n: "length (shards (with_shards c ss)) = shard_count c"
    using len by (simp add: with_shards_def)
  moreover have "shard_inv T hash rt_wf (shard_at (with_shards c ss) i) \<and>
        shard_cap (shard_at (with_shards c ss) i) = per_shard_cap (cache_capacity c) (shard_count c) \<and>
        (\<forall>k \<in> dom (shard_map T (shard_at (with_shards c ss) i)). key_shard c k = i)"
    if "i < shard_count c" for i
    using that ss [OF that] cache_ok_shard [OF ok that] len
    by (auto simp: shard_at_with same_caps_def)
  ultimately show "cache_ok T hash rt_wf (with_shards c ss)"
    using h by (simp add: cache_ok_def cache_inv_def)
  show "cache_vals T (with_shards c ss) k = shard_vals T (ss ! key_shard c k) k"
    using home_okD(1) [OF ok, of k] len by (simp add: cache_vals_def shard_at_with shard_count_def)
qed

lemma same_config_with: "length ss = shard_count c \<Longrightarrow> same_config c (with_shards c ss)"
  by (simp add: same_config_def)

section \<open>The size of a cache\<close>

lemma cache_dom:
  assumes ok: "cache_ok T hash rt_wf c"
  shows "dom (cache_vals T c) = (\<Union>i < shard_count c. dom (shard_map T (shard_at c i)))"
proof -
  have "key_shard c k < shard_count c" for k using home_okD(1) [OF ok] by (simp add: shard_count_def)
  moreover have "cache_vals T c k \<noteq> None \<longleftrightarrow> shard_map T (shard_at c (key_shard c k)) k \<noteq> None" for k
    by (simp add: cache_vals_def shard_vals_def)
  ultimately show ?thesis using cache_ok_shard(3) [OF ok] by fast
qed

lemma cache_dom_finite:
  assumes "cache_ok T hash rt_wf c"
  shows "finite (dom (cache_vals T c))"
  by (simp add: cache_dom [OF assms])

lemma cache_card:
  assumes ok: "cache_ok T hash rt_wf c"
  shows "card (dom (cache_vals T c)) = (\<Sum>i < shard_count c. shard_len T (shard_at c i))"
proof -
  have "dom (shard_map T (shard_at c i)) \<inter> dom (shard_map T (shard_at c j)) = {}"
    if "i < shard_count c" "j < shard_count c" "i \<noteq> j" for i j
    using that cache_ok_shard(3) [OF ok] by blast
  then have "card (dom (cache_vals T c)) = (\<Sum>i < shard_count c. card (dom (shard_map T (shard_at c i))))"
    unfolding cache_dom [OF ok] by (intro card_UN_disjoint) auto
  also have "\<dots> = (\<Sum>i < shard_count c. shard_len T (shard_at c i))"
    by (intro sum.cong refl) (simp add: shard_len_card [OF cache_ok_shard(1) [OF ok]])
  finally show ?thesis .
qed

lemma shard_len_le_card:
  assumes ok: "cache_ok T hash rt_wf c" and "i < shard_count c"
  shows "shard_len T (shard_at c i) \<le> card (dom (cache_vals T c))"
  unfolding cache_card [OF ok] using assms(2) by (intro member_le_sum) auto

lemma unbounded_room:
  assumes ok: "cache_ok T hash rt_wf c" and "cache_capacity c = 0"
  shows "small_live (home c k) \<le> card (dom (cache_vals T c))"
proof -
  have "key_shard c k < shard_count c" using home_okD(1) [OF ok] by (simp add: shard_count_def)
  moreover have "shard_cap (home c k) = 0" using home_okD(3) [OF ok] assms(2) by (simp add: per_shard_cap_def)
  then have "small_live (home c k) = shard_len T (home c k)"
    using shard_len_unbounded [OF home_okD(2) [OF ok]] by simp
  ultimately show ?thesis using shard_len_le_card [OF ok] by (simp add: home_def)
qed

lemma cache_card_bound:
  assumes ok: "cache_ok T hash rt_wf c" and "0 < cache_capacity c"
  shows "card (dom (cache_vals T c)) \<le> cache_capacity c + shard_count c - 1"
proof -
  have n: "0 < shard_count c"
    using ok by (auto simp: cache_ok_def cache_inv_def layout_ok_def shard_count_def)
  let ?p = "per_shard_cap (cache_capacity c) (shard_count c)"
  have "?p \<noteq> 0" using assms(2) by (simp add: per_shard_cap_def)
  then have "shard_len T (shard_at c i) \<le> ?p" if "i < shard_count c" for i
    using shard_len_bound [OF cache_ok_shard(1) [OF ok that]] cache_ok_shard(2) [OF ok that] by simp
  then have "card (dom (cache_vals T c)) \<le> (\<Sum>i < shard_count c. ?p)"
    unfolding cache_card [OF ok] by (intro sum_mono) simp
  also have "\<dots> \<le> cache_capacity c + shard_count c - 1"
    using per_shard_cap_total [OF n assms(2)] by (simp add: mult.commute)
  finally show ?thesis .
qed

lemma sum_upt: "(\<Sum>i \<leftarrow> [0..<n]. f i) = (\<Sum>i < n. f i :: nat)"
  by (simp add: interv_sum_list_conv_sum_set_nat lessThan_atLeast0)

lemma nc_len_spec:
  assumes ok: "cache_ok T hash rt_wf c" and "card (dom (cache_vals T c)) \<le> usize_max"
  shows "nc_len T c = returns (card (dom (cache_vals T c)), c)"
  using each_shard_sum [OF cache_okD(3) [OF ok], of "[0..<shard_count c]" 0 "shard_len T"] assms(2)
  by (simp add: nc_len_def cache_card [OF ok] sum_upt lessThan_atLeast0 [symmetric])

section \<open>Whole-cache updates\<close>

lemma nc_clear_spec:
  assumes ok: "cache_ok T hash rt_wf c"
  shows "\<exists>c'. nc_clear T c = returns ((), c') \<and> cache_ok T hash rt_wf c' \<and> same_config c c' \<and>
    cache_vals T c' = Map.empty"
proof -
  let ?ss = "map (clear_all T) (shard_list c)"
  have "nc_clear T c = returns ((), with_shards c ?ss)"
    using each_shard_write [OF cache_okD(3) [OF ok], of "\<lambda>a s. ((), clear_all T s)" "()"]
    by (simp add: nc_clear_def shards_fold_unit)
  moreover have n: "length ?ss = shard_count c" by simp
  have "shard_inv T hash rt_wf (?ss ! i) \<and> same_caps (shard_at c i) (?ss ! i) \<and>
      shard_vals T (?ss ! i) = Map.empty" if "i < shard_count c" for i
    using that clear_all_spec [OF cache_ok_shard(1) [OF ok that]]
    by (simp add: shard_list_nth shard_vals_def)
  then have each: "i < shard_count c \<Longrightarrow> shard_inv T hash rt_wf (?ss ! i) \<and> same_caps (shard_at c i) (?ss ! i) \<and>
      dom (shard_vals T (?ss ! i)) \<subseteq> dom (shard_vals T (shard_at c i))"
    "i < shard_count c \<Longrightarrow> shard_vals T (?ss ! i) = Map.empty" for i
    by (simp_all del: dom_shard_vals)
  note w = with_shards_ok [OF ok n each(1)]
  have "key_shard c k < shard_count c" for k using home_okD(1) [OF ok] by (simp add: shard_count_def)
  then have "cache_vals T (with_shards c ?ss) k = None" for k
    using each(2) [of "key_shard c k"] w(2) [of k] by simp
  then have "cache_vals T (with_shards c ?ss) = Map.empty" by (simp add: fun_eq_iff)
  ultimately show ?thesis using w(1) same_config_with [OF n] by blast
qed

lemma shards_fold_retain:
  assumes "\<And>s. s \<in> set ss \<Longrightarrow> shard_inv T hash rt_wf s"
    and f: "\<And>st k v. case f st k v of (keep, v', st') \<Rightarrow> (keep, v') = p k v"
  shows "\<exists>st' ss'. shards_fold (retain_locked T f) st ss = (st', ss') \<and> list_all2 (\<lambda>s s'.
    shard_inv T hash rt_wf s' \<and> same_caps s s' \<and> shard_vals T s' = retained p (shard_vals T s)) ss ss'"
  using assms(1)
proof (induction ss arbitrary: st)
  case (Cons s ss)
  obtain st1 s1 where "retain_locked T f st s = (st1, s1)" "shard_inv T hash rt_wf s1" "same_caps s s1"
      "shard_vals T s1 = retained p (shard_vals T s)"
    using retain_locked_spec [where f = f and p = p and st = st, OF Cons.prems [of s] f] by auto
  moreover obtain st2 ss2 where "shards_fold (retain_locked T f) st1 ss = (st2, ss2)" "list_all2 (\<lambda>s s'.
    shard_inv T hash rt_wf s' \<and> same_caps s s' \<and> shard_vals T s' = retained p (shard_vals T s)) ss ss2"
    using Cons.IH [of st1] Cons.prems by auto
  ultimately show ?case by simp
qed simp

lemma nc_retain_spec:
  assumes ok: "cache_ok T hash rt_wf c"
    and f: "\<And>st k v. case f st k v of (keep, v', st') \<Rightarrow> (keep, v') = p k v"
  shows "\<exists>st' c'. nc_retain T c f st = returns (st', c') \<and> cache_ok T hash rt_wf c' \<and> same_config c c' \<and>
    cache_vals T c' = retained p (cache_vals T c)"
proof -
  obtain st' ss where r: "shards_fold (retain_locked T f) st (shard_list c) = (st', ss)"
    and all: "list_all2 (\<lambda>s s'. shard_inv T hash rt_wf s' \<and> same_caps s s' \<and>
      shard_vals T s' = retained p (shard_vals T s)) (shard_list c) ss"
    using shards_fold_retain [where f = f and p = p and st = st, OF in_shard_list [OF ok] f] by blast
  have n: "length ss = shard_count c" using list_all2_lengthD [OF all] by simp
  have each: "shard_inv T hash rt_wf (ss ! i) \<and> same_caps (shard_at c i) (ss ! i) \<and>
      shard_vals T (ss ! i) = retained p (shard_vals T (shard_at c i))" if "i < shard_count c" for i
    using list_all2_nthD [OF all, of i] that by (simp add: shard_list_nth)
  have "dom (retained p m) \<subseteq> dom m" for m by (auto simp: retained_def split: option.splits)
  then have "shard_inv T hash rt_wf (ss ! i) \<and> same_caps (shard_at c i) (ss ! i) \<and>
      dom (shard_vals T (ss ! i)) \<subseteq> dom (shard_vals T (shard_at c i))" if "i < shard_count c" for i
    using each [OF that] by metis
  note w = with_shards_ok [OF ok n this]
  have "key_shard c k < shard_count c" for k using home_okD(1) [OF ok] by (simp add: shard_count_def)
  then have "cache_vals T (with_shards c ss) = retained p (cache_vals T c)"
    using each by (simp add: fun_eq_iff w(2)) (simp add: retained_def cache_vals_def)
  moreover have "nc_retain T c f st = returns (st', with_shards c ss)"
    using each_shard_write [OF cache_okD(3) [OF ok], of "retain_locked T f" st] r by (simp add: nc_retain_def)
  ultimately show ?thesis using w(1) same_config_with [OF n] by blast
qed

text \<open>Shard-wise rewrites that keep every shard's map, as shrinking does.\<close>

lemma with_shards_same_map:
  assumes ok: "cache_ok T hash rt_wf c" and "length ss = shard_count c"
    and "\<And>i. i < shard_count c \<Longrightarrow> shard_inv T hash rt_wf (ss ! i) \<and>
      same_caps (shard_at c i) (ss ! i) \<and> shard_map T (ss ! i) = shard_map T (shard_at c i)"
  shows "cache_ok T hash rt_wf (with_shards c ss)"
    and "cache_map T (with_shards c ss) = cache_map T c"
    and "cache_vals T (with_shards c ss) = cache_vals T c"
proof -
  have ks: "key_shard c k < shard_count c" for k using home_okD(1) [OF ok] by (simp add: shard_count_def)
  show "cache_ok T hash rt_wf (with_shards c ss)"
    using assms by (intro with_shards_ok(1) [OF ok]) simp_all
  show m: "cache_map T (with_shards c ss) = cache_map T c"
    using assms ks by (simp add: cache_map_def fun_eq_iff shard_at_with)
  show "cache_vals T (with_shards c ss) = cache_vals T c"
    using m by (simp add: cache_map_def cache_vals_def shard_vals_def fun_eq_iff)
qed

lemma nc_shrink_to_fit_eq:
  assumes ok: "cache_ok T hash rt_wf c"
  shows "nc_shrink_to_fit T c =
    returns ((), with_shards c (map (\<lambda>s. map_shrink_to T (rt_len T (raw_map s)) hash s) (shard_list c)))"
proof -
  let ?g = "\<lambda>s. map_shrink_to T (rt_len T (raw_map s)) hash s"
  have h: "hasher c = hash" using ok by (simp add: cache_ok_def)
  show ?thesis
    unfolding nc_shrink_to_fit_def
    by (rule each_shard_fold [where g = "\<lambda>u s. ((), ?g s)", OF cache_okD(3) [OF ok]])
      (simp_all add: shards_fold_unit with_write_quiet shard_count_def h Let_def)
qed

lemma nc_shrink_to_fit_spec:
  assumes ok: "cache_ok T hash rt_wf c"
  shows "\<exists>c'. nc_shrink_to_fit T c = returns ((), c') \<and> cache_ok T hash rt_wf c' \<and> same_config c c' \<and>
    cache_map T c' = cache_map T c"
proof -
  let ?ss = "map (\<lambda>s. map_shrink_to T (rt_len T (raw_map s)) hash s) (shard_list c)"
  note nc_shrink_to_fit_eq [OF ok]
  moreover have "shard_inv T hash rt_wf (?ss ! i) \<and> same_caps (shard_at c i) (?ss ! i) \<and>
      shard_map T (?ss ! i) = shard_map T (shard_at c i)" if "i < shard_count c" for i
    using that map_shrink_to_spec [OF cache_ok_shard(1) [OF ok that]] by (simp add: shard_list_nth)
  ultimately show ?thesis
    using with_shards_same_map(1,2) [OF ok, of ?ss] same_config_with [of ?ss c] by fastforce
qed

lemma cache_ok_put_same_map:
  assumes ok: "cache_ok T hash rt_wf c" and i: "i < shard_count c"
    and s: "shard_inv T hash rt_wf s" "same_caps (shard_at c i) s" "shard_map T s = shard_map T (shard_at c i)"
  shows "cache_ok T hash rt_wf (put_shard c i s)" and "cache_map T (put_shard c i s) = cache_map T c"
proof -
  have eq: "put_shard c i s = with_shards c ((shard_list c)[i := s])"
    using i by (rule with_shards_put [OF cache_okD(3) [OF ok]])
  have "shard_inv T hash rt_wf ((shard_list c)[i := s] ! j) \<and> same_caps (shard_at c j) ((shard_list c)[i := s] ! j) \<and>
      shard_map T ((shard_list c)[i := s] ! j) = shard_map T (shard_at c j)" if "j < shard_count c" for j
    using that s cache_ok_shard(1) [OF ok that]
    by (cases "i = j") (simp_all add: shard_list_nth)
  note w = with_shards_same_map [OF ok _ this]
  show "cache_ok T hash rt_wf (put_shard c i s)" "cache_map T (put_shard c i s) = cache_map T c"
    unfolding eq using w by simp_all
qed

lemma try_reserve_from_spec:
  assumes "cache_ok T hash rt_wf c" and "set is \<subseteq> {..<shard_count c}"
  shows "\<exists>r c'. try_reserve_from T n is c = returns (r, c') \<and> cache_ok T hash rt_wf c' \<and>
    same_config c c' \<and> cache_map T c' = cache_map T c"
  using assms
proof (induction "is" arbitrary: c)
  case (Cons i "is")
  have i: "i < shard_count c" using Cons.prems(2) by simp
  have h: "hasher c = hash" "quiet c" using Cons.prems(1) by (simp_all add: cache_ok_def)
  obtain r s where r: "map_try_reserve T n hash (shard_at c i) = (r, s)" by fastforce
  note m = map_try_reserve_spec [OF cache_ok_shard(1) [OF Cons.prems(1) i] r]
  note p = cache_ok_put_same_map [OF Cons.prems(1) i m]
  have step: "with_write c i (\<lambda>s. returns (map_try_reserve T n (hasher c) s)) = returns (r, put_shard c i s)"
    using i r h(1) by (simp add: with_write_quiet [OF h(2)] shard_count_def)
  show ?case
  proof (cases r)
    case (Err e)
    with step p show ?thesis by auto
  next
    case (Ok u)
    have "set is \<subseteq> {..<shard_count (put_shard c i s)}"
      using Cons.prems(2) by (simp add: shard_count_def)
    then obtain r' c' where "try_reserve_from T n is (put_shard c i s) = returns (r', c')"
        "cache_ok T hash rt_wf c'" "same_config (put_shard c i s) c'"
        "cache_map T c' = cache_map T (put_shard c i s)"
      using Cons.IH [OF p(1)] by blast
    then show ?thesis
      using step Ok p(2) same_config_trans [OF same_config_put] by auto
  qed
qed auto

lemma each_shard_clone:
  assumes ok: "cache_ok T hash rt_wf c" and "set is \<subseteq> {..<shard_count c}"
  shows "each_shard (\<lambda>inner c i. with_read c i (\<lambda>s.
      returns (inner @ [\<lparr>rw_state = 0, rw_data = ShardData_clone T vcl s\<rparr>], s))) is acc c =
    returns (acc @ map (\<lambda>i. \<lparr>rw_state = 0, rw_data = ShardData_clone T vcl (shard_at c i)\<rparr>) is, c)"
  using assms(2)
proof (induction "is" arbitrary: acc)
  case (Cons i "is")
  then have "i < length (shards c)" by (simp add: shard_count_def)
  with Cons show ?case by (simp add: with_read_quiet [OF cache_okD(3) [OF ok]] put_shard_same)
qed simp

lemma nc_clone_eq:
  assumes ok: "cache_ok T hash rt_wf c"
  shows "nc_clone T vcl c = returns (with_shards c (map (ShardData_clone T vcl) (shard_list c)), c)"
proof -
  let ?ss = "map (ShardData_clone T vcl) (shard_list c)"
  have "map (\<lambda>i. \<lparr>rw_state = 0, rw_data = ShardData_clone T vcl (shard_at c i)\<rparr>) [0..<shard_count c] =
      map (\<lambda>s. \<lparr>rw_state = 0, rw_data = s\<rparr>) ?ss"
    by (intro nth_equalityI) (simp_all add: shard_list_nth)
  moreover have "\<lparr>shift = shift c, shards = x, hasher = hasher c, cache_capacity = cache_capacity c\<rparr> = c\<lparr>shards := x\<rparr>" for x
    by (cases c) simp
  moreover have "set [0..<shard_count c] \<subseteq> {..<shard_count c}" by auto
  ultimately show ?thesis
    unfolding nc_clone_def each_shard_clone [OF ok \<open>set [0..<shard_count c] \<subseteq> {..<shard_count c}\<close>]
    by (simp add: with_shards_def)
qed

lemma nc_clone_spec:
  assumes ok: "cache_ok T hash rt_wf c"
  shows "\<exists>d. nc_clone T vcl c = returns (d, c) \<and> cache_ok T hash rt_wf d \<and> same_config c d \<and>
    cache_map T d = map_option (CacheEntry_clone vcl) \<circ> cache_map T c"
proof -
  let ?ss = "map (ShardData_clone T vcl) (shard_list c)"
  have s: "shard_inv T hash rt_wf (?ss ! i) \<and> same_caps (shard_at c i) (?ss ! i) \<and>
      shard_map T (?ss ! i) = map_option (CacheEntry_clone vcl) \<circ> shard_map T (shard_at c i)" if "i < shard_count c" for i
    using that ShardData_clone_spec [OF cache_ok_shard(1) [OF ok that]] by (simp add: shard_list_nth)
  have ks: "key_shard c k < shard_count c" for k using home_okD(1) [OF ok] by (simp add: shard_count_def)
  have "cache_ok T hash rt_wf (with_shards c ?ss)"
    using s by (intro with_shards_ok(1) [OF ok]) (auto simp: shard_vals_def)
  moreover have "cache_map T (with_shards c ?ss) = map_option (CacheEntry_clone vcl) \<circ> cache_map T c"
    using s ks by (simp add: cache_map_def fun_eq_iff shard_at_with)
  ultimately show ?thesis using nc_clone_eq [OF ok] same_config_with [of ?ss c] by simp
qed

end

end
