(* ===== verification/Slot_Table.thy ===== *)
theory Slot_Table
  imports Raw_Table
begin

text \<open>
  A concrete table that satisfies the interface of \<open>Raw_Table\<close>: an array of slots, each
  empty or holding a hash and an element; lookups compare the stored hash and the closure.
  It instantiates the table parameter wherever a statement is evaluated on a concrete
  input, and shows that the laws of \<open>raw_table\<close> hold together. It is not a model of
  hashbrown's layout.
\<close>

type_synonym 'a slots = "(u64 \<times> 'a) option list"

definition st_iter :: "'a slots \<Rightarrow> nat list" where
  "st_iter t = filter (\<lambda>i. t ! i \<noteq> None) [0..<length t]"

definition st_as_ref :: "'a slots \<Rightarrow> nat \<Rightarrow> 'a" where
  "st_as_ref t b = snd (the (t ! b))"

definition st_find :: "'a slots \<Rightarrow> u64 \<Rightarrow> ('a \<Rightarrow> bool) \<Rightarrow> nat option" where
  "st_find t h eq = find (\<lambda>i. case t ! i of None \<Rightarrow> False | Some (h', x) \<Rightarrow> h' = h \<and> eq x) [0..<length t]"

definition st_free :: "'a slots \<Rightarrow> nat \<times> 'a slots" where
  "st_free t = (case find (\<lambda>i. t ! i = None) [0..<length t] of
     Some i \<Rightarrow> (i, t) | None \<Rightarrow> (length t, t @ [None]))"

definition st_find_or_slot ::
    "'a slots \<Rightarrow> u64 \<Rightarrow> ('a \<Rightarrow> bool) \<Rightarrow> ('a \<Rightarrow> u64) \<Rightarrow> (nat, nat) result \<times> 'a slots" where
  "st_find_or_slot t h eq hasher = (case st_find t h eq of
     Some b \<Rightarrow> (Ok b, t) | None \<Rightarrow> (let (i, t') = st_free t in (Err i, t')))"

definition st_write :: "'a slots \<Rightarrow> nat \<Rightarrow> 'a \<Rightarrow> 'a slots" where
  "st_write t b x = t[b := map_option (\<lambda>(h, _). (h, x)) (t ! b)]"

definition st_clone :: "('a \<Rightarrow> 'a) \<Rightarrow> 'a slots \<Rightarrow> 'a slots" where
  "st_clone cl t = map (map_option (\<lambda>(h, x). (h, cl x))) t"

definition slot_table :: "('a, 'a slots) RawTable" where
  "slot_table = \<lparr>rt_new = [], rt_with_capacity = (\<lambda>n. replicate n None), rt_find = st_find,
     rt_as_ref = st_as_ref, rt_write = st_write,
     rt_remove = (\<lambda>t b. (st_as_ref t b, t[b := None])), rt_erase = (\<lambda>t b. t[b := None]),
     rt_find_or_find_insert_slot = st_find_or_slot,
     rt_insert_in_slot = (\<lambda>t h slot x. (slot, t[slot := Some (h, x)])),
     rt_iter = st_iter, rt_into_iter = (\<lambda>t. map (st_as_ref t) (st_iter t)),
     rt_len = (\<lambda>t. length (st_iter t)), rt_capacity = length,
     rt_try_reserve = (\<lambda>t n hasher. (Ok (), t @ replicate n None)),
     rt_shrink_to = (\<lambda>t n hasher. t), rt_clone = st_clone\<rparr>"

definition st_wf :: "('k \<Rightarrow> u64) \<Rightarrow> ('k \<times> 'e) slots \<Rightarrow> bool" where
  "st_wf hash t \<longleftrightarrow> (\<forall>h x. Some (h, x) \<in> set t \<longrightarrow> h = hash (fst x))"

definition st_slot_ok :: "'a slots \<Rightarrow> u64 \<Rightarrow> nat \<Rightarrow> bool" where
  "st_slot_ok t h slot \<longleftrightarrow> slot < length t \<and> t ! slot = None"

lemma st_iter_iff [simp]: "b \<in> set (st_iter t) \<longleftrightarrow> b < length t \<and> t ! b \<noteq> None"
  by (auto simp: st_iter_def)

lemma st_contents_eq: "map (st_as_ref t) (st_iter t) = map (snd \<circ> the) (filter (\<lambda>x. x \<noteq> None) t)"
proof -
  have "map (\<lambda>i. t ! i) (filter (\<lambda>i. t ! i \<noteq> None) [0..<length t])
      = filter (\<lambda>x. x \<noteq> None) (map ((!) t) [0..<length t])"
    by (simp add: filter_map comp_def)
  then have "map (snd \<circ> the) (map (\<lambda>i. t ! i) (st_iter t)) = map (snd \<circ> the) (filter (\<lambda>x. x \<noteq> None) t)"
    by (simp add: st_iter_def map_nth)
  moreover have "st_as_ref t = (snd \<circ> the) \<circ> (!) t" by (simp add: fun_eq_iff st_as_ref_def)
  ultimately show ?thesis by simp
qed

lemma st_wf_nth: "st_wf hash t \<Longrightarrow> b < length t \<Longrightarrow> t ! b = Some (h, x) \<Longrightarrow> h = hash (fst x)"
  unfolding st_wf_def by (metis nth_mem)

lemma st_find_SomeD:
  "st_find t h eq = Some b \<Longrightarrow> b < length t \<and> (\<exists>x. t ! b = Some (h, x) \<and> eq x)"
  by (auto simp: st_find_def find_Some_iff split: option.splits)

lemma st_find_NoneD:
  "st_find t h eq = None \<Longrightarrow> b < length t \<Longrightarrow> t ! b = Some (h, x) \<Longrightarrow> \<not> eq x"
  by (auto simp: st_find_def find_None_iff split: option.splits)

lemma st_free_spec:
  assumes "st_free t = (i, t')"
  shows "i < length t' \<and> t' ! i = None \<and> (t' = t \<or> t' = t @ [None])"
  using assms by (auto simp: st_free_def find_Some_iff split: option.splits)

lemma st_wf_update: "st_wf hash t \<Longrightarrow> (\<And>h x. v = Some (h, x) \<Longrightarrow> h = hash (fst x)) \<Longrightarrow> st_wf hash (t[b := v])"
  using set_update_subset_insert [of t b v] by (fastforce simp: st_wf_def)

lemma st_wf_append_free [simp]: "st_wf hash (t @ replicate n None) = st_wf hash t"
  by (simp add: st_wf_def)

lemma st_wf_snoc_free [simp]: "st_wf hash (t @ [None]) = st_wf hash t"
  by (simp add: st_wf_def)

lemma st_insert_contents:
  assumes "i < length t" and "t ! i = None"
  shows "mset (map (st_as_ref (t[i := Some (h, x)])) (st_iter (t[i := Some (h, x)])))
       = add_mset x (mset (map (st_as_ref t) (st_iter t)))"
proof -
  have "mset (t[i := Some (h, x)]) = add_mset (Some (h, x)) (mset t - {#None#})"
    using assms by (simp add: mset_update)
  moreover have "filter_mset (\<lambda>y. y \<noteq> None) (mset t - {#None#}) = filter_mset (\<lambda>y. y \<noteq> None) (mset t)"
    by (simp add: filter_diff_mset)
  ultimately show ?thesis by (simp add: st_contents_eq del: not_None_eq)
qed

lemma st_find_or_slot_Err:
  assumes "st_find_or_slot t h eq hasher = (Err slot, t')"
  shows "st_find t h eq = None \<and> st_slot_ok t' h slot \<and> (t' = t \<or> t' = t @ [None])"
  using assms by (auto simp: st_find_or_slot_def st_slot_ok_def split: option.splits prod.splits
      dest: st_free_spec)

lemma st_find_or_slot_Ok:
  "st_find_or_slot t h eq hasher = (Ok b, t') \<Longrightarrow> st_find t h eq = Some b \<and> t' = t"
  by (auto simp: st_find_or_slot_def split: option.splits prod.splits)

lemma st_clone_contents:
  "map (st_as_ref (st_clone cl t)) (st_iter (st_clone cl t)) = map cl (map (st_as_ref t) (st_iter t))"
proof -
  have i: "st_iter (st_clone cl t) = st_iter t"
    by (auto simp: st_iter_def st_clone_def intro!: filter_cong)
  have "st_as_ref (st_clone cl t) b = cl (st_as_ref t b)" if "b \<in> set (st_iter t)" for b
    using that by (auto simp: st_clone_def st_as_ref_def)
  then show ?thesis by (simp add: i)
qed

interpretation slot_rt: raw_table slot_table hash "st_wf hash" st_slot_ok for hash :: "'k \<Rightarrow> u64"
proof (unfold_locales, goal_cases)
  case (6 t h eq b)
  then show ?case by (auto simp: slot_table_def st_as_ref_def dest: st_find_SomeD)
next
  case (7 t h eq b)
  then obtain h' x where "t ! b = Some (h', x)" "b < length t"
    by (auto simp: slot_table_def)
  moreover have "h' = hash (fst x)"
    using 7(1) calculation(2,1) by (rule st_wf_nth)
  ultimately show ?case
    using 7(2,4) by (auto simp: slot_table_def st_as_ref_def dest: st_find_NoneD)
next
  case (8 t b x)
  then obtain h y where y: "t ! b = Some (h, y)" "b < length t"
    by (auto simp: slot_table_def)
  with 8 have "st_wf hash (st_write t b x)"
    unfolding st_write_def
    by (intro st_wf_update) (auto simp: slot_table_def st_as_ref_def dest: st_wf_nth)
  moreover have "st_iter (st_write t b x) = st_iter t"
    using y by (auto simp: st_iter_def st_write_def nth_list_update intro!: filter_cong)
  moreover have "st_as_ref (st_write t b x) = (st_as_ref t)(b := x)"
    using y by (auto simp: st_as_ref_def st_write_def fun_eq_iff)
  ultimately show ?case by (simp add: slot_table_def)
next
  case (9 t b x t')
  then show ?case
    by (auto simp: slot_table_def st_as_ref_def nth_list_update intro!: st_wf_update split: if_splits)
next
  case (11 t h eq r t')
  have "t' = t \<or> t' = t @ [None]"
    using 11(2) st_find_or_slot_Err st_find_or_slot_Ok
    by (cases r) (fastforce simp: slot_table_def)+
  with 11(1) show ?case
    by (auto simp: rt_contents_def slot_table_def st_contents_eq)
next
  case (12 t h eq b t')
  then have "st_find t h eq = Some b \<and> t' = t"
    by (auto simp: slot_table_def dest: st_find_or_slot_Ok)
  then show ?case by (auto simp: slot_table_def st_as_ref_def dest: st_find_SomeD)
next
  case (13 t h eq slot t')
  then have e: "st_find t h eq = None" "st_slot_ok t' h slot" "t' = t \<or> t' = t @ [None]"
    by (auto simp: slot_table_def dest: st_find_or_slot_Err)
  have "\<not> eq x" if x: "x \<in> set (map (st_as_ref t) (st_iter t))" and hx: "hash (fst x) = h" for x
  proof -
    obtain b h' where b: "b < length t" "t ! b = Some (h', x)"
      using x by (force simp: st_as_ref_def)
    moreover have "h' = h" using st_wf_nth [OF 13(1) b] hx by simp
    ultimately show ?thesis using st_find_NoneD [OF e(1)] by simp
  qed
  moreover have "map (st_as_ref t') (st_iter t') = map (st_as_ref t) (st_iter t)"
    using e(3) by (auto simp: st_contents_eq)
  ultimately show ?case using e(2) by (simp add: rt_contents_def slot_table_def)
next
  case (14 t h slot b)
  then show ?case by (auto simp: slot_table_def st_slot_ok_def nth_list_update)
next
  case (15 t h slot b x)
  then show ?case by (auto simp: slot_table_def st_slot_ok_def st_write_def nth_list_update)
next
  case (16 t h x slot b t')
  then have "t' = t[slot := Some (h, x)]" "b = slot" "slot < length t" "t ! slot = None"
    by (auto simp: slot_table_def st_slot_ok_def)
  with 16 st_insert_contents [of slot t h x] show ?case
    by (auto simp: slot_table_def rt_contents_def st_as_ref_def intro!: st_wf_update)
next
  case (19 t)
  have "length (st_iter t) \<le> length [0..<length t]" unfolding st_iter_def by (rule length_filter_le)
  then show ?case by (simp add: slot_table_def)
next
  case (20 t n res t')
  then show ?case by (auto simp: slot_table_def rt_contents_def st_contents_eq)
next
  case (22 t cl)
  have "h = hash (fst x)" if st: "Some (h, x) \<in> set (st_clone cl t)" for h x
  proof -
    obtain y where "Some (h, y) \<in> set t" "x = cl y" using st by (fastforce simp: st_clone_def eq_commute [of "Some _"])
    with 22 show ?thesis by (simp only: st_wf_def)
  qed
  then have "st_wf hash (st_clone cl t)" by (auto simp: st_wf_def)
  with 22 show ?case by (simp add: slot_table_def rt_contents_def st_clone_contents del: map_map)
qed (auto simp: slot_table_def st_iter_def st_wf_def rt_contents_def)

end
