(* ===== verification/Demo_Cache.thy ===== *)
theory Demo_Cache
  imports Neo_Cache_All Slot_Table
begin

text \<open>
  The model run on concrete inputs: the cache over the executable table of theory
  \<open>Slot_Table\<close> with natural numbers as keys, and the states reached by a few calls. These
  states are where the properties are instantiated.
\<close>

interpretation slot_shard: shard_table slot_table hash "st_wf hash" st_slot_ok
  for hash :: "'k \<Rightarrow> u64"
  by (rule shard_table.intro) (rule slot_rt.raw_table_axioms)

definition demo_hash :: "nat \<Rightarrow> u64" where
  "demo_hash k = of_nat k"

type_synonym demo_cache = "(nat, (nat \<times> string CacheEntry) slots) NeoCache"

fun after :: "('a \<times> 's) comp \<Rightarrow> 's" where
  "after (Some (Return (a, s))) = s"
| "after x = undefined"

fun run_value :: "'a run \<Rightarrow> 'a" where
  "run_value (Return x) = x"
| "run_value (Panic p) = undefined"

definition demo_new :: demo_cache where
  "demo_new = run_value (with_capacity_and_hasher_and_shard_amount slot_table 4 demo_hash 2)"

definition demo_insert :: "demo_cache \<Rightarrow> nat \<Rightarrow> string \<Rightarrow> demo_cache" where
  "demo_insert c k v = after (nc_insert slot_table c k v)"

definition demo_one :: demo_cache where
  "demo_one = demo_insert demo_new 1 ''one''"

definition demo_full :: demo_cache where
  "demo_full = demo_insert demo_one 2 ''two''"

definition demo_view :: "demo_cache \<Rightarrow> nat \<Rightarrow> demo_cache" where
  "demo_view c k = after (nc_view slot_table c k (\<lambda>_ v. v))"

text \<open>
  Key 1 is promoted because it was read, key 2 goes to the ghost set, key 3 is read, and
  key 2 comes back as a main entry: afterwards the main queue holds keys 3 and 2.
\<close>

definition demo_main :: demo_cache where
  "demo_main = demo_insert (demo_view (demo_insert (demo_insert (demo_view demo_one 1) 2 ''two'') 3 ''three'') 3) 2 ''dos''"

definition demo_unbounded :: demo_cache where
  "demo_unbounded = run_value (with_capacity_and_hasher_and_shard_amount slot_table 0 demo_hash 2)"

abbreviation demo_ok :: "demo_cache \<Rightarrow> bool" where
  "demo_ok c \<equiv> cache_ok slot_table demo_hash (st_wf demo_hash) c"

lemma demo_amount: "is_power_of_two 2"
  by code_simp

lemma demo_constructed:
  assumes "cap \<le> usize_max" and "c = run_value (with_capacity_and_hasher_and_shard_amount slot_table cap demo_hash 2)"
  shows "demo_ok c" and "cache_vals slot_table c = Map.empty" and "cache_capacity c = cap"
proof -
  have "(2::nat) \<le> usize_max" by (simp add: usize_max_def)
  then obtain d where "with_capacity_and_hasher_and_shard_amount slot_table cap demo_hash 2 = Return d"
    "demo_ok d" "cache_vals slot_table d = Map.empty" "cache_capacity d = cap"
    using slot_shard.constructor_ok [OF assms(1) _ demo_amount, of demo_hash thesis] by fastforce
  then show "demo_ok c" "cache_vals slot_table c = Map.empty" "cache_capacity c = cap"
    by (simp_all add: assms(2))
qed

lemmas demo_new_ok = demo_constructed [OF _ demo_new_def]
lemmas demo_unbounded_ok = demo_constructed [OF _ demo_unbounded_def]

lemma demo_new_Return: "with_capacity_and_hasher_and_shard_amount slot_table 4 demo_hash 2 = Return demo_new"
proof -
  have "(4::nat) \<le> usize_max" "(2::nat) \<le> usize_max" by (simp_all add: usize_max_def)
  then obtain d :: demo_cache where "with_capacity_and_hasher_and_shard_amount slot_table 4 demo_hash 2 = Return d"
    using slot_shard.constructor_ok [OF _ _ demo_amount, of 4 demo_hash thesis] by fastforce
  then show ?thesis by (simp add: demo_new_def)
qed

lemma demo_insert_ok:
  assumes ok: "demo_ok c" and "cache_capacity c = 4"
  shows "demo_ok (demo_insert c k v) \<and> cache_capacity (demo_insert c k v) = 4"
proof (cases "cache_map slot_table c k")
  case None
  then have "cache_vals slot_table c k = None" by (simp add: cache_map_def cache_vals_def shard_vals_def)
  from slot_shard.nc_insert_absent [OF ok this, of v] assms(2) show ?thesis
    by (auto simp: demo_insert_def same_config_def)
next
  case (Some e)
  from slot_shard.nc_insert_present [OF ok Some, of v] assms(2) show ?thesis
    by (auto simp: demo_insert_def same_config_def)
qed

lemma demo_view_ok:
  assumes ok: "demo_ok c" and "cache_capacity c = 4"
  shows "demo_ok (demo_view c k) \<and> cache_capacity (demo_view c k) = 4"
  using slot_shard.nc_view_spec [OF ok, of k "\<lambda>_ v. v"] assms(2) by (auto simp: demo_view_def same_config_def)

lemma demo_states_ok:
  "demo_ok demo_new" "demo_ok demo_one" "demo_ok demo_full" "demo_ok demo_unbounded"
  "cache_capacity demo_new = 4" "cache_capacity demo_one = 4" "cache_capacity demo_full = 4"
  "cache_capacity demo_unbounded = 0"
proof -
  have "(4::nat) \<le> usize_max" by (simp add: usize_max_def)
  note new = demo_new_ok [OF this]
  show "demo_ok demo_new" "cache_capacity demo_new = 4" using new by simp_all
  show one: "demo_ok demo_one" "cache_capacity demo_one = 4"
    unfolding demo_one_def using demo_insert_ok [OF new(1,3)] by simp_all
  show "demo_ok demo_full" "cache_capacity demo_full = 4"
    unfolding demo_full_def using demo_insert_ok [OF one] by simp_all
  show "demo_ok demo_unbounded" "cache_capacity demo_unbounded = 0" using demo_unbounded_ok by simp_all
qed

lemma demo_main_ok: "demo_ok demo_main"
  unfolding demo_main_def by (simp add: demo_insert_ok demo_view_ok demo_states_ok)

lemma demo_values:
  "cache_vals slot_table demo_one 1 = Some ''one''" "cache_vals slot_table demo_one 2 = None"
  "cache_vals slot_table demo_full 1 = Some ''one''" "cache_vals slot_table demo_full 2 = Some ''two''"
  "cache_vals slot_table demo_full 3 = None"
  by code_simp+

lemma demo_full_full: "shard_full (home demo_full 3)"
  by code_simp

lemma demo_home_inv:
  "shard_inv slot_table demo_hash (st_wf demo_hash) (home demo_full 3)"
  "shard_inv slot_table demo_hash (st_wf demo_hash) (home demo_main 4)"
  by (rule slot_shard.home_okD(2) [OF demo_states_ok(3)], rule slot_shard.home_okD(2) [OF demo_main_ok])

lemma demo_home_counts:
  "0 < shard_cap (home demo_full 3)" "small_cap (home demo_full 3) \<le> small_live (home demo_full 3)"
  "live (home demo_full 3) = shard_cap (home demo_full 3)"
  "0 < shard_cap (home demo_main 4)" "small_live (home demo_main 4) < small_cap (home demo_main 4)"
  "live (home demo_main 4) = shard_cap (home demo_main 4)"
  by code_simp+

lemma demo_full_card: "card (dom (cache_vals slot_table demo_full)) \<le> usize_max"
proof -
  have "shard_count demo_full = 2" by code_simp
  moreover have "card (dom (cache_vals slot_table demo_full)) \<le> 4 + shard_count demo_full - 1"
    using slot_shard.cache_card_bound [OF demo_states_ok(3)] by (simp add: demo_states_ok(7))
  ultimately show ?thesis by (simp add: usize_max_def)
qed

end
