(* ===== verification/Cache_Properties.thy ===== *)
theory Cache_Properties
  imports Demo_Cache
begin

text \<open>
  The properties of the constructors and methods of \<open>NeoCache\<close>, stated for every table \<open>T\<close>
  that obeys the \<open>RawTable\<close> contract (\<open>shard_table\<close>), every hash function and every cache
  in a state \<open>cache_ok\<close>: the invariant holds and no guard is outstanding. Each witness is
  the property at a state of theory \<open>Demo_Cache\<close>.
\<close>

lemma cache_vals_None: "cache_vals T c k = None \<longleftrightarrow> cache_map T c k = None"
  by (simp add: cache_vals_def cache_map_def shard_vals_def)

lemma cache_vals_entry: "cache_vals T c k = Some v \<longleftrightarrow> (\<exists>e. cache_map T c k = Some e \<and> entry_val e = v)"
  by (simp add: cache_vals_def cache_map_def shard_vals_def)

section \<open>Construction and shard selection\<close>

text \<open>
  C21: the constructor panics exactly when the shard amount is not a power of two greater
  than one; otherwise it returns an empty cache that satisfies the invariant, has the
  requested capacity, and has a power-of-two number of shards, at most the amount asked for,
  to which every hash is routed.
\<close>

theorem constructor_correct:
  assumes "shard_table T hash tok sok" and "cap \<le> usize_max" and "n \<le> usize_max"
  shows "if 1 < n \<and> is_power_of_two n
    then \<exists>c. with_capacity_and_hasher_and_shard_amount T cap hash n = Return c \<and>
      cache_ok T hash tok c \<and> cache_vals T c = Map.empty \<and> cache_capacity c = cap \<and>
      shard_count c \<le> n \<and> is_power_of_two (shard_count c) \<and> (\<forall>h. determine_shard c h < shard_count c)
    else with_capacity_and_hasher_and_shard_amount T cap hash n = Panic Assert_failed"
proof (cases "1 < n \<and> is_power_of_two n")
  case True
  then obtain c where c: "with_capacity_and_hasher_and_shard_amount T cap hash n = Return c"
    "cache_ok T hash tok c" "cache_vals T c = Map.empty" "cache_capacity c = cap" "shard_count c \<le> n"
    using shard_table.constructor_ok [OF assms(1,2) _ _ assms(3)] by blast
  moreover have "is_power_of_two (shard_count c)"
    using c(2) by (auto simp: cache_ok_def cache_inv_def layout_ok_def shard_count_def is_power_of_two_iff)
  moreover have "determine_shard c h < shard_count c" for h
    using c(2) determine_shard_less [of c h] by (simp add: cache_ok_def cache_inv_def shard_count_def)
  ultimately show ?thesis using True by simp
qed (auto simp: with_capacity_and_hasher_and_shard_amount_def)

theorem constructor_correct_witness:
  "\<exists>c :: demo_cache. with_capacity_and_hasher_and_shard_amount slot_table 4 demo_hash 2 = Return c \<and>
    cache_ok slot_table demo_hash (st_wf demo_hash) c \<and> cache_vals slot_table c = Map.empty \<and>
    cache_capacity c = 4 \<and> shard_count c \<le> 2 \<and> is_power_of_two (shard_count c) \<and>
    (\<forall>h. determine_shard c h < shard_count c)"
  using constructor_correct [OF slot_shard.shard_table_axioms, of 4 2 demo_hash] demo_amount
  by (simp add: usize_max_def)

text \<open>
  Every hash is routed to an existing shard, so no shard access is out of range.
\<close>

theorem determine_shard_in_range:
  assumes "cache_ok T hash tok c"
  shows "determine_shard c h < shard_count c"
  using assms determine_shard_less [of c h] by (simp add: cache_ok_def cache_inv_def shard_count_def)

theorem determine_shard_in_range_witness:
  "determine_shard demo_full 18446744073709551615 < shard_count demo_full"
  by (rule determine_shard_in_range [OF demo_states_ok(3)])

section \<open>Insertion and removal\<close>

text \<open>
  C4: inserting a new key always returns, reports no old value and keeps the invariant.
  It evicts exactly one other entry of the same shard when the shard is full and none
  otherwise; every other entry keeps its value. A key whose hash is in the ghost set of its
  shard enters the main queue, any other key the small queue, with frequency zero. (An
  unbounded cache needs room in the \<open>usize\<close> counter.)
\<close>

theorem insert_new_key:
  assumes "shard_table T hash tok sok" and "cache_ok T hash tok c" and "cache_vals T c k = None"
    and "cache_capacity c = 0 \<Longrightarrow> card (dom (cache_vals T c)) < usize_max"
  shows "\<exists>c' vict. nc_insert T c k v = returns (None, c') \<and> cache_ok T hash tok c' \<and> same_config c c' \<and>
    cache_map T c' k = Some (CacheEntry_new v (if hash k \<in> ghost_set (home c k) then LOC_MAIN else LOC_SMALL)) \<and>
    (vict = None \<longleftrightarrow> \<not> shard_full (home c k)) \<and>
    (case vict of None \<Rightarrow> cache_vals T c' = (cache_vals T c)(k \<mapsto> v)
     | Some j \<Rightarrow> j \<noteq> k \<and> key_shard c j = key_shard c k \<and> cache_vals T c j \<noteq> None \<and>
         cache_vals T c' = (cache_vals T c)(j := None, k \<mapsto> v))"
  using shard_table.nc_insert_absent [OF assms(1-3), of v] shard_table.unbounded_room [OF assms(1,2), of k]
    assms(4) by fastforce

theorem insert_new_key_witness:
  "\<exists>c' j. nc_insert slot_table demo_full 3 ''three'' = returns (None, c') \<and> j \<noteq> 3 \<and>
    cache_vals slot_table demo_full j \<noteq> None \<and>
    cache_vals slot_table c' = (cache_vals slot_table demo_full)(j := None, 3 \<mapsto> ''three'')"
  using insert_new_key [OF slot_shard.shard_table_axioms demo_states_ok(3) demo_values(5), of "''three''"]
    demo_full_full demo_states_ok(7)
  by (auto split: option.splits)

text \<open>
  C18: inserting an existing key returns the old value, replaces it in place and evicts
  nothing; the entry keeps its queue and its frequency.
\<close>

theorem insert_existing_key:
  assumes "shard_table T hash tok sok" and "cache_ok T hash tok c" and "cache_map T c k = Some e"
  shows "\<exists>c'. nc_insert T c k v = returns (Some (entry_val e), c') \<and> cache_ok T hash tok c' \<and>
    same_config c c' \<and> cache_vals T c' = (cache_vals T c)(k \<mapsto> v) \<and>
    cache_map T c' k = Some (e\<lparr>entry_value := sv_new v\<rparr>)"
  by (rule shard_table.nc_insert_present [OF assms])

theorem insert_existing_key_witness:
  "\<exists>c'. nc_insert slot_table demo_full 2 ''zwei'' = returns (Some ''two'', c') \<and>
    cache_vals slot_table c' = (cache_vals slot_table demo_full)(2 \<mapsto> ''zwei'')"
proof -
  obtain e where "cache_map slot_table demo_full 2 = Some e" "entry_val e = ''two''"
    using demo_values(4) by (auto simp: cache_vals_entry)
  with insert_existing_key [OF slot_shard.shard_table_axioms demo_states_ok(3), of 2 e "''zwei''"]
  show ?thesis by auto
qed

text \<open>
  a value just inserted is found by the next lookup, whether the key was there or not
  and whatever the eviction policy removed to make room.
\<close>

theorem insert_then_view:
  assumes "shard_table T hash tok sok" and "cache_ok T hash tok c"
    and "cache_capacity c = 0 \<Longrightarrow> card (dom (cache_vals T c)) < usize_max"
  shows "\<exists>c' c''. nc_insert T c k v = returns (cache_vals T c k, c') \<and>
    nc_view T c' k (\<lambda>_ x. x) = returns (Some v, c'')"
proof -
  have room: "cache_capacity c = 0 \<Longrightarrow> small_live (home c k) < usize_max"
    using shard_table.unbounded_room [OF assms(1,2), of k] assms(3) by fastforce
  have "\<exists>c'. nc_insert T c k v = returns (cache_vals T c k, c') \<and> cache_ok T hash tok c' \<and>
      cache_vals T c' k = Some v"
  proof (cases "cache_map T c k")
    case None
    then have "cache_vals T c k = None" by (simp add: cache_vals_None)
    with shard_table.nc_insert_absent [OF assms(1,2) this room, of v] show ?thesis
      by (fastforce split: option.splits)
  next
    case (Some e)
    then have "cache_vals T c k = Some (entry_val e)" by (simp add: cache_vals_entry)
    with shard_table.nc_insert_present [OF assms(1,2) Some, of v] show ?thesis by auto
  qed
  then obtain c' where c': "nc_insert T c k v = returns (cache_vals T c k, c')" "cache_ok T hash tok c'"
      "cache_vals T c' k = Some v" by blast
  with shard_table.nc_view_spec [OF assms(1) c'(2), of k "\<lambda>_ x. x"] show ?thesis by auto
qed

theorem insert_then_view_witness:
  "\<exists>c' c''. nc_insert slot_table demo_full 3 ''three'' = returns (None, c') \<and>
    nc_view slot_table c' 3 (\<lambda>_ x. x) = returns (Some ''three'', c'')"
  using insert_then_view [OF slot_shard.shard_table_axioms demo_states_ok(3), of 3 "''three''"]
    demo_values(5) demo_states_ok(7) by simp

text \<open>
  C28: removal. \<open>remove\<close> returns the pair the key held, if any, and deletes exactly that key.
  The conditional removals delete the key exactly when the predicate accepts its pair and
  then return that pair. \<open>remove_if\<close> otherwise changes no value; when the predicate of
  \<open>remove_if_mut\<close> rejects, the value it wrote stays in the cache, and when it accepts, the
  written value is what the removal returns.
\<close>

theorem removal_correct:
  assumes "shard_table T hash tok sok" and "cache_ok T hash tok c"
  shows "(\<exists>c'. nc_remove T c k = returns (map_option (\<lambda>v. (k, v)) (cache_vals T c k), c') \<and>
    cache_ok T hash tok c' \<and> same_config c c' \<and> cache_vals T c' = (cache_vals T c)(k := None)) \<and>
    (\<exists>c'. nc_remove_if_mut T c k f = returns (case cache_vals T c k of
         Some v \<Rightarrow> (case f k v of (True, v') \<Rightarrow> Some (k, v') | (False, v') \<Rightarrow> None) | None \<Rightarrow> None, c') \<and>
    cache_ok T hash tok c' \<and> same_config c c' \<and>
    cache_vals T c' = (case cache_vals T c k of
       Some v \<Rightarrow> (case f k v of (True, v') \<Rightarrow> (cache_vals T c)(k := None)
                 | (False, v') \<Rightarrow> (cache_vals T c)(k \<mapsto> v')) | None \<Rightarrow> cache_vals T c)) \<and>
    (\<exists>c'. nc_remove_if T c k g = returns (case cache_vals T c k of
         Some v \<Rightarrow> if g k v then Some (k, v) else None | None \<Rightarrow> None, c') \<and>
    cache_ok T hash tok c' \<and> same_config c c' \<and>
    cache_vals T c' = (case cache_vals T c k of
       Some v \<Rightarrow> if g k v then (cache_vals T c)(k := None) else cache_vals T c | None \<Rightarrow> cache_vals T c))"
  by (intro conjI shard_table.nc_remove_spec [OF assms] shard_table.nc_remove_if_mut_spec [OF assms]
      shard_table.nc_remove_if_spec [OF assms])

theorem removal_correct_witness:
  "(\<exists>c'. nc_remove slot_table demo_full 1 = returns (Some (1, ''one''), c') \<and>
      cache_vals slot_table c' = (cache_vals slot_table demo_full)(1 := None)) \<and>
    (\<exists>c'. nc_remove_if_mut slot_table demo_full 1 (\<lambda>k v. (False, ''uno'')) = returns (None, c') \<and>
      cache_vals slot_table c' = (cache_vals slot_table demo_full)(1 \<mapsto> ''uno''))"
  using removal_correct [OF slot_shard.shard_table_axioms demo_states_ok(3), of 1 "\<lambda>k v. (False, ''uno'')"]
    demo_values(3) by auto

end
