(* ===== verification/Cache_Refinement.thy ===== *)
theory Cache_Refinement
  imports Demo_Cache
begin

text \<open>
  What a cache promises its client over a sequence of calls. The abstract specification is
  a finite map with \<open>insert\<close>, \<open>remove\<close>, lookup and \<open>clear\<close>; a cache may lose entries, so
  it refines the map up to lost entries (locale \<open>lossy_map\<close>), and exactly when it never
  evicts. The contract is a locale, its client lemmas are proved once, and \<open>NeoCache\<close> is an
  instance of it.
\<close>

datatype ('k, 'v) cache_op = Op_insert 'k 'v | Op_remove 'k | Op_lookup 'k | Op_clear

section \<open>The abstract map\<close>

fun map_step :: "('k, 'v) cache_op \<Rightarrow> ('k \<rightharpoonup> 'v) \<Rightarrow> 'v option \<times> ('k \<rightharpoonup> 'v)" where
  "map_step (Op_insert k v) m = (m k, m(k \<mapsto> v))"
| "map_step (Op_remove k) m = (m k, m(k := None))"
| "map_step (Op_lookup k) m = (m k, m)"
| "map_step Op_clear m = (None, Map.empty)"

fun map_run :: "('k, 'v) cache_op list \<Rightarrow> ('k \<rightharpoonup> 'v) \<Rightarrow> 'v option list \<times> ('k \<rightharpoonup> 'v)" where
  "map_run [] m = ([], m)"
| "map_run (op # ops) m =
     (let (r, m1) = map_step op m; (rs, m2) = map_run ops m1 in (r # rs, m2))"

fun comp_run :: "('op \<Rightarrow> 's \<Rightarrow> ('r \<times> 's) comp) \<Rightarrow> 'op list \<Rightarrow> 's \<Rightarrow> ('r list \<times> 's) comp" where
  "comp_run step [] s = returns ([], s)"
| "comp_run step (op # ops) s =
     comp_bind (step op s) (\<lambda>(r, s1). comp_bind (comp_run step ops s1) (\<lambda>(rs, s2). returns (r # rs, s2)))"

text \<open>An answer agrees with the map's when it is the same or the entry was lost.\<close>

definition agrees :: "'v option \<Rightarrow> 'v option \<Rightarrow> bool" where
  "agrees r r' \<longleftrightarrow> r = None \<or> r = r'"

lemma map_step_mono:
  assumes "m \<subseteq>\<^sub>m n"
  shows "agrees (fst (map_step op m)) (fst (map_step op n))" and "snd (map_step op m) \<subseteq>\<^sub>m snd (map_step op n)"
  using assms by (cases op; auto simp: agrees_def map_le_def dom_def split: if_splits)+

section \<open>The contract\<close>

locale lossy_map =
  fixes ok :: "'s \<Rightarrow> bool" and vals :: "'s \<Rightarrow> 'k \<rightharpoonup> 'v"
    and step :: "('k, 'v) cache_op \<Rightarrow> 's \<Rightarrow> ('v option \<times> 's) comp"
    and room :: "nat \<Rightarrow> 's \<Rightarrow> bool"
    and keeps_all :: "'s \<Rightarrow> bool"
  assumes step_returns: "ok s \<Longrightarrow> room (Suc n) s \<Longrightarrow>
      \<exists>s'. step op s = returns (fst (map_step op (vals s)), s') \<and> ok s' \<and> room n s' \<and>
        vals s' \<subseteq>\<^sub>m snd (map_step op (vals s)) \<and>
        (keeps_all s \<longrightarrow> keeps_all s' \<and> vals s' = snd (map_step op (vals s)))"
begin

lemma run_agrees:
  assumes "ok s" and "room (length ops) s" and "vals s \<subseteq>\<^sub>m m"
  shows "\<exists>rs s'. comp_run step ops s = returns (rs, s') \<and> ok s' \<and>
    list_all2 agrees rs (fst (map_run ops m)) \<and> vals s' \<subseteq>\<^sub>m snd (map_run ops m)"
  using assms
proof (induction ops arbitrary: s m)
  case (Cons op ops)
  obtain s1 where s1: "step op s = returns (fst (map_step op (vals s)), s1)" "ok s1" "room (length ops) s1"
      "vals s1 \<subseteq>\<^sub>m snd (map_step op (vals s))"
    using step_returns [OF Cons.prems(1), of "length ops" op] Cons.prems(2) by auto
  note mono = map_step_mono [OF Cons.prems(3), of op]
  obtain r1 m1 where m1: "map_step op m = (r1, m1)" by fastforce
  obtain rs2 m2 where m2: "map_run ops m1 = (rs2, m2)" by fastforce
  have "vals s1 \<subseteq>\<^sub>m m1" using s1(4) mono(2) m1 by (metis map_le_trans snd_conv)
  from Cons.IH [OF s1(2,3) this] obtain rs s' where
    "comp_run step ops s1 = returns (rs, s')" "ok s'" "list_all2 agrees rs rs2" "vals s' \<subseteq>\<^sub>m m2"
    by (auto simp: m2)
  with s1(1) mono(1) m1 m2 show ?case by simp
qed simp

lemma run_exact:
  assumes "ok s" and "room (length ops) s" and "keeps_all s"
  shows "\<exists>s'. comp_run step ops s = returns (fst (map_run ops (vals s)), s') \<and> ok s' \<and>
    vals s' = snd (map_run ops (vals s))"
  using assms
proof (induction ops arbitrary: s)
  case (Cons op ops)
  obtain s1 where s1: "step op s = returns (fst (map_step op (vals s)), s1)" "ok s1" "room (length ops) s1"
      "keeps_all s1" "vals s1 = snd (map_step op (vals s))"
    using step_returns [OF Cons.prems(1), of "length ops" op] Cons.prems(2,3) by auto
  from Cons.IH [OF s1(2-4)] s1(1,5) show ?case by (auto simp: split_beta Let_def)
qed simp

end

section \<open>NeoCache is an instance\<close>

fun nc_step :: "('k, 'v, 't) table \<Rightarrow> ('k, 'v) cache_op \<Rightarrow> ('k, 't) NeoCache
    \<Rightarrow> ('v option \<times> ('k, 't) NeoCache) comp" where
  "nc_step T (Op_insert k v) c = nc_insert T c k v"
| "nc_step T (Op_remove k) c = comp_bind (nc_remove T c k) (\<lambda>(r, c'). returns (map_option snd r, c'))"
| "nc_step T (Op_lookup k) c = nc_view T c k (\<lambda>_ v. v)"
| "nc_step T Op_clear c = comp_bind (nc_clear T c) (\<lambda>(u, c'). returns (None, c'))"

definition nc_room :: "('k, 'v, 't) table \<Rightarrow> nat \<Rightarrow> ('k, 't) NeoCache \<Rightarrow> bool" where
  "nc_room T n c \<longleftrightarrow> (cache_capacity c = 0 \<longrightarrow> card (dom (cache_vals T c)) + n \<le> usize_max)"

context shard_table
begin

lemma nc_step_insert:
  assumes ok: "cache_ok T hash rt_wf c" and room: "nc_room T (Suc n) c"
  shows "\<exists>c'. nc_insert T c k v = returns (cache_vals T c k, c') \<and> cache_ok T hash rt_wf c' \<and>
    cache_capacity c' = cache_capacity c \<and> cache_vals T c' \<subseteq>\<^sub>m (cache_vals T c)(k \<mapsto> v) \<and>
    (cache_capacity c = 0 \<longrightarrow> cache_vals T c' = (cache_vals T c)(k \<mapsto> v))"
proof (cases "cache_map T c k")
  case None
  then have abs: "cache_vals T c k = None" by (simp add: cache_map_def cache_vals_def shard_vals_def)
  have r: "cache_capacity c = 0 \<Longrightarrow> small_live (home c k) < usize_max"
    using unbounded_room [OF ok, of k] room by (simp add: nc_room_def)
  have "cache_capacity c = 0 \<Longrightarrow> \<not> shard_full (home c k)"
    using home_okD(3) [OF ok, of k] by (simp add: shard_full_def per_shard_cap_def)
  with nc_insert_absent [OF ok abs r, of v] abs show ?thesis
    by (fastforce simp: same_config_def map_le_def split: option.splits)
next
  case (Some e)
  then have "cache_vals T c k = Some (entry_val e)"
    by (simp add: cache_map_def cache_vals_def shard_vals_def)
  with nc_insert_present [OF ok Some, of v] show ?thesis by (auto simp: same_config_def)
qed

lemma nc_step_returns:
  assumes ok: "cache_ok T hash rt_wf c" and room: "nc_room T (Suc n) c"
  shows "\<exists>c'. nc_step T op c = returns (fst (map_step op (cache_vals T c)), c') \<and> cache_ok T hash rt_wf c' \<and>
    nc_room T n c' \<and> cache_vals T c' \<subseteq>\<^sub>m snd (map_step op (cache_vals T c)) \<and>
    (cache_capacity c = 0 \<longrightarrow> cache_capacity c' = 0 \<and> cache_vals T c' = snd (map_step op (cache_vals T c)))"
proof -
  have fin: "finite (dom (cache_vals T c))" by (rule cache_dom_finite [OF ok])
  have roomI: "nc_room T n c'" if "cache_capacity c' = cache_capacity c"
      "cache_capacity c = 0 \<Longrightarrow> dom (cache_vals T c') \<subseteq> insert k (dom (cache_vals T c))" for c' k
  proof -
    have "card (dom (cache_vals T c')) \<le> Suc (card (dom (cache_vals T c)))" if "cache_capacity c = 0"
      using card_mono [of "insert k (dom (cache_vals T c))" "dom (cache_vals T c')"] fin
        \<open>cache_capacity c = 0 \<Longrightarrow> _\<close> that by (simp add: card_insert_if split: if_splits)
    then show ?thesis using room that(1) by (fastforce simp: nc_room_def)
  qed
  show ?thesis
  proof (cases op)
    case (Op_insert k v)
    from nc_step_insert [OF ok room, of k v] obtain c' where c':
      "nc_insert T c k v = returns (cache_vals T c k, c')" "cache_ok T hash rt_wf c'"
      "cache_capacity c' = cache_capacity c" "cache_vals T c' \<subseteq>\<^sub>m (cache_vals T c)(k \<mapsto> v)"
      "cache_capacity c = 0 \<longrightarrow> cache_vals T c' = (cache_vals T c)(k \<mapsto> v)" by (elim exE conjE)
    have "nc_room T n c'" by (rule roomI [OF c'(3), of k]) (use c'(5) in auto)
    with c' Op_insert show ?thesis by simp
  next
    case (Op_remove k)
    from nc_remove_spec [OF ok, of k] obtain c' where c':
      "nc_remove T c k = returns (map_option (\<lambda>v. (k, v)) (cache_vals T c k), c')" "cache_ok T hash rt_wf c'"
      "same_config c c'" "cache_vals T c' = (cache_vals T c)(k := None)" by blast
    have "nc_room T n c'" by (rule roomI [of c' k]) (use c'(3,4) in \<open>auto simp: same_config_def\<close>)
    with c' Op_remove show ?thesis by (simp add: same_config_def option.map_comp comp_def option.map_ident)
  next
    case (Op_lookup k)
    from nc_view_spec [OF ok, of k "\<lambda>_ v. v"] obtain c' where c':
      "nc_view T c k (\<lambda>_ v. v) = returns (cache_vals T c k, c')" "cache_ok T hash rt_wf c'"
      "same_config c c'" "cache_vals T c' = cache_vals T c" by (auto simp: option.map_ident)
    have "nc_room T n c'" by (rule roomI [of c' k]) (use c'(3,4) in \<open>auto simp: same_config_def\<close>)
    with c' Op_lookup show ?thesis by (simp add: same_config_def)
  next
    case Op_clear
    from nc_clear_spec [OF ok] obtain c' where c': "nc_clear T c = returns ((), c')" "cache_ok T hash rt_wf c'"
      "same_config c c'" "cache_vals T c' = Map.empty" by blast
    have "nc_room T n c'" by (rule roomI) (use c'(3,4) in \<open>auto simp: same_config_def\<close>)
    with c' Op_clear show ?thesis by (simp add: same_config_def)
  qed
qed

end

sublocale shard_table \<subseteq> cache_client: lossy_map "cache_ok T hash rt_wf" "cache_vals T" "nc_step T"
    "nc_room T" "\<lambda>c. cache_capacity c = 0"
  by unfold_locales (rule nc_step_returns)

context shard_table
begin

lemmas client_run_agrees = cache_client.run_agrees
lemmas client_run_exact = cache_client.run_exact

end

text \<open>
  C1: a cache never answers wrongly. Over any sequence of insertions, removals, lookups and
  clears (in an unbounded cache short enough for the \<open>usize\<close> counters) every call returns, every
  answer is the one a map would give or says absent (the entry was evicted), and what the cache
  holds at the end is part of what the map holds. An unbounded cache is a map: every answer and
  the final content are exactly those of the map.
\<close>

theorem cache_refines_lossy_map:
  assumes "shard_table T hash tok sok" and "cache_ok T hash tok c"
    and "cache_capacity c = 0 \<Longrightarrow> card (dom (cache_vals T c)) + length ops \<le> usize_max"
  shows "\<exists>rs c'. comp_run (nc_step T) ops c = returns (rs, c') \<and> cache_ok T hash tok c' \<and>
    list_all2 (\<lambda>r r'. r = None \<or> r = r') rs (fst (map_run ops (cache_vals T c))) \<and>
    cache_vals T c' \<subseteq>\<^sub>m snd (map_run ops (cache_vals T c)) \<and>
    (cache_capacity c = 0 \<longrightarrow> rs = fst (map_run ops (cache_vals T c)) \<and> cache_vals T c' = snd (map_run ops (cache_vals T c)))"
proof -
  have room: "nc_room T (length ops) c" using assms(3) by (simp add: nc_room_def)
  from shard_table.client_run_agrees [OF assms(1,2) this map_le_refl] obtain rs c' where
    r: "comp_run (nc_step T) ops c = returns (rs, c')" "cache_ok T hash tok c'" "list_all2 agrees rs (fst (map_run ops (cache_vals T c)))"
      "cache_vals T c' \<subseteq>\<^sub>m snd (map_run ops (cache_vals T c))" by blast
  moreover have "rs = fst (map_run ops (cache_vals T c)) \<and> cache_vals T c' = snd (map_run ops (cache_vals T c))" if "cache_capacity c = 0"
    using shard_table.client_run_exact [OF assms(1,2) room that] r(1) by auto
  ultimately show ?thesis by (simp add: agrees_def [abs_def])
qed

theorem cache_refines_lossy_map_witness:
  "(\<exists>rs c'. comp_run (nc_step slot_table) [Op_insert 3 ''three'', Op_lookup 1, Op_lookup 3] demo_full = returns (rs, c') \<and>
      list_all2 (\<lambda>r r'. r = None \<or> r = r') rs [None, Some ''one'', Some ''three'']) \<and>
   (\<exists>c'. comp_run (nc_step slot_table) [Op_insert 1 ''a'', Op_insert 1 ''b'', Op_lookup 1, Op_remove 1] demo_unbounded =
      returns ([None, Some ''a'', Some ''b'', Some ''b''], c') \<and> cache_vals slot_table c' = Map.empty)"
proof
  show "\<exists>rs c'. comp_run (nc_step slot_table) [Op_insert 3 ''three'', Op_lookup 1, Op_lookup 3] demo_full = returns (rs, c') \<and>
      list_all2 (\<lambda>r r'. r = None \<or> r = r') rs [None, Some ''one'', Some ''three'']"
    using cache_refines_lossy_map [OF slot_shard.shard_table_axioms demo_states_ok(3),
      of "[Op_insert 3 ''three'', Op_lookup 1, Op_lookup 3]"] demo_states_ok(7) demo_values
    by (simp del: comp_run.simps) blast
  have e: "cache_vals slot_table demo_unbounded = Map.empty" using demo_unbounded_ok(2) by simp
  then have "card (dom (cache_vals slot_table demo_unbounded)) +
      length [Op_insert 1 ''a'', Op_insert 1 ''b'', Op_lookup 1, Op_remove 1] \<le> usize_max" by (simp add: usize_max_def)
  from cache_refines_lossy_map [OF slot_shard.shard_table_axioms demo_states_ok(4) this] e demo_states_ok(8)
  show "\<exists>c'. comp_run (nc_step slot_table) [Op_insert 1 ''a'', Op_insert 1 ''b'', Op_lookup 1, Op_remove 1] demo_unbounded =
      returns ([None, Some ''a'', Some ''b'', Some ''b''], c') \<and> cache_vals slot_table c' = Map.empty"
    by (simp del: comp_run.simps) blast
qed

end
