(* ===== verification/Entry_Api.thy ===== *)
theory Entry_Api
  imports Neo_Cache_All
begin

text \<open>
  \<open>src/mapref/entry.rs\<close> and the \<open>entry\<close> methods of \<open>src/lib.rs\<close>. An entry owns the write
  guard of its shard (recorded as the shard's index; the lock word in the cache is the
  guard), with the bucket or the insert slot it found. A method that consumes the entry
  passes the guard on to the result, or drops it. Assigning through \<open>get_mut\<close> is
  \<open>occ_write\<close>. \<open>V::default()\<close> is an argument of \<open>or_default\<close>.
\<close>

record 'k VacantEntry =
  ve_shard :: usize
  ve_key :: 'k
  ve_hash :: u64
  ve_slot :: nat

record 'k OccupiedEntry =
  oe_shard :: usize
  oe_bucket :: nat
  oe_key :: 'k

datatype 'k Entry = Occupied "'k OccupiedEntry" | Vacant "'k VacantEntry"

section \<open>Creating an entry\<close>

definition VacantEntry_new :: "usize \<Rightarrow> 'k \<Rightarrow> u64 \<Rightarrow> nat \<Rightarrow> 'k VacantEntry" where [simp]:
  "VacantEntry_new shard key hash slot = \<lparr>ve_shard = shard, ve_key = key, ve_hash = hash, ve_slot = slot\<rparr>"

definition OccupiedEntry_new :: "usize \<Rightarrow> 'k \<Rightarrow> nat \<Rightarrow> 'k OccupiedEntry" where [simp]:
  "OccupiedEntry_new shard key bucket = \<lparr>oe_shard = shard, oe_bucket = bucket, oe_key = key\<rparr>"

definition find_entry :: "('k, 'v, 't) table \<Rightarrow> ('k, 't) NeoCache \<Rightarrow> usize \<Rightarrow> 'k
    \<Rightarrow> 'k Entry \<times> ('k, 't) NeoCache" where
  "find_entry T c idx key =
     (let hash = hash_u64 c key; s = shard_at c idx
      in case rt_find_or_find_insert_slot T (raw_map s) hash (key_eq key) (elem_hash (hasher c)) of
           (Ok elem, t) \<Rightarrow> (Occupied (OccupiedEntry_new idx key elem),
              put_shard c idx (s\<lparr>raw_map := t\<rparr>))
         | (Err slot, t) \<Rightarrow> (Vacant (VacantEntry_new idx key hash slot),
              put_shard c idx (s\<lparr>raw_map := t\<rparr>)))"

definition nc_entry :: "('k, 'v, 't) table \<Rightarrow> ('k, 't) NeoCache \<Rightarrow> 'k
    \<Rightarrow> ('k Entry \<times> ('k, 't) NeoCache) comp" where
  "nc_entry T c key =
     (let hash = hash_u64 c key; idx = determine_shard c hash
      in comp_bind (yield_write_shard c idx) (\<lambda>c1. returns (find_entry T c1 idx key)))"

definition nc_try_entry :: "('k, 'v, 't) table \<Rightarrow> ('k, 't) NeoCache \<Rightarrow> 'k
    \<Rightarrow> ('k Entry option \<times> ('k, 't) NeoCache) run" where
  "nc_try_entry T c key =
     (let hash = hash_u64 c key; idx = determine_shard c hash
      in run_bind (try_yield_write_shard c idx) (\<lambda>g. case g of
           None \<Rightarrow> Return (None, c)
         | Some c1 \<Rightarrow> (let (en, c2) = find_entry T c1 idx key in Return (Some en, c2))))"

section \<open>VacantEntry\<close>

definition vacant_insert :: "('k, 'v, 't) table \<Rightarrow> ('k, 't) NeoCache \<Rightarrow> 'k VacantEntry \<Rightarrow> 'v
    \<Rightarrow> (Ref \<times> ('k, 't) NeoCache) comp" where
  "vacant_insert T c e v =
     comp_bind (insert_new T (ve_hash e) (ve_key e) (ve_slot e) v (shard_at c (ve_shard e))) (\<lambda>(b, s).
     returns (\<lparr>ref_shard = ve_shard e, ref_bucket = b\<rparr>, put_shard c (ve_shard e) s))"

definition vacant_insert_entry :: "('k, 'v, 't) table \<Rightarrow> ('k, 't) NeoCache \<Rightarrow> 'k VacantEntry \<Rightarrow> 'v
    \<Rightarrow> ('k OccupiedEntry \<times> ('k, 't) NeoCache) comp" where
  "vacant_insert_entry T c e v =
     comp_bind (insert_new T (ve_hash e) (ve_key e) (ve_slot e) v (shard_at c (ve_shard e))) (\<lambda>(b, s).
     returns (\<lparr>oe_shard = ve_shard e, oe_bucket = b, oe_key = ve_key e\<rparr>, put_shard c (ve_shard e) s))"

definition vacant_into_key :: "('k, 't) NeoCache \<Rightarrow> 'k VacantEntry \<Rightarrow> ('k \<times> ('k, 't) NeoCache) run" where
  "vacant_into_key c e = run_bind (drop_write_guard c (ve_shard e)) (\<lambda>c'. Return (ve_key e, c'))"

definition vacant_key :: "'k VacantEntry \<Rightarrow> 'k" where
  "vacant_key e = ve_key e"

section \<open>OccupiedEntry\<close>

definition occ_get :: "('k, 'v, 't) table \<Rightarrow> ('k, 't) NeoCache \<Rightarrow> 'k OccupiedEntry \<Rightarrow> 'v" where
  "occ_get T c e = sv_get (entry_value (snd (rt_as_ref T (raw_map (shard_at c (oe_shard e))) (oe_bucket e))))"

definition occ_into_ref :: "'k OccupiedEntry \<Rightarrow> Ref" where
  "occ_into_ref e = \<lparr>ref_shard = oe_shard e, ref_bucket = oe_bucket e\<rparr>"

definition occ_write :: "('k, 'v, 't) table \<Rightarrow> ('k, 't) NeoCache \<Rightarrow> 'k OccupiedEntry \<Rightarrow> 'v \<Rightarrow> ('k, 't) NeoCache" where
  "occ_write T c e v = ref_write T c (occ_into_ref e) v"

definition occ_insert :: "('k, 'v, 't) table \<Rightarrow> ('k, 't) NeoCache \<Rightarrow> 'k OccupiedEntry \<Rightarrow> 'v
    \<Rightarrow> 'v \<times> ('k, 't) NeoCache" where
  "occ_insert T c e v = (occ_get T c e, occ_write T c e v)"

definition occ_into_key :: "('k, 't) NeoCache \<Rightarrow> 'k OccupiedEntry \<Rightarrow> ('k \<times> ('k, 't) NeoCache) run" where
  "occ_into_key c e = run_bind (drop_write_guard c (oe_shard e)) (\<lambda>c'. Return (oe_key e, c'))"

definition occ_key :: "('k, 'v, 't) table \<Rightarrow> ('k, 't) NeoCache \<Rightarrow> 'k OccupiedEntry \<Rightarrow> 'k" where
  "occ_key T c e = fst (rt_as_ref T (raw_map (shard_at c (oe_shard e))) (oe_bucket e))"

definition occ_remove_entry :: "('k, 'v, 't) table \<Rightarrow> ('k, 't) NeoCache \<Rightarrow> 'k OccupiedEntry
    \<Rightarrow> (('k \<times> 'v) \<times> ('k, 't) NeoCache) run" where
  "occ_remove_entry T c e =
     (let (kv, s) = remove_found T (oe_bucket e) (shard_at c (oe_shard e))
      in run_bind (drop_write_guard (put_shard c (oe_shard e) s) (oe_shard e)) (\<lambda>c'. Return (kv, c')))"

definition occ_remove :: "('k, 'v, 't) table \<Rightarrow> ('k, 't) NeoCache \<Rightarrow> 'k OccupiedEntry
    \<Rightarrow> ('v \<times> ('k, 't) NeoCache) run" where
  "occ_remove T c e =
     (let ((k, v), s) = remove_found T (oe_bucket e) (shard_at c (oe_shard e))
      in run_bind (drop_write_guard (put_shard c (oe_shard e) s) (oe_shard e)) (\<lambda>c'. Return (v, c')))"

definition occ_replace_entry :: "('k, 'v, 't) table \<Rightarrow> ('k, 't) NeoCache \<Rightarrow> 'k OccupiedEntry \<Rightarrow> 'v
    \<Rightarrow> (('k \<times> 'v) \<times> ('k, 't) NeoCache) run" where
  "occ_replace_entry T c e v =
     (let s = shard_at c (oe_shard e); (k, ent) = rt_as_ref T (raw_map s) (oe_bucket e);
          new_entry = (CacheEntry_new v (entry_loc ent))\<lparr>entry_freq := entry_freq ent\<rparr>;
          s' = s\<lparr>raw_map := rt_write T (raw_map s) (oe_bucket e) (oe_key e, new_entry)\<rparr>
      in run_bind (drop_write_guard (put_shard c (oe_shard e) s') (oe_shard e)) (\<lambda>c'.
         Return ((k, sv_into_inner (entry_value ent)), c')))"

section \<open>Entry\<close>

definition entry_and_modify :: "('k, 'v, 't) table \<Rightarrow> ('k, 't) NeoCache \<Rightarrow> 'k Entry \<Rightarrow> ('v \<Rightarrow> 'v)
    \<Rightarrow> 'k Entry \<times> ('k, 't) NeoCache" where
  "entry_and_modify T c en f = (case en of
     Occupied e \<Rightarrow> (Occupied e, occ_write T c e (f (occ_get T c e)))
   | Vacant e \<Rightarrow> (Vacant e, c))"

definition entry_key :: "('k, 'v, 't) table \<Rightarrow> ('k, 't) NeoCache \<Rightarrow> 'k Entry \<Rightarrow> 'k" where
  "entry_key T c en = (case en of Occupied e \<Rightarrow> occ_key T c e | Vacant e \<Rightarrow> vacant_key e)"

definition entry_into_key :: "('k, 't) NeoCache \<Rightarrow> 'k Entry \<Rightarrow> ('k \<times> ('k, 't) NeoCache) run" where
  "entry_into_key c en = (case en of Occupied e \<Rightarrow> occ_into_key c e | Vacant e \<Rightarrow> vacant_into_key c e)"

definition entry_or_insert :: "('k, 'v, 't) table \<Rightarrow> ('k, 't) NeoCache \<Rightarrow> 'k Entry \<Rightarrow> 'v
    \<Rightarrow> (Ref \<times> ('k, 't) NeoCache) comp" where
  "entry_or_insert T c en v = (case en of
     Occupied e \<Rightarrow> returns (occ_into_ref e, c)
   | Vacant e \<Rightarrow> vacant_insert T c e v)"

definition entry_or_default :: "('k, 'v, 't) table \<Rightarrow> ('k, 't) NeoCache \<Rightarrow> 'k Entry \<Rightarrow> 'v
    \<Rightarrow> (Ref \<times> ('k, 't) NeoCache) comp" where
  "entry_or_default T c en default_value = (case en of
     Occupied e \<Rightarrow> returns (occ_into_ref e, c)
   | Vacant e \<Rightarrow> vacant_insert T c e default_value)"

definition entry_or_insert_with :: "('k, 'v, 't) table \<Rightarrow> ('k, 't) NeoCache \<Rightarrow> 'k Entry \<Rightarrow> (unit \<Rightarrow> 'v)
    \<Rightarrow> (Ref \<times> ('k, 't) NeoCache) comp" where
  "entry_or_insert_with T c en f = (case en of
     Occupied e \<Rightarrow> returns (occ_into_ref e, c)
   | Vacant e \<Rightarrow> vacant_insert T c e (f ()))"

text \<open>An error of the closure leaves through \<open>?\<close>, which drops the entry and its guard.\<close>

definition entry_or_try_insert_with :: "('k, 'v, 't) table \<Rightarrow> ('k, 't) NeoCache \<Rightarrow> 'k Entry
    \<Rightarrow> (unit \<Rightarrow> ('v, 'e) result) \<Rightarrow> ((Ref, 'e) result \<times> ('k, 't) NeoCache) comp" where
  "entry_or_try_insert_with T c en f = (case en of
     Occupied e \<Rightarrow> returns (Ok (occ_into_ref e), c)
   | Vacant e \<Rightarrow> (case f () of
        Ok v \<Rightarrow> comp_bind (vacant_insert T c e v) (\<lambda>(r, c'). returns (Ok r, c'))
      | Err x \<Rightarrow> comp_bind (lift_run (drop_write_guard c (ve_shard e))) (\<lambda>c'. returns (Err x, c'))))"

definition entry_insert :: "('k, 'v, 't) table \<Rightarrow> ('k, 't) NeoCache \<Rightarrow> 'k Entry \<Rightarrow> 'v
    \<Rightarrow> (Ref \<times> ('k, 't) NeoCache) comp" where
  "entry_insert T c en v = (case en of
     Occupied e \<Rightarrow> (let (old, c') = occ_insert T c e v in returns (occ_into_ref e, c'))
   | Vacant e \<Rightarrow> vacant_insert T c e v)"

definition entry_insert_entry :: "('k, 'v, 't) table \<Rightarrow> ('k, 't) NeoCache \<Rightarrow> 'k Entry \<Rightarrow> 'v
    \<Rightarrow> ('k OccupiedEntry \<times> ('k, 't) NeoCache) comp" where
  "entry_insert_entry T c en v = (case en of
     Occupied e \<Rightarrow> (let (old, c') = occ_insert T c e v in returns (e, c'))
   | Vacant e \<Rightarrow> vacant_insert_entry T c e v)"

section \<open>What an entry stands for\<close>

text \<open>The conditions under which \<open>OccupiedEntry::new\<close> and \<open>VacantEntry::new\<close> may be called.\<close>

definition occupied_at :: "('k, 'v, 't) table \<Rightarrow> ('k, 't) NeoCache \<Rightarrow> 'k \<Rightarrow> 'v CacheEntry
    \<Rightarrow> ('k, 't) ShardData \<Rightarrow> 'k OccupiedEntry \<Rightarrow> bool" where
  "occupied_at T c k e s oe \<longleftrightarrow> oe_shard oe = key_shard c k \<and> oe_key oe = k \<and>
     oe_bucket oe \<in> set (rt_iter T (raw_map s)) \<and> rt_as_ref T (raw_map s) (oe_bucket oe) = (k, e)"

context shard_table
begin

lemma nc_entry_occupied:
  assumes ok: "cache_ok T hash rt_wf c" and hit: "cache_map T c k = Some e"
  obtains oe s where "nc_entry T c k = returns (Occupied oe, hit_state c k ONE_WRITER s)"
    and "nc_try_entry T c k = Return (Some (Occupied oe), hit_state c k ONE_WRITER s)"
    and "occupied_at T c k e s oe" and "cache_ok T hash rt_wf (put_shard c (key_shard c k) s)"
    and "cache_map T (put_shard c (key_shard c k) s) = cache_map T c"
    and "nc_insert T c k v = returns (Some (entry_val e), put_shard c (key_shard c k)
       (s\<lparr>raw_map := rt_write T (raw_map s) (oe_bucket oe) (k, e\<lparr>entry_value := sv_new v\<rparr>)\<rparr>))"
proof -
  note c = cache_okD [OF ok] home_okD [OF ok, of k]
  let ?s = "home c k"
  obtain r t where f: "rt_find_or_find_insert_slot T (raw_map ?s) (hash k) (key_eq k) (elem_hash hash) = (r, t)"
    by fastforce
  note wf = inv_tab(1,2) [OF c(5)]
  have e: "shard_map T ?s k = Some e" using hit by (simp add: cache_map_home)
  then obtain b where r: "r = Ok b"
    using find_or_slot_cases [OF wf f] by (auto simp: shard_map_def)
  note f' = find_or_slot_lookup [OF wf f]
  have b: "b \<in> set (rt_iter T t)" "rt_as_ref T t b = (k, e)"
    using find_or_slot_Ok_lookup [OF wf f [unfolded r]] e by (auto simp: shard_map_def)
  define s where "s = ?s\<lparr>raw_map := t\<rparr>"
  have inv: "shard_inv T hash rt_wf s"
    unfolding s_def using c(5) f' by (intro shard_inv_rehash) (simp_all add: shard_map_def)
  have m: "shard_map T s = shard_map T ?s" using f'(3) by (simp add: s_def shard_map_def)
  have caps: "same_caps ?s s" by (simp add: s_def same_caps_def)
  have i: "key_shard c k < shard_count c" using c(4) by (simp add: shard_count_def)
  note p = cache_ok_put_same_map [OF ok i inv caps [unfolded home_def] m [unfolded home_def]]
  let ?oe = "\<lparr>oe_shard = key_shard c k, oe_bucket = b, oe_key = k\<rparr>"
  have fe: "find_entry T (put_state c (key_shard c k) ONE_WRITER) (key_shard c k) k =
      (Occupied ?oe, hit_state c k ONE_WRITER s)"
    using f r c(1) by (simp add: find_entry_def Let_def hash_u64_def s_def home_def)
  have "nc_entry T c k = returns (Occupied ?oe, hit_state c k ONE_WRITER s)"
    "nc_try_entry T c k = Return (Some (Occupied ?oe), hit_state c k ONE_WRITER s)"
    by (simp_all add: nc_entry_def nc_try_entry_def Let_def key_shard_eq yield_write_shard_def
        try_yield_write_shard_def c(4) quiet_nth [OF c(3,4)] fe)
  moreover have "occupied_at T c k e s ?oe" using b by (simp add: occupied_at_def s_def)
  moreover have "nc_insert T c k v = returns (Some (entry_val e), put_shard c (key_shard c k)
       (s\<lparr>raw_map := rt_write T (raw_map s) (oe_bucket ?oe) (k, e\<lparr>entry_value := sv_new v\<rparr>)\<rparr>))"
    by (simp add: nc_insert_def key_shard_eq c(1) with_write_home [OF ok] insert_locked_def f r b(2)
        s_def entry_val_def)
  ultimately show thesis using p by (intro that)
qed

lemma nc_entry_vacant:
  assumes ok: "cache_ok T hash rt_wf c" and miss: "cache_map T c k = None"
  obtains slot s where
    "nc_entry T c k = returns (Vacant \<lparr>ve_shard = key_shard c k, ve_key = k, ve_hash = hash k, ve_slot = slot\<rparr>,
       hit_state c k ONE_WRITER s)"
    and "nc_try_entry T c k = Return (Some (Vacant \<lparr>ve_shard = key_shard c k, ve_key = k, ve_hash = hash k, ve_slot = slot\<rparr>),
       hit_state c k ONE_WRITER s)"
    and "nc_insert T c k v = comp_bind (insert_new T (hash k) k slot v s)
       (\<lambda>(b, s'). returns (None, put_shard c (key_shard c k) s'))"
    and "shard_inv T hash rt_wf s" and "shard_map T s k = None" and "slot_ok (raw_map s) (hash k) slot"
    and "shard_cap s = shard_cap (home c k)" and "small_live s = small_live (home c k)"
proof -
  note c = cache_okD [OF ok] home_okD [OF ok, of k]
  let ?s = "home c k"
  obtain r t where f: "rt_find_or_find_insert_slot T (raw_map ?s) (hash k) (key_eq k) (elem_hash hash) = (r, t)"
    by fastforce
  have "\<nexists>b. r = Ok b"
    using find_or_slot_cases [OF inv_tab(1,2) [OF c(5)] f] miss by (simp add: shard_map_def cache_map_home)
  then obtain slot where r: "r = Err slot" by (cases r) auto
  define s where "s = ?s\<lparr>raw_map := t\<rparr>"
  let ?ve = "\<lparr>ve_shard = key_shard c k, ve_key = k, ve_hash = hash k, ve_slot = slot\<rparr>"
  have fe: "find_entry T (put_state c (key_shard c k) ONE_WRITER) (key_shard c k) k =
      (Vacant ?ve, hit_state c k ONE_WRITER s)"
    using f r c(1) by (simp add: find_entry_def Let_def hash_u64_def s_def home_def)
  have "nc_entry T c k = returns (Vacant ?ve, hit_state c k ONE_WRITER s)"
    "nc_try_entry T c k = Return (Some (Vacant ?ve), hit_state c k ONE_WRITER s)"
    by (simp_all add: nc_entry_def nc_try_entry_def Let_def key_shard_eq yield_write_shard_def
        try_yield_write_shard_def c(4) quiet_nth [OF c(3,4)] fe)
  moreover have "insert_locked T hash k v ?s =
      comp_bind (insert_new T (hash k) k slot v s) (\<lambda>(b, s'). returns (None, s'))"
    by (simp add: insert_locked_def f r s_def)
  then have "nc_insert T c k v = comp_bind (insert_new T (hash k) k slot v s)
       (\<lambda>(b, s'). returns (None, put_shard c (key_shard c k) s'))"
    by (simp add: nc_insert_def key_shard_eq c(1) with_write_home [OF ok] comp_bind_assoc split_def)
  moreover have "shard_inv T hash rt_wf s" "shard_map T s k = None" "slot_ok (raw_map s) (hash k) slot"
    unfolding s_def using c(5) find_or_slot_lookup [OF inv_tab(1,2) [OF c(5)] f]
      find_or_slot_Err_lookup [OF inv_tab(1,2) [OF c(5)] f [unfolded r]]
    by (auto intro!: shard_inv_rehash simp: shard_map_def)
  moreover have "shard_cap s = shard_cap ?s" "small_live s = small_live ?s" by (simp_all add: s_def)
  ultimately show thesis by (rule that)
qed

text \<open>The operations of an occupied entry, on the locked cache it was found in.\<close>

lemma occ_remove_spec:
  assumes ok: "cache_ok T hash rt_wf c" and oe: "occupied_at T c k e s oe"
    and ok': "cache_ok T hash rt_wf (put_shard c (key_shard c k) s)"
    and same: "cache_map T (put_shard c (key_shard c k) s) = cache_map T c"
  obtains c' where "occ_remove T (hit_state c k ONE_WRITER s) oe = Return (entry_val e, c')"
    and "occ_remove_entry T (hit_state c k ONE_WRITER s) oe = Return ((k, entry_val e), c')"
    and "cache_ok T hash rt_wf c'" and "same_config c c'" and "cache_vals T c' = (cache_vals T c)(k := None)"
proof -
  let ?c = "put_shard c (key_shard c k) s"
  have home: "home ?c k = s" using home_okD(1) [OF ok, of k] by (simp add: home_def shard_at_put)
  have inv: "shard_inv T hash rt_wf s" using home_okD(2) [OF ok', of k] home by simp
  have b: "oe_bucket oe \<in> set (rt_iter T (raw_map s))" "rt_as_ref T (raw_map s) (oe_bucket oe) = (k, e)"
    "oe_shard oe = key_shard c k" using oe by (simp_all add: occupied_at_def)
  obtain s' where s': "remove_found T (oe_bucket oe) s = ((k, entry_val e), s')" "shard_inv T hash rt_wf s'"
      "same_caps s s'" "shard_map T s' = (shard_map T s)(k := None)"
    using remove_found_spec [OF inv b(1,2)] by blast
  have "dom (shard_vals T s') \<subseteq> insert k (dom (shard_vals T (home ?c k)))" using s'(4) home by auto
  note p = put_home_ok(1) [OF ok' s'(2) _ this, unfolded home, OF s'(3)]
  have tw: "put_shard ?c (key_shard ?c k) s' = put_shard c (key_shard c k) s'" by (simp add: put_shard_twice)
  have vals: "cache_vals T ?c = cache_vals T c"
    using same by (simp add: cache_vals_def cache_map_def shard_vals_def fun_eq_iff)
  have "cache_vals T (put_shard c (key_shard c k) s') = (cache_vals T c)(k := None)"
    using vals_update_home [OF ok', of s' k None] shard_vals_delete [OF s'(4)] home tw vals by simp
  moreover have "occ_remove T (hit_state c k ONE_WRITER s) oe = Return (entry_val e, put_shard c (key_shard c k) s')"
    "occ_remove_entry T (hit_state c k ONE_WRITER s) oe = Return ((k, entry_val e), put_shard c (key_shard c k) s')"
    by (simp_all add: occ_remove_def occ_remove_entry_def b(3) hit_state_facts [OF ok] s'(1) put_shard_twice
        drop_hit_guard [OF ok])
  ultimately show thesis using p tw by (intro that) simp_all
qed

lemma occ_replace_spec:
  assumes ok: "cache_ok T hash rt_wf c" and oe: "occupied_at T c k e s oe"
    and ok': "cache_ok T hash rt_wf (put_shard c (key_shard c k) s)"
    and same: "cache_map T (put_shard c (key_shard c k) s) = cache_map T c"
  obtains c' where "occ_replace_entry T (hit_state c k ONE_WRITER s) oe v = Return ((k, entry_val e), c')"
    and "drop_write_guard (occ_write T (hit_state c k ONE_WRITER s) oe v) (oe_shard oe) = Return c'"
    and "cache_ok T hash rt_wf c'" and "same_config c c'"
    and "cache_vals T c' = (cache_vals T c)(k \<mapsto> v)" and "cache_map T c' k = Some (e\<lparr>entry_value := sv_new v\<rparr>)"
proof -
  let ?r = "\<lparr>ref_shard = key_shard c k, ref_bucket = oe_bucket oe\<rparr>"
  have b: "oe_bucket oe \<in> set (rt_iter T (raw_map s))" "rt_as_ref T (raw_map s) (oe_bucket oe) = (k, e)"
    "oe_shard oe = key_shard c k" "oe_key oe = k" using oe by (simp_all add: occupied_at_def)
  have vals: "cache_vals T (put_shard c (key_shard c k) s) = cache_vals T c"
    using same by (simp add: cache_vals_def cache_map_def shard_vals_def fun_eq_iff)
  have new: "(CacheEntry_new v (entry_loc e))\<lparr>entry_freq := entry_freq e\<rparr> = e\<lparr>entry_value := sv_new v\<rparr>"
    by (cases e) (simp add: CacheEntry_new_def)
  have wr: "ref_write T (hit_state c k ONE_WRITER s) ?r v = hit_state c k ONE_WRITER
      (s\<lparr>raw_map := rt_write T (raw_map s) (oe_bucket oe) (k, e\<lparr>entry_value := sv_new v\<rparr>)\<rparr>)"
    using b(2) by (simp add: ref_write_def hit_state_facts [OF ok] put_shard_twice)
  obtain s' where s': "ref_write T (hit_state c k ONE_WRITER s) ?r v = hit_state c k ONE_WRITER s'"
    "cache_ok T hash rt_wf (put_shard c (key_shard c k) s')"
    "cache_vals T (put_shard c (key_shard c k) s') = (cache_vals T c)(k \<mapsto> v)"
    "cache_map T (put_shard c (key_shard c k) s') k = Some (e\<lparr>entry_value := sv_new v\<rparr>)"
    by (rule ref_write_hit [OF ok ok' vals b(1,2)])
  have d: "drop_write_guard (ref_write T (hit_state c k ONE_WRITER s) ?r v) (key_shard c k) =
      Return (put_shard c (key_shard c k) s')"
    by (simp add: s'(1) drop_hit_guard [OF ok])
  then have "occ_replace_entry T (hit_state c k ONE_WRITER s) oe v = Return ((k, entry_val e), put_shard c (key_shard c k) s')"
    by (simp add: occ_replace_entry_def b hit_state_facts [OF ok] new put_shard_twice wr entry_val_def)
  moreover have "drop_write_guard (occ_write T (hit_state c k ONE_WRITER s) oe v) (oe_shard oe) =
      Return (put_shard c (key_shard c k) s')"
    using d by (simp add: occ_write_def occ_into_ref_def b(3))
  ultimately show thesis using s'(2-4) by (intro that) simp_all
qed

lemma occ_get_hit:
  assumes ok: "cache_ok T hash rt_wf c" and oe: "occupied_at T c k e s oe"
  shows "occ_get T (hit_state c k st s) oe = entry_val e" and "occ_key T (hit_state c k st s) oe = k"
    and "ref_pair T (hit_state c k st s) (occ_into_ref oe) = (k, entry_val e)" and "ref_shard (occ_into_ref oe) = key_shard c k"
  using oe by (simp_all add: occ_get_def occ_key_def ref_pair_def occ_into_ref_def occupied_at_def
      hit_state_facts [OF ok] entry_val_def)

end

end
