(* ===== verification/Neo_Iter.thy ===== *)
theory Neo_Iter
  imports Neo_Cache_All
begin

text \<open>
  \<open>src/iter.rs\<close>, \<open>iter\<close>, \<open>iter_mut\<close>, \<open>into_iter\<close> and \<open>alter_all\<close> of \<open>src/lib.rs\<close>, and the
  references they yield (\<open>src/mapref/multiple.rs\<close>). An iterator keeps the index of the next
  shard and, for the current one, its guard and the buckets that are left. A new guard is
  taken before the old one is dropped, as the assignment to \<open>self.current\<close> does. The guard
  is shared through an \<open>Arc\<close> with the references yielded from its shard; here each
  reference is dropped before the next call, as in a \<open>for\<close> loop, so the iterator's own
  clone is the last one.
\<close>

record Iter =
  it_shard_i :: usize
  it_current :: "(usize \<times> nat list) option"

definition Iter_new :: Iter where
  "Iter_new = \<lparr>it_shard_i = 0, it_current = None\<rparr>"

fun drop_current :: "(usize \<times> nat list) option \<Rightarrow> ('k, 't) NeoCache \<Rightarrow> ('k, 't) NeoCache" where
  "drop_current None c = c"
| "drop_current (Some (i, bs)) c = drop_read_guard c i"

fun drop_current_mut :: "(usize \<times> nat list) option \<Rightarrow> ('k, 't) NeoCache \<Rightarrow> ('k, 't) NeoCache run" where
  "drop_current_mut None c = Return c"
| "drop_current_mut (Some (i, bs)) c = drop_write_guard c i"

partial_function (option) iter_next :: "('k, 'v, 't) table \<Rightarrow> ('k, 't) NeoCache \<Rightarrow> Iter
    \<Rightarrow> (Ref option \<times> Iter \<times> ('k, 't) NeoCache) comp" where
  "iter_next T c it = (case it_current it of
     Some (i, b # bs) \<Rightarrow> returns (Some \<lparr>ref_shard = i, ref_bucket = b\<rparr>, it\<lparr>it_current := Some (i, bs)\<rparr>, c)
   | _ \<Rightarrow>
       if it_shard_i it = shard_count c then returns (None, it, c)
       else (case yield_read_shard c (it_shard_i it) of
           None \<Rightarrow> None
         | Some (Panic p) \<Rightarrow> Some (Panic p)
         | Some (Return c1) \<Rightarrow>
             iter_next T (drop_current (it_current it) c1)
               \<lparr>it_shard_i = it_shard_i it + 1,
                it_current = Some (it_shard_i it, rt_iter T (raw_map (shard_at c1 (it_shard_i it))))\<rparr>))"

partial_function (option) iter_mut_next :: "('k, 'v, 't) table \<Rightarrow> ('k, 't) NeoCache \<Rightarrow> Iter
    \<Rightarrow> (Ref option \<times> Iter \<times> ('k, 't) NeoCache) comp" where
  "iter_mut_next T c it = (case it_current it of
     Some (i, b # bs) \<Rightarrow> returns (Some \<lparr>ref_shard = i, ref_bucket = b\<rparr>, it\<lparr>it_current := Some (i, bs)\<rparr>, c)
   | _ \<Rightarrow>
       if it_shard_i it = shard_count c then returns (None, it, c)
       else (case yield_write_shard c (it_shard_i it) of
           None \<Rightarrow> None
         | Some (Panic p) \<Rightarrow> Some (Panic p)
         | Some (Return c1) \<Rightarrow> (case drop_current_mut (it_current it) c1 of
               Panic p \<Rightarrow> Some (Panic p)
             | Return c2 \<Rightarrow>
             iter_mut_next T c2
               \<lparr>it_shard_i = it_shard_i it + 1,
                it_current = Some (it_shard_i it, rt_iter T (raw_map (shard_at c1 (it_shard_i it))))\<rparr>)))"

declare iter_next.simps [code] iter_mut_next.simps [code]

text \<open>
  A \<open>for\<close> loop over \<open>&cache\<close> whose body may leave it with an error (\<open>?\<close>). When the loop is
  left, the iterator is dropped, and with it the guard of the current shard.
\<close>

partial_function (option) iter_for :: "('k, 'v, 't) table \<Rightarrow> ('a \<Rightarrow> 'k \<times> 'v \<Rightarrow> ('a, 'e) result) \<Rightarrow> Iter
    \<Rightarrow> ('k, 't) NeoCache \<Rightarrow> 'a \<Rightarrow> (('a, 'e) result \<times> ('k, 't) NeoCache) comp" where
  "iter_for T f it c a = (case iter_next T c it of
     None \<Rightarrow> None
   | Some (Panic p) \<Rightarrow> Some (Panic p)
   | Some (Return (None, it', c')) \<Rightarrow> returns (Ok a, drop_current (it_current it') c')
   | Some (Return (Some r, it', c')) \<Rightarrow>
       (case f a (ref_pair T c' r) of
          Err e \<Rightarrow> returns (Err e, drop_current (it_current it') c')
        | Ok a' \<Rightarrow> iter_for T f it' c' a'))"

declare iter_for.simps [code]

definition nc_for_each :: "('k, 'v, 't) table \<Rightarrow> ('a \<Rightarrow> 'k \<times> 'v \<Rightarrow> ('a, 'e) result) \<Rightarrow> ('k, 't) NeoCache \<Rightarrow> 'a
    \<Rightarrow> (('a, 'e) result \<times> ('k, 't) NeoCache) comp" where
  "nc_for_each T f c a = iter_for T f Iter_new c a"

text \<open>
  \<open>alter_all\<close>: \<open>map_in_place_2\<close> on every mutable reference. The \<open>FnMut\<close> closure threads its
  captured state; a panic in it aborts the process.
\<close>

partial_function (option) alter_for :: "('k, 'v, 't) table \<Rightarrow> ('s \<Rightarrow> 'k \<Rightarrow> 'v \<Rightarrow> ('v \<times> 's) run) \<Rightarrow> Iter
    \<Rightarrow> ('k, 't) NeoCache \<Rightarrow> 's \<Rightarrow> ('s \<times> ('k, 't) NeoCache) comp" where
  "alter_for T f it c st = (case iter_mut_next T c it of
     None \<Rightarrow> None
   | Some (Panic p) \<Rightarrow> Some (Panic p)
   | Some (Return (None, it', c')) \<Rightarrow>
       (case drop_current_mut (it_current it') c' of
          Panic p \<Rightarrow> Some (Panic p) | Return c2 \<Rightarrow> returns (st, c2))
   | Some (Return (Some r, it', c')) \<Rightarrow>
       (let (k, v) = ref_pair T c' r
        in case f st k v of
             Panic p \<Rightarrow> Some (Panic (AbortOnPanic_drop p))
           | Return (v', st') \<Rightarrow> alter_for T f it' (ref_write T c' r v') st'))"

declare alter_for.simps [code]

definition nc_alter_all :: "('k, 'v, 't) table \<Rightarrow> ('s \<Rightarrow> 'k \<Rightarrow> 'v \<Rightarrow> ('v \<times> 's) run)
    \<Rightarrow> ('k, 't) NeoCache \<Rightarrow> 's \<Rightarrow> ('s \<times> ('k, 't) NeoCache) comp" where
  "nc_alter_all T f c st = alter_for T f Iter_new c st"

text \<open>
  \<open>OwningIter\<close>: each shard's raw table is taken out (\<open>mem::take\<close> leaves an empty one) and
  consumed; the guard lives only while the table is taken.
\<close>

record ('k, 'v, 't) OwningIter =
  ow_map :: "('k, 't) NeoCache"
  ow_shard_i :: usize
  ow_current :: "('k \<times> 'v CacheEntry) list option"

definition OwningIter_new :: "('k, 't) NeoCache \<Rightarrow> ('k, 'v, 't) OwningIter" where
  "OwningIter_new c = \<lparr>ow_map = c, ow_shard_i = 0, ow_current = None\<rparr>"

definition take_table :: "('k, 'v, 't) table \<Rightarrow> ('k, 't) ShardData \<Rightarrow> 't \<times> ('k, 't) ShardData" where
  "take_table T s = (raw_map s, s\<lparr>raw_map := rt_new T\<rparr>)"

partial_function (option) owning_next :: "('k, 'v, 't) table \<Rightarrow> ('k, 'v, 't) OwningIter
    \<Rightarrow> (('k \<times> 'v) option \<times> ('k, 'v, 't) OwningIter) comp" where
  "owning_next T it = (case ow_current it of
     Some ((k, e) # xs) \<Rightarrow> returns (Some (k, sv_into_inner (entry_value e)), it\<lparr>ow_current := Some xs\<rparr>)
   | _ \<Rightarrow>
       if ow_shard_i it = shard_count (ow_map it) then returns (None, it)
       else (case with_write (ow_map it) (ow_shard_i it) (\<lambda>s. returns (take_table T s)) of
           None \<Rightarrow> None
         | Some (Panic p) \<Rightarrow> Some (Panic p)
         | Some (Return (t, c)) \<Rightarrow>
             owning_next T \<lparr>ow_map = c, ow_shard_i = ow_shard_i it + 1, ow_current = Some (rt_into_iter T t)\<rparr>))"

partial_function (option) owning_for :: "('k, 'v, 't) table \<Rightarrow> ('a \<Rightarrow> 'k \<times> 'v \<Rightarrow> 'a)
    \<Rightarrow> ('k, 'v, 't) OwningIter \<Rightarrow> 'a \<Rightarrow> 'a comp" where
  "owning_for T f it a = (case owning_next T it of
     None \<Rightarrow> None
   | Some (Panic p) \<Rightarrow> Some (Panic p)
   | Some (Return (None, it')) \<Rightarrow> returns a
   | Some (Return (Some kv, it')) \<Rightarrow> owning_for T f it' (f a kv))"

declare owning_next.simps [code] owning_for.simps [code]

definition nc_into_iter :: "('k, 'v, 't) table \<Rightarrow> ('a \<Rightarrow> 'k \<times> 'v \<Rightarrow> 'a) \<Rightarrow> ('k, 't) NeoCache \<Rightarrow> 'a \<Rightarrow> 'a comp" where
  "nc_into_iter T f c a = owning_for T f (OwningIter_new c) a"

section \<open>The pairs of a cache in iteration order\<close>

definition bucket_pair :: "('k, 'v, 't) table \<Rightarrow> ('k, 't) ShardData \<Rightarrow> nat \<Rightarrow> 'k \<times> 'v" where
  "bucket_pair T s b = (let (k, e) = rt_as_ref T (raw_map s) b in (k, sv_get (entry_value e)))"

definition shard_pairs :: "('k, 'v, 't) table \<Rightarrow> ('k, 't) ShardData \<Rightarrow> ('k \<times> 'v) list" where
  "shard_pairs T s = map (bucket_pair T s) (rt_iter T (raw_map s))"

definition cache_pairs :: "('k, 'v, 't) table \<Rightarrow> ('k, 't) NeoCache \<Rightarrow> ('k \<times> 'v) list" where
  "cache_pairs T c = concat (map (shard_pairs T) (shard_list c))"

lemma shard_pairs_conv:
  "shard_pairs T s = map (\<lambda>(k, e). (k, entry_val e)) (rt_contents T (raw_map s))"
  by (simp add: shard_pairs_def rt_contents_def bucket_pair_def entry_val_def split_def Let_def)

lemma map_of_shard_pairs: "map_of (shard_pairs T s) = shard_vals T s"
  by (simp add: shard_pairs_conv shard_vals_def shard_map_def rt_lookup_def map_of_map fun_eq_iff)

lemma fst_shard_pairs: "map fst (shard_pairs T s) = map fst (rt_contents T (raw_map s))"
  by (simp add: shard_pairs_conv split_def)

lemma ref_pair_bucket: "ref_pair T c \<lparr>ref_shard = i, ref_bucket = b\<rparr> = bucket_pair T (shard_at c i) b"
  by (simp add: ref_pair_def bucket_pair_def)

section \<open>A shared iteration\<close>

lemma put_state_put_state:
  "i \<noteq> j \<Longrightarrow> put_state (put_state c i a) j b = put_state (put_state c j b) i a"
  by (simp add: put_state_def list_update_swap)

text \<open>What such a loop computes over a list.\<close>

fun try_fold :: "('a \<Rightarrow> 'x \<Rightarrow> ('a, 'e) result) \<Rightarrow> 'a \<Rightarrow> 'x list \<Rightarrow> ('a, 'e) result" where
  "try_fold f a [] = Ok a"
| "try_fold f a (x # xs) = (case f a x of Err e \<Rightarrow> Err e | Ok a' \<Rightarrow> try_fold f a' xs)"

lemma try_fold_append:
  "try_fold f a (xs @ ys) = (case try_fold f a xs of Err e \<Rightarrow> Err e | Ok a' \<Rightarrow> try_fold f a' ys)"
  by (induction xs arbitrary: a) (simp_all split: result.splits)

lemma try_fold_collect: "try_fold (\<lambda>pmap pair. Ok (pmap @ [pair])) acc ps = Ok (acc @ ps)"
  by (induction ps arbitrary: acc) simp_all

text \<open>While shard \<open>i\<close> is read-locked, the loop works off its buckets and then moves on.\<close>

lemma iter_for_bucket:
  "iter_for T f \<lparr>it_shard_i = n, it_current = Some (i, b # bs)\<rparr> c a =
   (case f a (bucket_pair T (shard_at c i) b) of
      Err e \<Rightarrow> returns (Err e, drop_read_guard c i)
    | Ok a' \<Rightarrow> iter_for T f \<lparr>it_shard_i = n, it_current = Some (i, bs)\<rparr> c a')"
  by (subst iter_for.simps, subst iter_next.simps) (simp add: ref_pair_bucket split: result.split)

lemma iter_for_buckets:
  "iter_for T f \<lparr>it_shard_i = n, it_current = Some (i, bs)\<rparr> c a =
   (case try_fold f a (map (bucket_pair T (shard_at c i)) bs) of
      Err e \<Rightarrow> returns (Err e, drop_read_guard c i)
    | Ok a' \<Rightarrow> iter_for T f \<lparr>it_shard_i = n, it_current = Some (i, [])\<rparr> c a')"
  by (induction bs arbitrary: a) (simp_all add: iter_for_bucket split: result.split)

lemma iter_for_end:
  "shard_count c = n \<Longrightarrow> iter_for T f \<lparr>it_shard_i = n, it_current = Some (i, [])\<rparr> c a = returns (Ok a, drop_read_guard c i)"
  by (subst iter_for.simps, subst iter_next.simps) simp

lemma iter_for_next:
  assumes "n < shard_count c" and "cur = None \<or> cur = Some (i, [])" and "yield_read_shard c n = returns c1"
  shows "iter_for T f \<lparr>it_shard_i = n, it_current = cur\<rparr> c a =
    iter_for T f \<lparr>it_shard_i = Suc n, it_current = Some (n, rt_iter T (raw_map (shard_at c1 n)))\<rparr> (drop_current cur c1) a"
proof -
  have "iter_next T c \<lparr>it_shard_i = n, it_current = cur\<rparr> =
      iter_next T (drop_current cur c1) \<lparr>it_shard_i = Suc n, it_current = Some (n, rt_iter T (raw_map (shard_at c1 n)))\<rparr>"
    using assms by (subst iter_next.simps) (auto split: option.split)
  then show ?thesis by (simp add: iter_for.simps [of T f _ _ a])
qed

lemma read_lock_next:
  assumes "quiet c" and "i < shard_count c" and "n < shard_count c" and "i \<noteq> n"
  shows "yield_read_shard (put_state c i ONE_READER) n = returns (put_state (put_state c i ONE_READER) n ONE_READER)"
    and "drop_read_guard (put_state (put_state c i ONE_READER) n ONE_READER) i = put_state c n ONE_READER"
proof -
  have l: "i < length (shards c)" "n < length (shards c)" using assms by (simp_all add: shard_count_def)
  have st: "rw_state (shards (put_state c i ONE_READER) ! n) = 0"
    using l assms(4) quiet_nth [OF assms(1) l(2)] by (simp add: put_state_def)
  show "yield_read_shard (put_state c i ONE_READER) n = returns (put_state (put_state c i ONE_READER) n ONE_READER)"
    using l st by (simp add: yield_read_shard_def)
  have "rw_state (shards (put_state (put_state c i ONE_READER) n ONE_READER) ! i) = ONE_READER"
    using l assms(4) by (simp add: put_state_def)
  then show "drop_read_guard (put_state (put_state c i ONE_READER) n ONE_READER) i = put_state c n ONE_READER"
    using l assms(4) state_shuffle(4) [of i c] put_state_0 [OF assms(1) l(1)]
    by (simp add: drop_read_guard_def put_state_put_state [of i n])
      (simp add: put_state_put_state [of n i] assms(4) [symmetric])
qed

lemma drop_read_quiet:
  assumes "quiet c" and "i < shard_count c"
  shows "drop_read_guard (put_state c i ONE_READER) i = c"
proof -
  have "i < length (shards c)" using assms(2) by (simp add: shard_count_def)
  then show ?thesis
    using state_shuffle(3,4) [of i c] put_state_0 [OF assms(1)] by (simp add: drop_read_guard_def)
qed

text \<open>Working off shard \<open>i\<close>, already read-locked.\<close>

lemma iter_for_shard:
  assumes "quiet c" and "i < shard_count c"
  shows "iter_for T f \<lparr>it_shard_i = n, it_current = Some (i, rt_iter T (raw_map (shard_at c i)))\<rparr> (put_state c i ONE_READER) a =
    (case try_fold f a (shard_pairs T (shard_at c i)) of
       Err e \<Rightarrow> returns (Err e, c)
     | Ok a' \<Rightarrow> iter_for T f \<lparr>it_shard_i = n, it_current = Some (i, [])\<rparr> (put_state c i ONE_READER) a')"
  by (subst iter_for_buckets) (simp add: shard_pairs_def drop_read_quiet [OF assms] split: result.split)

lemma iter_for_from:
  assumes "quiet c" and "i < shard_count c"
  shows "iter_for T f \<lparr>it_shard_i = Suc i, it_current = Some (i, [])\<rparr> (put_state c i ONE_READER) a =
    returns (try_fold f a (concat (map (shard_pairs T) (drop (Suc i) (shard_list c)))), c)"
  using assms
proof (induction "shard_count c - Suc i" arbitrary: i a)
  case 0
  then have "shard_count c = Suc i" by simp
  with 0 show ?case by (simp add: iter_for_end drop_read_quiet shard_count_def)
next
  case (Suc m)
  let ?n = "Suc i"
  have n: "?n < shard_count c" using Suc.hyps(2) by simp
  note lk = read_lock_next [OF Suc.prems(1,2) n]
  have ih: "iter_for T f \<lparr>it_shard_i = Suc ?n, it_current = Some (?n, [])\<rparr> (put_state c ?n ONE_READER) a' =
      returns (try_fold f a' (concat (map (shard_pairs T) (drop (Suc ?n) (shard_list c)))), c)" for a'
    using Suc.hyps(2) n Suc.prems(1) by (intro Suc.hyps(1)) simp_all
  have "iter_for T f \<lparr>it_shard_i = ?n, it_current = Some (i, [])\<rparr> (put_state c i ONE_READER) a =
      iter_for T f \<lparr>it_shard_i = Suc ?n, it_current = Some (?n, rt_iter T (raw_map (shard_at c ?n)))\<rparr>
        (put_state c ?n ONE_READER) a"
    using n lk by (subst iter_for_next [where i = i]) (auto simp: shard_count_def)
  also have "\<dots> = (case try_fold f a (shard_pairs T (shard_at c ?n)) of
       Err e \<Rightarrow> returns (Err e, c)
     | Ok a' \<Rightarrow> returns (try_fold f a' (concat (map (shard_pairs T) (drop (Suc ?n) (shard_list c)))), c))"
    unfolding iter_for_shard [OF Suc.prems(1) n] by (simp add: ih split: result.split)
  finally have "iter_for T f \<lparr>it_shard_i = ?n, it_current = Some (i, [])\<rparr> (put_state c i ONE_READER) a =
      returns (try_fold f a (shard_pairs T (shard_at c ?n) @ concat (map (shard_pairs T) (drop (Suc ?n) (shard_list c)))), c)"
    by (simp add: try_fold_append split: result.split)
  moreover have "drop ?n (shard_list c) = shard_at c ?n # drop (Suc ?n) (shard_list c)"
    using n by (simp add: Cons_nth_drop_Suc [symmetric] shard_list_nth)
  ultimately show ?case by simp
qed

lemma nc_for_each_spec:
  assumes "quiet c" and "0 < shard_count c"
  shows "nc_for_each T f c a = returns (try_fold f a (cache_pairs T c), c)"
proof -
  have l: "0 < length (shards c)" using assms(2) by (simp add: shard_count_def)
  have "yield_read_shard c 0 = returns (put_state c 0 ONE_READER)"
    using l quiet_nth [OF assms(1) l] by (simp add: yield_read_shard_def)
  then have "nc_for_each T f c a =
      iter_for T f \<lparr>it_shard_i = Suc 0, it_current = Some (0, rt_iter T (raw_map (shard_at c 0)))\<rparr> (put_state c 0 ONE_READER) a"
    using assms(2) unfolding nc_for_each_def Iter_new_def by (subst iter_for_next) auto
  also have "\<dots> = (case try_fold f a (shard_pairs T (shard_at c 0)) of
       Err e \<Rightarrow> returns (Err e, c)
     | Ok a' \<Rightarrow> returns (try_fold f a' (concat (map (shard_pairs T) (drop (Suc 0) (shard_list c)))), c))"
    unfolding iter_for_shard [OF assms] iter_for_from [OF assms] ..
  finally have run: "nc_for_each T f c a = returns (try_fold f a (shard_pairs T (shard_at c 0) @
      concat (map (shard_pairs T) (drop (Suc 0) (shard_list c)))), c)"
    by (simp add: try_fold_append split: result.split)
  have "shard_list c = shard_at c 0 # drop (Suc 0) (shard_list c)"
    using assms(2) by (metis Cons_nth_drop_Suc drop0 length_shard_list shard_list_nth)
  then have "cache_pairs T c = shard_pairs T (shard_at c 0) @ concat (map (shard_pairs T) (drop (Suc 0) (shard_list c)))"
    unfolding cache_pairs_def by (metis concat.simps(2) list.simps(9))
  then show ?thesis using run by simp
qed

section \<open>A consuming iteration\<close>

definition into_pairs :: "('k, 'v, 't) table \<Rightarrow> ('k, 't) ShardData \<Rightarrow> ('k \<times> 'v) list" where
  "into_pairs T s = map (\<lambda>(k, e). (k, entry_val e)) (rt_into_iter T (raw_map s))"

lemma owning_for_item:
  "owning_for T f \<lparr>ow_map = c, ow_shard_i = n, ow_current = Some (x # xs)\<rparr> a =
   owning_for T f \<lparr>ow_map = c, ow_shard_i = n, ow_current = Some xs\<rparr> (f a (fst x, entry_val (snd x)))"
  by (cases x; subst owning_for.simps, subst owning_next.simps) (simp add: entry_val_def)

lemma owning_for_items:
  "owning_for T f \<lparr>ow_map = c, ow_shard_i = n, ow_current = Some xs\<rparr> a =
   owning_for T f \<lparr>ow_map = c, ow_shard_i = n, ow_current = Some []\<rparr>
     (foldl f a (map (\<lambda>(k, e). (k, entry_val e)) xs))"
  by (induction xs arbitrary: a) (simp_all add: owning_for_item split_def)

lemma owning_for_next:
  assumes "quiet c" and "n < shard_count c" and "cur = None \<or> cur = Some []"
  shows "owning_for T f \<lparr>ow_map = c, ow_shard_i = n, ow_current = cur\<rparr> a =
    owning_for T f \<lparr>ow_map = put_shard c n ((shard_at c n)\<lparr>raw_map := rt_new T\<rparr>), ow_shard_i = Suc n,
      ow_current = Some (rt_into_iter T (raw_map (shard_at c n)))\<rparr> a"
proof -
  have "n < length (shards c)" using assms(2) by (simp add: shard_count_def)
  then have "owning_next T \<lparr>ow_map = c, ow_shard_i = n, ow_current = cur\<rparr> =
      owning_next T \<lparr>ow_map = put_shard c n ((shard_at c n)\<lparr>raw_map := rt_new T\<rparr>), ow_shard_i = Suc n,
        ow_current = Some (rt_into_iter T (raw_map (shard_at c n)))\<rparr>"
    using assms by (subst owning_next.simps)
      (auto simp: with_write_quiet take_table_def split: option.split)
  then show ?thesis by (simp add: owning_for.simps [of T f _ a])
qed

lemma owning_for_from:
  assumes "quiet c" and "n \<le> shard_count c" and "cur = None \<or> cur = Some []"
  shows "owning_for T f \<lparr>ow_map = c, ow_shard_i = n, ow_current = cur\<rparr> a =
    returns (foldl f a (concat (map (into_pairs T) (drop n (shard_list c)))))"
  using assms
proof (induction "shard_count c - n" arbitrary: c n cur a)
  case 0
  then show ?case
    by (subst owning_for.simps, subst owning_next.simps) (auto split: option.split)
next
  case (Suc m)
  have n: "n < shard_count c" using Suc.hyps(2) by simp
  let ?c = "put_shard c n ((shard_at c n)\<lparr>raw_map := rt_new T\<rparr>)"
  have sc: "shard_count ?c = shard_count c" by (simp add: shard_count_def)
  have sl: "drop (Suc n) (shard_list ?c) = drop (Suc n) (shard_list c)"
    using with_shards_put [OF Suc.prems(1) n] by simp
  have "owning_for T f \<lparr>ow_map = c, ow_shard_i = n, ow_current = cur\<rparr> a =
      owning_for T f \<lparr>ow_map = ?c, ow_shard_i = Suc n, ow_current = Some []\<rparr> (foldl f a (into_pairs T (shard_at c n)))"
    using owning_for_next [OF Suc.prems(1) n Suc.prems(3)]
    by (subst (asm) owning_for_items) (simp add: into_pairs_def)
  also have "\<dots> = returns (foldl f (foldl f a (into_pairs T (shard_at c n)))
      (concat (map (into_pairs T) (drop (Suc n) (shard_list ?c)))))"
    using Suc.hyps(2) n Suc.prems(1) sc by (intro Suc.hyps(1)) simp_all
  finally have "owning_for T f \<lparr>ow_map = c, ow_shard_i = n, ow_current = cur\<rparr> a =
      returns (foldl f (foldl f a (into_pairs T (shard_at c n))) (concat (map (into_pairs T) (drop (Suc n) (shard_list c)))))"
    by (simp add: sl)
  moreover have "drop n (shard_list c) = shard_at c n # drop (Suc n) (shard_list c)"
    using n by (simp add: Cons_nth_drop_Suc [symmetric] shard_list_nth)
  ultimately show ?case by simp
qed

lemma nc_into_iter_spec:
  "quiet c \<Longrightarrow> nc_into_iter T f c a = returns (foldl f a (concat (map (into_pairs T) (shard_list c))))"
  unfolding nc_into_iter_def OwningIter_new_def by (subst owning_for_from) simp_all

section \<open>An iteration that changes the values\<close>

text \<open>A closure that never panics, as the closure of a \<open>retain\<close> that keeps every pair.\<close>

definition keep_all :: "('s \<Rightarrow> 'k \<Rightarrow> 'v \<Rightarrow> ('v \<times> 's) run) \<Rightarrow> 's \<Rightarrow> 'k \<Rightarrow> 'v \<Rightarrow> bool \<times> 'v \<times> 's" where
  "keep_all f st k v = (case f st k v of Return (v', st') \<Rightarrow> (True, v', st') | Panic p \<Rightarrow> (True, v, st))"

definition no_panic :: "('s \<Rightarrow> 'k \<Rightarrow> 'v \<Rightarrow> ('v \<times> 's) run) \<Rightarrow> bool" where
  "no_panic f \<longleftrightarrow> (\<forall>st k v. \<exists>v' st'. f st k v = Return (v', st'))"

lemma ref_write_put:
  assumes "i < length (shards c)"
  shows "ref_write T c \<lparr>ref_shard = i, ref_bucket = b\<rparr> v = put_shard c i ((shard_at c i)\<lparr>raw_map :=
    (let (k, e) = rt_as_ref T (raw_map (shard_at c i)) b
     in rt_write T (raw_map (shard_at c i)) b (k, e\<lparr>entry_value := sv_new v\<rparr>))\<rparr>)"
  using assms by (simp add: ref_write_def Let_def split_def)

lemma alter_for_buckets:
  assumes "no_panic f" and "i < length (shards c)"
    and "retain_buckets T (keep_all f) bs st (shard_at c i) = (st', s')"
  shows "alter_for T f \<lparr>it_shard_i = n, it_current = Some (i, bs)\<rparr> c st =
    alter_for T f \<lparr>it_shard_i = n, it_current = Some (i, [])\<rparr> (put_shard c i s') st'"
  using assms(2,3)
proof (induction bs arbitrary: c st)
  case Nil
  then show ?case by (auto simp: put_shard_same)
next
  case (Cons b bs)
  obtain k e where ke: "rt_as_ref T (raw_map (shard_at c i)) b = (k, e)" by fastforce
  obtain v' st1 where f: "f st k (entry_val e) = Return (v', st1)"
    using assms(1) unfolding no_panic_def by blast
  have keep: "keep_all f st k (entry_val e) = (True, v', st1)" by (simp add: keep_all_def f)
  define s1 where "s1 = (shard_at c i)\<lparr>raw_map := rt_write T (raw_map (shard_at c i)) b (k, e\<lparr>entry_value := sv_new v'\<rparr>)\<rparr>"
  have rest: "retain_buckets T (keep_all f) bs st1 s1 = (st', s')"
    using Cons.prems(2) keep by (simp add: ke s1_def Let_def entry_val_def)
  have w: "ref_write T c \<lparr>ref_shard = i, ref_bucket = b\<rparr> v' = put_shard c i s1"
    using Cons.prems(1) by (simp add: ref_write_put ke s1_def)
  have "alter_for T f \<lparr>it_shard_i = n, it_current = Some (i, b # bs)\<rparr> c st =
      alter_for T f \<lparr>it_shard_i = n, it_current = Some (i, bs)\<rparr> (put_shard c i s1) st1"
    using f w by (subst alter_for.simps, subst iter_mut_next.simps)
      (simp add: ref_pair_bucket bucket_pair_def ke entry_val_def)
  also have "\<dots> = alter_for T f \<lparr>it_shard_i = n, it_current = Some (i, [])\<rparr> (put_shard (put_shard c i s1) i s') st'"
    using Cons.prems(1) rest by (intro Cons.IH) (simp_all add: shard_at_put)
  finally show ?case by (simp add: put_shard_twice)
qed


lemma write_lock_next:
  assumes "quiet c" and "i < shard_count c" and "n < shard_count c" and "i \<noteq> n"
  shows "yield_write_shard (put_state c i ONE_WRITER) n = returns (put_state (put_state c i ONE_WRITER) n ONE_WRITER)"
    and "drop_write_guard (put_state (put_state c i ONE_WRITER) n ONE_WRITER) i = Return (put_state c n ONE_WRITER)"
proof -
  have l: "i < length (shards c)" "n < length (shards c)" using assms by (simp_all add: shard_count_def)
  have st: "rw_state (shards (put_state c i ONE_WRITER) ! n) = 0"
    using l assms(4) quiet_nth [OF assms(1) l(2)] by (simp add: put_state_def)
  show "yield_write_shard (put_state c i ONE_WRITER) n = returns (put_state (put_state c i ONE_WRITER) n ONE_WRITER)"
    using l st by (simp add: yield_write_shard_def)
  have "rw_state (shards (put_state (put_state c i ONE_WRITER) n ONE_WRITER) ! i) = ONE_WRITER"
    using l assms(4) by (simp add: put_state_def)
  then show "drop_write_guard (put_state (put_state c i ONE_WRITER) n ONE_WRITER) i = Return (put_state c n ONE_WRITER)"
    using l assms(4) state_shuffle(4) [of i c] put_state_0 [OF assms(1) l(1)]
    by (simp add: drop_write_guard_def put_state_put_state [of i n])
      (simp add: put_state_put_state [of n i] assms(4) [symmetric])
qed

lemma drop_write_quiet:
  assumes "quiet c" and "i < shard_count c"
  shows "drop_write_guard (put_state c i ONE_WRITER) i = Return c"
proof -
  have "i < length (shards c)" using assms(2) by (simp add: shard_count_def)
  then show ?thesis
    using state_shuffle(3,4) [of i c] put_state_0 [OF assms(1)] by (simp add: drop_write_guard_def)
qed

lemma alter_for_end:
  assumes "quiet c" and "shard_count c = Suc i"
  shows "alter_for T f \<lparr>it_shard_i = Suc i, it_current = Some (i, [])\<rparr> (put_state c i ONE_WRITER) st = returns (st, c)"
  using assms drop_write_quiet [OF assms(1), of i]
  by (subst alter_for.simps, subst iter_mut_next.simps) (simp add: shard_count_def)

lemma alter_for_next:
  assumes "n < shard_count c" and "cur = None \<or> cur = Some (i, [])" and "yield_write_shard c n = returns c1"
    and "drop_current_mut cur c1 = Return c2"
  shows "alter_for T f \<lparr>it_shard_i = n, it_current = cur\<rparr> c st =
    alter_for T f \<lparr>it_shard_i = Suc n, it_current = Some (n, rt_iter T (raw_map (shard_at c1 n)))\<rparr> c2 st"
proof -
  have "iter_mut_next T c \<lparr>it_shard_i = n, it_current = cur\<rparr> =
      iter_mut_next T c2 \<lparr>it_shard_i = Suc n, it_current = Some (n, rt_iter T (raw_map (shard_at c1 n)))\<rparr>"
    using assms by (subst iter_mut_next.simps) (auto split: option.split)
  then show ?thesis by (simp add: alter_for.simps [of T f _ _ st])
qed

lemma put_state_shard: "put_shard (put_state c n a) n s = put_state (put_shard c n s) n a"
  by (cases "n < length (shards c)"; cases "shards c ! n")
    (simp_all add: put_state_def put_shard_def list_update_beyond)

text \<open>Working off shard \<open>n\<close>, already write-locked, is one step of the fold.\<close>

lemma alter_shard:
  assumes "no_panic f" and "n < shard_count c" and "retain_locked T (keep_all f) st (shard_at c n) = (st', s')"
  shows "alter_for T f \<lparr>it_shard_i = Suc n, it_current = Some (n, rt_iter T (raw_map (shard_at c n)))\<rparr> (put_state c n ONE_WRITER) st =
    alter_for T f \<lparr>it_shard_i = Suc n, it_current = Some (n, [])\<rparr> (put_state (put_shard c n s') n ONE_WRITER) st'"
  using alter_for_buckets [OF assms(1), of n "put_state c n ONE_WRITER" T "rt_iter T (raw_map (shard_at c n))" st st' s' "Suc n"]
    assms(2,3) by (simp add: retain_locked_def put_state_shard shard_count_def)

lemma alter_for_from:
  assumes "no_panic f" and "quiet c" and "i < shard_count c"
    and "shards_fold (retain_locked T (keep_all f)) st (drop (Suc i) (shard_list c)) = (st', ss')"
  shows "alter_for T f \<lparr>it_shard_i = Suc i, it_current = Some (i, [])\<rparr> (put_state c i ONE_WRITER) st =
    returns (st', with_shards c (take (Suc i) (shard_list c) @ ss'))"
  using assms(2-4)
proof (induction "shard_count c - Suc i" arbitrary: c i st st' ss')
  case 0
  then have "shard_count c = Suc i" by simp
  with 0 show ?case by (simp add: alter_for_end with_shards_same)
next
  case (Suc m)
  let ?n = "Suc i"
  have n: "?n < shard_count c" using Suc.hyps(2) by simp
  have d: "drop ?n (shard_list c) = shard_at c ?n # drop (Suc ?n) (shard_list c)"
    using n by (simp add: Cons_nth_drop_Suc [symmetric] shard_list_nth)
  obtain st1 s1 where r: "retain_locked T (keep_all f) st (shard_at c ?n) = (st1, s1)" by fastforce
  obtain ss1 where ss: "shards_fold (retain_locked T (keep_all f)) st1 (drop (Suc ?n) (shard_list c)) = (st', ss1)"
      "ss' = s1 # ss1"
    using Suc.prems(3) by (auto simp: d r split: prod.splits)
  let ?c = "put_shard c ?n s1"
  have put: "?c = with_shards c ((shard_list c)[?n := s1])" by (rule with_shards_put [OF Suc.prems(1) n])
  have sc: "shard_count ?c = shard_count c" by (simp add: shard_count_def)
  note lk = write_lock_next [OF Suc.prems(1,2) n]
  have "alter_for T f \<lparr>it_shard_i = ?n, it_current = Some (i, [])\<rparr> (put_state c i ONE_WRITER) st =
      alter_for T f \<lparr>it_shard_i = Suc ?n, it_current = Some (?n, rt_iter T (raw_map (shard_at c ?n)))\<rparr> (put_state c ?n ONE_WRITER) st"
    using n lk by (subst alter_for_next [where i = i and ?c1.0 = "put_state (put_state c i ONE_WRITER) ?n ONE_WRITER"
          and ?c2.0 = "put_state c ?n ONE_WRITER"]) (auto simp: shard_count_def)
  also have "\<dots> = alter_for T f \<lparr>it_shard_i = Suc ?n, it_current = Some (?n, [])\<rparr> (put_state ?c ?n ONE_WRITER) st1"
    by (rule alter_shard [OF assms(1) n r])
  also have "\<dots> = returns (st', with_shards ?c (take (Suc ?n) (shard_list ?c) @ ss1))"
    using Suc.hyps(2) n Suc.prems(1) sc ss(1) put by (intro Suc.hyps(1)) simp_all
  also have "with_shards ?c (take (Suc ?n) (shard_list ?c) @ ss1) = with_shards c (take ?n (shard_list c) @ ss')"
    using n unfolding put ss(2) by (simp add: take_Suc_conv_app_nth)
  finally show ?case .
qed

lemma alter_all_retain:
  assumes "no_panic f" and "quiet c" and "0 < shard_count c"
  shows "nc_alter_all T f c st = nc_retain T c (keep_all f) st"
proof -
  obtain st1 s1 where r: "retain_locked T (keep_all f) st (shard_at c 0) = (st1, s1)" by fastforce
  obtain st' ss' where ss: "shards_fold (retain_locked T (keep_all f)) st1 (drop (Suc 0) (shard_list c)) = (st', ss')"
    by fastforce
  have d: "shard_list c = shard_at c 0 # drop (Suc 0) (shard_list c)"
    using assms(3) by (metis Cons_nth_drop_Suc drop0 length_shard_list shard_list_nth)
  have l: "0 < length (shards c)" using assms(3) by (simp add: shard_count_def)
  let ?c = "put_shard c 0 s1"
  have put: "?c = with_shards c ((shard_list c)[0 := s1])" by (rule with_shards_put [OF assms(2,3)])
  have sc: "shard_count ?c = shard_count c" by (simp add: shard_count_def)
  have "yield_write_shard c 0 = returns (put_state c 0 ONE_WRITER)"
    using l quiet_nth [OF assms(2) l] by (simp add: yield_write_shard_def)
  then have "nc_alter_all T f c st =
      alter_for T f \<lparr>it_shard_i = Suc 0, it_current = Some (0, rt_iter T (raw_map (shard_at c 0)))\<rparr> (put_state c 0 ONE_WRITER) st"
    using assms(3) unfolding nc_alter_all_def Iter_new_def by (subst alter_for_next [where ?c1.0 = "put_state c 0 ONE_WRITER" and ?c2.0 = "put_state c 0 ONE_WRITER"]) auto
  also have "\<dots> = alter_for T f \<lparr>it_shard_i = Suc 0, it_current = Some (0, [])\<rparr> (put_state ?c 0 ONE_WRITER) st1"
    by (rule alter_shard [OF assms(1,3) r])
  also have "\<dots> = returns (st', with_shards ?c (take (Suc 0) (shard_list ?c) @ ss'))"
    using assms ss put sc by (intro alter_for_from) simp_all
  also have "with_shards ?c (take (Suc 0) (shard_list ?c) @ ss') = with_shards c (s1 # ss')"
    using assms(3) d unfolding put by (cases "shard_list c") simp_all
  moreover have "shards_fold (retain_locked T (keep_all f)) st (shard_list c) = (st', s1 # ss')"
    by (subst d) (simp add: r ss)
  ultimately show ?thesis
    using each_shard_write [OF assms(2), of "retain_locked T (keep_all f)" st] by (simp add: nc_retain_def)
qed

section \<open>The pairs and the map of values\<close>

context shard_table
begin

lemma cache_ok_quiet: "cache_ok T hash rt_wf c \<Longrightarrow> quiet c"
  by (rule cache_okD(3))

lemma cache_ok_count: "cache_ok T hash rt_wf c \<Longrightarrow> 0 < shard_count c"
  using home_okD(1) by (fastforce simp: shard_count_def)

lemma into_pairs_mset:
  assumes ok: "cache_ok T hash rt_wf c"
  shows "mset (concat (map (into_pairs T) (shard_list c))) = mset (cache_pairs T c)"
proof -
  have eq: "mset (into_pairs T s) = mset (shard_pairs T s)" if "s \<in> set (shard_list c)" for s
  proof -
    obtain i where i: "i < shard_count c" "s = shard_at c i"
      using \<open>s \<in> set (shard_list c)\<close> by (auto simp: in_set_conv_nth shard_list_nth)
    have "rt_wf (raw_map s)" using inv_tab(1) [OF cache_ok_shard(1) [OF ok i(1)]] i(2) by simp
    then show ?thesis using into_iter [of "raw_map s"] by (simp add: into_pairs_def shard_pairs_conv)
  qed
  have "mset (concat (map f xs)) = mset (concat (map g xs))" if "\<And>x. x \<in> set xs \<Longrightarrow> mset (f x) = mset (g x)"
    for f g :: "('k, 't) ShardData \<Rightarrow> ('k \<times> 'v) list" and xs
    using that by (induction xs) simp_all
  from this [of "shard_list c" "into_pairs T" "shard_pairs T"] eq show ?thesis by (simp add: cache_pairs_def)
qed

lemma cache_pairs_set:
  assumes ok: "cache_ok T hash rt_wf c"
  shows "(k, v) \<in> set (cache_pairs T c) \<longleftrightarrow> cache_vals T c k = Some v"
proof -
  have inv: "shard_inv T hash rt_wf (shard_at c i)" if "i < shard_count c" for i
    using cache_ok_shard(1) [OF ok that] .
  have d: "distinct (map fst (shard_pairs T (shard_at c i)))" if "i < shard_count c" for i
    using inv_tab(2) [OF inv [OF that]] by (simp add: fst_shard_pairs rt_keys_distinct_def)
  have mem: "(k, v) \<in> set (shard_pairs T (shard_at c i)) \<longleftrightarrow> shard_vals T (shard_at c i) k = Some v"
    if "i < shard_count c" for i
    using map_of_eq_Some_iff [OF d [OF that], of k v] by (simp add: map_of_shard_pairs)
  have "(k, v) \<in> set (cache_pairs T c) \<longleftrightarrow> (\<exists>i < shard_count c. (k, v) \<in> set (shard_pairs T (shard_at c i)))"
    by (auto simp: cache_pairs_def in_set_conv_nth shard_list_nth)
      (metis length_shard_list nth_mem in_set_conv_nth shard_list_nth)+
  also have "\<dots> \<longleftrightarrow> (\<exists>i < shard_count c. shard_vals T (shard_at c i) k = Some v)" using mem by blast
  also have "\<dots> \<longleftrightarrow> cache_vals T c k = Some v"
  proof -
    have "key_shard c k < shard_count c" using home_okD(1) [OF ok] by (simp add: shard_count_def)
    moreover have "key_shard c k = i" if "i < shard_count c" "shard_vals T (shard_at c i) k = Some v" for i
      using cache_ok_shard(3) [OF ok that(1), of k] that(2) by (auto simp: shard_vals_def)
    ultimately show ?thesis by (auto simp: cache_vals_def)
  qed
  finally show ?thesis .
qed

lemma cache_pairs_distinct:
  assumes ok: "cache_ok T hash rt_wf c"
  shows "distinct (map fst (cache_pairs T c))"
proof -
  let ?ks = "\<lambda>i. map fst (shard_pairs T (shard_at c i))"
  have eq: "map fst (cache_pairs T c) = concat (map ?ks [0..<shard_count c])"
  proof -
    have "shard_list c = map (shard_at c) [0..<shard_count c]"
      by (intro nth_equalityI) (simp_all add: shard_list_nth)
    then show ?thesis by (simp add: cache_pairs_def map_concat comp_def)
  qed
  have d: "distinct (?ks i)" if "i < shard_count c" for i
    using inv_tab(2) [OF cache_ok_shard(1) [OF ok that]] by (simp add: fst_shard_pairs rt_keys_distinct_def)
  have own: "key_shard c k = i" if "i < shard_count c" "k \<in> set (?ks i)" for k i
  proof -
    have "k \<in> dom (map_of (shard_pairs T (shard_at c i)))"
      using that(2) by (simp add: dom_map_of_conv_image_fst)
    then show ?thesis using cache_ok_shard(3) [OF ok that(1), of k] by (auto simp: map_of_shard_pairs)
  qed
  have "distinct (concat (map ?ks is))" if "set is \<subseteq> {..<shard_count c}" "distinct is" for "is"
    using that
  proof (induction "is")
    case (Cons i "is")
    have "k \<notin> set (concat (map ?ks is))" if "k \<in> set (?ks i)" for k
      using own [of i k] own [of _ k] that Cons.prems by auto
    with Cons d [of i] show ?case by (simp add: disjoint_iff)
  qed simp
  then show ?thesis unfolding eq by (simp add: subset_eq)
qed

lemma cache_pairs_map:
  assumes ok: "cache_ok T hash rt_wf c"
  shows "map_of (cache_pairs T c) = cache_vals T c"
proof
  fix k
  show "map_of (cache_pairs T c) k = cache_vals T c k"
  proof (cases "cache_vals T c k")
    case None
    then have "\<nexists>v. (k, v) \<in> set (cache_pairs T c)" using cache_pairs_set [OF ok] by simp
    then show ?thesis using None by (auto simp: map_of_eq_None_iff)
  next
    case (Some v)
    then show ?thesis
      using cache_pairs_set [OF ok] map_of_eq_Some_iff [OF cache_pairs_distinct [OF ok]] by simp
  qed
qed

end

end
