(* ===== verification/Guard_Blocking.thy ===== *)
theory Guard_Blocking
  imports Entry_Api Neo_Iter
begin

text \<open>
  What the methods do while a guard is out. On a shard whose lock word is held, the calls on a
  key of the shard wait for ever or report that it is locked, and a method that visits all shards
  never completes: it may work off the shards before, but it does not get past this one.
\<close>

lemma held_words [simp]:
  "lock_exclusive ONE_READER = None" "lock_exclusive ONE_WRITER = None" "lock_shared ONE_WRITER = None"
  "try_lock_exclusive ONE_READER = (False, ONE_READER)" "try_lock_exclusive ONE_WRITER = (False, ONE_WRITER)"
  "try_lock_shared ONE_WRITER = (False, ONE_WRITER)"
  "lock_shared ONE_READER = returns (ONE_READER + ONE_READER)"
  by code_simp+

text \<open>The word of shard \<open>i\<close> is held, shared or exclusively.\<close>

definition word_at :: "('k, 't) NeoCache \<Rightarrow> usize \<Rightarrow> u64 \<Rightarrow> bool" where
  "word_at c i w \<longleftrightarrow> i < length (shards c) \<and> rw_state (shards c ! i) = w"

text \<open>What every method that writes does on such a cache.\<close>

definition writers_wait :: "('k, 'v, 't) table \<Rightarrow> ('k, 't) NeoCache \<Rightarrow> usize \<Rightarrow> bool" where
  "writers_wait T c i \<longleftrightarrow>
     (\<forall>k. key_shard c k = i \<longrightarrow> (\<forall>v. nc_insert T c k v = None) \<and> nc_remove T c k = None \<and>
        (\<forall>p. nc_remove_if T c k p = None) \<and> (\<forall>p. nc_remove_if_mut T c k p = None) \<and>
        nc_get_mut T c k = None \<and> (\<forall>f. nc_alter T c k f = None) \<and> nc_entry T c k = None \<and>
        nc_try_get_mut T c k = Return (Locked, c) \<and> nc_try_entry T c k = Return (None, c)) \<and>
     (\<forall>x. nc_clear T c \<noteq> returns x) \<and> (\<forall>x. nc_shrink_to_fit T c \<noteq> returns x) \<and>
     (\<forall>n c'. nc_try_reserve T c n \<noteq> returns (Ok (), c'))"

text \<open>What every method that reads does on a cache whose shard \<open>i\<close> is held exclusively.\<close>

definition readers_wait :: "('k, 'v, 't) table \<Rightarrow> ('k, 't) NeoCache \<Rightarrow> usize \<Rightarrow> bool" where
  "readers_wait T c i \<longleftrightarrow>
     (\<forall>k. key_shard c k = i \<longrightarrow> nc_get T c k = None \<and> nc_contains_key T c k = None \<and>
        nc_try_get T c k = Return (Locked, c)) \<and>
     (\<forall>x. nc_len T c \<noteq> returns x) \<and> (\<forall>x. nc_is_empty T c \<noteq> returns x) \<and> (\<forall>x. nc_capacity T c \<noteq> returns x) \<and>
     (\<forall>vcl x. nc_clone T vcl c \<noteq> returns x)"

section \<open>Calls on a key\<close>

lemma blocked_write:
  assumes "i < length (shards c)" and "lock_exclusive (rw_state (shards c ! i)) = None"
  shows "with_write c i body = None"
  using assms by (simp add: with_write_def yield_write_shard_def)

lemma key_writers_wait:
  assumes "word_at c (key_shard c k) w" and "lock_exclusive w = None" and "try_lock_exclusive w = (False, w)"
  shows "nc_insert T c k v = None" and "nc_remove T c k = None" and "nc_remove_if T c k p = None"
    and "nc_remove_if_mut T c k q = None" and "nc_get_mut T c k = None" and "nc_alter T c k f = None"
    and "nc_entry T c k = None" and "nc_try_get_mut T c k = Return (Locked, c)" and "nc_try_entry T c k = Return (None, c)"
  using assms
  by (simp_all add: word_at_def nc_insert_def nc_remove_def nc_remove_if_def nc_remove_if_mut_def nc_get_mut_def nc_alter_def
      nc_entry_def nc_try_get_mut_def nc_try_entry_def Let_def key_shard_eq blocked_write yield_write_shard_def
      try_yield_write_shard_def)

lemma key_readers_wait:
  assumes "word_at c (key_shard c k) ONE_WRITER"
  shows "nc_get T c k = None" and "nc_contains_key T c k = None" and "nc_view T c k f = None"
    and "nc_try_get T c k = Return (Locked, c)"
  using assms
  by (simp_all add: word_at_def nc_get_def nc_contains_key_def nc_view_def nc_try_get_def Let_def key_shard_eq
      yield_read_shard_def try_yield_read_shard_def)

text \<open>Shared references do not exclude one another.\<close>

lemma readers_share:
  assumes "word_at c (key_shard c k) ONE_READER"
  shows "\<exists>x. nc_get T c k = returns x"
  using assms
  by (simp add: word_at_def nc_get_def Let_def key_shard_eq yield_read_shard_def split: prod.split option.split)

section \<open>Methods that visit all shards\<close>

lemma word_at_other [simp]:
  "i \<noteq> j \<Longrightarrow> word_at (put_state c j st) i w \<longleftrightarrow> word_at c i w"
  by (simp add: word_at_def put_state_def)

lemma word_at_put_shard [simp]: "word_at (put_shard c j s) i w \<longleftrightarrow> word_at c i w"
  by (cases "i = j") (auto simp: word_at_def put_shard_def)

lemma with_write_other:
  "with_write c j body = returns (a, c') \<Longrightarrow> i \<noteq> j \<Longrightarrow> word_at c i w \<Longrightarrow> word_at c' i w"
  by (auto simp: with_write_def yield_write_shard_def drop_write_guard_def comp_bind_returns_iff run_simps
      split: if_splits)

lemma with_read_other:
  "with_read c j body = returns (a, c') \<Longrightarrow> i \<noteq> j \<Longrightarrow> word_at c i w \<Longrightarrow> word_at c' i w"
  by (auto simp: with_read_def yield_read_shard_def drop_read_guard_def comp_bind_returns_iff split: if_splits)

lemma each_shard_stuck:
  assumes "\<And>a c j r c'. f a c j = returns (r, c') \<Longrightarrow> word_at c i w \<Longrightarrow> i \<noteq> j \<and> word_at c' i w"
    and "i \<in> set is" and "word_at c i w"
  shows "each_shard f is a c \<noteq> returns x"
  using assms(2,3)
proof (induction "is" arbitrary: a c)
  case (Cons j js)
  show ?case
  proof
    assume "each_shard f (j # js) a c = returns x"
    then obtain r c' where st: "f a c j = returns (r, c')" "each_shard f js r c' = returns x"
      by (auto simp: comp_bind_returns_iff)
    with assms(1) [OF st(1) Cons.prems(2)] Cons.prems(1) Cons.IH [of c' r] show False by auto
  qed
qed simp

lemma write_stuck:
  assumes "lock_exclusive w = None"
    and run: "with_write c j body = returns (r, c')" and w: "word_at c i w"
  shows "i \<noteq> j \<and> word_at c' i w"
proof -
  have "i \<noteq> j" using run w assms(1) blocked_write [of i c body] by (auto simp: word_at_def)
  with with_write_other [OF run _ w] show ?thesis by blast
qed

lemma read_stuck:
  assumes run: "with_read c j body = returns (r, c')" and w: "word_at c i ONE_WRITER"
  shows "i \<noteq> j \<and> word_at c' i ONE_WRITER"
proof -
  have "i \<noteq> j" using run w by (auto simp: word_at_def with_read_def yield_read_shard_def)
  with with_read_other [OF run _ w] show ?thesis by blast
qed

lemma try_reserve_stuck:
  assumes "lock_exclusive w = None" and "i \<in> set is" and "word_at c i w"
  shows "try_reserve_from T n is c \<noteq> returns (Ok (), c')"
  using assms(2,3)
proof (induction "is" arbitrary: c)
  case (Cons j js)
  show ?case
  proof
    assume "try_reserve_from T n (j # js) c = returns (Ok (), c')"
    then obtain r c1 where st: "with_write c j (\<lambda>s. returns (map_try_reserve T n (hasher c) s)) = returns (r, c1)"
        "(case r of Err e \<Rightarrow> returns (Err (), c1) | Ok u \<Rightarrow> try_reserve_from T n js c1) = returns (Ok (), c')"
      by (auto simp: comp_bind_returns_iff)
    then have "try_reserve_from T n js c1 = returns (Ok (), c')" by (cases r) simp_all
    with write_stuck [OF assms(1) st(1) Cons.prems(2)] Cons show False by auto
  qed
qed simp

lemma word_at_visited: "word_at c i w \<Longrightarrow> i \<in> set [0..<shard_count c]"
  by (simp add: word_at_def shard_count_def)

lemma all_write_stuck:
  assumes "lock_exclusive w = None" and "word_at c i w"
    and "\<And>a c j. \<exists>body. f a c j = with_write c j body"
  shows "each_shard f [0..<shard_count c] a c \<noteq> returns x"
proof (rule each_shard_stuck [OF _ word_at_visited [OF assms(2)] assms(2)])
  fix a c j r c'
  assume r: "f a c j = returns (r, c')" and w: "word_at c i w"
  obtain body where "f a c j = with_write c j body" using assms(3) by blast
  with r show "i \<noteq> j \<and> word_at c' i w" by (intro write_stuck [OF assms(1) _ w]) simp
qed

lemma all_read_stuck:
  assumes "word_at c i ONE_WRITER" and "\<And>a c j. \<exists>body. f a c j = with_read c j body"
  shows "each_shard f [0..<shard_count c] a c \<noteq> returns x"
proof (rule each_shard_stuck [OF _ word_at_visited [OF assms(1)] assms(1)])
  fix a c j r c'
  assume r: "f a c j = returns (r, c')" and w: "word_at c i ONE_WRITER"
  obtain body where "f a c j = with_read c j body" using assms(2) by blast
  with r show "i \<noteq> j \<and> word_at c' i ONE_WRITER" by (intro read_stuck [OF _ w]) simp
qed

lemma writers_waitI:
  assumes w: "word_at c i w" and ex: "lock_exclusive w = None" and tr: "try_lock_exclusive w = (False, w)"
  shows "writers_wait T c i"
proof -
  have "nc_clear T c \<noteq> returns x" and "nc_shrink_to_fit T c \<noteq> returns y" for x y
    unfolding nc_clear_def nc_shrink_to_fit_def by (rule all_write_stuck [OF ex w]; blast)+
  moreover have "nc_try_reserve T c n \<noteq> returns (Ok (), c')" for n c'
    unfolding nc_try_reserve_def by (rule try_reserve_stuck [OF ex word_at_visited [OF w] w])
  moreover have "word_at c (key_shard c k) w" if "key_shard c k = i" for k using w that by simp
  ultimately show ?thesis
    by (simp add: writers_wait_def key_writers_wait [OF _ ex tr])
qed

lemma retain_waits:
  "word_at c i w \<Longrightarrow> lock_exclusive w = None \<Longrightarrow> nc_retain T c f st \<noteq> returns x"
  unfolding nc_retain_def by (rule all_write_stuck; blast)

lemma readers_waitI:
  assumes w: "word_at c i ONE_WRITER"
  shows "readers_wait T c i"
proof -
  have len: "nc_len T c \<noteq> returns x" for x
    unfolding nc_len_def by (rule all_read_stuck [OF w]; blast)
  then have "nc_is_empty T c \<noteq> returns x" for x
    by (auto simp: nc_is_empty_def comp_bind_returns_iff)
  moreover have "nc_capacity T c \<noteq> returns x" for x
    unfolding nc_capacity_def by (rule all_read_stuck [OF w]; blast)
  moreover have "nc_clone T vcl c \<noteq> returns x" for vcl x
  proof -
    have "each_shard (\<lambda>inner c i. with_read c i (\<lambda>s.
        returns (inner @ [\<lparr>rw_state = 0, rw_data = ShardData_clone T vcl s\<rparr>], s))) [0..<shard_count c] [] c \<noteq> returns y" for y
      by (rule all_read_stuck [OF w]) blast
    then show ?thesis by (auto simp: nc_clone_def comp_bind_returns_iff)
  qed
  moreover have "word_at c (key_shard c k) ONE_WRITER" if "key_shard c k = i" for k using w that by simp
  ultimately show ?thesis using len by (simp add: readers_wait_def key_readers_wait)
qed

section \<open>Iterators\<close>

text \<open>An iterator that has not reached shard \<open>i\<close>.\<close>

definition before :: "usize \<Rightarrow> Iter \<Rightarrow> bool" where
  "before i it \<longleftrightarrow> it_shard_i it \<le> i \<and> (\<forall>j bs. it_current it = Some (j, bs) \<longrightarrow> j < it_shard_i it)"

lemma before_new [simp]: "before i Iter_new"
  by (simp add: before_def Iter_new_def)

lemma yield_write_stuck:
  assumes "yield_write_shard c j = returns c1" and "word_at c i w" and "lock_exclusive w = None"
  shows "i \<noteq> j \<and> word_at c1 i w"
proof -
  have "i \<noteq> j" using assms by (auto simp: yield_write_shard_def word_at_def)
  with assms show ?thesis by (auto simp: yield_write_shard_def comp_bind_returns_iff split: if_splits)
qed

lemma yield_read_stuck:
  assumes "yield_read_shard c j = returns c1" and "word_at c i ONE_WRITER"
  shows "i \<noteq> j \<and> word_at c1 i ONE_WRITER"
proof -
  have "i \<noteq> j" using assms by (auto simp: yield_read_shard_def word_at_def)
  with assms show ?thesis by (auto simp: yield_read_shard_def comp_bind_returns_iff split: if_splits)
qed

lemma drop_current_mut_other:
  assumes "drop_current_mut cur c = Return c2" and "\<And>j bs. cur = Some (j, bs) \<Longrightarrow> j < i" and "word_at c i w"
  shows "word_at c2 i w"
  using assms by (cases cur) (auto simp: drop_write_guard_def run_simps)

lemma drop_current_other:
  assumes "\<And>j bs. cur = Some (j, bs) \<Longrightarrow> j < i" and "word_at c i w"
  shows "word_at (drop_current cur c) i w"
  using assms by (cases cur) (auto simp: drop_read_guard_def)

text \<open>Such an iterator yields references from the shards before \<open>i\<close> and never ends.\<close>

lemma iter_mut_next_stuck:
  assumes "lock_exclusive w = None" and "iter_mut_next T c it = returns (r, it', c')" and "before i it" and "word_at c i w"
  shows "r \<noteq> None \<and> before i it' \<and> word_at c' i w"
  using assms(2-)
proof (induction "i - it_shard_i it" arbitrary: c it rule: less_induct)
  case less
  let ?n = "it_shard_i it"
  show ?case
  proof (cases "\<exists>j b bs. it_current it = Some (j, b # bs)")
    case True
    with less.prems show ?thesis by (auto simp: iter_mut_next.simps [of T c it] before_def)
  next
    case False
    have "?n \<noteq> shard_count c" using less.prems(2,3) by (auto simp: before_def word_at_def shard_count_def)
    with False less.prems(1) obtain c1 c2 where
      y: "yield_write_shard c ?n = returns c1" and d: "drop_current_mut (it_current it) c1 = Return c2"
      and nx: "iter_mut_next T c2 \<lparr>it_shard_i = ?n + 1,
          it_current = Some (?n, rt_iter T (raw_map (shard_at c1 ?n)))\<rparr> = returns (r, it', c')" (is "iter_mut_next T c2 ?it = _")
      by (auto simp: iter_mut_next.simps [of T c it] split: option.splits run.splits list.splits)
    note w1 = yield_write_stuck [OF y less.prems(3) assms(1)]
    then have lt: "?n < i" using less.prems(2) by (auto simp: before_def)
    have "word_at c2 i w"
      using less.prems(2) lt by (intro drop_current_mut_other [OF d _ w1 [THEN conjunct2]]) (auto simp: before_def)
    moreover have "before i ?it" using lt by (simp add: before_def)
    ultimately show ?thesis using less.hyps [OF _ nx] lt by simp
  qed
qed

lemma iter_next_stuck:
  assumes "iter_next T c it = returns (r, it', c')" and "before i it" and "word_at c i ONE_WRITER"
  shows "r \<noteq> None \<and> before i it' \<and> word_at c' i ONE_WRITER"
  using assms
proof (induction "i - it_shard_i it" arbitrary: c it rule: less_induct)
  case less
  let ?n = "it_shard_i it"
  show ?case
  proof (cases "\<exists>j b bs. it_current it = Some (j, b # bs)")
    case True
    with less.prems show ?thesis by (auto simp: iter_next.simps [of T c it] before_def)
  next
    case False
    have "?n \<noteq> shard_count c" using less.prems(2,3) by (auto simp: before_def word_at_def shard_count_def)
    with False less.prems(1) obtain c1 where
      y: "yield_read_shard c ?n = returns c1"
      and nx: "iter_next T (drop_current (it_current it) c1) \<lparr>it_shard_i = ?n + 1,
          it_current = Some (?n, rt_iter T (raw_map (shard_at c1 ?n)))\<rparr> = returns (r, it', c')" (is "iter_next T ?c2 ?it = _")
      by (auto simp: iter_next.simps [of T c it] split: option.splits run.splits list.splits)
    note w1 = yield_read_stuck [OF y less.prems(3)]
    then have lt: "?n < i" using less.prems(2) by (auto simp: before_def)
    have "word_at ?c2 i ONE_WRITER"
      using less.prems(2) lt by (intro drop_current_other [OF _ w1 [THEN conjunct2]]) (auto simp: before_def)
    moreover have "before i ?it" using lt by (simp add: before_def)
    ultimately show ?thesis using less.hyps [OF _ nx] lt by simp
  qed
qed

lemma word_at_ref_write [simp]: "word_at (ref_write T c r v) i w \<longleftrightarrow> word_at c i w"
  by (simp add: ref_write_def Let_def split_def)

lemma alter_all_waits:
  assumes "word_at c i w" and "lock_exclusive w = None"
  shows "nc_alter_all T f c st \<noteq> returns x"
proof -
  have "word_at c i w \<longrightarrow> before i it \<longrightarrow> (\<forall>x. y \<noteq> Return x)" if "alter_for T f it c st = Some y" for it y
    using that
  proof (induction rule: alter_for.raw_induct [rotated, consumes 1, case_names step])
    case (step rec T f it c st y)
    show ?case
    proof (intro impI allI notI)
      fix x assume w: "word_at c i w" and b: "before i it" and x: "y = Return x"
      from step(2) x obtain r it' c' where n: "iter_mut_next T c it = returns (r, it', c')"
        by (auto split: option.splits run.splits)
      note s = iter_mut_next_stuck [OF assms(2) n b w]
      with step(2) x n obtain st' c2 where "rec T f it' c2 st' = Some (Return x)" "word_at c2 i w"
        by (auto split: run.splits prod.splits)
      with step(1) s show False by blast
    qed
  qed
  with assms show ?thesis unfolding nc_alter_all_def by fastforce
qed

lemma for_each_waits:
  assumes "word_at c i ONE_WRITER"
  shows "nc_for_each T f c a \<noteq> returns (Ok b, c')"
proof -
  have "word_at c i ONE_WRITER \<longrightarrow> before i it \<longrightarrow> (\<forall>b c'. y \<noteq> Return (Ok b, c'))" if "iter_for T f it c a = Some y" for it y
    using that
  proof (induction rule: iter_for.raw_induct [rotated, consumes 1, case_names step])
    case (step rec T f it c a y)
    show ?case
    proof (intro impI allI notI)
      fix b c' assume w: "word_at c i ONE_WRITER" and bf: "before i it" and x: "y = Return (Ok b, c')"
      from step(2) x obtain r it' c1 where n: "iter_next T c it = returns (r, it', c1)"
        by (auto split: option.splits run.splits)
      note s = iter_next_stuck [OF n bf w]
      with step(2) x n obtain a' where "rec T f it' c1 a' = Some (Return (Ok b, c'))"
        by (auto split: result.splits)
      with step(1) s show False by blast
    qed
  qed
  with assms show ?thesis unfolding nc_for_each_def by fastforce
qed

end
