(* ===== verification/Guard_Properties.thy ===== *)
theory Guard_Properties
  imports Demo_Cache Guard_Blocking
begin

text \<open>
  Lookups, and the guards they hand out. A reference returned by \<open>get\<close> or \<open>get_mut\<close> keeps
  the lock of its shard: the properties say what the other methods do meanwhile (report
  \<open>Locked\<close>, or wait for ever if the caller itself holds the guard, as the API documentation
  warns), and that dropping the guard puts the cache back to rest.
\<close>

text \<open>
  A shared lookup that hits returns a reference to the stored pair and leaves the lock word of the
  shard at \<open>ONE_READER\<close>. Dropping it restores a cache at rest with the same values, in which
  only the frequency of the key was bumped.
\<close>

lemma get_hit_guard:
  assumes "shard_table T hash tok sok" and "cache_ok T hash tok c" and "cache_map T c k = Some e"
  shows "\<exists>r c1. nc_get T c k = returns (Some r, c1) \<and> nc_try_get T c k = Return (Present r, c1) \<and>
    ref_pair T c1 r = (k, entry_val e) \<and>
    word_at c1 (key_shard c k) ONE_READER \<and> (\<forall>j. key_shard c1 j = key_shard c j) \<and>
    cache_ok T hash tok (drop_read_guard c1 (ref_shard r)) \<and>
    cache_vals T (drop_read_guard c1 (ref_shard r)) = cache_vals T c \<and>
    cache_map T (drop_read_guard c1 (ref_shard r)) k = Some (bump_freq e)"
proof -
  note facts = shard_table.hit_state_facts [OF assms(1,2)] shard_table.drop_hit_guard [OF assms(1,2)]
  have i: "key_shard c k < length (shards c)" by (rule shard_table.home_okD(1) [OF assms(1,2)])
  show ?thesis
    by (rule shard_table.nc_get_hit [OF assms])
      (auto simp: facts i shard_table.ref_pair_hit [OF assms(1,2)] word_at_def)
qed

text \<open>
  An exclusive lookup that hits returns a reference to the stored pair and leaves the lock word of the
  shard at \<open>ONE_WRITER\<close>. A value written through it is in the cache once it is dropped.
\<close>

lemma get_mut_guard:
  assumes "shard_table T hash tok sok" and "cache_ok T hash tok c" and "cache_map T c k = Some e"
  shows "\<exists>r c1. nc_get_mut T c k = returns (Some r, c1) \<and> nc_try_get_mut T c k = Return (Present r, c1) \<and>
    ref_pair T c1 r = (k, entry_val e) \<and>
    word_at c1 (key_shard c k) ONE_WRITER \<and> (\<forall>j. key_shard c1 j = key_shard c j) \<and>
    (\<forall>v. \<exists>c2. drop_write_guard (ref_write T c1 r v) (ref_shard r) = Return c2 \<and>
       cache_ok T hash tok c2 \<and> cache_vals T c2 = (cache_vals T c)(k \<mapsto> v) \<and>
       cache_map T c2 k = Some ((bump_freq e)\<lparr>entry_value := sv_new v\<rparr>))"
proof -
  note facts = shard_table.hit_state_facts [OF assms(1,2)]
  have i: "key_shard c k < length (shards c)" by (rule shard_table.home_okD(1) [OF assms(1,2)])
  obtain b s where g: "nc_get_mut T c k =
      returns (Some \<lparr>ref_shard = key_shard c k, ref_bucket = b\<rparr>, put_shard (put_state c (key_shard c k) ONE_WRITER) (key_shard c k) s)"
    "nc_try_get_mut T c k =
      Return (Present \<lparr>ref_shard = key_shard c k, ref_bucket = b\<rparr>, put_shard (put_state c (key_shard c k) ONE_WRITER) (key_shard c k) s)"
    and s: "cache_ok T hash tok (put_shard c (key_shard c k) s)"
    "cache_vals T (put_shard c (key_shard c k) s) = cache_vals T c"
    "b \<in> set (rt_iter T (raw_map s))" "rt_as_ref T (raw_map s) b = (k, bump_freq e)"
    by (rule shard_table.nc_get_hit [OF assms])
  let ?r = "\<lparr>ref_shard = key_shard c k, ref_bucket = b\<rparr>"
  let ?c = "put_shard (put_state c (key_shard c k) ONE_WRITER) (key_shard c k) s"
  have "\<exists>c2. drop_write_guard (ref_write T ?c ?r v) (ref_shard ?r) = Return c2 \<and>
       cache_ok T hash tok c2 \<and> cache_vals T c2 = (cache_vals T c)(k \<mapsto> v) \<and>
       cache_map T c2 k = Some ((bump_freq e)\<lparr>entry_value := sv_new v\<rparr>)" for v
    by (rule shard_table.ref_write_hit [OF assms(1,2) s, of ONE_WRITER v])
      (auto simp: shard_table.drop_hit_guard [OF assms(1,2)])
  moreover have "ref_pair T ?c ?r = (k, entry_val e)"
    by (rule shard_table.ref_pair_hit [OF assms(1,2) s(4)])
  moreover have "word_at ?c (key_shard c k) ONE_WRITER" "\<forall>j. key_shard ?c j = key_shard c j"
    using i by (simp_all add: facts word_at_def)
  ultimately show ?thesis using g by blast
qed

text \<open>C24:
  A lookup that hits returns a reference to the stored pair, which keeps the lock of its shard. While a
  shared reference is held, no call that writes gets through: for every key \<open>j\<close> of the shard, \<open>insert\<close>,
  \<open>remove\<close>, \<open>remove_if\<close>, \<open>remove_if_mut\<close>, \<open>get_mut\<close>, \<open>alter\<close> and \<open>entry\<close> wait for ever,
  \<open>try_get_mut\<close> reports \<open>Locked\<close> and \<open>try_entry\<close> nothing; \<open>clear\<close>, \<open>shrink_to_fit\<close>,
  \<open>retain\<close> and \<open>alter_all\<close> never return and \<open>try_reserve\<close> never succeeds. A further
  \<open>get\<close> of a key of the shard still returns.
  Dropping the reference restores a cache at rest with the same values, in which only the frequency of the key was
  bumped. While an exclusive reference is held, the same holds for the calls that write, and the calls that
  read do not get through either: \<open>get\<close>, \<open>contains_key\<close> and \<open>view\<close> wait for every
  key of the shard, \<open>try_get\<close> reports \<open>Locked\<close>; \<open>len\<close>, \<open>is_empty\<close>, \<open>capacity\<close> and
  \<open>clone\<close> never return, and no iteration completes. A value written through the reference is in the cache
  once it is dropped.
\<close>

theorem reference_guards:
  assumes "shard_table T hash tok sok" and "cache_ok T hash tok c" and "cache_map T c k = Some e"
  shows "(\<exists>r c1. nc_get T c k = returns (Some r, c1) \<and> nc_try_get T c k = Return (Present r, c1) \<and>
      ref_pair T c1 r = (k, entry_val e) \<and>
      (\<forall>j v p q f. key_shard c j = key_shard c k \<longrightarrow>
         nc_insert T c1 j v = None \<and> nc_remove T c1 j = None \<and> nc_remove_if T c1 j p = None \<and>
         nc_remove_if_mut T c1 j q = None \<and> nc_get_mut T c1 j = None \<and> nc_alter T c1 j f = None \<and>
         nc_entry T c1 j = None \<and> nc_try_get_mut T c1 j = Return (Locked, c1) \<and>
         nc_try_entry T c1 j = Return (None, c1)) \<and>
      (\<forall>x. nc_clear T c1 \<noteq> returns x) \<and> (\<forall>x. nc_shrink_to_fit T c1 \<noteq> returns x) \<and>
      (\<forall>n c2. nc_try_reserve T c1 n \<noteq> returns (Ok (), c2)) \<and>
      (\<forall>x. nc_retain T c1 g st \<noteq> returns x) \<and> (\<forall>x. nc_alter_all T h c1 st' \<noteq> returns x) \<and>
      (\<forall>j. key_shard c j = key_shard c k \<longrightarrow> (\<exists>x. nc_get T c1 j = returns x)) \<and>
      cache_ok T hash tok (drop_read_guard c1 (ref_shard r)) \<and>
      cache_vals T (drop_read_guard c1 (ref_shard r)) = cache_vals T c \<and>
      cache_map T (drop_read_guard c1 (ref_shard r)) k = Some (bump_freq e)) \<and>
    (\<exists>r c1. nc_get_mut T c k = returns (Some r, c1) \<and> nc_try_get_mut T c k = Return (Present r, c1) \<and>
      ref_pair T c1 r = (k, entry_val e) \<and>
      (\<forall>j v p q f. key_shard c j = key_shard c k \<longrightarrow>
         nc_insert T c1 j v = None \<and> nc_remove T c1 j = None \<and> nc_remove_if T c1 j p = None \<and>
         nc_remove_if_mut T c1 j q = None \<and> nc_get_mut T c1 j = None \<and> nc_alter T c1 j f = None \<and>
         nc_entry T c1 j = None \<and> nc_try_get_mut T c1 j = Return (Locked, c1) \<and>
         nc_try_entry T c1 j = Return (None, c1)) \<and>
      (\<forall>x. nc_clear T c1 \<noteq> returns x) \<and> (\<forall>x. nc_shrink_to_fit T c1 \<noteq> returns x) \<and>
      (\<forall>n c2. nc_try_reserve T c1 n \<noteq> returns (Ok (), c2)) \<and>
      (\<forall>x. nc_retain T c1 g st \<noteq> returns x) \<and> (\<forall>x. nc_alter_all T h c1 st' \<noteq> returns x) \<and>
      (\<forall>j. key_shard c j = key_shard c k \<longrightarrow>
         nc_get T c1 j = None \<and> nc_contains_key T c1 j = None \<and> nc_view T c1 j u = None \<and>
         nc_try_get T c1 j = Return (Locked, c1)) \<and>
      (\<forall>x. nc_len T c1 \<noteq> returns x) \<and> (\<forall>x. nc_is_empty T c1 \<noteq> returns x) \<and>
      (\<forall>x. nc_capacity T c1 \<noteq> returns x) \<and> (\<forall>vcl x. nc_clone T vcl c1 \<noteq> returns x) \<and>
      (\<forall>b c2. nc_for_each T w c1 a \<noteq> returns (Ok b, c2)) \<and>
      (\<forall>v. \<exists>c2. drop_write_guard (ref_write T c1 r v) (ref_shard r) = Return c2 \<and>
         cache_ok T hash tok c2 \<and> cache_vals T c2 = (cache_vals T c)(k \<mapsto> v) \<and>
         cache_map T c2 k = Some ((bump_freq e)\<lparr>entry_value := sv_new v\<rparr>)))"
  (is "?shared \<and> ?exclusive")
proof
  obtain r c1 where r: "nc_get T c k = returns (Some r, c1)" "nc_try_get T c k = Return (Present r, c1)"
    "ref_pair T c1 r = (k, entry_val e)" and w: "word_at c1 (key_shard c k) ONE_READER"
    and ks: "\<And>j. key_shard c1 j = key_shard c j"
    and d: "cache_ok T hash tok (drop_read_guard c1 (ref_shard r))"
      "cache_vals T (drop_read_guard c1 (ref_shard r)) = cache_vals T c"
      "cache_map T (drop_read_guard c1 (ref_shard r)) k = Some (bump_freq e)"
    using get_hit_guard [OF assms] by auto
  have rd: "\<exists>x. nc_get T c1 j = returns x" if "key_shard c j = key_shard c k" for j
    using w that by (intro readers_share) (simp add: ks)
  show ?shared
    using r d writers_waitI [OF w, of T] rd
    by (intro exI [of _ r] exI [of _ c1])
      (simp add: writers_wait_def ks retain_waits [OF w] alter_all_waits [OF w])
next
  obtain r c1 where r: "nc_get_mut T c k = returns (Some r, c1)" "nc_try_get_mut T c k = Return (Present r, c1)"
    "ref_pair T c1 r = (k, entry_val e)" and w: "word_at c1 (key_shard c k) ONE_WRITER"
    and ks: "\<And>j. key_shard c1 j = key_shard c j"
    and d: "\<forall>v. \<exists>c2. drop_write_guard (ref_write T c1 r v) (ref_shard r) = Return c2 \<and>
         cache_ok T hash tok c2 \<and> cache_vals T c2 = (cache_vals T c)(k \<mapsto> v) \<and>
         cache_map T c2 k = Some ((bump_freq e)\<lparr>entry_value := sv_new v\<rparr>)"
    using get_mut_guard [OF assms] by auto
  have v: "nc_view T c1 j u = None" if "key_shard c j = key_shard c k" for j
    using w that by (intro key_readers_wait) (simp add: ks)
  show ?exclusive
    using r d writers_waitI [OF w, of T] readers_waitI [OF w, of T] v
    by (intro exI [of _ r] exI [of _ c1])
      (simp add: writers_wait_def readers_wait_def ks retain_waits [OF w] alter_all_waits [OF w] for_each_waits [OF w])
qed

theorem reference_guards_witness:
  "(\<exists>r c1. nc_get slot_table demo_full 1 = returns (Some r, c1) \<and> ref_pair slot_table c1 r = (1, ''one'') \<and>
    nc_entry slot_table c1 2 = None \<and> nc_try_get_mut slot_table c1 2 = Return (Locked, c1)) \<and>
  (\<exists>r c1 c2. nc_get_mut slot_table demo_full 1 = returns (Some r, c1) \<and>
    nc_get slot_table c1 2 = None \<and> nc_try_get slot_table c1 2 = Return (Locked, c1) \<and>
    drop_write_guard (ref_write slot_table c1 r ''uno'') (ref_shard r) = Return c2 \<and>
    cache_vals slot_table c2 = (cache_vals slot_table demo_full)(1 \<mapsto> ''uno''))"
proof -
  obtain e where e: "cache_map slot_table demo_full 1 = Some e" "entry_val e = ''one''"
    using demo_values(3) by (auto simp: cache_vals_def cache_map_def shard_vals_def)
  have k: "key_shard demo_full 2 = key_shard demo_full 1" by code_simp
  note g = reference_guards [OF slot_shard.shard_table_axioms demo_states_ok(3) e(1)]
  show ?thesis
    using g [THEN conjunct1] g [THEN conjunct2] k e(2) by (intro conjI) metis+
qed

text \<open>
  A lookup that misses changes nothing: all four lookups report absence and release
  the lock they took.
\<close>

theorem lookup_miss:
  assumes "shard_table T hash tok sok" and "cache_ok T hash tok c" and "cache_vals T c k = None"
  shows "nc_get T c k = returns (None, c) \<and> nc_get_mut T c k = returns (None, c) \<and>
    nc_try_get T c k = Return (Absent, c) \<and> nc_try_get_mut T c k = Return (Absent, c)"
proof -
  have "cache_map T c k = None"
    using assms(3) by (simp add: cache_vals_def cache_map_def shard_vals_def)
  from shard_table.nc_get_miss [OF assms(1,2) this] show ?thesis by simp
qed

theorem lookup_miss_witness:
  "nc_get slot_table demo_full 3 = returns (None, demo_full) \<and>
    nc_try_get_mut slot_table demo_full 3 = Return (Absent, demo_full)"
  using lookup_miss [OF slot_shard.shard_table_axioms demo_states_ok(3) demo_values(5)] by simp

text \<open>
  \<open>view\<close> applies the closure to the stored pair and \<open>contains_key\<close> tells whether there
  is one; both count as an access (the frequency is bumped), change no value and release
  the lock.
\<close>

theorem view_correct:
  assumes "shard_table T hash tok sok" and "cache_ok T hash tok c"
  shows "(\<exists>c'. nc_view T c k f = returns (map_option (f k) (cache_vals T c k), c') \<and>
      cache_ok T hash tok c' \<and> same_config c c' \<and> cache_vals T c' = cache_vals T c \<and>
      cache_map T c' k = map_option bump_freq (cache_map T c k)) \<and>
    (\<exists>c'. nc_contains_key T c k = returns (cache_vals T c k \<noteq> None, c') \<and>
      cache_ok T hash tok c' \<and> same_config c c' \<and> cache_vals T c' = cache_vals T c)"
  using shard_table.nc_view_spec [OF assms] shard_table.nc_contains_key_spec [OF assms] by blast

theorem view_correct_witness:
  "\<exists>c'. nc_view slot_table demo_full 2 (\<lambda>k v. length v) = returns (Some 3, c') \<and>
    cache_vals slot_table c' = cache_vals slot_table demo_full"
  using view_correct [OF slot_shard.shard_table_axioms demo_states_ok(3), of 2 "\<lambda>k v. length v"]
    demo_values(4) by auto

text \<open>
  C30: \<open>alter\<close> replaces the value by the closure's result, does nothing when the key is
  absent, and aborts the process when the closure panics, so that no half-written value is
  ever visible.
\<close>

theorem alter_correct:
  assumes "shard_table T hash tok sok" and "cache_ok T hash tok c"
  shows "case cache_vals T c k of
      None \<Rightarrow> nc_alter T c k f = returns c
    | Some v \<Rightarrow> (case f k v of
        Panic p \<Rightarrow> nc_alter T c k f = Some (Panic Process_abort)
      | Return v' \<Rightarrow> \<exists>c'. nc_alter T c k f = returns c' \<and> cache_ok T hash tok c' \<and>
          same_config c c' \<and> cache_vals T c' = (cache_vals T c)(k \<mapsto> v'))"
  by (rule shard_table.nc_alter_spec [OF assms])

theorem alter_correct_witness:
  "(\<exists>c'. nc_alter slot_table demo_full 2 (\<lambda>k v. Return (rev v)) = returns c' \<and>
     cache_vals slot_table c' = (cache_vals slot_table demo_full)(2 \<mapsto> ''owt'')) \<and>
   nc_alter slot_table demo_full 2 (\<lambda>k v. Panic Assert_failed) = Some (Panic Process_abort)"
  using alter_correct [OF slot_shard.shard_table_axioms demo_states_ok(3), of 2 "\<lambda>k v. Return (rev v)"]
    alter_correct [OF slot_shard.shard_table_axioms demo_states_ok(3), of 2 "\<lambda>k v. Panic Assert_failed"]
    demo_values(4) by auto

end
