(* ===== verification/Bulk_Properties.thy ===== *)
theory Bulk_Properties
  imports Demo_Cache
begin

text \<open>
  The properties of the methods that visit every shard: the size of a cache, and \<open>retain\<close>.
\<close>

text \<open>
  \<open>len\<close> is the number of keys the cache holds, and \<open>is_empty\<close> tells whether there is
  none; neither changes the cache.
\<close>

theorem len_exact:
  assumes "shard_table T hash tok sok" and "cache_ok T hash tok c"
    and "card (dom (cache_vals T c)) \<le> usize_max"
  shows "nc_len T c = returns (card (dom (cache_vals T c)), c) \<and>
    nc_is_empty T c = returns (cache_vals T c = Map.empty, c)"
proof -
  have "card (dom (cache_vals T c)) = 0 \<longleftrightarrow> cache_vals T c = Map.empty"
    using shard_table.cache_dom_finite [OF assms(1,2)] by simp
  then show ?thesis using shard_table.nc_len_spec [OF assms] by (simp add: nc_is_empty_def)
qed

theorem len_exact_witness:
  "nc_len slot_table demo_full = returns (card (dom (cache_vals slot_table demo_full)), demo_full)"
  using len_exact [OF slot_shard.shard_table_axioms demo_states_ok(3) demo_full_card] by simp

text \<open>
  C29: \<open>retain\<close> keeps exactly the pairs the closure accepts, with the values it wrote, for
  every closure whose verdict depends on the pair alone (it may update its own state).
\<close>

theorem retain_correct:
  assumes "shard_table T hash tok sok" and "cache_ok T hash tok c"
    and "\<And>st k v. case f st k v of (keep, v', st') \<Rightarrow> (keep, v') = p k v"
  shows "\<exists>st' c'. nc_retain T c f st = returns (st', c') \<and> cache_ok T hash tok c' \<and> same_config c c' \<and>
    cache_vals T c' = (\<lambda>k. case cache_vals T c k of None \<Rightarrow> None
      | Some v \<Rightarrow> (case p k v of (True, v') \<Rightarrow> Some v' | (False, v') \<Rightarrow> None))"
  using shard_table.nc_retain_spec [where f = f and p = p, OF assms(1,2) assms(3)]
  unfolding retained_def by blast

theorem retain_correct_witness:
  "\<exists>n c'. nc_retain slot_table demo_full (\<lambda>n k v. (k \<noteq> 2, v, Suc n)) 0 = returns (n, c') \<and>
    cache_vals slot_table c' = (cache_vals slot_table demo_full)(2 := None)"
proof -
  have "(\<lambda>k. case cache_vals slot_table demo_full k of None \<Rightarrow> None
      | Some v \<Rightarrow> (case (k \<noteq> 2, v) of (True, v') \<Rightarrow> Some v' | (False, v') \<Rightarrow> None)) =
      (cache_vals slot_table demo_full)(2 := None)"
    by (auto simp: fun_eq_iff split: option.splits bool.splits)
  with retain_correct [where f = "\<lambda>n k v. (k \<noteq> 2, v, Suc n)" and p = "\<lambda>k v. (k \<noteq> 2, v)" and st = 0,
      OF slot_shard.shard_table_axioms demo_states_ok(3)]
  show ?thesis by auto
qed

end
