(* ===== verification/Eviction_Policy.thy ===== *)
theory Eviction_Policy
  imports Shard_Bulk
begin

text \<open>
  The eviction policy as an abstract algorithm on queues of live keys, and the proof that
  the routines of \<open>src/shard.rs\<close>, which work on buckets and on queues with stale pairs,
  implement it. The main queue is a clock: a key with a positive counter loses one and goes
  to the back, the first key with counter zero is the victim.
\<close>

function clock :: "('k \<Rightarrow> nat) \<Rightarrow> 'k list \<Rightarrow> ('k \<times> 'k list \<times> ('k \<Rightarrow> nat)) option" where
  "clock fr [] = None"
| "clock fr (k # q) =
     (if 0 < fr k then clock (fr(k := fr k - 1)) (q @ [k]) else Some (k, q, fr))"
  by pat_completeness auto

termination clock
proof (relation "measure (\<lambda>(fr, q). \<Sum>j \<in> set q. fr j)")
  fix fr :: "'k \<Rightarrow> nat" and k :: 'k and q :: "'k list"
  assume "0 < fr k"
  then have "(\<Sum>j \<in> insert k (set q). (fr(k := fr k - 1)) j) < (\<Sum>j \<in> insert k (set q). fr j)"
    by (intro sum_strict_mono_ex1) auto
  then show "((fr(k := fr k - 1), q @ [k]), fr, k # q) \<in> measure (\<lambda>(fr, q). \<Sum>j \<in> set q. fr j)"
    by simp
qed simp

definition live_keys :: "('k, 'v, 't) table \<Rightarrow> ('k, 't) ShardData \<Rightarrow> 'k list \<Rightarrow> 'k list" where
  "live_keys T s ks = filter (\<lambda>k. shard_map T s k \<noteq> None) ks"

definition freq_of :: "('k, 'v, 't) table \<Rightarrow> ('k, 't) ShardData \<Rightarrow> 'k \<Rightarrow> nat" where
  "freq_of T s k = (case shard_map T s k of None \<Rightarrow> 0 | Some e \<Rightarrow> unat (entry_freq e))"

definition set_freq :: "nat \<Rightarrow> 'v CacheEntry \<Rightarrow> 'v CacheEntry" where
  "set_freq n e = e\<lparr>entry_freq := of_nat n\<rparr>"

lemma live_keys_split:
  assumes "ks = st @ k # ks'" and "\<And>j. j \<in> set st \<Longrightarrow> shard_map T s j = None"
    and "shard_map T s k = Some e"
  shows "live_keys T s ks = k # live_keys T s ks'"
proof -
  have "filter (\<lambda>k. shard_map T s k \<noteq> None) st = []" using assms(2) by (simp add: filter_empty_conv)
  with assms(1,3) show ?thesis by (simp add: live_keys_def)
qed

lemma live_keys_delete:
  "shard_map T s' = (shard_map T s)(k := None) \<Longrightarrow> live_keys T s' ks = filter (\<lambda>j. j \<noteq> k) (live_keys T s ks)"
  by (simp add: live_keys_def conj_commute) (rule filter_cong; auto)

text \<open>Moving the first live key to the back with a lower frequency is a step of the clock.\<close>

lemma clock_requeue:
  assumes "main_keys s = st @ k # ks" and "\<And>j. j \<in> set st \<Longrightarrow> shard_map T s j = None" and k: "shard_map T s k = Some e"
    and f: "0 < entry_freq e" and m: "shard_map T s' = (shard_map T s)(k \<mapsto> e\<lparr>entry_freq := entry_freq e - 1\<rparr>)"
    and mk: "main_keys s' = ks @ [k]"
  shows "clock (freq_of T s) (live_keys T s (main_keys s)) = clock (freq_of T s') (live_keys T s' (main_keys s'))"
proof -
  have "unat (entry_freq e - 1) = unat (entry_freq e) - 1" using f by (simp add: unat_minus_one)
  then have "freq_of T s' = (freq_of T s)(k := freq_of T s k - 1)" using m k by (auto simp: freq_of_def fun_eq_iff)
  moreover have "(shard_map T s' j \<noteq> None) = (shard_map T s j \<noteq> None)" for j using m k by simp
  then have "live_keys T s' (main_keys s') = live_keys T s ks @ [k]" using k by (simp add: live_keys_def mk)
  moreover have "0 < freq_of T s k" using f k by (simp add: freq_of_def word_less_nat_alt)
  ultimately show ?thesis by (simp add: live_keys_split [OF assms(1-3)])
qed

context shard_table
begin

lemma evict_from_main_clock:
  assumes "shard_inv T hash rt_wf s" and "0 < shard_cap s" and "small_live s < small_cap s"
    and "live s = shard_cap s"
  shows "\<exists>s' k q fr. evict_from_main T s = returns s' \<and>
    clock (freq_of T s) (live_keys T s (main_keys s)) = Some (k, q, fr) \<and>
    shard_map T s' = (\<lambda>j. if j = k then None else map_option (set_freq (fr j)) (shard_map T s j)) \<and>
    live_keys T s' (main_keys s') = filter (\<lambda>j. j \<noteq> k) q \<and>
    small_keys s' = small_keys s \<and> ghost_set s' = ghost_set s \<and> main_live s' + 1 = main_live s"
  using assms
proof (induction "freq_sum (shard_map T s)" arbitrary: s rule: less_induct)
  case less
  from less.prems show ?case
  proof (cases rule: evict_from_main_cases)
    case (requeue st k e ks s1)
    note clock = clock_requeue [OF requeue(1-4,7,8)]
    obtain s' k' q' fr' where s': "evict_from_main T s1 = returns s'"
        "clock (freq_of T s1) (live_keys T s1 (main_keys s1)) = Some (k', q', fr')"
        "shard_map T s' = (\<lambda>j. if j = k' then None else map_option (set_freq (fr' j)) (shard_map T s1 j))"
        "live_keys T s' (main_keys s') = filter (\<lambda>j. j \<noteq> k') q'"
        "small_keys s' = small_keys s1" "ghost_set s' = ghost_set s1" "main_live s' + 1 = main_live s1"
      using less.hyps [OF requeue(12,6) main_frame_full [OF requeue(10,9) less.prems(2-4)]] by blast
    have "map_option (set_freq (fr' j)) (shard_map T s1 j) = map_option (set_freq (fr' j)) (shard_map T s j)" for j
      using requeue(3,7) by (simp add: set_freq_def)
    then have "shard_map T s' = (\<lambda>j. if j = k' then None else map_option (set_freq (fr' j)) (shard_map T s j))"
      using s'(3) by (simp add: fun_eq_iff)
    moreover have "small_keys s1 = small_keys s" "ghost_set s1 = ghost_set s" using requeue(10) by (simp_all add: main_frame_def)
    ultimately show ?thesis using s' requeue(5,9) clock by (metis (no_types, lifting))
  next
    case (evict st k e ks s1)
    have "map_option (set_freq (freq_of T s j)) (shard_map T s j) = shard_map T s j" for j
      by (cases "shard_map T s j") (simp_all add: set_freq_def freq_of_def)
    then have "shard_map T s1 = (\<lambda>j. if j = k then None else map_option (set_freq (freq_of T s j)) (shard_map T s j))"
      using evict(7) by (simp add: fun_eq_iff)
    moreover have "clock (freq_of T s) (live_keys T s (main_keys s)) = Some (k, live_keys T s ks, freq_of T s)"
      using live_keys_split [OF evict(1,2,3)] evict(3,4) by (simp add: freq_of_def)
    ultimately show ?thesis
      using evict(5,8-10) live_keys_delete [OF evict(7), of ks] by (auto simp: main_frame_def)
  qed
qed

text \<open>
  The small queue is a FIFO with promotion: the oldest live key moves to the back of the
  main queue when it was read since it came in, and otherwise leaves the cache and is
  remembered in the ghost set.
\<close>

lemma evict_from_small_fifo:
  assumes inv: "shard_inv T hash rt_wf s" and full: "0 < shard_cap s" "small_cap s \<le> small_live s"
  shows "\<exists>s' k q e. evict_from_small T s = returns s' \<and> shard_inv T hash rt_wf s' \<and>
    live_keys T s (small_keys s) = k # q \<and> shard_map T s k = Some e \<and>
    (if 0 < entry_freq e
     then shard_map T s' = (shard_map T s)(k \<mapsto> e\<lparr>entry_loc := LOC_MAIN\<rparr>) \<and>
       main_keys s' = main_keys s @ [k] \<and> ghost_set s' = ghost_set s \<and> live s' = live s \<and>
       live_keys T s' (small_keys s') = q
     else shard_map T s' = (shard_map T s)(k := None) \<and> main_keys s' = main_keys s \<and>
       hash k \<in> ghost_set s' \<and> live s' + 1 = live s \<and>
       live_keys T s' (small_keys s') = filter (\<lambda>j. j \<noteq> k) q)"
  using assms
proof (cases rule: evict_from_small_cases)
  case (promote st k e ks s1)
  have "(shard_map T s1 j \<noteq> None) = (shard_map T s j \<noteq> None)" for j using promote(3,7) by simp
  then have "live_keys T s1 (small_keys s1) = live_keys T s ks" by (simp add: live_keys_def promote(8))
  moreover have "live s1 = live s" using promote(9,11) by (simp add: live_def)
  ultimately show ?thesis
    using live_keys_split [OF promote(1-3)] promote(3-7,10,12) by auto
next
  case (evict st k e ks s1)
  have "live s1 + 1 = live s" using evict(9,11) by (simp add: live_def)
  then show ?thesis
    using live_keys_split [OF evict(1-3)] evict(3-8,10,12) live_keys_delete [OF evict(7), of ks] by auto
qed

end

end
