(* ===== verification/Eviction_Properties.thy ===== *)
theory Eviction_Properties
  imports Eviction_Policy Demo_Cache
begin

text \<open>
  The properties of the eviction routines of \<open>src/shard.rs\<close>, with witnesses on shards of
  the caches of theory \<open>Demo_Cache\<close>.
\<close>

text \<open>
  C5: the loop that makes room for an insertion always returns without a panic: no counter
  underflows and no run of promotions is endless. From a full shard it removes exactly one
  entry and leaves room for one; otherwise it does nothing.
\<close>

theorem eviction_loop_makes_room:
  assumes "shard_table T hash tok sok" and "shard_inv T hash tok s"
  shows "if shard_full s
    then \<exists>s' k. evict_while_full T s = returns s' \<and> shard_inv T hash tok s' \<and> same_caps s s' \<and>
      shard_map T s k \<noteq> None \<and> shard_vals T s' = (shard_vals T s)(k := None) \<and>
      live s' + 1 = shard_cap s
    else evict_while_full T s = returns s"
proof (cases "shard_full s")
  case True
  then have "0 < shard_cap s" "live s = shard_cap s"
    using assms(2) by (auto simp: shard_full_def shard_inv_def counts_ok_def)
  from shard_table.evict_while_full_total [OF assms this] True show ?thesis by auto
next
  case False
  then have "shard_cap s = 0 \<or> live s < shard_cap s" by (auto simp: shard_full_def)
  from shard_table.evict_while_full_idle [OF assms this] False show ?thesis by simp
qed

theorem eviction_loop_makes_room_witness:
  "\<exists>s' k. evict_while_full slot_table (home demo_full 3) = returns s' \<and>
    shard_map slot_table (home demo_full 3) k \<noteq> None \<and>
    shard_vals slot_table s' = (shard_vals slot_table (home demo_full 3))(k := None)"
  using eviction_loop_makes_room [OF slot_shard.shard_table_axioms demo_home_inv(1)] demo_full_full
  by auto

text \<open>
  C15: eviction from the main queue, which walks buckets and skips stale pairs, computes
  the clock algorithm on the queue of live keys: the same victim, the same remaining
  queue, the same counters, and it always ends.
\<close>

theorem main_eviction_is_clock:
  assumes "shard_table T hash tok sok" and "shard_inv T hash tok s" and "0 < shard_cap s"
    and "small_live s < small_cap s" and "live s = shard_cap s"
  shows "\<exists>s' k q fr. evict_from_main T s = returns s' \<and>
    clock (freq_of T s) (live_keys T s (main_keys s)) = Some (k, q, fr) \<and>
    shard_map T s' = (\<lambda>j. if j = k then None else map_option (set_freq (fr j)) (shard_map T s j)) \<and>
    live_keys T s' (main_keys s') = filter (\<lambda>j. j \<noteq> k) q \<and>
    small_keys s' = small_keys s \<and> ghost_set s' = ghost_set s \<and> main_live s' + 1 = main_live s"
  by (rule shard_table.evict_from_main_clock [OF assms])

theorem main_eviction_is_clock_witness:
  "\<exists>s' k q fr. evict_from_main slot_table (home demo_main 4) = returns s' \<and>
    clock (freq_of slot_table (home demo_main 4))
      (live_keys slot_table (home demo_main 4) (main_keys (home demo_main 4))) = Some (k, q, fr)"
  using main_eviction_is_clock [OF slot_shard.shard_table_axioms demo_home_inv(2) demo_home_counts(4-6)]
  by blast

text \<open>
  C16: eviction from the small queue takes its oldest live key. A key read since it came in
  is promoted to the back of the main queue and nothing leaves the cache; any other key is
  evicted and its hash enters the ghost set. The order of the other live keys is kept.
\<close>

theorem small_eviction_is_fifo:
  assumes "shard_table T hash tok sok" and "shard_inv T hash tok s" and "0 < shard_cap s"
    and "small_cap s \<le> small_live s"
  shows "\<exists>s' k q e. evict_from_small T s = returns s' \<and> shard_inv T hash tok s' \<and>
    live_keys T s (small_keys s) = k # q \<and> shard_map T s k = Some e \<and>
    (if 0 < entry_freq e
     then shard_map T s' = (shard_map T s)(k \<mapsto> e\<lparr>entry_loc := LOC_MAIN\<rparr>) \<and>
       main_keys s' = main_keys s @ [k] \<and> ghost_set s' = ghost_set s \<and> live s' = live s \<and>
       live_keys T s' (small_keys s') = q
     else shard_map T s' = (shard_map T s)(k := None) \<and> main_keys s' = main_keys s \<and>
       hash k \<in> ghost_set s' \<and> live s' + 1 = live s \<and>
       live_keys T s' (small_keys s') = filter (\<lambda>j. j \<noteq> k) q)"
  by (rule shard_table.evict_from_small_fifo [OF assms])

theorem small_eviction_is_fifo_witness:
  "\<exists>s' k q. evict_from_small slot_table (home demo_full 3) = returns s' \<and>
    live_keys slot_table (home demo_full 3) (small_keys (home demo_full 3)) = k # q"
  using small_eviction_is_fifo [OF slot_shard.shard_table_axioms demo_home_inv(1) demo_home_counts(1,2)]
  by blast

end
