(* ===== verification/Counter_Drift.thy ===== *)
theory Counter_Drift
  imports Cache_Refinement
begin

text \<open>
  The live counters are documented as the number of live entries of each queue. They are
  not: removal leaves the key's queue pairs behind, a key inserted again is then queued
  twice, and eviction charges the counter of the queue it popped the stale pair from, not
  the one the entry is counted in. The invariant of theory \<open>Shard_Invariant\<close> says what does
  hold; this theory shows that the counters can drift away from it for good.
\<close>

definition drift_ops :: "(nat, string) cache_op list" where
  "drift_ops = [Op_insert 1 ''a'', Op_remove 1, Op_insert 1 ''b'', Op_insert 2 ''c'', Op_insert 3 ''d'',
     Op_remove 2, Op_remove 3, Op_insert 1 ''e'', Op_insert 4 ''f'', Op_insert 5 ''g'',
     Op_remove 4, Op_remove 5]"

definition drifted :: demo_cache where
  "drifted = after (comp_run (nc_step slot_table) drift_ops demo_new)"

text \<open>
  After a short sequence of insertions and removals a shard of capacity two is empty,
  yet its main counter is one.
\<close>

lemma live_counter_drift:
  "shard_len slot_table (home drifted 1) = 0 \<and> main_live (home drifted 1) = 1 \<and>
   small_live (home drifted 1) = 0 \<and> shard_cap (home drifted 1) = 2"
  by code_simp

end
