(* ===== verification/Lock_Protocol.thy ===== *)
theory Lock_Protocol
  imports Raw_Lock
begin

text \<open>
  \<open>src/lock.rs\<close> under any interleaving of threads. Every atomic access to the state word is
  one step; a thread is at one of the program points of \<open>pc\<close>, which carries the local
  variables that live across the next step. A weak compare-and-exchange may fail at any time,
  \<open>SpinWait::spin\<close> may give up at any time, and a parked thread may be woken at any time:
  these over-approximate \<open>parking_lot_core\<close>, so what holds in every reachable state
  here holds for every behaviour of the parking lot.
\<close>

datatype fast_caller = By_try | By_lock_first | By_lock_second

datatype pc =
    Idle
  | Excl_first | Excl_second
  | Excl_slow u64 | Excl_loop u64 u64 | Excl_park | Excl_parked
  | Writer
  | Unlock_load | Unlock_cas u64 | Unlock_store | Unlock_unpark u64
  | Fast fast_caller | Fast_cas fast_caller u64 u64
  | Try_slow | Try_loop u64
  | Shared_slow | Shared_loop u64 | Shared_park | Shared_parked
  | Reader | Downgrade_unpark
  | Unlock_shared_cas | Unlock_shared_unpark
  | Overflow_panic | Assert_panic

fun fast_failed :: "fast_caller \<Rightarrow> pc" where
  "fast_failed By_try = Try_slow"
| "fast_failed By_lock_first = Fast By_lock_second"
| "fast_failed By_lock_second = Shared_slow"

definition parked_bits :: "u64 \<Rightarrow> u64" where
  "parked_bits w = w AND (READERS_PARKED OR WRITERS_PARKED)"

text \<open>\<open>lock_action p w p' w'\<close>: a thread at \<open>p\<close> sees the word \<open>w\<close>, leaves \<open>w'\<close> and goes to \<open>p'\<close>.\<close>

inductive lock_action :: "pc \<Rightarrow> u64 \<Rightarrow> pc \<Rightarrow> u64 \<Rightarrow> bool" where
  try_exclusive_ok: "lock_action Idle 0 Writer ONE_WRITER"
| try_exclusive_fail: "w \<noteq> 0 \<Longrightarrow> lock_action Idle w Idle w"
| lock_exclusive_call: "lock_action Idle w Excl_first w"
| first_cas_ok: "lock_action Excl_first 0 Writer ONE_WRITER"
| first_cas_fail: "lock_action Excl_first w Excl_second w"
| second_cas_ok: "lock_action Excl_second 0 Writer ONE_WRITER"
| second_cas_fail: "lock_action Excl_second w (Excl_slow 0) w"
| excl_load: "lock_action (Excl_slow acquire_with) w (Excl_loop acquire_with w) w"
| excl_cas_ok: "state AND ONE_WRITER = 0 \<Longrightarrow>
    lock_action (Excl_loop acquire_with state) state Writer (state OR ONE_WRITER OR acquire_with)"
| excl_cas_fail: "state AND ONE_WRITER = 0 \<Longrightarrow>
    lock_action (Excl_loop acquire_with state) w (Excl_loop acquire_with w) w"
| excl_spin: "state AND ONE_WRITER \<noteq> 0 \<Longrightarrow> state AND WRITERS_PARKED = 0 \<Longrightarrow>
    lock_action (Excl_loop acquire_with state) w (Excl_loop acquire_with w) w"
| excl_mark_ok: "state AND ONE_WRITER \<noteq> 0 \<Longrightarrow> state AND WRITERS_PARKED = 0 \<Longrightarrow>
    lock_action (Excl_loop acquire_with state) state Excl_park (state OR WRITERS_PARKED)"
| excl_mark_fail: "state AND ONE_WRITER \<noteq> 0 \<Longrightarrow> state AND WRITERS_PARKED = 0 \<Longrightarrow>
    lock_action (Excl_loop acquire_with state) w (Excl_loop acquire_with w) w"
| excl_already_marked: "state AND ONE_WRITER \<noteq> 0 \<Longrightarrow> state AND WRITERS_PARKED \<noteq> 0 \<Longrightarrow>
    lock_action (Excl_loop acquire_with state) w Excl_park w"
| excl_park_ok: "w AND ONE_WRITER \<noteq> 0 \<Longrightarrow> w AND WRITERS_PARKED \<noteq> 0 \<Longrightarrow>
    lock_action Excl_park w Excl_parked w"
| excl_park_invalid: "w AND ONE_WRITER = 0 \<or> w AND WRITERS_PARKED = 0 \<Longrightarrow>
    lock_action Excl_park w (Excl_slow WRITERS_PARKED) w"
| excl_woken: "lock_action Excl_parked w (Excl_slow WRITERS_PARKED) w"
| unlock_fast: "lock_action Writer ONE_WRITER Idle 0"
| unlock_slow: "w \<noteq> ONE_WRITER \<Longrightarrow> lock_action Writer w Unlock_load w"
| unlock_load: "lock_action Unlock_load w
    (if w AND ONE_WRITER \<noteq> ONE_WRITER \<or> parked_bits w = 0 then Assert_panic
     else if parked_bits w = READERS_PARKED OR WRITERS_PARKED then Unlock_store else Unlock_cas w) w"
| unlock_cas_ok: "lock_action (Unlock_cas state) state (Unlock_unpark (parked_bits state)) 0"
| unlock_cas_fail: "w \<noteq> state \<Longrightarrow> lock_action (Unlock_cas state) w
    (if w = ONE_WRITER OR READERS_PARKED OR WRITERS_PARKED then Unlock_store else Assert_panic) w"
| unlock_store: "lock_action Unlock_store w (Unlock_unpark READERS_PARKED) WRITERS_PARKED"
| unlock_unpark: "lock_action (Unlock_unpark parked) w
    (if parked = READERS_PARKED \<or> parked = WRITERS_PARKED then Idle else Assert_panic) w"
| try_shared_call: "lock_action Idle w (Fast By_try) w"
| lock_shared_call: "lock_action Idle w (Fast By_lock_first) w"
| fast_load: "checked_add w ONE_READER = Some new \<Longrightarrow> new AND ONE_WRITER \<noteq> ONE_WRITER \<Longrightarrow>
    lock_action (Fast caller) w (Fast_cas caller w new) w"
| fast_full: "checked_add w ONE_READER = None \<or> (\<exists>new. checked_add w ONE_READER = Some new \<and> new AND ONE_WRITER = ONE_WRITER) \<Longrightarrow>
    lock_action (Fast caller) w (fast_failed caller) w"
| fast_cas_ok: "lock_action (Fast_cas caller state new) state Reader new"
| fast_cas_fail: "lock_action (Fast_cas caller state new) w (fast_failed caller) w"
| try_load: "lock_action Try_slow w (Try_loop w) w"
| try_cas_ok: "checked_add state ONE_READER = Some new \<Longrightarrow> new AND ONE_WRITER \<noteq> ONE_WRITER \<Longrightarrow>
    lock_action (Try_loop state) state Reader new"
| try_cas_fail: "checked_add state ONE_READER = Some new \<Longrightarrow> new AND ONE_WRITER \<noteq> ONE_WRITER \<Longrightarrow>
    lock_action (Try_loop state) w (Try_loop w) w"
| try_give_up: "checked_add state ONE_READER = None \<or> (\<exists>new. checked_add state ONE_READER = Some new \<and> new AND ONE_WRITER = ONE_WRITER) \<Longrightarrow>
    lock_action (Try_loop state) w Idle w"
| shared_load: "lock_action Shared_slow w (Shared_loop w) w"
| shared_overflow: "checked_add state ONE_READER = Some new \<Longrightarrow> new AND ONE_WRITER = ONE_WRITER \<Longrightarrow>
    lock_action (Shared_loop state) w Overflow_panic w"
| shared_cas_ok: "checked_add state ONE_READER = Some new \<Longrightarrow> new AND ONE_WRITER \<noteq> ONE_WRITER \<Longrightarrow>
    lock_action (Shared_loop state) state Reader new"
| shared_cas_fail: "checked_add state ONE_READER = Some new \<Longrightarrow> new AND ONE_WRITER \<noteq> ONE_WRITER \<Longrightarrow>
    lock_action (Shared_loop state) w Shared_slow w"
| shared_spin: "checked_add state ONE_READER = None \<Longrightarrow> state AND READERS_PARKED = 0 \<Longrightarrow>
    lock_action (Shared_loop state) w (Shared_loop w) w"
| shared_mark_ok: "checked_add state ONE_READER = None \<Longrightarrow> state AND READERS_PARKED = 0 \<Longrightarrow>
    lock_action (Shared_loop state) state Shared_park (state OR READERS_PARKED)"
| shared_mark_fail: "checked_add state ONE_READER = None \<Longrightarrow> state AND READERS_PARKED = 0 \<Longrightarrow>
    lock_action (Shared_loop state) w (Shared_loop w) w"
| shared_already_marked: "checked_add state ONE_READER = None \<Longrightarrow> state AND READERS_PARKED \<noteq> 0 \<Longrightarrow>
    lock_action (Shared_loop state) w Shared_park w"
| shared_park_ok: "w AND ONE_WRITER = ONE_WRITER \<Longrightarrow> w AND READERS_PARKED \<noteq> 0 \<Longrightarrow>
    lock_action Shared_park w Shared_parked w"
| shared_park_invalid: "w AND ONE_WRITER \<noteq> ONE_WRITER \<or> w AND READERS_PARKED = 0 \<Longrightarrow>
    lock_action Shared_park w Shared_slow w"
| shared_woken: "lock_action Shared_parked w Shared_slow w"
| unlock_shared_last: "lock_action Reader (ONE_READER OR WRITERS_PARKED) Unlock_shared_cas
    ((ONE_READER OR WRITERS_PARKED) - ONE_READER)"
| unlock_shared_more: "w \<noteq> ONE_READER OR WRITERS_PARKED \<Longrightarrow> lock_action Reader w Idle (w - ONE_READER)"
| unlock_shared_cas_ok: "lock_action Unlock_shared_cas WRITERS_PARKED Unlock_shared_unpark 0"
| unlock_shared_cas_fail: "w \<noteq> WRITERS_PARKED \<Longrightarrow> lock_action Unlock_shared_cas w Idle w"
| unlock_shared_unpark: "lock_action Unlock_shared_unpark w Idle w"
| downgrade_readers: "w AND READERS_PARKED \<noteq> 0 \<Longrightarrow>
    lock_action Writer w Downgrade_unpark (w AND (ONE_READER OR WRITERS_PARKED))"
| downgrade_plain: "w AND READERS_PARKED = 0 \<Longrightarrow>
    lock_action Writer w Reader (w AND (ONE_READER OR WRITERS_PARKED))"
| downgrade_unpark: "lock_action Downgrade_unpark w Reader w"

record 'tid lock_system =
  word_of :: u64
  pc_of :: "'tid \<Rightarrow> pc"

definition lock_init :: "'tid lock_system" where
  "lock_init = \<lparr>word_of = 0, pc_of = (\<lambda>_. Idle)\<rparr>"

inductive reachable :: "'tid lock_system \<Rightarrow> bool" where
  init: "reachable lock_init"
| step: "reachable s \<Longrightarrow> lock_action (pc_of s t) (word_of s) p' w' \<Longrightarrow>
    reachable \<lparr>word_of = w', pc_of = (pc_of s)(t := p')\<rparr>"

section \<open>The fields of the state word\<close>

text \<open>The upper 62 bits count the readers, with all ones for a writer.\<close>

definition holders :: "u64 \<Rightarrow> nat" where
  "holders w = unat (drop_bit 2 w)"

abbreviation writer_code :: nat where
  "writer_code \<equiv> 2 ^ 62 - 1"

lemma drop_bit_ONE_WRITER: "drop_bit 2 ONE_WRITER = (mask 62 :: u64)"
  by (simp add: ONE_WRITER_eq mask_eq_exp_minus_1)

lemma drop_bit_flags [simp]:
  "drop_bit 2 READERS_PARKED = (0 :: u64)" "drop_bit 2 WRITERS_PARKED = (0 :: u64)"
  "drop_bit 2 ONE_READER = (1 :: u64)"
  by (simp_all add: layout_simps)

lemma drop_and_mask: "drop_bit 2 w AND mask 62 = drop_bit 2 (w :: u64)"
  by (rule bit_word_eqI) (auto simp: bit_simps dest: bit_imp_le_length)

lemma drop_or_mask: "drop_bit 2 w OR mask 62 = (mask 62 :: u64)"
  by (rule bit_word_eqI) (auto simp: bit_simps dest: bit_imp_le_length)

lemma holders_div: "holders w = unat w div 4"
  unfolding holders_def unat_drop_bit_eq by (simp add: drop_bit_eq_div)

lemma holders_or [simp]:
  "holders (w OR READERS_PARKED) = holders w" "holders (w OR WRITERS_PARKED) = holders w"
  "holders (w OR ONE_WRITER OR READERS_PARKED) = writer_code"
  "holders (w OR ONE_WRITER OR WRITERS_PARKED) = writer_code"
  "holders (w OR ONE_WRITER) = writer_code"
  by (simp_all add: holders_def drop_bit_or drop_bit_ONE_WRITER drop_or_mask)
    (simp_all add: mask_eq_exp_minus_1)

lemma holders_consts [simp]:
  "holders 0 = 0" "holders ONE_WRITER = writer_code" "holders WRITERS_PARKED = 0"
  "holders ONE_READER = 1"
  by (simp_all add: holders_def layout_simps)

lemma holders_le: "holders w \<le> writer_code"
proof -
  have "unat w < 2 ^ 64" using unsigned_less [of w, where 'a = nat] by simp
  then have "unat w div 4 < 2 ^ 62" by (simp add: less_mult_imp_div_less)
  then show ?thesis by (simp add: holders_div)
qed

lemma and_writer_0: "w AND ONE_WRITER = 0 \<longleftrightarrow> holders w = 0"
proof -
  have "w AND ONE_WRITER = 0 \<longleftrightarrow> unat (w AND ONE_WRITER) = unat (0 :: u64)"
    by (rule word_eq_iff_unsigned)
  then show ?thesis by (simp add: and_ONE_WRITER holders_div)
qed

lemma and_writer_full: "w AND ONE_WRITER = ONE_WRITER \<longleftrightarrow> holders w = writer_code"
proof -
  have "w AND ONE_WRITER = ONE_WRITER \<longleftrightarrow> unat (w AND ONE_WRITER) = unat ONE_WRITER"
    by (rule word_eq_iff_unsigned)
  moreover have "unat ONE_WRITER = 4611686018427387903 * 4" by (simp add: ONE_WRITER_eq)
  ultimately show ?thesis by (simp add: and_ONE_WRITER holders_div)
qed

lemma checked_add_reader:
  "checked_add w ONE_READER = Some new \<Longrightarrow> holders new = Suc (holders w)"
  "checked_add w ONE_READER = None \<longleftrightarrow> holders w = writer_code"
proof -
  have w: "unat w < 2 ^ 64" using unsigned_less [of w, where 'a = nat] by simp
  show "holders new = Suc (holders w)" if "checked_add w ONE_READER = Some new"
    using that by (auto simp: checked_add_def holders_div ONE_READER_def unat_word_ariths split: if_splits)
  show "checked_add w ONE_READER = None \<longleftrightarrow> holders w = writer_code"
    using w by (auto simp: checked_add_def holders_div ONE_READER_def)
qed

lemma holders_minus:
  assumes "0 < holders w"
  shows "holders (w - ONE_READER) = holders w - 1"
proof -
  have "4 \<le> unat w" using assms by (simp add: holders_div div_greater_zero_iff)
  then have "unat (w - 4) = unat w - 4" by (simp add: unat_sub word_le_nat_alt)
  then show ?thesis by (simp add: holders_div ONE_READER_def)
qed

lemma holders_downgrade:
  assumes "holders w = writer_code"
  shows "holders (w AND (ONE_READER OR WRITERS_PARKED)) = 1"
proof -
  have "drop_bit 2 w = (mask 62 :: u64)"
    using assms by (auto simp: holders_def mask_eq_exp_minus_1 word_eq_iff_unsigned [where 'a = nat])
  then have "drop_bit 2 (w AND (ONE_READER OR WRITERS_PARKED)) = (1 :: u64)"
    by (simp add: drop_bit_and drop_bit_or mask_eq_exp_minus_1)
  then show ?thesis by (simp add: holders_def)
qed

lemma word_split: "w = (w AND ONE_WRITER) OR parked_bits w"
  unfolding ONE_WRITER_def parked_bits_def by (rule bit_word_eqI) (auto simp: bit_simps)

lemma parked_cases: "parked_bits w = 0 \<or> parked_bits w = 1 \<or> parked_bits w = 2 \<or> parked_bits w = 3"
proof -
  have "parked_bits w = take_bit 2 w" by (simp add: parked_bits_def layout_simps take_bit_eq_mask mask_eq_exp_minus_1)
  moreover have "unat (take_bit 2 w) < 4" unfolding unsigned_take_bit_eq by (simp add: take_bit_eq_mod)
  ultimately have "unat (parked_bits w) = 0 \<or> unat (parked_bits w) = 1 \<or> unat (parked_bits w) = 2 \<or> unat (parked_bits w) = 3"
    by auto
  then show ?thesis by (auto simp: word_eq_iff_unsigned [where 'a = nat])
qed

lemma writer_word: "holders w = writer_code \<Longrightarrow> w = ONE_WRITER OR parked_bits w"
  using word_split [of w] and_writer_full [of w] by simp

lemma writer_word_parked: "holders w = writer_code \<Longrightarrow> w \<noteq> ONE_WRITER \<Longrightarrow> parked_bits w \<noteq> 0"
  using writer_word [of w] by auto

lemma both_parked:
  assumes "holders w = writer_code" "holders state = writer_code" "state AND w = state" "w \<noteq> state"
    and "parked_bits state = READERS_PARKED \<or> parked_bits state = WRITERS_PARKED"
  shows "w = ONE_WRITER OR READERS_PARKED OR WRITERS_PARKED"
proof -
  have "parked_bits state AND parked_bits w = parked_bits (state AND w)"
    by (simp add: parked_bits_def ac_simps)
  then have sub: "parked_bits state AND parked_bits w = parked_bits state" using assms(3) by simp
  have "parked_bits w \<noteq> parked_bits state" using writer_word assms(1,2,4) by metis
  with sub parked_cases [of w] assms(5) have "parked_bits w = 3"
    by (auto simp: READERS_PARKED_def WRITERS_PARKED_def)
  with writer_word [OF assms(1)] show ?thesis by (simp add: layout_simps)
qed

section \<open>Who holds the lock\<close>

fun holds_excl :: "pc \<Rightarrow> bool" where
  "holds_excl Writer = True"
| "holds_excl Unlock_load = True"
| "holds_excl (Unlock_cas state) = True"
| "holds_excl Unlock_store = True"
| "holds_excl p = False"

fun holds_shared :: "pc \<Rightarrow> bool" where
  "holds_shared Reader = True"
| "holds_shared Downgrade_unpark = True"
| "holds_shared p = False"

text \<open>What a thread knows at each program point, whatever the other threads do.\<close>

fun local_ok :: "pc \<Rightarrow> u64 \<Rightarrow> bool" where
  "local_ok Unlock_load w = (parked_bits w \<noteq> 0)"
| "local_ok (Unlock_cas state) w =
     (holders state = writer_code \<and> state AND w = state \<and>
      (parked_bits state = READERS_PARKED \<or> parked_bits state = WRITERS_PARKED))"
| "local_ok (Unlock_unpark parked) w = (parked = READERS_PARKED \<or> parked = WRITERS_PARKED)"
| "local_ok (Excl_slow a) w = (a = 0 \<or> a = WRITERS_PARKED)"
| "local_ok (Excl_loop a state) w = (a = 0 \<or> a = WRITERS_PARKED)"
| "local_ok (Fast_cas c state new) w =
     (checked_add state ONE_READER = Some new \<and> new AND ONE_WRITER \<noteq> ONE_WRITER)"
| "local_ok Assert_panic w = False"
| "local_ok p w = True"

lemma fast_failed_plain [simp]:
  "\<not> holds_excl (fast_failed c)" "\<not> holds_shared (fast_failed c)" "local_ok (fast_failed c) w"
  by (cases c; simp)+

lemma reader_added:
  assumes "checked_add w ONE_READER = Some new" and "new AND ONE_WRITER \<noteq> ONE_WRITER"
  shows "holders new = Suc (holders w)" and "Suc (holders w) < writer_code"
  using checked_add_reader(1) [OF assms(1)] assms(2) and_writer_full [of new] holders_le [of new] by auto

lemma or_keeps_bits: "(w :: u64) AND (w OR x) = w" "state AND w = state \<Longrightarrow> state AND (w OR x) = (state :: u64)"
proof -
  show "w AND (w OR x) = w" by (rule bit_word_eqI) (auto simp: bit_simps)
  assume "state AND w = state"
  then have "bit state n \<Longrightarrow> bit w n" for n by (metis bit_and_iff)
  then show "state AND (w OR x) = state" by (intro bit_word_eqI) (auto simp: bit_simps)
qed

text \<open>The effect of one step, from what the thread holds before it to what it holds after it.\<close>

definition excl_effect :: "pc \<Rightarrow> u64 \<Rightarrow> u64 \<Rightarrow> bool" where
  "excl_effect p' w w' \<longleftrightarrow> holds_excl p' \<and> w' = w \<or>
     \<not> holds_excl p' \<and> \<not> holds_shared p' \<and> holders w' = 0 \<or> \<not> holds_excl p' \<and> holds_shared p' \<and> holders w' = 1"

definition shared_effect :: "pc \<Rightarrow> u64 \<Rightarrow> u64 \<Rightarrow> bool" where
  "shared_effect p' w w' \<longleftrightarrow> \<not> holds_excl p' \<and> (holds_shared p' \<and> w' = w \<or>
     \<not> holds_shared p' \<and> holders w' = holders w - 1)"

definition free_effect :: "pc \<Rightarrow> u64 \<Rightarrow> u64 \<Rightarrow> bool" where
  "free_effect p' w w' \<longleftrightarrow>
     \<not> holds_excl p' \<and> \<not> holds_shared p' \<and> holders w' = holders w \<and> (holders w = writer_code \<longrightarrow> w AND w' = w) \<or>
     holds_excl p' \<and> \<not> holds_shared p' \<and> holders w = 0 \<and> holders w' = writer_code \<or>
     holds_shared p' \<and> \<not> holds_excl p' \<and> holders w' = Suc (holders w) \<and> holders w' < writer_code"

lemma action_effect:
  assumes "lock_action p w p' w'" and "local_ok p w"
    and "holds_excl p \<Longrightarrow> holders w = writer_code"
    and "holds_shared p \<Longrightarrow> 0 < holders w"
  shows "local_ok p' w' \<and> (if holds_excl p then excl_effect p' w w'
    else if holds_shared p then shared_effect p' w w' else free_effect p' w w')"
  using assms
proof (cases rule: lock_action.cases)
  case (unlock_load)
  then show ?thesis
    using assms parked_cases [of w] by (auto simp: excl_effect_def and_writer_full READERS_PARKED_def WRITERS_PARKED_def)
next
  case (unlock_cas_fail state)
  then show ?thesis
    using assms both_parked [of w state] by (auto simp: excl_effect_def)
next
  case unlock_slow
  then show ?thesis using assms writer_word_parked [of w] by (auto simp: excl_effect_def)
next
  case (fast_cas_ok caller)
  then show ?thesis
    using assms(2) reader_added [of w w'] by (auto simp: free_effect_def)
next
  case (try_cas_ok)
  then show ?thesis using reader_added [of w w'] by (auto simp: free_effect_def)
next
  case (shared_cas_ok)
  then show ?thesis using reader_added [of w w'] by (auto simp: free_effect_def)
next
  case unlock_shared_last
  then show ?thesis using holders_minus [of w] by (auto simp: shared_effect_def)
next
  case unlock_shared_more
  then show ?thesis using holders_minus [of w] assms(4) by (auto simp: shared_effect_def)
qed (use assms in \<open>auto simp: free_effect_def excl_effect_def shared_effect_def and_writer_0 or_keeps_bits
       holders_downgrade\<close>)

section \<open>The invariant of the system\<close>

definition readers :: "'tid lock_system \<Rightarrow> 'tid set" where
  "readers s = {t. holds_shared (pc_of s t)}"

definition writers :: "'tid lock_system \<Rightarrow> 'tid set" where
  "writers s = {t. holds_excl (pc_of s t)}"

definition lock_inv :: "'tid lock_system \<Rightarrow> bool" where
  "lock_inv s \<longleftrightarrow> finite (readers s) \<and> (\<forall>t. local_ok (pc_of s t) (word_of s)) \<and>
     (writers s = {} \<and> holders (word_of s) = card (readers s) \<and> card (readers s) < writer_code \<or>
      (\<exists>t. writers s = {t}) \<and> readers s = {} \<and> holders (word_of s) = writer_code)"

lemma not_both: "holds_excl p \<Longrightarrow> \<not> holds_shared p"
  by (cases p) simp_all

lemma readers_upd:
  "readers \<lparr>word_of = w', pc_of = (pc_of s)(t := p')\<rparr> =
    (if holds_shared p' then insert t (readers s) else readers s - {t})"
  "writers \<lparr>word_of = w', pc_of = (pc_of s)(t := p')\<rparr> =
    (if holds_excl p' then insert t (writers s) else writers s - {t})"
  by (auto simp: readers_def writers_def)

text \<open>What the other threads know survives the step: only a writer relies on the word.\<close>

lemma local_ok_stable:
  assumes "local_ok q w" and "holds_excl q \<Longrightarrow> w AND w' = w"
  shows "local_ok q w'"
proof (cases q)
  case Unlock_load
  have "parked_bits w AND w' = parked_bits w"
    using assms(2) Unlock_load by (simp add: parked_bits_def) (metis and.assoc and.commute)
  then have "parked_bits w AND parked_bits w' = parked_bits w"
    by (simp add: parked_bits_def ac_simps)
  then show ?thesis using assms(1) Unlock_load by auto
next
  case (Unlock_cas state)
  then have "state AND w = state" "w AND w' = w" using assms by simp_all
  then have "state AND w' = state" by (metis and.assoc)
  with assms(1) Unlock_cas show ?thesis by simp
qed (use assms in simp_all)

lemma excl_holder:
  assumes "lock_inv s" and "holds_excl (pc_of s t)"
  shows "writers s = {t} \<and> readers s = {} \<and> holders (word_of s) = writer_code"
proof -
  have "t \<in> writers s" using assms(2) by (simp add: writers_def)
  then show ?thesis using assms(1) by (auto simp: lock_inv_def)
qed

lemma shared_holder:
  assumes "lock_inv s" and "holds_shared (pc_of s t)"
  shows "writers s = {} \<and> t \<in> readers s \<and> 0 < holders (word_of s)"
proof -
  have "t \<in> readers s" using assms(2) by (simp add: readers_def)
  then show ?thesis using assms(1) by (auto simp: lock_inv_def card_gt_0_iff)
qed

lemma lock_inv_step:
  assumes inv: "lock_inv s" and act: "lock_action (pc_of s t) (word_of s) p' w'"
  shows "lock_inv \<lparr>word_of = w', pc_of = (pc_of s)(t := p')\<rparr>"
proof -
  let ?p = "pc_of s t" and ?w = "word_of s"
  have fin: "finite (readers s)" and loc: "\<And>u. local_ok (pc_of s u) ?w"
    using inv by (simp_all add: lock_inv_def)
  note ex = excl_holder [OF inv, of t] and sh = shared_holder [OF inv, of t]
  have eff: "local_ok p' w'" "if holds_excl ?p then excl_effect p' ?w w'
      else if holds_shared ?p then shared_effect p' ?w w' else free_effect p' ?w w'"
    using action_effect [OF act loc] ex sh by blast+
  have others: "local_ok (pc_of s u) w'" if "u \<noteq> t" for u
  proof (rule local_ok_stable [OF loc])
    assume u: "holds_excl (pc_of s u)"
    then have w: "u \<in> writers s" "holders ?w = writer_code"
      using inv by (auto simp: lock_inv_def writers_def)
    then have "\<not> holds_excl ?p" "\<not> holds_shared ?p" using ex sh that by auto
    then have "free_effect p' ?w w'" using eff(2) by simp
    then show "?w AND w' = ?w" using w(2) by (auto simp: free_effect_def)
  qed
  have all: "\<forall>u. local_ok (((pc_of s)(t := p')) u) w'" using eff(1) others by simp
  consider (excl) "holds_excl ?p" | (shared) "\<not> holds_excl ?p" "holds_shared ?p"
    | (free) "\<not> holds_excl ?p" "\<not> holds_shared ?p" by blast
  then show ?thesis
  proof cases
    case excl
    then have "excl_effect p' ?w w'" using eff(2) by simp
    then show ?thesis
      using ex [OF excl] all fin not_both [of p'] by (auto simp: lock_inv_def readers_upd excl_effect_def)
  next
    case shared
    then have "shared_effect p' ?w w'" using eff(2) by simp
    moreover have "holders ?w = card (readers s)" "card (readers s) < writer_code"
      using inv sh [OF shared(2)] by (auto simp: lock_inv_def)
    ultimately show ?thesis
      using sh [OF shared(2)] all fin
      by (auto simp: lock_inv_def readers_upd shared_effect_def insert_absorb card_Diff_singleton)
  next
    case free
    then have t: "t \<notin> readers s" "t \<notin> writers s" by (simp_all add: readers_def writers_def)
    have "free_effect p' ?w w'" using eff(2) free by simp
    then show ?thesis
      using all fin t inv by (auto simp: lock_inv_def readers_upd free_effect_def)
  qed
qed

lemma reachable_inv: "reachable s \<Longrightarrow> lock_inv s"
proof (induction rule: reachable.induct)
  case init
  show ?case by (simp add: lock_inv_def lock_init_def readers_def writers_def)
next
  case (step s t p' w')
  then show ?case by (intro lock_inv_step)
qed

end
