(* ===== verification/Lock_Wakeup.thy ===== *)
theory Lock_Wakeup
  imports Lock_Protocol
begin

text \<open>
  Wake-ups of the lock of \<open>src/lock.rs\<close>. Theory \<open>Lock_Protocol\<close> lets a parked thread wake at
  any time; here it sleeps until another thread unparks it, as \<open>parking_lot_core\<close> documents:
  \<open>park\<close> validates and enqueues in one step, \<open>unpark_one\<close> wakes one parked writer if there is
  one, \<open>unpark_all\<close> wakes every parked reader. The invariant names, for every sleeping
  thread, a thread that is awake and obliged to wake it, directly or by passing the
  obligation on.
\<close>

fun asleep :: "pc \<Rightarrow> bool" where
  "asleep Excl_parked = True"
| "asleep Shared_parked = True"
| "asleep p = False"

definition wakes_writer :: "pc \<Rightarrow> bool" where
  "wakes_writer p \<longleftrightarrow> p = Unlock_unpark WRITERS_PARKED \<or> p = Unlock_shared_unpark"

definition wakes_readers :: "pc \<Rightarrow> bool" where
  "wakes_readers p \<longleftrightarrow> p = Unlock_unpark READERS_PARKED \<or> p = Downgrade_unpark"

fun after_unpark :: "pc \<Rightarrow> pc" where
  "after_unpark Downgrade_unpark = Reader"
| "after_unpark p = Idle"

text \<open>\<open>park_step t s s'\<close>: thread \<open>t\<close> makes a step.\<close>

inductive park_step :: "'tid \<Rightarrow> 'tid lock_system \<Rightarrow> 'tid lock_system \<Rightarrow> bool" where
  run: "lock_action (pc_of s t) (word_of s) p' w' \<Longrightarrow> \<not> asleep (pc_of s t) \<Longrightarrow>
    \<not> wakes_writer (pc_of s t) \<Longrightarrow> \<not> wakes_readers (pc_of s t) \<Longrightarrow>
    park_step t s \<lparr>word_of = w', pc_of = (pc_of s)(t := p')\<rparr>"
| unpark_one: "wakes_writer (pc_of s t) \<Longrightarrow> pc_of s u = Excl_parked \<Longrightarrow>
    park_step t s \<lparr>word_of = word_of s,
      pc_of = (pc_of s)(t := after_unpark (pc_of s t), u := Excl_slow WRITERS_PARKED)\<rparr>"
| unpark_none: "wakes_writer (pc_of s t) \<Longrightarrow> \<forall>u. pc_of s u \<noteq> Excl_parked \<Longrightarrow>
    park_step t s \<lparr>word_of = word_of s, pc_of = (pc_of s)(t := after_unpark (pc_of s t))\<rparr>"
| unpark_all: "wakes_readers (pc_of s t) \<Longrightarrow>
    park_step t s \<lparr>word_of = word_of s,
      pc_of = (\<lambda>u. if pc_of s u = Shared_parked then Shared_slow else pc_of s u)
        (t := after_unpark (pc_of s t))\<rparr>"

inductive park_reachable :: "'tid lock_system \<Rightarrow> bool" where
  init: "park_reachable lock_init"
| step: "park_reachable s \<Longrightarrow> park_step t s s' \<Longrightarrow> park_reachable s'"

section \<open>The parking bits\<close>

abbreviation rp :: "u64 \<Rightarrow> bool" where
  "rp w \<equiv> bit w 0"

abbreviation wp :: "u64 \<Rightarrow> bool" where
  "wp w \<equiv> bit w 1"

named_theorems park_bits \<open>the parking bits of the words the protocol writes\<close>

lemma flag_bits [simp]:
  "bit READERS_PARKED n \<longleftrightarrow> n = 0" "bit WRITERS_PARKED n \<longleftrightarrow> n = 1" "bit ONE_READER n \<longleftrightarrow> n = 2"
proof -
  show "bit READERS_PARKED n \<longleftrightarrow> n = 0" by (simp add: READERS_PARKED_def bit_1_iff)
  have "bit (2 ^ m :: u64) n \<longleftrightarrow> m < 64 \<and> n = m" for m by (auto simp: bit_exp_iff)
  from this [of 1] this [of 2] show "bit WRITERS_PARKED n \<longleftrightarrow> n = 1" "bit ONE_READER n \<longleftrightarrow> n = 2"
    by (simp_all add: WRITERS_PARKED_def ONE_READER_def)
qed

lemma writer_bits [simp]: "bit ONE_WRITER n \<longleftrightarrow> n < 64 \<and> 2 \<le> n"
proof (cases "n < 64")
  case True
  then show ?thesis unfolding ONE_WRITER_def by (auto simp: bit_not_iff bit_or_iff bit_and_iff)
qed (auto dest: bit_imp_le_length)

lemma word_eq_bits: "(u :: u64) = v \<longleftrightarrow> (\<forall>n < 64. bit u n = bit v n)"
  by (auto intro: bit_word_eqI)

lemma all_bits_split: "(\<forall>n < 64. P n) \<longleftrightarrow> P 0 \<and> P 1 \<and> (\<forall>n < 62 :: nat. P (Suc (Suc n)))"
proof
  assume a: "P 0 \<and> P 1 \<and> (\<forall>n < 62. P (Suc (Suc n)))"
  show "\<forall>n < 64. P n"
  proof (intro allI impI)
    fix n :: nat
    assume n: "n < 64"
    consider "n = 0" | "n = 1" | m where "n = Suc (Suc m)" by (metis One_nat_def not0_implies_Suc)
    then show "P n" by cases (use a n in auto)
  qed
qed auto

lemma parked_tests [park_bits]:
  "w AND READERS_PARKED = 0 \<longleftrightarrow> \<not> rp w" "w AND WRITERS_PARKED = 0 \<longleftrightarrow> \<not> wp w"
  "parked_bits w = READERS_PARKED \<longleftrightarrow> rp w \<and> \<not> wp w" "parked_bits w = WRITERS_PARKED \<longleftrightarrow> wp w \<and> \<not> rp w"
  "parked_bits w = READERS_PARKED OR WRITERS_PARKED \<longleftrightarrow> rp w \<and> wp w" "parked_bits w = 0 \<longleftrightarrow> \<not> rp w \<and> \<not> wp w"
  unfolding word_eq_bits all_bits_split by (auto simp: parked_bits_def bit_and_iff bit_or_iff)

lemma const_bits [park_bits]: "\<not> rp 0" "\<not> wp 0"
  by simp_all

lemma reader_bits:
  assumes "n < 2"
  shows "bit (w + ONE_READER) n = bit w n" "bit (w - ONE_READER) n = bit w n"
proof -
  have low: "bit v n = bit (take_bit 2 (unat v)) n" for v :: u64
    using assms by (simp add: bit_take_bit_iff bit_unsigned_iff)
  have "take_bit 2 (unat (v + ONE_READER)) = take_bit 2 (unat v)" for v
    by (simp add: take_bit_eq_mod unat_word_ariths ONE_READER_def mod_mod_cancel)
  then have add: "bit (v + ONE_READER) n = bit v n" for v by (simp only: low)
  show "bit (w + ONE_READER) n = bit w n" by (rule add)
  from add [of "w - ONE_READER"] show "bit (w - ONE_READER) n = bit w n" by simp
qed

lemma reader_park_bits [park_bits]:
  "rp (w - ONE_READER) = rp w" "wp (w - ONE_READER) = wp w"
  "checked_add w ONE_READER = Some new \<Longrightarrow> rp new = rp w" "checked_add w ONE_READER = Some new \<Longrightarrow> wp new = wp w"
  using reader_bits [of 0 w] reader_bits [of 1 w] by (auto simp: checked_add_def split: if_splits)

lemma reader_minus_bit [park_bits]: "bit (w - ONE_READER) (Suc 0) = bit w (Suc 0)"
  using reader_bits(2) [of 1 w] by simp

lemma word_by_fields: "w = v \<longleftrightarrow> holders w = holders v \<and> (rp w \<longleftrightarrow> rp v) \<and> (wp w \<longleftrightarrow> wp v)"
proof
  assume a: "holders w = holders v \<and> (rp w \<longleftrightarrow> rp v) \<and> (wp w \<longleftrightarrow> wp v)"
  then have "drop_bit 2 w = drop_bit 2 v" by (simp add: holders_def word_eq_iff_unsigned [where 'a = nat])
  then have d: "bit w (2 + m) = bit v (2 + m)" for m by (metis bit_drop_bit_eq comp_apply)
  show "w = v"
  proof (rule bit_word_eqI)
    fix n assume "n < LENGTH(64)"
    consider "n = 0" | "n = 1" | m where "n = 2 + m" by (metis One_nat_def add_2_eq_Suc not0_implies_Suc)
    then show "bit w n \<longleftrightarrow> bit v n"
      by cases (use a d in \<open>simp_all\<close>)
  qed
qed simp

section \<open>Who is obliged to wake a sleeper\<close>

text \<open>A reader inside \<open>lock_shared_slow\<close>: it will take the lock, and its unlock wakes a writer.\<close>

fun slow_reader :: "pc \<Rightarrow> bool" where
  "slow_reader Shared_slow = True"
| "slow_reader (Shared_loop state) = True"
| "slow_reader Shared_park = True"
| "slow_reader Shared_parked = True"
| "slow_reader Overflow_panic = True"
| "slow_reader p = False"

text \<open>A writer that has been woken: when it takes the lock it sets the writers' bit again.\<close>

fun retrying :: "pc \<Rightarrow> bool" where
  "retrying (Excl_slow a) = (a = WRITERS_PARKED)"
| "retrying (Excl_loop a state) = (a = WRITERS_PARKED)"
| "retrying Excl_park = True"
| "retrying p = False"

text \<open>
  \<open>wake_ok\<close>: (1) the readers' bit is set only while a writer holds the lock and a reader is in
  the slow path; (2) a sleeping reader has the bit or a thread about to unpark; (3) a sleeping
  writer has the writers' bit, a thread about to unpark, or a woken writer that will set the bit
  again; (4) when the bit is set and nobody holds the lock, some thread is about to; (5) the
  store of \<open>unlock_exclusive_slow\<close> happens with both bits set.
\<close>

definition wake_ok :: "'tid lock_system \<Rightarrow> bool" where
  "wake_ok s \<longleftrightarrow>
     (rp (word_of s) \<longrightarrow> holders (word_of s) = writer_code \<and> (\<exists>t. slow_reader (pc_of s t))) \<and>
     ((\<exists>t. pc_of s t = Shared_parked) \<longrightarrow> rp (word_of s) \<or> (\<exists>t. wakes_readers (pc_of s t))) \<and>
     ((\<exists>t. pc_of s t = Excl_parked) \<longrightarrow>
        wp (word_of s) \<or> (\<exists>t. wakes_writer (pc_of s t)) \<or> (\<exists>t. retrying (pc_of s t))) \<and>
     ((\<exists>t. pc_of s t = Excl_parked) \<and> wp (word_of s) \<and> holders (word_of s) = 0 \<longrightarrow>
        (\<exists>t. wakes_writer (pc_of s t)) \<or> (\<exists>t. retrying (pc_of s t)) \<or>
        (\<exists>t. pc_of s t = Unlock_shared_cas) \<or> (\<exists>t. slow_reader (pc_of s t))) \<and>
     (\<forall>t. pc_of s t = Unlock_store \<longrightarrow> rp (word_of s) \<and> wp (word_of s))"

section \<open>The effect of one step on the bits\<close>

text \<open>What is known of the thread that moves.\<close>

definition mover_ok :: "pc \<Rightarrow> u64 \<Rightarrow> bool" where
  "mover_ok p w \<longleftrightarrow> local_ok p w \<and> (holds_excl p \<longrightarrow> holders w = writer_code) \<and>
     (holds_shared p \<longrightarrow> 0 < holders w \<and> holders w < writer_code) \<and>
     (rp w \<longrightarrow> holders w = writer_code) \<and> (p = Unlock_store \<longrightarrow> rp w \<and> wp w)"

lemma fast_failed_awake [simp]:
  "fast_failed c \<noteq> Shared_parked" "Shared_parked \<noteq> fast_failed c" "fast_failed c \<noteq> Excl_parked"
  "Excl_parked \<noteq> fast_failed c" "fast_failed c \<noteq> Unlock_store" "Unlock_store \<noteq> fast_failed c"
  by (cases c; simp)+

lemmas effect_simps = mover_ok_def park_bits wakes_readers_def wakes_writer_def checked_add_reader(2)
  and_writer_0 and_writer_full bit_or_iff bit_and_iff

lemma added_facts:
  assumes "checked_add w ONE_READER = Some new"
  shows "holders w \<noteq> 4611686018427387903 \<and> holders new = Suc (holders w) \<and> rp new = rp w \<and> wp new = wp w"
  using checked_add_reader(1) [OF assms] checked_add_reader(2) [of w] reader_park_bits(3,4) [OF assms] assms by auto

lemma readers_bit_set:
  assumes "lock_action p w p' w'" and "mover_ok p w" and "rp w'"
  shows "holders w' = writer_code \<and> (slow_reader p' \<or> rp w \<and> \<not> slow_reader p)"
  using assms by (cases rule: lock_action.cases)
    (simp_all add: effect_simps split: if_splits, auto simp: const_bits dest!: added_facts)

lemma readers_bit_kept:
  assumes "lock_action p w p' w'" and "mover_ok p w" and "rp w"
  shows "rp w' \<or> wakes_readers p'"
  using assms by (cases rule: lock_action.cases)
    (simp_all add: effect_simps split: if_splits, auto dest!: added_facts)

lemma reader_parks:
  assumes "lock_action p w Shared_parked w'"
  shows "rp w'"
  using assms by (cases rule: lock_action.cases) (simp_all add: effect_simps split: if_splits)

lemma writers_bit_kept:
  assumes "lock_action p w p' w'" and "mover_ok p w" and "wp w"
  shows "wp w' \<or> wakes_writer p'"
  using assms by (cases rule: lock_action.cases)
    (simp_all add: effect_simps split: if_splits, auto dest!: added_facts)

lemma writer_parks:
  assumes "lock_action p w Excl_parked w'"
  shows "wp w' \<and> holders w' \<noteq> 0"
  using assms by (cases rule: lock_action.cases) (simp_all add: effect_simps split: if_splits)

lemma retrying_kept:
  assumes "lock_action p w p' w'" and "retrying p"
  shows "retrying p' \<or> wp w'"
  using assms by (cases rule: lock_action.cases) (simp_all add: effect_simps split: if_splits)

lemma last_reader_word:
  assumes "holders (w - ONE_READER) = 0" and "0 < holders w" and "\<not> rp w" and "wp w"
  shows "w = ONE_READER OR WRITERS_PARKED"
  using assms holders_minus [of w] unfolding word_by_fields [of w] by (simp add: bit_or_iff)

lemma free_parked_word: "holders w = 0 \<Longrightarrow> \<not> rp w \<Longrightarrow> wp w \<Longrightarrow> w = WRITERS_PARKED"
  unfolding word_by_fields [of w] by simp

lemma free_writers_bit:
  assumes "lock_action p w p' w'" and "mover_ok p w" and "wp w'" and "holders w' = 0"
  shows "wakes_writer p' \<or> retrying p' \<or> p' = Unlock_shared_cas \<or> slow_reader p' \<or> rp w \<and> \<not> slow_reader p \<or>
    wp w \<and> holders w = 0 \<and> \<not> retrying p \<and> p \<noteq> Unlock_shared_cas \<and> \<not> slow_reader p"
  using assms by (cases rule: lock_action.cases)
    (simp_all add: effect_simps split: if_splits,
      auto simp: holders_downgrade dest!: added_facts dest: last_reader_word free_parked_word)

lemma store_both:
  assumes "lock_action p w Unlock_store w'" and "mover_ok p w"
  shows "rp w' \<and> wp w'"
  using assms by (cases rule: lock_action.cases) (simp_all add: effect_simps split: if_splits)

section \<open>The invariant\<close>

lemma wake_okD:
  assumes "wake_ok s"
  shows "rp (word_of s) \<Longrightarrow> holders (word_of s) = writer_code"
    and "rp (word_of s) \<Longrightarrow> \<exists>t. slow_reader (pc_of s t)"
    and "pc_of s t = Shared_parked \<Longrightarrow> rp (word_of s) \<or> (\<exists>t. wakes_readers (pc_of s t))"
    and "pc_of s t = Excl_parked \<Longrightarrow> wp (word_of s) \<or> (\<exists>t. wakes_writer (pc_of s t)) \<or> (\<exists>t. retrying (pc_of s t))"
    and "pc_of s t = Excl_parked \<Longrightarrow> wp (word_of s) \<Longrightarrow> holders (word_of s) = 0 \<Longrightarrow>
      (\<exists>t. wakes_writer (pc_of s t)) \<or> (\<exists>t. retrying (pc_of s t)) \<or>
      (\<exists>t. pc_of s t = Unlock_shared_cas) \<or> (\<exists>t. slow_reader (pc_of s t))"
    and "pc_of s t = Unlock_store \<Longrightarrow> rp (word_of s) \<and> wp (word_of s)"
  using assms unfolding wake_ok_def by blast+

lemma mover:
  assumes "lock_inv s" and "wake_ok s"
  shows "mover_ok (pc_of s t) (word_of s)"
proof -
  have "holders (word_of s) = writer_code" if "holds_excl (pc_of s t)"
    using that assms(1) by (auto simp: lock_inv_def writers_def)
  moreover have "0 < holders (word_of s) \<and> holders (word_of s) < writer_code" if "holds_shared (pc_of s t)"
  proof -
    have t: "t \<in> readers s" using that by (simp add: readers_def)
    then show ?thesis using assms(1) card_gt_0_iff [of "readers s"] by (auto simp: lock_inv_def)
  qed
  ultimately show ?thesis
    using assms(1) wake_okD(1,6) [OF assms(2)] unfolding mover_ok_def lock_inv_def by blast
qed

text \<open>A witness of a condition on program points survives a step of a thread that is not one.\<close>

lemma witness_kept:
  "\<exists>u. P (f u) \<Longrightarrow> P (f t) \<longrightarrow> P p' \<Longrightarrow> \<exists>u. P ((f(t := p')) u)"
  by (metis fun_upd_apply)

lemma witness_new: "P p' \<Longrightarrow> \<exists>u. P ((f(t := p')) u)"
  by (metis fun_upd_same)

lemma store_stable:
  assumes inv: "lock_inv s" and wake: "wake_ok s" and act: "lock_action (pc_of s t) (word_of s) p' w'"
    and u: "pc_of s u = Unlock_store" "u \<noteq> t"
  shows "rp w' \<and> wp w'"
proof -
  have "u \<in> writers s" using u(1) by (simp add: writers_def)
  then have w: "writers s = {u}" "readers s = {}" "holders (word_of s) = writer_code"
    using inv by (auto simp: lock_inv_def)
  then have free: "\<not> holds_excl (pc_of s t)" "\<not> holds_shared (pc_of s t)"
    using u(2) by (auto simp: writers_def readers_def)
  have "local_ok (pc_of s t) (word_of s)" using inv by (simp add: lock_inv_def)
  from action_effect [OF act this] free w(3) have "word_of s AND w' = word_of s"
    using holders_le [of w'] by (auto simp: free_effect_def)
  then have "bit (word_of s) n \<Longrightarrow> bit w' n" for n by (metis bit_and_iff)
  then show ?thesis using wake_okD(6) [OF wake u(1)] by blast
qed

lemma slow_reader_kept:
  assumes "wake_ok s" and "slow_reader p' \<or> rp (word_of s) \<and> \<not> slow_reader (pc_of s t)"
  shows "\<exists>u. slow_reader (((pc_of s)(t := p')) u)"
  using assms(2) wake_okD(2) [OF assms(1)] by (blast intro: witness_new [of slow_reader] witness_kept [of slow_reader])

text \<open>A free lock with the writers' bit set and a sleeping writer: somebody is on the way.\<close>

lemma wake_free_writers:
  assumes inv: "lock_inv s" and wake: "wake_ok s" and act: "lock_action (pc_of s t) (word_of s) p' w'"
    and run: "\<not> wakes_writer (pc_of s t)"
    and sleep: "((pc_of s)(t := p')) u = Excl_parked" "wp w'" "holders w' = 0"
  shows "(\<exists>u. wakes_writer (((pc_of s)(t := p')) u)) \<or> (\<exists>u. retrying (((pc_of s)(t := p')) u)) \<or>
    (\<exists>u. ((pc_of s)(t := p')) u = Unlock_shared_cas) \<or> (\<exists>u. slow_reader (((pc_of s)(t := p')) u))"
proof -
  let ?p = "pc_of s t" and ?w = "word_of s" and ?f = "(pc_of s)(t := p')"
  have "u \<noteq> t" using sleep(1,3) writer_parks [of ?p ?w w'] act by auto
  then have u: "pc_of s u = Excl_parked" using sleep(1) by simp
  from free_writers_bit [OF act mover [OF inv wake] sleep(2,3)] show ?thesis
  proof (elim disjE conjE)
    assume w: "wp ?w" "holders ?w = 0" and t: "\<not> retrying ?p" "?p \<noteq> Unlock_shared_cas" "\<not> slow_reader ?p"
    have kept: "\<exists>v. P (?f v)" if "\<exists>v. P (pc_of s v)" "\<not> P ?p" for P using that by (metis fun_upd_other)
    from wake_okD(5) [OF wake u w] t run kept [of wakes_writer] kept [of retrying] kept [of slow_reader]
      kept [of "\<lambda>p. p = Unlock_shared_cas"] show ?thesis by blast
  next
    assume "wakes_writer p'"
    then show ?thesis by (metis fun_upd_same)
  next
    assume "retrying p'"
    then show ?thesis by (metis fun_upd_same)
  next
    assume "p' = Unlock_shared_cas"
    then show ?thesis by (metis fun_upd_same)
  qed (use slow_reader_kept [OF wake] in blast)+
qed

lemma wake_ok_run:
  assumes inv: "lock_inv s" and wake: "wake_ok s" and act: "lock_action (pc_of s t) (word_of s) p' w'"
    and run: "\<not> wakes_writer (pc_of s t)" "\<not> wakes_readers (pc_of s t)" "\<not> asleep (pc_of s t)"
  shows "wake_ok \<lparr>word_of = w', pc_of = (pc_of s)(t := p')\<rparr>"
proof -
  let ?p = "pc_of s t" and ?w = "word_of s" and ?f = "(pc_of s)(t := p')"
  note mv = mover [OF inv wake, of t] and W = wake_okD [OF wake]
  note slow = slow_reader_kept [OF wake]
  have one: "holders w' = writer_code \<and> (\<exists>u. slow_reader (?f u))" if "rp w'"
    using readers_bit_set [OF act mv that] slow by blast
  have two: "rp w' \<or> (\<exists>u. wakes_readers (?f u))" if "?f u = Shared_parked" for u
  proof (cases "u = t")
    case True
    then show ?thesis using reader_parks act that by simp
  next
    case False
    then have "rp ?w \<or> (\<exists>u. wakes_readers (pc_of s u))" using that W(3) [of u] by simp
    then show ?thesis
      using readers_bit_kept [OF act mv] run(2)
      by (blast intro: witness_new [of wakes_readers] witness_kept [of wakes_readers])
  qed
  have three: "wp w' \<or> (\<exists>u. wakes_writer (?f u)) \<or> (\<exists>u. retrying (?f u))" if "?f u = Excl_parked" for u
  proof (cases "u = t")
    case True
    then show ?thesis using writer_parks act that by auto
  next
    case False
    then have "wp ?w \<or> (\<exists>u. wakes_writer (pc_of s u)) \<or> (\<exists>u. retrying (pc_of s u))" using that W(4) [of u] by simp
    then show ?thesis
      using writers_bit_kept [OF act mv] retrying_kept [OF act] run(1)
      by (blast intro: witness_new [of wakes_writer] witness_new [of retrying]
          witness_kept [of wakes_writer] witness_kept [of retrying])
  qed
  note four = wake_free_writers [OF inv wake act run(1)]
  have five: "rp w' \<and> wp w'" if "?f u = Unlock_store" for u
    using that store_both [OF _ mv] act store_stable [OF inv wake act, of u] by (cases "u = t") simp_all
  show ?thesis using one two three four five unfolding wake_ok_def by (simp del: fun_upd_apply) blast
qed

lemma unpark_pcs:
  "wakes_writer p \<Longrightarrow> \<not> slow_reader p \<and> \<not> retrying p \<and> p \<noteq> Unlock_shared_cas \<and> \<not> wakes_readers p \<and>
     \<not> holds_excl p \<and> \<not> holds_shared p \<and> after_unpark p = Idle"
  "wakes_readers p \<Longrightarrow> \<not> slow_reader p \<and> \<not> retrying p \<and> p \<noteq> Unlock_shared_cas \<and> \<not> wakes_writer p \<and>
     \<not> holds_excl p \<and> holds_shared (after_unpark p) = holds_shared p"
  by (auto simp: wakes_writer_def wakes_readers_def READERS_PARKED_def WRITERS_PARKED_def)

lemma lock_inv_same_holders:
  assumes "lock_inv s" and "\<And>t. holds_excl (f t) = holds_excl (pc_of s t)"
    and "\<And>t. holds_shared (f t) = holds_shared (pc_of s t)" and "\<And>t. local_ok (f t) (word_of s)"
  shows "lock_inv \<lparr>word_of = word_of s, pc_of = f\<rparr>"
  using assms by (simp add: lock_inv_def readers_def writers_def)

lemma after_unpark_ok [simp]: "local_ok (after_unpark p) w" "\<not> holds_excl (after_unpark p)"
  by (cases p; simp)+

lemma after_unpark_awake [simp]:
  "after_unpark p \<noteq> Shared_parked" "after_unpark p \<noteq> Excl_parked" "after_unpark p \<noteq> Unlock_store"
  by (cases p; simp)+

lemma wake_ok_unpark_one:
  assumes "wake_ok s" and t: "wakes_writer (pc_of s t)" and u: "pc_of s u = Excl_parked"
  shows "wake_ok \<lparr>word_of = word_of s,
    pc_of = (pc_of s)(t := after_unpark (pc_of s t), u := Excl_slow WRITERS_PARKED)\<rparr>" (is "wake_ok \<lparr>word_of = _, pc_of = ?f\<rparr>")
proof -
  note W = wake_okD [OF assms(1)]
  have tu: "t \<noteq> u" using t u by (auto simp: wakes_writer_def)
  have kept: "\<exists>v. P (?f v)" if ex: "\<exists>v. P (pc_of s v)" and no: "\<not> P (pc_of s t)" "\<not> P Excl_parked" for P
  proof -
    from ex obtain v where v: "P (pc_of s v)" ..
    then have "?f v = pc_of s v" using no u by auto
    with v show ?thesis by (metis (no_types))
  qed
  have retry: "\<exists>v. retrying (?f v)" by (rule exI [of _ u]) simp
  have "\<exists>v. slow_reader (?f v)" if "rp (word_of s)"
    by (rule kept [of slow_reader]) (use W(2) [OF that] unpark_pcs(1) [OF t] in auto)
  moreover have "rp (word_of s) \<or> (\<exists>v. wakes_readers (?f v))" if "?f v = Shared_parked" for v
  proof -
    have "pc_of s v = Shared_parked" using that by (auto split: if_splits)
    moreover have "\<not> wakes_readers (pc_of s t)" "\<not> wakes_readers Excl_parked"
      using unpark_pcs(1) [OF t] by (simp_all add: wakes_readers_def)
    ultimately show ?thesis using W(3) [of v] kept [of wakes_readers] by blast
  qed
  moreover have "rp (word_of s) \<and> wp (word_of s)" if "?f v = Unlock_store" for v
    using that W(6) [of v] by (auto split: if_splits)
  ultimately show ?thesis
    using W(1) retry unfolding wake_ok_def by (simp del: fun_upd_apply) blast
qed

lemma wake_ok_unpark_none:
  assumes "wake_ok s" and t: "wakes_writer (pc_of s t)" and none: "\<forall>u. pc_of s u \<noteq> Excl_parked"
  shows "wake_ok \<lparr>word_of = word_of s, pc_of = (pc_of s)(t := after_unpark (pc_of s t))\<rparr>"
proof -
  let ?f = "(pc_of s)(t := after_unpark (pc_of s t))"
  note W = wake_okD [OF assms(1)]
  have kept: "\<exists>v. P (?f v)" if "\<exists>v. P (pc_of s v)" "\<not> P (pc_of s t)" for P
    using that by (metis fun_upd_other)
  have "\<exists>v. slow_reader (?f v)" if "rp (word_of s)"
    using W(2) [OF that] kept [of slow_reader] unpark_pcs(1) [OF t] by blast
  moreover have "rp (word_of s) \<or> (\<exists>v. wakes_readers (?f v))" if "?f v = Shared_parked" for v
  proof -
    have "pc_of s v = Shared_parked" using that by (auto split: if_splits)
    from W(3) [OF this] show ?thesis using kept [of wakes_readers] unpark_pcs(1) [OF t] by blast
  qed
  moreover have "rp (word_of s) \<and> wp (word_of s)" if "?f v = Unlock_store" for v
    using that W(6) [of v] by (auto split: if_splits)
  moreover have "?f v \<noteq> Excl_parked" for v using none by simp
  ultimately show ?thesis
    using W(1) unfolding wake_ok_def by (simp del: fun_upd_apply) blast
qed

lemma wake_ok_unpark_all:
  assumes "wake_ok s" and t: "wakes_readers (pc_of s t)"
  shows "wake_ok \<lparr>word_of = word_of s, pc_of = (\<lambda>u. if pc_of s u = Shared_parked then Shared_slow else pc_of s u)
    (t := after_unpark (pc_of s t))\<rparr>" (is "wake_ok \<lparr>word_of = _, pc_of = ?f\<rparr>")
proof -
  note W = wake_okD [OF assms(1)]
  have kept: "\<exists>v. P (?f v)" if ex: "\<exists>v. P (pc_of s v)" and no: "\<not> P (pc_of s t)" "P Shared_parked \<Longrightarrow> P Shared_slow" for P
  proof -
    from ex obtain v where "P (pc_of s v)" ..
    then have "P (?f v)" using no by auto
    then show ?thesis ..
  qed
  have slow: "\<exists>v. slow_reader (?f v)" if "\<exists>v. slow_reader (pc_of s v)"
    using that kept [of slow_reader] unpark_pcs(2) [OF t] by simp
  have wake: "\<exists>v. wakes_writer (?f v)" if "\<exists>v. wakes_writer (pc_of s v)"
    using that kept [of wakes_writer] unpark_pcs(2) [OF t] by (simp add: wakes_writer_def)
  have retry: "\<exists>v. retrying (?f v)" if "\<exists>v. retrying (pc_of s v)"
    using that kept [of retrying] unpark_pcs(2) [OF t] by simp
  have cas: "\<exists>v. ?f v = Unlock_shared_cas" if "\<exists>v. pc_of s v = Unlock_shared_cas"
    using that kept [of "\<lambda>p. p = Unlock_shared_cas"] unpark_pcs(2) [OF t] by simp
  have parked: "pc_of s v = Excl_parked" if "?f v = Excl_parked" for v
    using that by (auto split: if_splits)
  have none: "?f v \<noteq> Shared_parked" for v by simp
  have "holders (word_of s) = writer_code \<and> (\<exists>v. slow_reader (?f v))" if "rp (word_of s)"
    using W(1,2) [OF that] slow by blast
  moreover have "wp (word_of s) \<or> (\<exists>v. wakes_writer (?f v)) \<or> (\<exists>v. retrying (?f v))" if "?f v = Excl_parked" for v
    using W(4) [OF parked [OF that]] wake retry by blast
  moreover have "(\<exists>v. wakes_writer (?f v)) \<or> (\<exists>v. retrying (?f v)) \<or> (\<exists>v. ?f v = Unlock_shared_cas) \<or>
      (\<exists>v. slow_reader (?f v))" if "?f v = Excl_parked" "wp (word_of s)" "holders (word_of s) = 0" for v
    using W(5) [OF parked [OF that(1)] that(2,3)] wake retry cas slow by blast
  moreover have "rp (word_of s) \<and> wp (word_of s)" if "?f v = Unlock_store" for v
    using that W(6) [of v] by (auto split: if_splits)
  ultimately show ?thesis
    using none unfolding wake_ok_def by (simp del: fun_upd_apply) blast
qed

lemma park_step_invariants:
  assumes inv: "lock_inv s" and wake: "wake_ok s" and st: "park_step t s s'"
  shows "lock_inv s' \<and> wake_ok s'"
proof -
  have loc: "local_ok (pc_of s u) (word_of s)" for u using inv by (simp add: lock_inv_def)
  from st show ?thesis
  proof cases
    case (run p' w')
    then show ?thesis using lock_inv_step [OF inv] wake_ok_run [OF inv wake] by simp
  next
    case (unpark_one u)
    then have "t \<noteq> u" by (auto simp: wakes_writer_def)
    then have "lock_inv s'" unfolding unpark_one(1)
      by (intro lock_inv_same_holders [OF inv]) (use unpark_one(2,3) unpark_pcs(1) [OF unpark_one(2)] loc in auto)
    then show ?thesis using wake_ok_unpark_one [OF wake] unpark_one by simp
  next
    case unpark_none
    then have "lock_inv s'" unfolding unpark_none(1)
      by (intro lock_inv_same_holders [OF inv]) (use unpark_pcs(1) [OF unpark_none(2)] loc in auto)
    then show ?thesis using wake_ok_unpark_none [OF wake] unpark_none by simp
  next
    case unpark_all
    then have "lock_inv s'" unfolding unpark_all(1)
      by (intro lock_inv_same_holders [OF inv]) (use unpark_pcs(2) [OF unpark_all(2)] loc in auto)
    then show ?thesis using wake_ok_unpark_all [OF wake] unpark_all by simp
  qed
qed

lemma park_invariants:
  assumes "park_reachable s"
  shows "lock_inv s \<and> wake_ok s"
  using assms
proof induction
  case init
  have "lock_inv lock_init" by (rule reachable_inv) (rule reachable.init)
  moreover have "wake_ok lock_init" by (auto simp: wake_ok_def lock_init_def)
  ultimately show ?case ..
next
  case (step s t s')
  then show ?case using park_step_invariants [of s t s'] by simp
qed

section \<open>Progress\<close>

text \<open>Every thread that is not asleep and has not panicked can make a step.\<close>

lemma action_enabled:
  assumes "p \<noteq> Overflow_panic" and "p \<noteq> Assert_panic"
  shows "\<exists>p' w'. lock_action p w p' w'"
proof (cases p)
  case (Excl_loop a state)
  then show ?thesis using excl_cas_fail excl_spin excl_already_marked by blast
next
  case Excl_park
  then show ?thesis using excl_park_ok excl_park_invalid by blast
next
  case (Fast caller)
  then show ?thesis using fast_load fast_full by (cases "checked_add w ONE_READER") blast+
next
  case (Try_loop state)
  then show ?thesis using try_cas_fail try_give_up by (cases "checked_add state ONE_READER") blast+
next
  case (Shared_loop state)
  then show ?thesis
    using shared_overflow shared_cas_fail shared_spin shared_already_marked
    by (cases "checked_add state ONE_READER") blast+
next
  case Shared_park
  then show ?thesis using shared_park_ok shared_park_invalid by blast
qed (use assms in \<open>blast intro: lock_action.intros\<close>)+

lemma park_step_enabled:
  assumes "\<not> asleep (pc_of s t)" and "pc_of s t \<noteq> Overflow_panic" and "pc_of s t \<noteq> Assert_panic"
  shows "\<exists>s'. park_step t s s'"
proof -
  consider "wakes_readers (pc_of s t)" | u where "wakes_writer (pc_of s t)" "pc_of s u = Excl_parked"
    | "wakes_writer (pc_of s t)" "\<forall>u. pc_of s u \<noteq> Excl_parked" | "\<not> wakes_writer (pc_of s t)" "\<not> wakes_readers (pc_of s t)"
    by blast
  then show ?thesis
  proof cases
    case 4
    obtain p' w' where "lock_action (pc_of s t) (word_of s) p' w'"
      using action_enabled [OF assms(2,3), of "word_of s"] by blast
    from park_step.run [OF this assms(1) 4] show ?thesis ..
  qed (blast intro: park_step.intros)+
qed

text \<open>While a thread sleeps, another one is awake inside an operation or holding the lock.\<close>

lemma sleeper_has_waker:
  assumes "lock_inv s" and "wake_ok s" and "asleep (pc_of s t)"
  shows "\<exists>u. \<not> asleep (pc_of s u) \<and> pc_of s u \<noteq> Idle"
proof -
  note W = wake_okD [OF assms(2)]
  have awake: "\<not> asleep p \<and> p \<noteq> Idle"
    if "wakes_writer p \<or> wakes_readers p \<or> retrying p \<or> holds_excl p \<or> holds_shared p \<or> p = Unlock_shared_cas" for p
    using that by (cases p) (auto simp: wakes_writer_def wakes_readers_def)
  have held: "\<exists>u. holds_excl (pc_of s u) \<or> holds_shared (pc_of s u)" if "holders (word_of s) \<noteq> 0"
  proof -
    have "writers s \<noteq> {} \<or> readers s \<noteq> {}" using assms(1) that by (auto simp: lock_inv_def)
    then show ?thesis by (auto simp: writers_def readers_def)
  qed
  have reader: ?thesis if "pc_of s v = Shared_parked" for v
  proof -
    have "holders (word_of s) \<noteq> 0" if "rp (word_of s)" using W(1) [OF that] by simp
    then show ?thesis using W(3) [OF that] held awake by blast
  qed
  show ?thesis
  proof (cases "pc_of s t = Shared_parked")
    case False
    then have e: "pc_of s t = Excl_parked" using assms(3) by (cases "pc_of s t") simp_all
    have slow: ?thesis if "slow_reader (pc_of s v)" for v
      using reader [of v] that by (cases "pc_of s v") (auto intro!: exI [of _ v])
    show ?thesis
      using W(4) [OF e] W(5) [OF e] held awake slow by (cases "holders (word_of s) = 0") blast+
  qed (rule reader)
qed

end
