(* ===== verification/Lock_Properties.thy ===== *)
theory Lock_Properties
  imports Lock_Wakeup
begin

text \<open>
  The properties of the lock of \<open>src/lock.rs\<close>: safety in every reachable state of the
  protocol, that no wake-up is lost, and the agreement of the sequential functions of theory
  \<open>Raw_Lock\<close> with the protocol.
\<close>

text \<open>
  C6: in every reachable state, under any interleaving, spurious failure and wake-up, a
  thread that holds the lock exclusively is alone: no other thread holds it in any mode.
\<close>

theorem mutual_exclusion:
  assumes "reachable s" and "holds_excl (pc_of s t)" and "u \<noteq> t"
  shows "\<not> holds_excl (pc_of s u) \<and> \<not> holds_shared (pc_of s u)"
proof -
  have "t \<in> writers s" using assms(2) by (simp add: writers_def)
  then have "writers s = {t}" "readers s = {}" using reachable_inv [OF assms(1)] by (auto simp: lock_inv_def)
  then show ?thesis using assms(3) by (auto simp: writers_def readers_def)
qed

lemma reachable_writer: "reachable \<lparr>word_of = ONE_WRITER, pc_of = (\<lambda>_. Idle)(t := Writer)\<rparr>"
  using reachable.step [OF reachable.init, of t Writer ONE_WRITER] try_exclusive_ok
  by (simp add: lock_init_def)

theorem mutual_exclusion_witness:
  "\<not> holds_excl (pc_of \<lparr>word_of = ONE_WRITER, pc_of = (\<lambda>_. Idle)(1 := Writer)\<rparr> (2 :: nat))"
  using mutual_exclusion [OF reachable_writer [of 1], of 1 2] by simp

text \<open>C22:
  Without a writer, the counter in the upper 62 bits of the state word is exactly the number
  of readers and never reaches the writer's pattern; and no assertion of
  \<open>unlock_exclusive_slow\<close> can fail, whatever the other threads did to the parking bits between its
  atomic accesses.
\<close>

theorem lock_word_invariants:
  assumes "reachable s"
  shows "((\<forall>t. \<not> holds_excl (pc_of s t)) \<longrightarrow> finite {t. holds_shared (pc_of s t)} \<and>
      unat (word_of s) div 4 = card {t. holds_shared (pc_of s t)} \<and> card {t. holds_shared (pc_of s t)} < 2 ^ 62 - 1) \<and>
    (\<forall>t. pc_of s t \<noteq> Assert_panic)"
proof -
  have inv: "lock_inv s" by (rule reachable_inv [OF assms])
  then have "\<forall>t. pc_of s t \<noteq> Assert_panic" using local_ok.simps(7) by (metis lock_inv_def)
  with inv show ?thesis by (auto simp: lock_inv_def writers_def readers_def holders_div)
qed

lemma reachable_reader: "reachable \<lparr>word_of = ONE_READER, pc_of = (\<lambda>_. Idle)(t := Reader)\<rparr>"
proof -
  have a: "checked_add 0 ONE_READER = Some ONE_READER" "ONE_READER AND ONE_WRITER \<noteq> ONE_WRITER"
    by (simp_all add: checked_add_def layout_simps)
  have "reachable \<lparr>word_of = 0, pc_of = (\<lambda>_. Idle)(t := Fast By_try)\<rparr>"
    using reachable.step [OF reachable.init, of t "Fast By_try" 0] try_shared_call by (simp add: lock_init_def)
  from reachable.step [OF this, of t "Fast_cas By_try 0 ONE_READER" 0] fast_load [OF a]
  have "reachable \<lparr>word_of = 0, pc_of = (\<lambda>_. Idle)(t := Fast_cas By_try 0 ONE_READER)\<rparr>" by simp
  from reachable.step [OF this, of t Reader ONE_READER] fast_cas_ok show ?thesis by simp
qed

theorem lock_word_invariants_witness:
  "unat ONE_READER div 4 = card {t :: nat. holds_shared (((\<lambda>_. Idle)(1 := Reader)) t)} \<and>
    ((\<lambda>_. Idle)(1 := Reader)) (1 :: nat) \<noteq> Assert_panic"
  using lock_word_invariants [OF reachable_reader [of "1 :: nat"]] by simp

section \<open>No wake-up is lost\<close>

text \<open>
  C7: whenever a thread sleeps in the parking lot, some other thread is awake, either holding
  the lock or inside one of its operations, and can make a step. So the system never comes to
  rest with a sleeping thread: when every thread that is awake is idle, no thread sleeps.
\<close>

theorem no_lost_wakeup:
  assumes "park_reachable s" and "asleep (pc_of s t)" and "\<And>u. pc_of s u \<noteq> Overflow_panic"
  shows "\<exists>u s'. \<not> asleep (pc_of s u) \<and> pc_of s u \<noteq> Idle \<and> park_step u s s'"
proof -
  have inv: "lock_inv s" "wake_ok s" using park_invariants [OF assms(1)] by simp_all
  obtain u where u: "\<not> asleep (pc_of s u)" "pc_of s u \<noteq> Idle" using sleeper_has_waker [OF inv assms(2)] by blast
  have "local_ok (pc_of s u) (word_of s)" using inv(1) by (simp add: lock_inv_def)
  then have "pc_of s u \<noteq> Assert_panic" by auto
  from park_step_enabled [OF u(1) assms(3) this] u show ?thesis by blast
qed

text \<open>Two threads of a system of numbered threads, the others idle.\<close>

abbreviation duo :: "u64 \<Rightarrow> pc \<Rightarrow> pc \<Rightarrow> nat lock_system" where
  "duo w p q \<equiv> \<lparr>word_of = w, pc_of = (\<lambda>_. Idle)(1 := p, 2 := q)\<rparr>"

lemma duo_step:
  assumes "park_reachable (duo w p q)" and "lock_action q w q' w'"
    and "\<not> asleep q" "\<not> wakes_writer q" "\<not> wakes_readers q"
  shows "park_reachable (duo w' p q')"
  using park_reachable.step [OF assms(1) park_step.run [of "duo w p q" 2 q' w']] assms(2-5) by simp

lemma reach_sleeping_writer: "park_reachable (duo (ONE_WRITER OR WRITERS_PARKED) Writer Excl_parked)"
proof -
  have idle: "(\<lambda>_. Idle)(1 := Writer, 2 := Idle) = (\<lambda>_ :: nat. Idle)(1 := Writer)" by auto
  have "park_step 1 lock_init (duo ONE_WRITER Writer Idle)"
    unfolding idle using park_step.run [of "lock_init :: nat lock_system" 1 Writer ONE_WRITER] try_exclusive_ok
    by (simp add: lock_init_def wakes_writer_def wakes_readers_def)
  from park_reachable.step [OF park_reachable.init this]
  have s0: "park_reachable (duo ONE_WRITER Writer Idle)" .
  have bits: "ONE_WRITER AND ONE_WRITER \<noteq> 0" "ONE_WRITER AND WRITERS_PARKED = 0"
    "(ONE_WRITER OR WRITERS_PARKED) AND ONE_WRITER \<noteq> 0" "(ONE_WRITER OR WRITERS_PARKED) AND WRITERS_PARKED \<noteq> 0"
    by (simp_all add: layout_simps)
  note awake = wakes_writer_def wakes_readers_def
  have "park_reachable (duo ONE_WRITER Writer Excl_first)"
    by (rule duo_step [OF s0 lock_exclusive_call]) (simp_all add: awake)
  from duo_step [OF this first_cas_fail] have "park_reachable (duo ONE_WRITER Writer Excl_second)" by (simp add: awake)
  from duo_step [OF this second_cas_fail] have "park_reachable (duo ONE_WRITER Writer (Excl_slow 0))" by (simp add: awake)
  from duo_step [OF this excl_load] have "park_reachable (duo ONE_WRITER Writer (Excl_loop 0 ONE_WRITER))" by (simp add: awake)
  from duo_step [OF this excl_mark_ok [OF bits(1,2)]]
  have "park_reachable (duo (ONE_WRITER OR WRITERS_PARKED) Writer Excl_park)" by (simp add: awake)
  from duo_step [OF this excl_park_ok [OF bits(3,4)]] show ?thesis by (simp add: awake)
qed

theorem no_lost_wakeup_witness:
  "\<exists>u s'. \<not> asleep (pc_of (duo (ONE_WRITER OR WRITERS_PARKED) Writer Excl_parked) u) \<and>
    park_step u (duo (ONE_WRITER OR WRITERS_PARKED) Writer Excl_parked) s'"
proof -
  have "asleep (pc_of (duo (ONE_WRITER OR WRITERS_PARKED) Writer Excl_parked) 2)" by simp
  moreover have "pc_of (duo (ONE_WRITER OR WRITERS_PARKED) Writer Excl_parked) u \<noteq> Overflow_panic" for u by simp
  ultimately have "\<exists>u s'. \<not> asleep (pc_of (duo (ONE_WRITER OR WRITERS_PARKED) Writer Excl_parked) u) \<and>
    pc_of (duo (ONE_WRITER OR WRITERS_PARKED) Writer Excl_parked) u \<noteq> Idle \<and>
    park_step u (duo (ONE_WRITER OR WRITERS_PARKED) Writer Excl_parked) s'"
    by (rule no_lost_wakeup [OF reach_sleeping_writer])
  then show ?thesis by blast
qed

section \<open>The sequential functions\<close>

text \<open>The steps of one thread while no other thread moves.\<close>

definition solo :: "pc \<times> u64 \<Rightarrow> pc \<times> u64 \<Rightarrow> bool" where
  "solo = (\<lambda>(p, w) (p', w'). lock_action p w p' w')\<^sup>*\<^sup>*"

lemma solo_refl [simp]: "solo x x"
  by (simp add: solo_def)

lemma solo_step: "lock_action p w p' w' \<Longrightarrow> solo (p', w') y \<Longrightarrow> solo (p, w) y"
  unfolding solo_def by (rule converse_rtranclp_into_rtranclp) simp_all

lemma compare_exchange_cases:
  "compare_exchange w a b = (if w = a then (Ok w, b) else (Err w, w))"
  by (simp add: compare_exchange_def)

lemma solo_lock_exclusive:
  assumes "lock_exclusive w = returns w'"
  shows "solo (Idle, w) (Writer, w')"
proof (cases "w = 0")
  case True
  then have "w' = ONE_WRITER" using assms by (simp add: lock_exclusive_def compare_exchange_cases)
  with True show ?thesis by (auto intro: solo_step [OF try_exclusive_ok])
next
  case False
  then have w: "w AND ONE_WRITER = 0" "w' = w OR ONE_WRITER"
    using assms by (auto simp: lock_exclusive_def lock_exclusive_slow_def compare_exchange_cases split: if_splits)
  have "lock_action (Excl_loop 0 w) w Writer w'" using excl_cas_ok [OF w(1), of 0] w(2) by simp
  then show ?thesis
    by (intro solo_step [OF lock_exclusive_call] solo_step [OF first_cas_fail] solo_step [OF second_cas_fail]
        solo_step [OF excl_load] solo_step [of "Excl_loop 0 w" w Writer w'] solo_refl)
qed

lemma shared_fast_cases:
  "try_lock_shared_fast w = (True, w') \<Longrightarrow> checked_add w ONE_READER = Some w' \<and> w' AND ONE_WRITER \<noteq> ONE_WRITER"
  "try_lock_shared_fast w = (False, w') \<Longrightarrow> w' = w \<and> (checked_add w ONE_READER = None \<or>
     (\<exists>new. checked_add w ONE_READER = Some new \<and> new AND ONE_WRITER = ONE_WRITER))"
  by (auto simp: try_lock_shared_fast_def split: option.splits if_splits)

lemma solo_lock_shared:
  assumes "lock_shared w = returns w'"
  shows "solo (Idle, w) (Reader, w')"
proof (cases "try_lock_shared_fast w")
  case (Pair ok st)
  show ?thesis
  proof (cases ok)
    case True
    then have "st = w'" using assms Pair by (simp add: lock_shared_def)
    with True Pair shared_fast_cases(1) [of w w'] show ?thesis
      by (intro solo_step [OF lock_shared_call] solo_step [OF fast_load [of w w']]
          solo_step [OF fast_cas_ok] solo_refl) simp_all
  next
    case False
    with Pair shared_fast_cases(2) [of w st] assms show ?thesis
      by (auto simp: lock_shared_def lock_shared_slow_def split: option.splits if_splits)
  qed
qed

lemma solo_unlock_exclusive:
  assumes "holders w = writer_code"
  shows "\<exists>w' up. unlock_exclusive w = Return (w', up) \<and> solo (Writer, w) (Idle, w') \<and> holders w' = 0"
proof (cases "w = ONE_WRITER")
  case True
  then show ?thesis
    by (auto simp: unlock_exclusive_def compare_exchange_cases intro: solo_step [OF unlock_fast])
next
  case False
  have pb: "parked_bits w \<noteq> 0" and full: "w AND ONE_WRITER = ONE_WRITER"
    using writer_word_parked [OF assms False] assms and_writer_full by auto
  have ul: "unlock_exclusive w = unlock_exclusive_slow w"
    using False by (simp add: unlock_exclusive_def compare_exchange_cases)
  have start: "solo (Unlock_load, w) y \<Longrightarrow> solo (Writer, w) y" for y
    by (rule solo_step [OF unlock_slow [OF False]])
  have fin: "solo (Unlock_unpark q, v) (Idle, v)" if "q = READERS_PARKED \<or> q = WRITERS_PARKED" for q v
    using unlock_unpark [of q v] that by (auto intro: solo_step)
  show ?thesis
  proof (cases "parked_bits w = READERS_PARKED OR WRITERS_PARKED")
    case True
    then have "lock_action Unlock_load w Unlock_store w" using unlock_load [of w] pb full by simp
    then have "solo (Writer, w) (Idle, WRITERS_PARKED)"
      by (intro start solo_step [of Unlock_load w Unlock_store w] solo_step [OF unlock_store] fin) simp_all
    then show ?thesis
      using True full ul pb by (auto simp: unlock_exclusive_slow_def parked_bits_def Let_def)
  next
    case both: False
    then have one: "parked_bits w = READERS_PARKED \<or> parked_bits w = WRITERS_PARKED"
      using parked_cases [of w] pb by (auto simp: READERS_PARKED_def WRITERS_PARKED_def)
    have "lock_action Unlock_load w (Unlock_cas w) w" using unlock_load [of w] pb full both by simp
    then have "solo (Writer, w) (Idle, 0)"
      by (intro start solo_step [of Unlock_load w "Unlock_cas w" w] solo_step [OF unlock_cas_ok] fin one)
    then show ?thesis
      using one both full ul pb by (auto simp: unlock_exclusive_slow_def parked_bits_def Let_def)
  qed
qed

text \<open>
  C23: the sequential functions are executions of the protocol by one thread: what
  \<open>lock_exclusive\<close> and \<open>lock_shared\<close> return is reached from the idle thread, they fail to
  return exactly when the lock is held in a conflicting mode, and \<open>unlock_exclusive\<close> on a
  word held by a writer always releases it without a panic.
\<close>

theorem sequential_lock_agrees:
  "(lock_exclusive w = returns w' \<longrightarrow> solo (Idle, w) (Writer, w') \<and> holders w' = 2 ^ 62 - 1) \<and>
   (lock_exclusive w = None \<longleftrightarrow> holders w \<noteq> 0) \<and>
   (lock_shared w = returns w' \<longrightarrow> solo (Idle, w) (Reader, w') \<and> holders w' = holders w + 1) \<and>
   (lock_shared w = None \<longleftrightarrow> holders w = 2 ^ 62 - 1) \<and>
   (holders w = 2 ^ 62 - 1 \<longrightarrow>
     (\<exists>w' up. unlock_exclusive w = Return (w', up) \<and> solo (Writer, w) (Idle, w') \<and> holders w' = 0))"
proof (intro conjI impI)
  assume l: "lock_exclusive w = returns w'"
  show "solo (Idle, w) (Writer, w')" by (rule solo_lock_exclusive [OF l])
  show "holders w' = 2 ^ 62 - 1"
    using l by (auto simp: lock_exclusive_def lock_exclusive_slow_def compare_exchange_cases split: if_splits)
next
  show "lock_exclusive w = None \<longleftrightarrow> holders w \<noteq> 0"
    by (auto simp: lock_exclusive_def lock_exclusive_slow_def compare_exchange_cases and_writer_0)
next
  assume l: "lock_shared w = returns w'"
  show "solo (Idle, w) (Reader, w')" by (rule solo_lock_shared [OF l])
  show "holders w' = holders w + 1"
    using l checked_add_reader(1) [of w w']
    by (auto simp: lock_shared_def lock_shared_slow_def try_lock_shared_fast_def split: option.splits if_splits)
next
  show "lock_shared w = None \<longleftrightarrow> holders w = 2 ^ 62 - 1"
    using checked_add_reader(2) [of w]
    by (auto simp: lock_shared_def lock_shared_slow_def try_lock_shared_fast_def split: option.splits if_splits)
next
  assume "holders w = 2 ^ 62 - 1"
  then show "\<exists>w' up. unlock_exclusive w = Return (w', up) \<and> solo (Writer, w) (Idle, w') \<and> holders w' = 0"
    by (intro solo_unlock_exclusive) simp
qed

theorem sequential_lock_agrees_witness:
  "(lock_exclusive 0 = returns ONE_WRITER \<and> solo (Idle, 0) (Writer, ONE_WRITER)) \<and>
   (\<exists>w' up. unlock_exclusive ONE_WRITER = Return (w', up) \<and> holders w' = 0)"
proof -
  have "lock_exclusive 0 = returns ONE_WRITER" by (simp add: lock_exclusive_def compare_exchange_cases)
  with sequential_lock_agrees [of 0 ONE_WRITER] sequential_lock_agrees [of ONE_WRITER 0]
  show ?thesis by auto
qed

end
