(* ===== verification/Entry_Properties.thy ===== *)
theory Entry_Properties
  imports Entry_Api Demo_Cache
begin

text \<open>
  The properties of the entry API. An expression such as \<open>cache.entry(k).or_insert(v)\<close>
  is the composition of the calls, followed by the drop of the guard in the result.
\<close>

definition entry_then_insert :: "('k, 'v, 't) table \<Rightarrow> ('k, 't) NeoCache \<Rightarrow> 'k \<Rightarrow> 'v \<Rightarrow> ('k, 't) NeoCache comp" where
  "entry_then_insert T c k v = comp_bind (nc_entry T c k) (\<lambda>(en, c1).
     comp_bind (entry_insert T c1 en v) (\<lambda>(r, c2). lift_run (drop_write_guard c2 (ref_shard r))))"

text \<open>Both paths of \<open>insert\<close>, eviction included.\<close>

lemma entry_insert_same:
  assumes "shard_table T hash tok sok" and "cache_ok T hash tok c"
  shows "entry_then_insert T c k v = comp_bind (nc_insert T c k v) (\<lambda>(old, c'). returns c')"
proof (cases "cache_map T c k")
  case None
  note drop = shard_table.drop_hit_guard(2) [OF assms] and facts = shard_table.hit_state_facts [OF assms]
  show ?thesis
    by (rule shard_table.nc_entry_vacant [OF assms None, of v])
      (simp add: entry_then_insert_def entry_insert_def vacant_insert_def facts comp_bind_assoc split_def
        put_shard_twice drop)
next
  case (Some e)
  note drop = shard_table.drop_hit_guard(2) [OF assms] and facts = shard_table.hit_state_facts [OF assms]
  show ?thesis
    by (rule shard_table.nc_entry_occupied [OF assms Some, of v])
      (auto simp: entry_then_insert_def entry_insert_def occ_insert_def occ_write_def occ_into_ref_def
        ref_write_def occupied_at_def facts put_shard_twice drop)
qed

lemma or_insert_spec:
  assumes "shard_table T hash tok sok" and "cache_ok T hash tok c"
    and "cache_capacity c = 0 \<Longrightarrow> card (dom (cache_vals T c)) < usize_max"
  shows "\<exists>en c1 r c2 c'. nc_entry T c k = returns (en, c1) \<and> entry_or_insert T c1 en v = returns (r, c2) \<and>
    drop_write_guard c2 (ref_shard r) = Return c' \<and> cache_ok T hash tok c' \<and>
    (case cache_map T c k of
       Some e \<Rightarrow> ref_pair T c2 r = (k, entry_val e) \<and> cache_map T c' = cache_map T c
     | None \<Rightarrow> ref_pair T c2 r = (k, v) \<and> nc_insert T c k v = returns (None, c'))"
proof (cases "cache_map T c k")
  case (Some e)
  note drop = shard_table.drop_hit_guard(2) [OF assms(1,2)] and get = shard_table.occ_get_hit [OF assms(1,2)]
  show ?thesis
    by (rule shard_table.nc_entry_occupied [OF assms(1,2) Some, of v])
      (auto simp: Some entry_or_insert_def get drop)
next
  case None
  note drop = shard_table.drop_hit_guard(2) [OF assms(1,2)] and facts = shard_table.hit_state_facts [OF assms(1,2)]
  have abs: "cache_vals T c k = None" using None by (simp add: cache_map_def cache_vals_def shard_vals_def)
  have room: "cache_capacity c = 0 \<Longrightarrow> small_live (home c k) < usize_max"
    using shard_table.unbounded_room [OF assms(1,2), of k] assms(3) by fastforce
  obtain slot s where en: "nc_entry T c k = returns (Vacant \<lparr>ve_shard = key_shard c k, ve_key = k, ve_hash = hash k, ve_slot = slot\<rparr>,
       put_shard (put_state c (key_shard c k) ONE_WRITER) (key_shard c k) s)"
    and ins: "nc_insert T c k v = comp_bind (insert_new T (hash k) k slot v s)
       (\<lambda>(b, s'). returns (None, put_shard c (key_shard c k) s'))"
    and sok: "shard_inv T hash tok s" "shard_map T s k = None" "sok (raw_map s) (hash k) slot"
      "shard_cap s = shard_cap (home c k)" "small_live s = small_live (home c k)"
    by (rule shard_table.nc_entry_vacant [OF assms(1,2) None, of v])
  have "shard_cap s = 0 \<Longrightarrow> cache_capacity c = 0"
    using shard_table.home_okD(3) [OF assms(1,2), of k] sok(4) by (auto simp: per_shard_cap_def split: if_splits)
  then obtain b s' where n: "insert_new T (hash k) k slot v s = returns (b, s')"
      "rt_as_ref T (raw_map s') b = (k, the (shard_map T s' k))"
      "shard_map T s' k = Some (CacheEntry_new v (if hash k \<in> ghost_set s then LOC_MAIN else LOC_SMALL))"
    using shard_table.insert_new_total [OF assms(1) sok(1-3), of v] room sok(5) by auto
  have "ref_pair T (put_shard (put_state c (key_shard c k) ONE_WRITER) (key_shard c k) s')
      \<lparr>ref_shard = key_shard c k, ref_bucket = b\<rparr> = (k, v)"
    using n(2,3) by (simp add: ref_pair_def facts CacheEntry_new_def)
  moreover have "cache_ok T hash tok (put_shard c (key_shard c k) s')"
    using shard_table.nc_insert_absent [OF assms(1,2) abs room, of v] by (auto simp: ins n(1))
  ultimately show ?thesis
    by (auto simp: None en entry_or_insert_def vacant_insert_def facts n(1) put_shard_twice drop ins)
qed

text \<open>
  C26: the insertions of the entry API. \<open>entry(k).or_insert(v)\<close> on a key that is present returns
  a reference to the stored pair and changes no entry (the frequency is not bumped either); on a
  new key it returns a reference to \<open>(k, v)\<close> and leaves the cache that \<open>insert\<close> leaves.
  \<open>entry(k).insert(v)\<close> and \<open>insert(k, v)\<close> leave the same cache in both cases, eviction included.
\<close>

theorem entry_or_insert_correct:
  assumes "shard_table T hash tok sok" and "cache_ok T hash tok c"
    and "cache_capacity c = 0 \<Longrightarrow> card (dom (cache_vals T c)) < usize_max"
  shows "(\<exists>en c1 r c2 c'. nc_entry T c k = returns (en, c1) \<and> entry_or_insert T c1 en v = returns (r, c2) \<and>
    drop_write_guard c2 (ref_shard r) = Return c' \<and> cache_ok T hash tok c' \<and>
    (case cache_map T c k of
       Some e \<Rightarrow> ref_pair T c2 r = (k, entry_val e) \<and> cache_map T c' = cache_map T c
     | None \<Rightarrow> ref_pair T c2 r = (k, v) \<and> nc_insert T c k v = returns (None, c'))) \<and>
    entry_then_insert T c k v = comp_bind (nc_insert T c k v) (\<lambda>(old, c'). returns c')"
  using or_insert_spec [OF assms] entry_insert_same [OF assms(1,2)] by blast

theorem entry_or_insert_correct_witness:
  "\<exists>en c1 r c2 c'. nc_entry slot_table demo_full 3 = returns (en, c1) \<and>
    entry_or_insert slot_table c1 en ''three'' = returns (r, c2) \<and> ref_pair slot_table c2 r = (3, ''three'') \<and>
    nc_insert slot_table demo_full 3 ''three'' = returns (None, c')"
proof -
  have "cache_map slot_table demo_full 3 = None"
    using demo_values(5) by (simp add: cache_vals_def cache_map_def shard_vals_def)
  with entry_or_insert_correct [OF slot_shard.shard_table_axioms demo_states_ok(3), of 3 "''three''"]
    demo_states_ok(7) show ?thesis by auto
qed

text \<open>
  C27: the consuming operations of an occupied entry. \<open>remove\<close> and \<open>remove_entry\<close> return
  what was stored and delete exactly that key; \<open>replace_entry\<close> returns the old pair and
  stores the new value with the entry's own queue and frequency; all release the lock.
\<close>

theorem occupied_entry_correct:
  assumes "shard_table T hash tok sok" and "cache_ok T hash tok c" and "cache_map T c k = Some e"
  shows "\<exists>oe c1. nc_entry T c k = returns (Occupied oe, c1) \<and> occ_get T c1 oe = entry_val e \<and> occ_key T c1 oe = k \<and>
    (\<exists>c'. occ_remove T c1 oe = Return (entry_val e, c') \<and> occ_remove_entry T c1 oe = Return ((k, entry_val e), c') \<and>
       cache_ok T hash tok c' \<and> cache_vals T c' = (cache_vals T c)(k := None)) \<and>
    (\<exists>c'. occ_replace_entry T c1 oe v = Return ((k, entry_val e), c') \<and> cache_ok T hash tok c' \<and>
       cache_vals T c' = (cache_vals T c)(k \<mapsto> v) \<and> cache_map T c' k = Some (e\<lparr>entry_value := sv_new v\<rparr>))"
proof -
  obtain oe s where en: "nc_entry T c k = returns (Occupied oe, put_shard (put_state c (key_shard c k) ONE_WRITER) (key_shard c k) s)"
    and oe: "occupied_at T c k e s oe" "cache_ok T hash tok (put_shard c (key_shard c k) s)"
      "cache_map T (put_shard c (key_shard c k) s) = cache_map T c"
    by (rule shard_table.nc_entry_occupied [OF assms, of undefined])
  show ?thesis
    by (rule shard_table.occ_remove_spec [OF assms(1,2) oe], rule shard_table.occ_replace_spec [OF assms(1,2) oe, of v])
      (auto simp: en shard_table.occ_get_hit [OF assms(1,2) oe(1)])
qed

theorem occupied_entry_correct_witness:
  "\<exists>oe c1 c'. nc_entry slot_table demo_full 1 = returns (Occupied oe, c1) \<and>
    occ_remove slot_table c1 oe = Return (''one'', c') \<and>
    cache_vals slot_table c' = (cache_vals slot_table demo_full)(1 := None)"
proof -
  obtain e where "cache_map slot_table demo_full 1 = Some e" "entry_val e = ''one''"
    using demo_values(3) by (auto simp: cache_vals_def cache_map_def shard_vals_def)
  with occupied_entry_correct [OF slot_shard.shard_table_axioms demo_states_ok(3), of 1 e] show ?thesis
    by metis
qed

end
