(* ===== verification/Iter_Properties.thy ===== *)
theory Iter_Properties
  imports Demo_Cache Neo_Iter
begin

text \<open>
  The properties of iteration: a shared iteration and a consuming one visit every pair
  exactly once, and \<open>alter_all\<close> rewrites every value.
\<close>



text \<open>
  C32: \<open>alter_all\<close> with a closure that never panics ends, applies the closure to the value of
  every key, and keeps keys, configuration and invariant; every lock is released.
\<close>

theorem alter_all_correct:
  assumes "shard_table T hash tok sok" and "cache_ok T hash tok c"
    and "\<And>st k v. \<exists>st'. f st k v = Return (g k v, st')"
  shows "\<exists>st' c'. nc_alter_all T f c st = returns (st', c') \<and> cache_ok T hash tok c' \<and>
    same_config c c' \<and> cache_vals T c' = (\<lambda>k. map_option (g k) (cache_vals T c k))"
proof -
  have np: "no_panic f" using assms(3) unfolding no_panic_def by blast
  have keep: "case keep_all f st k v of (keep, v', st') \<Rightarrow> (keep, v') = (True, g k v)" for st k v
    using assms(3) [of st k v] by (auto simp: keep_all_def)
  have ret: "retained (\<lambda>k v. (True, g k v)) m = (\<lambda>k. map_option (g k) (m k))" for m
    by (simp add: retained_def fun_eq_iff split: option.split)
  note alt = alter_all_retain [OF np shard_table.cache_ok_quiet [OF assms(1,2)] shard_table.cache_ok_count [OF assms(1,2)], of T st]
  show ?thesis
    using shard_table.nc_retain_spec [where f = "keep_all f" and p = "\<lambda>k v. (True, g k v)" and st = st,
        OF assms(1,2) keep]
    unfolding alt ret .
qed

theorem alter_all_correct_witness:
  "\<exists>n c'. nc_alter_all slot_table (\<lambda>n k v. Return (v @ ''!'', Suc n)) demo_full (0::nat) = returns (n, c') \<and>
    cache_vals slot_table c' 1 = Some ''one!'' \<and> cache_vals slot_table c' 2 = Some ''two!'' \<and>
    cache_vals slot_table c' 3 = None"
proof -
  have "\<exists>n c'. nc_alter_all slot_table (\<lambda>n k v. Return (v @ ''!'', Suc n)) demo_full 0 = returns (n, c') \<and>
    demo_ok c' \<and> same_config demo_full c' \<and>
    cache_vals slot_table c' = (\<lambda>k. map_option (\<lambda>v. v @ ''!'') (cache_vals slot_table demo_full k))"
    by (rule alter_all_correct [OF slot_shard.shard_table_axioms demo_states_ok(3)]) blast
  then show ?thesis by (elim exE conjE) (simp add: demo_values [simplified])
qed

end
