(* ===== verification/Read_Only.thy ===== *)
theory Read_Only
  imports Neo_Iter
begin

text \<open>
  \<open>src/read_only.rs\<close>: a view that owns the cache. Its lookups and iterations go to the
  shards without a lock (\<open>_get_read_shard\<close>) and do not bump a frequency, so they return no
  new state; \<open>len\<close>, \<open>is_empty\<close>, \<open>capacity\<close> and \<open>clone\<close> are the cache's own methods.
\<close>

record ('k, 't) ReadOnlyView =
  ro_map :: "('k, 't) NeoCache"

definition ReadOnlyView_new :: "('k, 't) NeoCache \<Rightarrow> ('k, 't) ReadOnlyView" where
  "ReadOnlyView_new c = \<lparr>ro_map = c\<rparr>"

definition nc_into_read_only :: "('k, 't) NeoCache \<Rightarrow> ('k, 't) ReadOnlyView" where
  "nc_into_read_only c = ReadOnlyView_new c"

definition ro_into_inner :: "('k, 't) ReadOnlyView \<Rightarrow> ('k, 't) NeoCache" where
  "ro_into_inner w = ro_map w"

definition ro_clone :: "('k, 'v, 't) table \<Rightarrow> ('v \<Rightarrow> 'v) \<Rightarrow> ('k, 't) ReadOnlyView
    \<Rightarrow> (('k, 't) ReadOnlyView \<times> ('k, 't) ReadOnlyView) comp" where
  "ro_clone T vcl w = comp_bind (nc_clone T vcl (ro_map w)) (\<lambda>(d, c). returns (\<lparr>ro_map = d\<rparr>, w\<lparr>ro_map := c\<rparr>))"

definition ro_len :: "('k, 'v, 't) table \<Rightarrow> ('k, 't) ReadOnlyView \<Rightarrow> (usize \<times> ('k, 't) ReadOnlyView) comp" where
  "ro_len T w = comp_bind (nc_len T (ro_map w)) (\<lambda>(n, c). returns (n, w\<lparr>ro_map := c\<rparr>))"

definition ro_is_empty :: "('k, 'v, 't) table \<Rightarrow> ('k, 't) ReadOnlyView \<Rightarrow> (bool \<times> ('k, 't) ReadOnlyView) comp" where
  "ro_is_empty T w = comp_bind (nc_is_empty T (ro_map w)) (\<lambda>(b, c). returns (b, w\<lparr>ro_map := c\<rparr>))"

definition ro_capacity :: "('k, 'v, 't) table \<Rightarrow> ('k, 't) ReadOnlyView \<Rightarrow> (usize \<times> ('k, 't) ReadOnlyView) comp" where
  "ro_capacity T w = comp_bind (nc_capacity T (ro_map w)) (\<lambda>(n, c). returns (n, w\<lparr>ro_map := c\<rparr>))"

definition ro_get_key_value :: "('k, 'v, 't) table \<Rightarrow> ('k, 't) ReadOnlyView \<Rightarrow> 'k \<Rightarrow> ('k \<times> 'v) option run" where
  "ro_get_key_value T w key =
     (let hash = hash_u64 (ro_map w) key; idx = determine_shard (ro_map w) hash
      in run_bind (get_read_shard (ro_map w) idx) (\<lambda>shard.
         Return (map_option (\<lambda>b. let (k, e) = rt_as_ref T (raw_map shard) b in (k, sv_get (entry_value e)))
           (rt_find T (raw_map shard) hash (key_eq key)))))"

definition ro_get :: "('k, 'v, 't) table \<Rightarrow> ('k, 't) ReadOnlyView \<Rightarrow> 'k \<Rightarrow> 'v option run" where
  "ro_get T w key = run_bind (ro_get_key_value T w key) (\<lambda>r. Return (map_option (\<lambda>(k, v). v) r))"

definition ro_contains_key :: "('k, 'v, 't) table \<Rightarrow> ('k, 't) ReadOnlyView \<Rightarrow> 'k \<Rightarrow> bool run" where
  "ro_contains_key T w key = run_bind (ro_get T w key) (\<lambda>r. Return (r \<noteq> None))"

text \<open>\<open>iter\<close>: the shards \<open>0..shard_count\<close>, flattened, as the list of what it yields.\<close>

fun ro_iter_from :: "('k, 'v, 't) table \<Rightarrow> ('k, 't) ReadOnlyView \<Rightarrow> usize list \<Rightarrow> ('k \<times> 'v) list run" where
  "ro_iter_from T w [] = Return []"
| "ro_iter_from T w (i # is) =
     run_bind (get_read_shard (ro_map w) i) (\<lambda>shard.
     run_bind (ro_iter_from T w is) (\<lambda>rest.
       Return (map (\<lambda>b. let (k, e) = rt_as_ref T (raw_map shard) b in (k, sv_get (entry_value e)))
         (rt_iter T (raw_map shard)) @ rest)))"

definition ro_iter :: "('k, 'v, 't) table \<Rightarrow> ('k, 't) ReadOnlyView \<Rightarrow> ('k \<times> 'v) list run" where
  "ro_iter T w = ro_iter_from T w [0..<shard_count (ro_map w)]"

definition ro_keys :: "('k, 'v, 't) table \<Rightarrow> ('k, 't) ReadOnlyView \<Rightarrow> 'k list run" where
  "ro_keys T w = run_bind (ro_iter T w) (\<lambda>ps. Return (map (\<lambda>(k, v). k) ps))"

definition ro_values :: "('k, 'v, 't) table \<Rightarrow> ('k, 't) ReadOnlyView \<Rightarrow> 'v list run" where
  "ro_values T w = run_bind (ro_iter T w) (\<lambda>ps. Return (map (\<lambda>(k, v). v) ps))"

lemma ro_iter_from_pairs:
  "set is \<subseteq> {..<shard_count (ro_map w)} \<Longrightarrow>
   ro_iter_from T w is = Return (concat (map (\<lambda>i. shard_pairs T (shard_at (ro_map w) i)) is))"
  by (induction "is")
    (simp_all add: get_read_shard_def shard_count_def shard_pairs_def bucket_pair_def [abs_def])

lemma ro_iter_pairs: "ro_iter T \<lparr>ro_map = c\<rparr> = Return (cache_pairs T c)"
proof -
  have "shard_list c = map (shard_at c) [0..<shard_count c]"
    by (intro nth_equalityI) (simp_all add: shard_list_nth)
  then show ?thesis
    by (simp add: ro_iter_def ro_iter_from_pairs subset_eq cache_pairs_def comp_def)
qed

context shard_table
begin

lemma ro_get_key_value_spec:
  assumes ok: "cache_ok T hash rt_wf c"
  shows "ro_get_key_value T \<lparr>ro_map = c\<rparr> k = Return (map_option (\<lambda>v. (k, v)) (cache_vals T c k))"
proof -
  note c = cache_okD [OF ok] home_okD [OF ok, of k]
  note tab = inv_tab(1,2) [OF c(5)]
  have "map_option (\<lambda>b. let (k, e) = rt_as_ref T (raw_map (home c k)) b in (k, sv_get (entry_value e)))
      (rt_find T (raw_map (home c k)) (hash k) (key_eq k)) =
    map_option (\<lambda>v. (k, v)) (cache_vals T c k)"
  proof (cases "rt_find T (raw_map (home c k)) (hash k) (key_eq k)")
    case None
    with find_key_None [OF tab(1)] show ?thesis
      by (simp add: cache_vals_home shard_vals_def shard_map_def)
  next
    case (Some b)
    then obtain e where "rt_as_ref T (raw_map (home c k)) b = (k, e)" "rt_lookup T (raw_map (home c k)) k = Some e"
      by (rule find_key_Some [OF tab])
    with Some show ?thesis
      by (simp add: cache_vals_home shard_vals_def shard_map_def entry_val_def)
  qed
  then show ?thesis
    using c(4) unfolding ro_get_key_value_def Let_def ReadOnlyView.select_convs key_shard_eq
    by (simp add: get_read_shard_def hash_u64_def c(1) home_def)
qed

end

end
