(* ===== verification/Read_Only_Properties.thy ===== *)
theory Read_Only_Properties
  imports Demo_Cache Read_Only
begin

text \<open>The property of the read-only view.\<close>

text \<open>
  C35: the lock-free view answers exactly what the cache holds. Every lookup goes to an
  existing shard and finds the cache's value; \<open>iter\<close>, \<open>keys\<close> and \<open>values\<close> run over the same
  pairs, each key once; and \<open>into_inner\<close> gives the cache back unchanged.
\<close>

theorem read_only_correct:
  assumes "shard_table T hash tok sok" and "cache_ok T hash tok c"
  shows "ro_get_key_value T (nc_into_read_only c) k = Return (map_option (\<lambda>v. (k, v)) (cache_vals T c k)) \<and>
    ro_get T (nc_into_read_only c) k = Return (cache_vals T c k) \<and>
    ro_contains_key T (nc_into_read_only c) k = Return (cache_vals T c k \<noteq> None) \<and>
    (\<exists>ps. ro_iter T (nc_into_read_only c) = Return ps \<and> ro_keys T (nc_into_read_only c) = Return (map fst ps) \<and>
      ro_values T (nc_into_read_only c) = Return (map snd ps) \<and> distinct (map fst ps) \<and>
      map_of ps = cache_vals T c) \<and>
    ro_into_inner (nc_into_read_only c) = c"
proof -
  have w: "nc_into_read_only c = \<lparr>ro_map = c\<rparr>" by (simp add: nc_into_read_only_def ReadOnlyView_new_def)
  note kv = shard_table.ro_get_key_value_spec [OF assms, of k]
  have get: "ro_get T \<lparr>ro_map = c\<rparr> k = Return (cache_vals T c k)"
    by (simp add: ro_get_def kv option.map_comp comp_def option.map_ident)
  have "ro_contains_key T \<lparr>ro_map = c\<rparr> k = Return (cache_vals T c k \<noteq> None)"
    by (simp add: ro_contains_key_def get)
  moreover have "ro_keys T \<lparr>ro_map = c\<rparr> = Return (map fst (cache_pairs T c))"
      "ro_values T \<lparr>ro_map = c\<rparr> = Return (map snd (cache_pairs T c))"
    by (simp_all add: ro_keys_def ro_values_def ro_iter_pairs split_def)
  ultimately show ?thesis
    unfolding w ro_into_inner_def
    using kv get ro_iter_pairs [of T c] shard_table.cache_pairs_distinct [OF assms]
      shard_table.cache_pairs_map [OF assms] by simp
qed

theorem read_only_correct_witness:
  "ro_get slot_table (nc_into_read_only demo_full) 2 = Return (Some ''two'') \<and>
    ro_get_key_value slot_table (nc_into_read_only demo_full) 2 = Return (Some (2, ''two''))"
  using read_only_correct [OF slot_shard.shard_table_axioms demo_states_ok(3), of 2] demo_values(4) by simp

end
