(* ===== verification/Serde.thy ===== *)
theory Serde
  imports Cache_Refinement Neo_Iter
begin

text \<open>
  \<open>src/ser.rs\<close>. The \<open>Serializer\<close> and the \<open>MapAccess\<close> of the serde data format are
  parameters: a record of the calls that \<open>serialize\<close> makes (the \<open>SerializeMap\<close> it mutates is
  passed on), and the \<open>next_entry\<close> that \<open>visit_map\<close> makes on the state of the access. What a
  format promises, that reading back the output of a finished map gives the entries that
  were written, is the locale \<open>serde_format\<close>.
\<close>

record ('k, 'v, 'm, 'out, 'e) Serializer =
  serialize_map :: "usize option \<Rightarrow> ('m, 'e) result"
  serialize_entry :: "'m \<Rightarrow> 'k \<Rightarrow> 'v \<Rightarrow> ('m, 'e) result"
  serialize_end :: "'m \<Rightarrow> ('out, 'e) result"

definition nc_serialize :: "('k, 'v, 't) table \<Rightarrow> ('k, 'v, 'm, 'out, 'e) Serializer \<Rightarrow> ('k, 't) NeoCache
    \<Rightarrow> (('out, 'e) result \<times> ('k, 't) NeoCache) comp" where
  "nc_serialize T ser c =
     comp_bind (nc_len T c) (\<lambda>(n, c1).
     case serialize_map ser (Some n) of
       Err e \<Rightarrow> returns (Err e, c1)
     | Ok m \<Rightarrow>
         comp_bind (nc_for_each T (\<lambda>m (k, v). serialize_entry ser m k v) c1 m) (\<lambda>(r, c2).
         case r of Err e \<Rightarrow> returns (Err e, c2) | Ok m' \<Rightarrow> returns (serialize_end ser m', c2)))"

type_synonym ('k, 'v, 'a, 'e) MapAccess = "'a \<Rightarrow> (('k \<times> 'v) option, 'e) result \<times> 'a"

text \<open>The loop of \<open>visit_map\<close>; an access that never ends makes it run forever.\<close>

partial_function (option) visit_entries :: "('k, 'v, 't) table \<Rightarrow> ('k, 'v, 'a, 'e) MapAccess
    \<Rightarrow> ('k, 't) NeoCache \<Rightarrow> 'a \<Rightarrow> (('k, 't) NeoCache, 'e) result comp" where
  "visit_entries T next_entry c access = (case next_entry access of
     (Err e, _) \<Rightarrow> returns (Err e)
   | (Ok None, _) \<Rightarrow> returns (Ok c)
   | (Ok (Some (k, v)), access') \<Rightarrow>
       (case nc_insert T c k v of
          None \<Rightarrow> None
        | Some (Panic p) \<Rightarrow> Some (Panic p)
        | Some (Return (_, c')) \<Rightarrow> visit_entries T next_entry c' access'))"

declare visit_entries.simps [code]

definition visit_map :: "('k, 'v, 't) table \<Rightarrow> usize option \<Rightarrow> ('k \<Rightarrow> u64) \<Rightarrow> ('k, 'v, 'a, 'e) MapAccess
    \<Rightarrow> 'a \<Rightarrow> (('k, 't) NeoCache, 'e) result comp" where
  "visit_map T parallelism default_hasher next_entry access =
     comp_bind (lift_run (with_hasher T parallelism default_hasher)) (\<lambda>c. visit_entries T next_entry c access)"

text \<open>
  \<open>deserialize\<close> hands the visitor to the format's \<open>deserialize_map\<close>, which opens the map
  access on the input or fails.
\<close>

definition nc_deserialize :: "('k, 'v, 't) table \<Rightarrow> usize option \<Rightarrow> ('k \<Rightarrow> u64) \<Rightarrow> ('k, 'v, 'a, 'e) MapAccess
    \<Rightarrow> ('out \<Rightarrow> ('a, 'e) result) \<Rightarrow> 'out \<Rightarrow> (('k, 't) NeoCache, 'e) result comp" where
  "nc_deserialize T parallelism default_hasher next_entry open_map input =
     (case open_map input of Err e \<Rightarrow> returns (Err e)
      | Ok access \<Rightarrow> visit_map T parallelism default_hasher next_entry access)"

section \<open>The contract of a data format\<close>

text \<open>The entries an access still has to give, up to its end (\<open>None\<close>) or its first error.\<close>

fun gives :: "('k, 'v, 'a, 'e) MapAccess \<Rightarrow> 'a \<Rightarrow> ('k \<times> 'v) list \<Rightarrow> 'e option \<Rightarrow> bool" where
  "gives nx a [] err \<longleftrightarrow> fst (nx a) = (case err of None \<Rightarrow> Ok None | Some e \<Rightarrow> Err e)"
| "gives nx a (p # ps) err \<longleftrightarrow> fst (nx a) = Ok (Some p) \<and> gives nx (snd (nx a)) ps err"

locale serde_format =
  fixes ser :: "('k, 'v, 'm, 'out, 'e) Serializer"
    and nx :: "('k, 'v, 'a, 'e) MapAccess"
    and open_map :: "'out \<Rightarrow> ('a, 'e) result"
    and written :: "'m \<Rightarrow> ('k \<times> 'v) list"
  assumes written_map: "serialize_map ser n = Ok m \<Longrightarrow> written m = []"
    and written_entry: "serialize_entry ser m k v = Ok m' \<Longrightarrow> written m' = written m @ [(k, v)]"
    and written_end: "serialize_end ser m = Ok out \<Longrightarrow> \<exists>a. open_map out = Ok a \<and> gives nx a (written m) None"
begin

lemma written_fold:
  "try_fold (\<lambda>m (k, v). serialize_entry ser m k v) m ps = Ok m' \<Longrightarrow> written m' = written m @ ps"
proof (induction ps arbitrary: m)
  case (Cons p ps)
  then show ?case by (cases p) (auto simp: written_entry split: result.splits)
qed simp

end

section \<open>Reading into an unbounded cache\<close>

definition put_pairs :: "('k \<rightharpoonup> 'v) \<Rightarrow> ('k \<times> 'v) list \<Rightarrow> 'k \<rightharpoonup> 'v" where
  "put_pairs m ps = foldl (\<lambda>m (k, v). m(k \<mapsto> v)) m ps"

lemma put_pairs_Cons [simp]: "put_pairs m ((k, v) # ps) = put_pairs (m(k \<mapsto> v)) ps"
  and put_pairs_Nil [simp]: "put_pairs m [] = m"
  by (simp_all add: put_pairs_def)

lemma put_pairs_map: "put_pairs m ps = m ++ map_of (rev ps)"
  by (induction ps rule: rev_induct) (auto simp: put_pairs_def fun_eq_iff map_add_def)

lemma put_pairs_distinct:
  assumes "distinct (map fst ps)"
  shows "put_pairs Map.empty ps = map_of ps"
proof -
  have "distinct (map fst (rev ps))" using assms by (simp add: rev_map [symmetric])
  then have "map_of (rev ps) = map_of ps" by (intro map_of_mset_eq) simp_all
  then show ?thesis by (simp add: put_pairs_map)
qed

context shard_table
begin

lemma room_step:
  assumes "cache_ok T hash rt_wf c" and "nc_room T (Suc n) c" and "cache_capacity c = 0"
  shows "\<exists>c'. nc_insert T c k v = returns (cache_vals T c k, c') \<and> cache_ok T hash rt_wf c' \<and> nc_room T n c' \<and>
    cache_capacity c' = 0 \<and> cache_vals T c' = (cache_vals T c)(k \<mapsto> v)"
  using nc_step_returns [OF assms(1,2), of "Op_insert k v"] assms(3) by auto

text \<open>The same loop over a list: \<open>extend\<close>.\<close>

lemma nc_extend_spec:
  assumes "cache_ok T hash rt_wf c" and "nc_room T (length ps) c" and "cache_capacity c = 0"
  shows "\<exists>c'. nc_extend T c ps = returns c' \<and> cache_ok T hash rt_wf c' \<and> cache_capacity c' = 0 \<and>
    cache_vals T c' = put_pairs (cache_vals T c) ps"
  using assms
proof (induction ps arbitrary: c)
  case (Cons p ps)
  obtain k v where p: "p = (k, v)" by (cases p)
  obtain c1 where "nc_insert T c k v = returns (cache_vals T c k, c1)" "cache_ok T hash rt_wf c1"
      "nc_room T (length ps) c1" "cache_capacity c1 = 0" "cache_vals T c1 = (cache_vals T c)(k \<mapsto> v)"
    using room_step [OF Cons.prems(1) _ Cons.prems(3)] Cons.prems(2) by fastforce
  with Cons.IH [of c1] p show ?case by (simp del: fun_upd_apply)
qed simp

lemma visit_entries_spec:
  assumes "cache_ok T hash rt_wf c" and "nc_room T (length ps) c" and "cache_capacity c = 0"
    and "gives nx a ps err"
  shows "\<exists>c'. cache_ok T hash rt_wf c' \<and> cache_capacity c' = 0 \<and> cache_vals T c' = put_pairs (cache_vals T c) ps \<and>
    visit_entries T nx c a = returns (case err of None \<Rightarrow> Ok c' | Some e \<Rightarrow> Err e)"
  using assms
proof (induction ps arbitrary: c a)
  case Nil
  then show ?case
    by (subst visit_entries.simps) (auto split: prod.split option.splits)
next
  case (Cons p ps)
  obtain k v where p: "p = (k, v)" by (cases p)
  obtain a' where nx: "nx a = (Ok (Some (k, v)), a')" "gives nx a' ps err"
    using Cons.prems(4) p by (cases "nx a") auto
  obtain c1 where "nc_insert T c k v = returns (cache_vals T c k, c1)" "cache_ok T hash rt_wf c1"
      "nc_room T (length ps) c1" "cache_capacity c1 = 0" "cache_vals T c1 = (cache_vals T c)(k \<mapsto> v)"
    using room_step [OF Cons.prems(1) _ Cons.prems(3)] Cons.prems(2) by fastforce
  with Cons.IH [of c1 a'] p nx show ?case
    by (subst visit_entries.simps) (simp del: fun_upd_apply)
qed

text \<open>
  The default constructor: \<open>available_parallelism\<close> is a \<open>NonZero<usize>\<close>, and sixteen times
  its value has to have a next power of two.
\<close>

lemma with_hasher_ok:
  assumes "parallelism \<noteq> Some 0" and "(case parallelism of None \<Rightarrow> 1 | Some p \<Rightarrow> p) * 16 \<le> 2 ^ 63"
  obtains c where "with_hasher T parallelism hash = Return c" and "cache_ok T hash rt_wf c"
    and "cache_vals T c = Map.empty" and "cache_capacity c = 0"
proof -
  let ?n = "(case parallelism of None \<Rightarrow> 1 | Some p \<Rightarrow> p) * 16"
  let ?p = "pow2_from 1 ?n"
  have amount: "default_shard_amount parallelism = Return ?p"
    using next_power_of_two_Return [OF assms(2)] assms(2) by (simp add: default_shard_amount_def usize_max_def)
  have "1 < ?n" using assms(1) by (cases parallelism) auto
  with pow2_from_1(2) [of ?n] have "1 < ?p" by linarith
  moreover have "is_power_of_two ?p" using pow2_from_1(1) by (simp add: is_power_of_two_iff)
  moreover have "?p \<le> usize_max" using pow2_from_1(3) [OF assms(2)] by (simp add: usize_max_def)
  ultimately obtain c where "with_capacity_and_hasher_and_shard_amount T 0 hash ?p = Return c"
      "cache_ok T hash rt_wf c" "cache_vals T c = Map.empty" "cache_capacity c = 0"
    by (rule constructor_ok [of 0, rotated]) (simp_all add: usize_max_def)
  with amount show thesis
    by (intro that) (simp_all add: with_hasher_def with_capacity_and_hasher_def)
qed

lemma visit_map_spec:
  assumes "parallelism \<noteq> Some 0" and "(case parallelism of None \<Rightarrow> 1 | Some p \<Rightarrow> p) * 16 \<le> 2 ^ 63"
    and "length ps \<le> usize_max" and "gives nx a ps err"
  shows "\<exists>c. cache_ok T hash rt_wf c \<and> cache_capacity c = 0 \<and> cache_vals T c = put_pairs Map.empty ps \<and>
    visit_map T parallelism hash nx a = returns (case err of None \<Rightarrow> Ok c | Some e \<Rightarrow> Err e)"
proof -
  obtain c where c: "with_hasher T parallelism hash = Return c" "cache_ok T hash rt_wf c"
      "cache_vals T c = Map.empty" "cache_capacity c = 0"
    by (rule with_hasher_ok [OF assms(1,2)])
  have "nc_room T (length ps) c" using c(3) assms(3) by (simp add: nc_room_def)
  from visit_entries_spec [OF c(2) this c(4) assms(4)] c(1,3) show ?thesis by (simp add: visit_map_def)
qed

lemma nc_from_iter_spec:
  assumes "parallelism \<noteq> Some 0" and "(case parallelism of None \<Rightarrow> 1 | Some p \<Rightarrow> p) * 16 \<le> 2 ^ 63"
    and "length ps \<le> usize_max"
  shows "\<exists>c. nc_from_iter T parallelism hash ps = returns c \<and> cache_ok T hash rt_wf c \<and> cache_capacity c = 0 \<and>
    cache_vals T c = put_pairs Map.empty ps"
proof -
  obtain c where c: "with_hasher T parallelism hash = Return c" "cache_ok T hash rt_wf c"
      "cache_vals T c = Map.empty" "cache_capacity c = 0"
    by (rule with_hasher_ok [OF assms(1,2)])
  have "nc_room T (length ps) c" using c(3) assms(3) by (simp add: nc_room_def)
  from nc_extend_spec [OF c(2) this c(4)] c(1,3) show ?thesis
    by (simp add: nc_from_iter_def NeoCache_default_def)
qed

section \<open>Writing\<close>

lemma nc_serialize_spec:
  assumes ok: "cache_ok T hash rt_wf c" and "card (dom (cache_vals T c)) \<le> usize_max"
  shows "nc_serialize T ser c = returns ((case serialize_map ser (Some (card (dom (cache_vals T c)))) of
      Err e \<Rightarrow> Err e
    | Ok m \<Rightarrow> (case try_fold (\<lambda>m (k, v). serialize_entry ser m k v) m (cache_pairs T c) of
        Err e \<Rightarrow> Err e | Ok m' \<Rightarrow> serialize_end ser m')), c)"
  using nc_len_spec [OF assms]
  by (simp add: nc_serialize_def nc_for_each_spec [OF cache_ok_quiet [OF ok] cache_ok_count [OF ok]] split: result.split)

lemma cache_pairs_length:
  assumes ok: "cache_ok T hash rt_wf c"
  shows "length (cache_pairs T c) = card (dom (cache_vals T c))"
proof -
  have "dom (cache_vals T c) = set (map fst (cache_pairs T c))"
    using cache_pairs_map [OF ok] dom_map_of_conv_image_fst [of "cache_pairs T c"] by simp
  then show ?thesis using distinct_card [OF cache_pairs_distinct [OF ok]] by simp
qed

end

section \<open>A list as a data format\<close>

definition list_serializer :: "('k, 'v, ('k \<times> 'v) list, ('k \<times> 'v) list, string) Serializer" where
  "list_serializer = \<lparr>serialize_map = \<lambda>n. Ok [], serialize_entry = \<lambda>m k v. Ok (m @ [(k, v)]), serialize_end = Ok\<rparr>"

fun list_access :: "('k, 'v, ('k \<times> 'v) list, string) MapAccess" where
  "list_access [] = (Ok None, [])"
| "list_access (p # ps) = (Ok (Some p), ps)"

lemma list_access_gives: "gives list_access ps ps None"
  by (induction ps) simp_all

interpretation list_format: serde_format list_serializer list_access Ok "\<lambda>m. m"
  by unfold_locales (auto simp: list_serializer_def list_access_gives)

end
