(* ===== verification/Serde_Properties.thy ===== *)
theory Serde_Properties
  imports Serde
begin

text \<open>Building a cache from a sequence of pairs, and the serde round trip.\<close>

text \<open>
  \<open>from_iter\<close> builds an unbounded cache that holds, for every key of the sequence, the
  last value given for it, and nothing else.
\<close>

theorem from_iter_correct:
  assumes "shard_table T hash tok sok" and "parallelism \<noteq> Some 0"
    and "(case parallelism of None \<Rightarrow> 1 | Some p \<Rightarrow> p) * 16 \<le> 2 ^ 63" and "length ps \<le> usize_max"
  shows "\<exists>c. nc_from_iter T parallelism hash ps = returns c \<and> cache_ok T hash tok c \<and> cache_capacity c = 0 \<and>
    cache_vals T c = map_of (rev ps)"
  using shard_table.nc_from_iter_spec [OF assms] by (simp add: put_pairs_map)

theorem from_iter_correct_witness:
  "\<exists>c. nc_from_iter slot_table (Some 8) demo_hash [(1, ''a''), (2, ''b''), (1, ''c'')] = returns c \<and>
    cache_vals slot_table c 1 = Some ''c'' \<and> cache_vals slot_table c 2 = Some ''b'' \<and> cache_vals slot_table c 3 = None"
proof -
  have "length [(1::nat, ''a''), (2, ''b''), (1, ''c'')] \<le> usize_max" by (simp add: usize_max_def)
  moreover have "(case Some 8 of None \<Rightarrow> 1 | Some p \<Rightarrow> p) * 16 \<le> (2::nat) ^ 63" by simp
  ultimately obtain c where "nc_from_iter slot_table (Some 8) demo_hash [(1, ''a''), (2, ''b''), (1, ''c'')] = returns c"
      "cache_vals slot_table c = map_of (rev [(1, ''a''), (2, ''b''), (1, ''c'')])"
    using from_iter_correct [OF slot_shard.shard_table_axioms, of "Some 8" "[(1, ''a''), (2, ''b''), (1, ''c'')]" demo_hash]
    by auto
  then show ?thesis by auto
qed

text \<open>
  C34: writing a cache with a data format and reading the output back gives an unbounded
  cache with the same keys and values, whatever hasher \<open>S::default()\<close> gives the new cache and
  whatever the hasher of the old one was. Writing always returns and leaves the cache as it
  was.
\<close>

theorem serde_roundtrip:
  assumes tab: "shard_table T hash tok sok" and tab': "shard_table T hash' tok' sok'"
    and format: "serde_format ser nx open_map written"
    and ok: "cache_ok T hash tok c" and count: "card (dom (cache_vals T c)) \<le> usize_max"
    and par: "parallelism \<noteq> Some 0" "(case parallelism of None \<Rightarrow> 1 | Some p \<Rightarrow> p) * 16 \<le> 2 ^ 63"
  shows "\<exists>r. nc_serialize T ser c = returns (r, c) \<and>
    (\<forall>out. r = Ok out \<longrightarrow> (\<exists>d. nc_deserialize T parallelism hash' nx open_map out = returns (Ok d) \<and>
      cache_ok T hash' tok' d \<and> cache_capacity d = 0 \<and> cache_vals T d = cache_vals T c))"
proof -
  let ?ps = "cache_pairs T c"
  have read_back: "\<exists>d. nc_deserialize T parallelism hash' nx open_map out = returns (Ok d) \<and>
      cache_ok T hash' tok' d \<and> cache_capacity d = 0 \<and> cache_vals T d = cache_vals T c"
    if "serialize_map ser (Some n) = Ok m" "try_fold (\<lambda>m (k, v). serialize_entry ser m k v) m ?ps = Ok m'"
      "serialize_end ser m' = Ok out" for n m m' out
  proof -
    note m = that
    have "written m' = ?ps"
      using serde_format.written_fold [OF format m(2)] serde_format.written_map [OF format m(1)] by simp
    then obtain a where a: "open_map out = Ok a" "gives nx a ?ps None"
      using serde_format.written_end [OF format m(3)] by auto
    have "length ?ps \<le> usize_max" using shard_table.cache_pairs_length [OF tab ok] count by simp
    from shard_table.visit_map_spec [OF tab' par this a(2)] a(1) show ?thesis
      using put_pairs_distinct [OF shard_table.cache_pairs_distinct [OF tab ok]]
        shard_table.cache_pairs_map [OF tab ok] by (auto simp: nc_deserialize_def)
  qed
  show ?thesis
    unfolding shard_table.nc_serialize_spec [OF tab ok count] using read_back by (auto split: result.splits)
qed

theorem serde_roundtrip_witness:
  "\<exists>out d. nc_serialize slot_table list_serializer demo_full = returns (Ok out, demo_full) \<and>
    nc_deserialize slot_table None (\<lambda>k. 7 * of_nat k + 3) list_access Ok out = returns (Ok d) \<and>
    cache_vals slot_table d = cache_vals slot_table demo_full"
proof -
  have "card (dom (cache_vals slot_table demo_full)) \<le> usize_max"
    by (rule demo_full_card)
  from serde_roundtrip [OF slot_shard.shard_table_axioms slot_shard.shard_table_axioms [of "\<lambda>k. 7 * of_nat k + 3"]
    list_format.serde_format_axioms demo_states_ok(3) this, of None]
  obtain r where r: "nc_serialize slot_table list_serializer demo_full = returns (r, demo_full)"
    "\<And>out. r = Ok out \<Longrightarrow> \<exists>d. nc_deserialize slot_table None (\<lambda>k. 7 * of_nat k + 3) list_access Ok out = returns (Ok d) \<and>
      cache_vals slot_table d = cache_vals slot_table demo_full" by auto
  have "case nc_serialize slot_table list_serializer demo_full of Some (Return (Ok out, c)) \<Rightarrow> True | _ \<Rightarrow> False"
    by code_simp
  with r show ?thesis by (cases r) auto
qed

end
