(* ===== verification/Map_Ref.thy ===== *)
theory Map_Ref
  imports Neo_Cache_Ops
begin

text \<open>
  The methods of the references: \<open>Ref\<close>, \<open>RefMut\<close>, \<open>MappedRef\<close> and \<open>MappedRefMut\<close>
  (\<open>src/mapref/one.rs\<close>), \<open>RefMulti\<close> and \<open>RefMutMulti\<close> (\<open>src/mapref/multiple.rs\<close>). A
  reference is the record \<open>Ref\<close> of theory \<open>Neo_Cache\<close>; its kind is the lock its shard is
  under. A shared reference to a part of a value is the function that reads the part; an
  exclusive one also has the function that puts a new part into the value.
\<close>

section \<open>Plain references\<close>

definition ref_key :: "('k, 'v, 't) table \<Rightarrow> ('k, 't) NeoCache \<Rightarrow> Ref \<Rightarrow> 'k" where
  "ref_key T c r = fst (ref_pair T c r)"

definition ref_value :: "('k, 'v, 't) table \<Rightarrow> ('k, 't) NeoCache \<Rightarrow> Ref \<Rightarrow> 'v" where
  "ref_value T c r = snd (ref_pair T c r)"

text \<open>\<open>value_mut\<close> and \<open>pair_mut\<close>: what the holder of the \<open>&mut V\<close> does to the value.\<close>

definition ref_value_mut :: "('k, 'v, 't) table \<Rightarrow> ('k, 't) NeoCache \<Rightarrow> Ref \<Rightarrow> ('v \<Rightarrow> 'v) \<Rightarrow> ('k, 't) NeoCache" where
  "ref_value_mut T c r f = ref_write T c r (f (ref_value T c r))"

definition ref_pair_mut :: "('k, 'v, 't) table \<Rightarrow> ('k, 't) NeoCache \<Rightarrow> Ref \<Rightarrow> ('k \<Rightarrow> 'v \<Rightarrow> 'v) \<Rightarrow> ('k, 't) NeoCache" where
  "ref_pair_mut T c r f = (let (k, v) = ref_pair T c r in ref_write T c r (f k v))"

definition ref_downgrade :: "('k, 't) NeoCache \<Rightarrow> Ref \<Rightarrow> Ref \<times> ('k, 't) NeoCache" where
  "ref_downgrade c r =
     (r, put_state c (ref_shard r) (fst (downgrade (rw_state (shards c ! ref_shard r)))))"

section \<open>Projected shared references\<close>

record ('v, 'x) MappedRef =
  mr_ref :: Ref
  mr_v :: "'v \<Rightarrow> 'x"

definition ref_map :: "Ref \<Rightarrow> ('v \<Rightarrow> 'x) \<Rightarrow> ('v, 'x) MappedRef" where
  "ref_map r f = \<lparr>mr_ref = r, mr_v = f\<rparr>"

text \<open>The closure of \<open>try_map\<close> sees the value and may return a part of it.\<close>

definition ref_try_map :: "('k, 'v, 't) table \<Rightarrow> ('k, 't) NeoCache \<Rightarrow> Ref \<Rightarrow> ('v \<Rightarrow> ('v \<Rightarrow> 'x) option)
    \<Rightarrow> (('v, 'x) MappedRef, Ref) result" where
  "ref_try_map T c r f = (case f (ref_value T c r) of
     Some v \<Rightarrow> Ok \<lparr>mr_ref = r, mr_v = v\<rparr> | None \<Rightarrow> Err r)"

definition mapped_pair :: "('k, 'v, 't) table \<Rightarrow> ('k, 't) NeoCache \<Rightarrow> ('v, 'x) MappedRef \<Rightarrow> 'k \<times> 'x" where
  "mapped_pair T c m = (let (k, v) = ref_pair T c (mr_ref m) in (k, mr_v m v))"

definition mapped_key :: "('k, 'v, 't) table \<Rightarrow> ('k, 't) NeoCache \<Rightarrow> ('v, 'x) MappedRef \<Rightarrow> 'k" where
  "mapped_key T c m = fst (mapped_pair T c m)"

definition mapped_value :: "('k, 'v, 't) table \<Rightarrow> ('k, 't) NeoCache \<Rightarrow> ('v, 'x) MappedRef \<Rightarrow> 'x" where
  "mapped_value T c m = snd (mapped_pair T c m)"

definition mapped_map :: "('v, 'x) MappedRef \<Rightarrow> ('x \<Rightarrow> 'y) \<Rightarrow> ('v, 'y) MappedRef" where
  "mapped_map m f = \<lparr>mr_ref = mr_ref m, mr_v = f \<circ> mr_v m\<rparr>"

definition mapped_try_map :: "('k, 'v, 't) table \<Rightarrow> ('k, 't) NeoCache \<Rightarrow> ('v, 'x) MappedRef
    \<Rightarrow> ('x \<Rightarrow> ('x \<Rightarrow> 'y) option) \<Rightarrow> (('v, 'y) MappedRef, ('v, 'x) MappedRef) result" where
  "mapped_try_map T c m f = (case f (mapped_value T c m) of
     None \<Rightarrow> Err m | Some g \<Rightarrow> Ok \<lparr>mr_ref = mr_ref m, mr_v = g \<circ> mr_v m\<rparr>)"

section \<open>Projected exclusive references\<close>

record ('v, 'x) MappedRefMut =
  mm_ref :: Ref
  mm_get :: "'v \<Rightarrow> 'x"
  mm_put :: "'v \<Rightarrow> 'x \<Rightarrow> 'v"

text \<open>
  A closure \<open>&mut V -> &mut T\<close> may change the value before it returns the part: it is a function that gives the
  value it leaves and the pair of functions that read and write the part.
\<close>

type_synonym ('v, 'x) part = "('v \<Rightarrow> 'x) \<times> ('v \<Rightarrow> 'x \<Rightarrow> 'v)"

definition refmut_map :: "('k, 'v, 't) table \<Rightarrow> ('k, 't) NeoCache \<Rightarrow> Ref \<Rightarrow> ('v \<Rightarrow> 'v \<times> ('v, 'x) part)
    \<Rightarrow> ('v, 'x) MappedRefMut \<times> ('k, 't) NeoCache" where
  "refmut_map T c r f =
     (let (v, p) = f (ref_value T c r)
      in (\<lparr>mm_ref = r, mm_get = fst p, mm_put = snd p\<rparr>, ref_write T c r v))"

text \<open>\<open>try_map\<close> hands the reference back when the closure declines, with what the closure wrote.\<close>

definition refmut_try_map :: "('k, 'v, 't) table \<Rightarrow> ('k, 't) NeoCache \<Rightarrow> Ref \<Rightarrow> ('v \<Rightarrow> 'v \<times> ('v, 'x) part option)
    \<Rightarrow> (('v, 'x) MappedRefMut, Ref) result \<times> ('k, 't) NeoCache" where
  "refmut_try_map T c r f =
     (let (v, p) = f (ref_value T c r); c' = ref_write T c r v
      in case p of
           Some p \<Rightarrow> (Ok \<lparr>mm_ref = r, mm_get = fst p, mm_put = snd p\<rparr>, c')
         | None \<Rightarrow> (Err r, c'))"

definition mappedmut_pair :: "('k, 'v, 't) table \<Rightarrow> ('k, 't) NeoCache \<Rightarrow> ('v, 'x) MappedRefMut \<Rightarrow> 'k \<times> 'x" where
  "mappedmut_pair T c m = (let (k, v) = ref_pair T c (mm_ref m) in (k, mm_get m v))"

definition mappedmut_key :: "('k, 'v, 't) table \<Rightarrow> ('k, 't) NeoCache \<Rightarrow> ('v, 'x) MappedRefMut \<Rightarrow> 'k" where
  "mappedmut_key T c m = fst (mappedmut_pair T c m)"

definition mappedmut_value :: "('k, 'v, 't) table \<Rightarrow> ('k, 't) NeoCache \<Rightarrow> ('v, 'x) MappedRefMut \<Rightarrow> 'x" where
  "mappedmut_value T c m = snd (mappedmut_pair T c m)"

text \<open>\<open>pair_mut\<close> and \<open>value_mut\<close>: the new part is written back into the stored value.\<close>

definition mappedmut_pair_mut :: "('k, 'v, 't) table \<Rightarrow> ('k, 't) NeoCache \<Rightarrow> ('v, 'x) MappedRefMut
    \<Rightarrow> ('k \<Rightarrow> 'x \<Rightarrow> 'x) \<Rightarrow> ('k, 't) NeoCache" where
  "mappedmut_pair_mut T c m f =
     (let (k, v) = ref_pair T c (mm_ref m) in ref_write T c (mm_ref m) (mm_put m v (f k (mm_get m v))))"

definition mappedmut_value_mut :: "('k, 'v, 't) table \<Rightarrow> ('k, 't) NeoCache \<Rightarrow> ('v, 'x) MappedRefMut
    \<Rightarrow> ('x \<Rightarrow> 'x) \<Rightarrow> ('k, 't) NeoCache" where
  "mappedmut_value_mut T c m f = mappedmut_pair_mut T c m (\<lambda>_. f)"

definition inner_part :: "('v, 'x) MappedRefMut \<Rightarrow> ('x, 'y) part \<Rightarrow> ('v, 'y) MappedRefMut" where
  "inner_part m p = \<lparr>mm_ref = mm_ref m, mm_get = fst p \<circ> mm_get m,
     mm_put = (\<lambda>v y. mm_put m v (snd p (mm_get m v) y))\<rparr>"

definition mappedmut_map :: "('k, 'v, 't) table \<Rightarrow> ('k, 't) NeoCache \<Rightarrow> ('v, 'x) MappedRefMut
    \<Rightarrow> ('x \<Rightarrow> 'x \<times> ('x, 'y) part) \<Rightarrow> ('v, 'y) MappedRefMut \<times> ('k, 't) NeoCache" where
  "mappedmut_map T c m f =
     (let (x, p) = f (mappedmut_value T c m) in (inner_part m p, mappedmut_value_mut T c m (\<lambda>_. x)))"

definition mappedmut_try_map :: "('k, 'v, 't) table \<Rightarrow> ('k, 't) NeoCache \<Rightarrow> ('v, 'x) MappedRefMut
    \<Rightarrow> ('x \<Rightarrow> 'x \<times> ('x, 'y) part option) \<Rightarrow> (('v, 'y) MappedRefMut, ('v, 'x) MappedRefMut) result \<times> ('k, 't) NeoCache" where
  "mappedmut_try_map T c m f =
     (let (x, p) = f (mappedmut_value T c m); c' = mappedmut_value_mut T c m (\<lambda>_. x)
      in case p of None \<Rightarrow> (Err m, c') | Some p \<Rightarrow> (Ok (inner_part m p), c'))"

section \<open>References of a hit\<close>

lemma downgrade_writer: "fst (downgrade ONE_WRITER) = ONE_READER"
  by (simp add: downgrade_def layout_simps)

text \<open>
  The holder of the exclusive reference \<open>r\<close> of key \<open>k\<close> in cache \<open>c\<close> has left the value \<open>v\<close> in \<open>c1\<close>.
\<close>

definition held_at :: "('k, 'v, 't) table \<Rightarrow> ('k \<Rightarrow> u64) \<Rightarrow> ('t \<Rightarrow> bool) \<Rightarrow> ('k, 't) NeoCache \<Rightarrow> 'k \<Rightarrow> 'v \<Rightarrow> Ref
    \<Rightarrow> ('k, 't) NeoCache \<Rightarrow> bool" where
  "held_at T hash tok c k v r c1 \<longleftrightarrow> (\<exists>s b e. r = \<lparr>ref_shard = key_shard c k, ref_bucket = b\<rparr> \<and>
     c1 = put_shard (put_state c (key_shard c k) ONE_WRITER) (key_shard c k) s \<and>
     cache_ok T hash tok (put_shard c (key_shard c k) s) \<and>
     cache_vals T (put_shard c (key_shard c k) s) = (cache_vals T c)(k \<mapsto> v) \<and>
     b \<in> set (rt_iter T (raw_map s)) \<and> rt_as_ref T (raw_map s) b = (k, e) \<and> entry_val e = v)"

context shard_table
begin

lemma downgrade_hit:
  assumes ok: "cache_ok T hash rt_wf c"
  shows "ref_downgrade (hit_state c k ONE_WRITER s) \<lparr>ref_shard = key_shard c k, ref_bucket = b\<rparr> =
    (\<lparr>ref_shard = key_shard c k, ref_bucket = b\<rparr>, hit_state c k ONE_READER s)"
proof -
  have "key_shard c k < length (shards c)" by (rule home_okD(1) [OF ok])
  then show ?thesis
    by (simp add: ref_downgrade_def hit_state_facts [OF ok] downgrade_writer)
      (cases "shards c ! key_shard c k"; simp add: put_shard_def put_state_def)
qed

lemma held_get_mut:
  assumes "cache_ok T hash rt_wf c" and "cache_map T c k = Some e"
  shows "\<exists>r c1. nc_get_mut T c k = returns (Some r, c1) \<and> held_at T hash rt_wf c k (entry_val e) r c1"
proof -
  have "(cache_vals T c)(k \<mapsto> entry_val e) = cache_vals T c"
    using assms(2) by (auto simp: cache_vals_def cache_map_def shard_vals_def)
  moreover obtain b s where "nc_get_mut T c k = returns (Some \<lparr>ref_shard = key_shard c k, ref_bucket = b\<rparr>, hit_state c k ONE_WRITER s)"
    "cache_ok T hash rt_wf (put_shard c (key_shard c k) s)" "cache_vals T (put_shard c (key_shard c k) s) = cache_vals T c"
    "b \<in> set (rt_iter T (raw_map s))" "rt_as_ref T (raw_map s) b = (k, bump_freq e)"
    by (rule nc_get_hit [OF assms])
  moreover have "entry_val (bump_freq e) = entry_val e" by simp
  ultimately show ?thesis unfolding held_at_def by metis
qed

lemma held_pair:
  "cache_ok T hash rt_wf c \<Longrightarrow> held_at T hash rt_wf c k v r c1 \<Longrightarrow> ref_pair T c1 r = (k, v)"
  by (auto simp: held_at_def ref_pair_def hit_state_facts entry_val_def)

lemma held_write:
  assumes ok: "cache_ok T hash rt_wf c" and held: "held_at T hash rt_wf c k v r c1"
  shows "held_at T hash rt_wf c k v' r (ref_write T c1 r v')"
proof -
  from held obtain s b e where s: "r = \<lparr>ref_shard = key_shard c k, ref_bucket = b\<rparr>" "c1 = hit_state c k ONE_WRITER s"
    "cache_ok T hash rt_wf (put_shard c (key_shard c k) s)" "cache_vals T (put_shard c (key_shard c k) s) = (cache_vals T c)(k \<mapsto> v)"
    "b \<in> set (rt_iter T (raw_map s))" "rt_as_ref T (raw_map s) b = (k, e)"
    by (auto simp: held_at_def)
  show ?thesis
    unfolding s(1,2) by (rule ref_write_hit [OF ok s(3-6), of ONE_WRITER v']) (auto simp: held_at_def)
qed

lemma held_drop:
  assumes ok: "cache_ok T hash rt_wf c" and held: "held_at T hash rt_wf c k v r c1"
  shows "\<exists>c'. drop_write_guard c1 (ref_shard r) = Return c' \<and> cache_ok T hash rt_wf c' \<and>
    cache_vals T c' = (cache_vals T c)(k \<mapsto> v)"
  using held drop_hit_guard(2) [OF ok] by (auto simp: held_at_def)

end

end
