(* ===== verification/Ref_Properties.thy ===== *)
theory Ref_Properties
  imports Demo_Cache Map_Ref
begin

text \<open>The properties of downgraded and of projected references.\<close>

text \<open>
  Downgrading the exclusive reference of \<open>get_mut\<close> gives exactly the reference and the
  cache that \<open>get\<close> would have given: the lock passes from exclusive to shared in one step,
  with no release in between, and the pair stays the same.
\<close>

theorem downgrade_is_get:
  assumes "shard_table T hash tok sok" and "cache_ok T hash tok c" and "cache_map T c k = Some e"
  shows "\<exists>r c1 c2. nc_get_mut T c k = returns (Some r, c1) \<and> ref_downgrade c1 r = (r, c2) \<and>
    nc_get T c k = returns (Some r, c2) \<and> ref_pair T c1 r = (k, entry_val e) \<and> ref_pair T c2 r = (k, entry_val e)"
  by (rule shard_table.nc_get_hit [OF assms])
    (simp add: shard_table.downgrade_hit [OF assms(1,2)] shard_table.ref_pair_hit [OF assms(1,2)])

theorem downgrade_is_get_witness:
  "\<exists>r c1 c2. nc_get_mut slot_table demo_full 1 = returns (Some r, c1) \<and> ref_downgrade c1 r = (r, c2) \<and>
    nc_get slot_table demo_full 1 = returns (Some r, c2)"
proof -
  have "cache_map slot_table demo_full 1 = Some \<lparr>entry_value = sv_new ''one'', entry_freq = 0, entry_loc = LOC_SMALL\<rparr>"
    by code_simp
  from downgrade_is_get [OF slot_shard.shard_table_axioms demo_states_ok(3) this] show ?thesis by blast
qed

text \<open>
  C36: a write through a projected exclusive reference (\<open>RefMut::map\<close> with closure \<open>g\<close>, then \<open>MappedRefMut::map\<close> with
  closure \<open>h\<close>) changes the part of the stored value that the projections select, and no other value; what the closures
  themselves wrote on the way is kept. \<open>try_map\<close> gives the reference back when the closure declines, and
  what the closure wrote is in the cache then as well.
\<close>

theorem mapped_write:
  assumes "shard_table T hash tok sok" and "cache_ok T hash tok c" and "cache_map T c k = Some e"
    and g: "g (entry_val e) = (v1, p)" and h: "h (fst p v1) = (x1, q)" and t: "t (entry_val e) = (v', p')"
  defines "v2 \<equiv> snd p v1 x1"
  shows "\<exists>r c1. nc_get_mut T c k = returns (Some r, c1) \<and>
    (\<exists>m1 c2 m2 c3 c'. refmut_map T c1 r g = (m1, c2) \<and> mappedmut_map T c2 m1 h = (m2, c3) \<and>
      mappedmut_value T c3 m2 = fst q (fst p v2) \<and>
      drop_write_guard (mappedmut_value_mut T c3 m2 f) (ref_shard (mm_ref m2)) = Return c' \<and> cache_ok T hash tok c' \<and>
      cache_vals T c' = (cache_vals T c)(k \<mapsto> snd p v2 (snd q (fst p v2) (f (fst q (fst p v2)))))) \<and>
    (\<exists>res c2 c'. refmut_try_map T c1 r t = (res, c2) \<and>
      res = (case p' of None \<Rightarrow> Err r | Some p \<Rightarrow> Ok \<lparr>mm_ref = r, mm_get = fst p, mm_put = snd p\<rparr>) \<and>
      drop_write_guard c2 (ref_shard r) = Return c' \<and> cache_ok T hash tok c' \<and>
      cache_vals T c' = (cache_vals T c)(k \<mapsto> v'))"
proof -
  note pair = shard_table.held_pair [OF assms(1,2)] and wr = shard_table.held_write [OF assms(1,2)]
    and dr = shard_table.held_drop [OF assms(1,2)]
  obtain r c1 where r: "nc_get_mut T c k = returns (Some r, c1)" "held_at T hash tok c k (entry_val e) r c1"
    using shard_table.held_get_mut [OF assms(1-3)] by blast
  note defs = ref_value_def mappedmut_value_def mappedmut_pair_def mappedmut_value_mut_def mappedmut_pair_mut_def Let_def
  let ?m1 = "\<lparr>mm_ref = r, mm_get = fst p, mm_put = snd p\<rparr>"
  have h1: "held_at T hash tok c k v1 r (ref_write T c1 r v1)" by (rule wr [OF r(2)])
  have m1: "refmut_map T c1 r g = (?m1, ref_write T c1 r v1)" by (simp add: refmut_map_def defs pair [OF r(2)] g)
  have h2: "held_at T hash tok c k v2 r (ref_write T (ref_write T c1 r v1) r v2)" (is "held_at T hash tok c k v2 r ?c3") by (rule wr [OF h1])
  have m2: "mappedmut_map T (ref_write T c1 r v1) ?m1 h = (inner_part ?m1 q, ?c3)"
    by (simp add: mappedmut_map_def defs pair [OF h1] h v2_def)
  let ?v3 = "snd p v2 (snd q (fst p v2) (f (fst q (fst p v2))))"
  have m3: "mappedmut_value T ?c3 (inner_part ?m1 q) = fst q (fst p v2)"
    "mappedmut_value_mut T ?c3 (inner_part ?m1 q) f = ref_write T ?c3 r ?v3"
    by (simp_all add: inner_part_def defs pair [OF h2])
  obtain c' where c': "drop_write_guard (mappedmut_value_mut T ?c3 (inner_part ?m1 q) f) (ref_shard r) = Return c'"
      "cache_ok T hash tok c'" "cache_vals T c' = (cache_vals T c)(k \<mapsto> ?v3)"
    using dr [OF wr [OF h2]] by (auto simp: m3(2))
  have "refmut_try_map T c1 r t =
      (case p' of None \<Rightarrow> Err r | Some p \<Rightarrow> Ok \<lparr>mm_ref = r, mm_get = fst p, mm_put = snd p\<rparr>, ref_write T c1 r v')"
    by (simp add: refmut_try_map_def defs pair [OF r(2)] t split: option.split)
  with dr [OF wr [OF r(2), of v']] r(1) m1 m2 m3(1) c' show ?thesis by (auto simp: inner_part_def)
qed

theorem mapped_write_witness:
  "\<exists>r c1 m1 c2 m2 c3 c'. nc_get_mut slot_table demo_full 1 = returns (Some r, c1) \<and>
    refmut_map slot_table c1 r (\<lambda>v. (v @ ''!'', hd, \<lambda>v x. x # tl v)) = (m1, c2) \<and>
    mappedmut_map slot_table c2 m1 (\<lambda>x. (x, \<lambda>x. x, \<lambda>x y. y)) = (m2, c3) \<and>
    drop_write_guard (mappedmut_value_mut slot_table c3 m2 (\<lambda>_. CHR ''O'')) (ref_shard (mm_ref m2)) = Return c' \<and>
    cache_vals slot_table c' = (cache_vals slot_table demo_full)(1 \<mapsto> ''One!'')"
proof -
  let ?e = "\<lparr>entry_value = sv_new ''one'', entry_freq = 0, entry_loc = LOC_SMALL\<rparr>"
  have e: "cache_map slot_table demo_full 1 = Some ?e" by code_simp
  have v: "entry_val ?e = ''one''" by (simp add: entry_val_def)
  show ?thesis
    using mapped_write [OF slot_shard.shard_table_axioms demo_states_ok(3) e, where g = "\<lambda>v. (v @ ''!'', hd, \<lambda>v x. x # tl v)"
        and h = "\<lambda>x. (x, \<lambda>x. x, \<lambda>x y. y)" and t = "\<lambda>v. (v, None)" and f = "\<lambda>_. CHR ''O''", OF refl refl refl] unfolding v by auto
qed

end
