(* ===== verification/Shard_Calls.thy ===== *)
theory Shard_Calls
  imports Cache_Refinement Entry_Api Neo_Iter
begin

text \<open>
  The calls of \<open>src/lib.rs\<close> and \<open>src/mapref/entry.rs\<close> as what they do to one shard under its
  lock. A call on a key has one such section; the operations on the whole cache have one per
  shard (\<open>Clear_at i\<close>, \<open>Retain_at i\<close>, \<open>Alter_at i\<close>, \<open>Shrink_at i\<close>, \<open>Len_at i\<close>, \<open>Visit_at i\<close> for
  shard \<open>i\<close>). \<open>nc_call\<close> is the call by its method, \<open>call_body\<close> the section alone; on a cache at
  rest they agree. The specification \<open>lossy_step b\<close> is a map that answers exactly and, if \<open>b\<close>
  says that the cache is bounded, may lose one other entry of the same shard when a new key is
  inserted, and at no other time.
\<close>

datatype ('k, 'v) call =
    Insert 'k 'v
  | Remove 'k
  | Remove_if 'k "'k \<Rightarrow> 'v \<Rightarrow> bool"
  | Remove_if_mut 'k "'k \<Rightarrow> 'v \<Rightarrow> bool \<times> 'v"
  | Alter 'k "'k \<Rightarrow> 'v \<Rightarrow> 'v"
  | Or_insert 'k 'v
  | And_modify 'k "'v \<Rightarrow> 'v"
  | Lookup 'k
  | Clear_at usize
  | Retain_at usize "'k \<Rightarrow> 'v \<Rightarrow> bool \<times> 'v"
  | Alter_at usize "'k \<Rightarrow> 'v \<Rightarrow> 'v"
  | Shrink_at usize
  | Len_at usize
  | Visit_at usize

datatype ('k, 'v) answer = Value "'v option" | Count nat | Pairs "('k \<times> 'v) list" | Unit

fun call_shard :: "('k \<Rightarrow> usize) \<Rightarrow> ('k, 'v) call \<Rightarrow> usize" where
  "call_shard hm (Insert k v) = hm k"
| "call_shard hm (Remove k) = hm k"
| "call_shard hm (Remove_if k p) = hm k"
| "call_shard hm (Remove_if_mut k p) = hm k"
| "call_shard hm (Alter k f) = hm k"
| "call_shard hm (Or_insert k v) = hm k"
| "call_shard hm (And_modify k f) = hm k"
| "call_shard hm (Lookup k) = hm k"
| "call_shard hm (Clear_at i) = i"
| "call_shard hm (Retain_at i f) = i"
| "call_shard hm (Alter_at i f) = i"
| "call_shard hm (Shrink_at i) = i"
| "call_shard hm (Len_at i) = i"
| "call_shard hm (Visit_at i) = i"

text \<open>Which guard a call takes: \<open>_get\<close>, \<open>_len\<close> and \<open>Iter\<close> read, the others write.\<close>

fun writes :: "('k, 'v) call \<Rightarrow> bool" where
  "writes (Lookup k) = False"
| "writes (Len_at i) = False"
| "writes (Visit_at i) = False"
| "writes _ = True"

text \<open>\<open>map_in_place_2\<close> on each item of \<open>IterMut\<close> in one shard.\<close>

fun alter_buckets :: "('k, 'v, 't) table \<Rightarrow> ('k \<Rightarrow> 'v \<Rightarrow> 'v) \<Rightarrow> nat list \<Rightarrow> ('k, 't) ShardData \<Rightarrow> ('k, 't) ShardData" where
  "alter_buckets T f [] s = s"
| "alter_buckets T f (b # bs) s =
     (let (k, e) = rt_as_ref T (raw_map s) b
      in alter_buckets T f bs
           (s\<lparr>raw_map := rt_write T (raw_map s) b (k, e\<lparr>entry_value := sv_new (f k (sv_get (entry_value e)))\<rparr>)\<rparr>))"

definition value_at :: "('k, 'v, 't) table \<Rightarrow> ('k, 't) ShardData \<Rightarrow> nat \<Rightarrow> 'v" where
  "value_at T s b = snd (bucket_pair T s b)"

definition unit_closure :: "('k \<Rightarrow> 'v \<Rightarrow> bool \<times> 'v) \<Rightarrow> unit \<Rightarrow> 'k \<Rightarrow> 'v \<Rightarrow> bool \<times> 'v \<times> unit" where
  "unit_closure f u k v = (case f k v of (keep, v') \<Rightarrow> (keep, v', ()))"

fun call_body :: "('k, 'v, 't) table \<Rightarrow> ('k \<Rightarrow> u64) \<Rightarrow> ('k, 'v) call \<Rightarrow> ('k, 't) ShardData
    \<Rightarrow> (('k, 'v) answer \<times> ('k, 't) ShardData) comp" where
  "call_body T h (Insert k v) s = comp_bind (insert_locked T h k v s) (\<lambda>(r, s'). returns (Value r, s'))"
| "call_body T h (Remove k) s = (let (r, s') = remove_locked T h k s in returns (Value (map_option snd r), s'))"
| "call_body T h (Remove_if k p) s =
     (let (r, s') = remove_if_locked T h k p s in returns (Value (map_option snd r), s'))"
| "call_body T h (Remove_if_mut k p) s =
     (let (r, s') = remove_if_mut_locked T h k p s in returns (Value (map_option snd r), s'))"
| "call_body T h (Alter k f) s = (case get_locked T h k s of
     (None, s') \<Rightarrow> returns (Unit, s')
   | (Some b, s') \<Rightarrow>
       (let (k', e) = rt_as_ref T (raw_map s') b
        in returns (Unit, s'\<lparr>raw_map := rt_write T (raw_map s') b
             (k', e\<lparr>entry_value := sv_new (f k' (sv_get (entry_value e)))\<rparr>)\<rparr>)))"
| "call_body T h (Or_insert k v) s =
     (case rt_find_or_find_insert_slot T (raw_map s) (h k) (key_eq k) (elem_hash h) of
        (Ok b, t) \<Rightarrow> (let s' = s\<lparr>raw_map := t\<rparr> in returns (Value (Some (value_at T s' b)), s'))
      | (Err slot, t) \<Rightarrow>
          comp_bind (insert_new T (h k) k slot v (s\<lparr>raw_map := t\<rparr>)) (\<lambda>(b, s').
          returns (Value (Some (value_at T s' b)), s')))"
| "call_body T h (And_modify k f) s =
     (case rt_find_or_find_insert_slot T (raw_map s) (h k) (key_eq k) (elem_hash h) of
        (Ok b, t) \<Rightarrow>
          (let (k', e) = rt_as_ref T t b
           in returns (Unit, s\<lparr>raw_map := rt_write T t b (k', e\<lparr>entry_value := sv_new (f (sv_get (entry_value e)))\<rparr>)\<rparr>))
      | (Err slot, t) \<Rightarrow> returns (Unit, s\<lparr>raw_map := t\<rparr>))"
| "call_body T h (Lookup k) s =
     (let (b, s') = get_locked T h k s in returns (Value (map_option (value_at T s') b), s'))"
| "call_body T h (Clear_at i) s = returns (Unit, clear_all T s)"
| "call_body T h (Retain_at i f) s = returns (Unit, snd (retain_locked T (unit_closure f) () s))"
| "call_body T h (Alter_at i f) s = returns (Unit, alter_buckets T f (rt_iter T (raw_map s)) s)"
| "call_body T h (Shrink_at i) s = returns (Unit, map_shrink_to T (rt_len T (raw_map s)) h s)"
| "call_body T h (Len_at i) s = returns (Count (shard_len T s), s)"
| "call_body T h (Visit_at i) s = returns (Pairs (shard_pairs T s), s)"

text \<open>Dropping an entry drops the write guard it owns.\<close>

definition drop_entry :: "('k, 't) NeoCache \<Rightarrow> 'k Entry \<Rightarrow> ('k, 't) NeoCache run" where
  "drop_entry c en = drop_write_guard c (case en of Occupied e \<Rightarrow> oe_shard e | Vacant e \<Rightarrow> ve_shard e)"

fun nc_call :: "('k, 'v, 't) table \<Rightarrow> ('k, 'v) call \<Rightarrow> ('k, 't) NeoCache
    \<Rightarrow> (('k, 'v) answer \<times> ('k, 't) NeoCache) comp" where
  "nc_call T (Insert k v) c = comp_bind (nc_insert T c k v) (\<lambda>(r, c'). returns (Value r, c'))"
| "nc_call T (Remove k) c = comp_bind (nc_remove T c k) (\<lambda>(r, c'). returns (Value (map_option snd r), c'))"
| "nc_call T (Remove_if k p) c =
     comp_bind (nc_remove_if T c k p) (\<lambda>(r, c'). returns (Value (map_option snd r), c'))"
| "nc_call T (Remove_if_mut k p) c =
     comp_bind (nc_remove_if_mut T c k p) (\<lambda>(r, c'). returns (Value (map_option snd r), c'))"
| "nc_call T (Alter k f) c = comp_bind (nc_alter T c k (\<lambda>k v. Return (f k v))) (\<lambda>c'. returns (Unit, c'))"
| "nc_call T (Or_insert k v) c =
     comp_bind (nc_entry T c k) (\<lambda>(en, c1).
     comp_bind (entry_or_insert T c1 en v) (\<lambda>(r, c2).
     comp_bind (lift_run (drop_write_guard c2 (ref_shard r))) (\<lambda>c3.
     returns (Value (Some (snd (ref_pair T c2 r))), c3))))"
| "nc_call T (And_modify k f) c =
     comp_bind (nc_entry T c k) (\<lambda>(en, c1).
     let (en', c2) = entry_and_modify T c1 en f
     in comp_bind (lift_run (drop_entry c2 en')) (\<lambda>c3. returns (Unit, c3)))"
| "nc_call T (Lookup k) c = comp_bind (nc_view T c k (\<lambda>_ v. v)) (\<lambda>(r, c'). returns (Value r, c'))"
| "nc_call T (Clear_at i) c = with_write c i (\<lambda>s. returns (Unit, clear_all T s))"
| "nc_call T (Retain_at i f) c = with_write c i (\<lambda>s. returns (Unit, snd (retain_locked T (unit_closure f) () s)))"
| "nc_call T (Alter_at i f) c = with_write c i (\<lambda>s. returns (Unit, alter_buckets T f (rt_iter T (raw_map s)) s))"
| "nc_call T (Shrink_at i) c =
     with_write c i (\<lambda>s. returns (Unit, map_shrink_to T (rt_len T (raw_map s)) (hasher c) s))"
| "nc_call T (Len_at i) c = with_read c i (\<lambda>s. returns (Count (shard_len T s), s))"
| "nc_call T (Visit_at i) c = with_read c i (\<lambda>s. returns (Pairs (shard_pairs T s), s))"

section \<open>A call is its section\<close>

definition run_section :: "('k, 'v, 't) table \<Rightarrow> ('k, 'v) call \<Rightarrow> usize \<Rightarrow> ('k, 't) NeoCache
    \<Rightarrow> (('k, 'v) answer \<times> ('k, 't) NeoCache) comp" where
  "run_section T call i c =
     comp_bind (call_body T (hasher c) call (shard_at c i)) (\<lambda>(a, s). returns (a, put_shard c i s))"

lemma get_locked_miss: "get_locked T h k s = (None, s') \<Longrightarrow> s' = s"
  by (auto simp: get_locked_def split: option.splits prod.splits)

lemma alter_section:
  assumes "quiet c" and "key_shard c k < length (shards c)"
  shows "nc_call T (Alter k f) c = run_section T (Alter k f) (key_shard c k) c"
proof -
  obtain b s where g: "get_locked T (hasher c) k (shard_at c (key_shard c k)) = (b, s)" by fastforce
  note st = quiet_nth [OF assms]
  note simps = run_section_def nc_alter_def nc_get_mut_def key_shard_eq yield_write_shard_def drop_write_guard_def
    Let_def st assms(2) g state_shuffle [OF assms(2)] put_state_0 [OF assms]
  show ?thesis
  proof (cases b)
    case None
    then have "put_shard c (key_shard c k) s = c" using get_locked_miss g put_shard_same by metis
    with None show ?thesis by (simp add: simps)
  next
    case (Some b')
    then show ?thesis
      by (simp add: simps ref_pair_def ref_write_def shard_at_put map_in_place_2_def put_shard_twice split_def)
  qed
qed

lemma or_insert_section:
  assumes "quiet c" and "key_shard c k < length (shards c)"
  shows "nc_call T (Or_insert k v) c = run_section T (Or_insert k v) (key_shard c k) c"
proof -
  obtain r t where f: "rt_find_or_find_insert_slot T (raw_map (shard_at c (key_shard c k))) (hasher c k) (key_eq k)
      (elem_hash (hasher c)) = (r, t)" by fastforce
  note st = quiet_nth [OF assms]
  note simps = run_section_def nc_entry_def find_entry_def key_shard_def [symmetric] hash_u64_def yield_write_shard_def
    drop_write_guard_def Let_def st assms(2) f state_shuffle [OF assms(2)] put_state_0 [OF assms]
    entry_or_insert_def ref_pair_def value_at_def bucket_pair_def shard_at_put
  show ?thesis
  proof (cases r)
    case (Ok b)
    then show ?thesis by (simp add: simps occ_into_ref_def split_def)
  next
    case (Err slot)
    show ?thesis
      by (simp add: simps Err vacant_insert_def put_shard_twice comp_bind_assoc split_def)
  qed
qed

lemma and_modify_section:
  assumes "quiet c" and "key_shard c k < length (shards c)"
  shows "nc_call T (And_modify k f) c = run_section T (And_modify k f) (key_shard c k) c"
proof -
  obtain r t where f: "rt_find_or_find_insert_slot T (raw_map (shard_at c (key_shard c k))) (hasher c k) (key_eq k)
      (elem_hash (hasher c)) = (r, t)" by fastforce
  note st = quiet_nth [OF assms]
  note simps = run_section_def nc_entry_def find_entry_def key_shard_def [symmetric] hash_u64_def yield_write_shard_def
    drop_write_guard_def Let_def st assms(2) f state_shuffle [OF assms(2)] put_state_0 [OF assms]
    entry_and_modify_def drop_entry_def occ_write_def occ_get_def occ_into_ref_def ref_write_def shard_at_put put_shard_twice
  show ?thesis by (cases r) (simp_all add: simps split_def)
qed

lemma lookup_section:
  assumes "quiet c" and "key_shard c k < length (shards c)"
  shows "nc_call T (Lookup k) c = run_section T (Lookup k) (key_shard c k) c"
proof -
  obtain b s where g: "get_locked T (hasher c) k (shard_at c (key_shard c k)) = (b, s)" by fastforce
  note st = quiet_nth [OF assms]
  note simps = run_section_def nc_view_def nc_get_def key_shard_eq yield_read_shard_def drop_read_guard_def
    Let_def st assms(2) g state_shuffle [OF assms(2)] put_state_0 [OF assms]
  show ?thesis
  proof (cases b)
    case None
    then have "put_shard c (key_shard c k) s = c" using get_locked_miss g put_shard_same by metis
    with None show ?thesis by (simp add: simps)
  next
    case (Some b')
    then show ?thesis
      by (simp add: simps ref_pair_def shard_at_put value_at_def bucket_pair_def split_def)
  qed
qed

lemma nc_call_section:
  assumes "quiet c" and i: "i = call_shard (key_shard c) call" "i < length (shards c)"
  shows "nc_call T call c = run_section T call i c"
proof (cases call)
  case (Alter k f)
  then show ?thesis using alter_section [OF assms(1)] i by simp
next
  case (Or_insert k v)
  then show ?thesis using or_insert_section [OF assms(1)] i by simp
next
  case (And_modify k f)
  then show ?thesis using and_modify_section [OF assms(1)] i by simp
next
  case (Lookup k)
  then show ?thesis using lookup_section [OF assms(1)] i by simp
qed (use i in \<open>simp_all add: run_section_def nc_insert_def nc_remove_def nc_remove_if_def nc_remove_if_mut_def
      key_shard_eq with_write_quiet [OF assms(1)] with_read_quiet [OF assms(1)] put_shard_same comp_bind_assoc split_def Let_def\<close>)

section \<open>The specification\<close>

text \<open>
  \<open>hm\<close> is the shard of a key. \<open>map_after\<close> is the content after a call on a map that loses
  nothing, \<open>map_answer\<close> the answers it may give (the order of the pairs of a shard is open),
  \<open>new_key\<close> the key the call adds.
\<close>

fun map_after :: "('k \<Rightarrow> usize) \<Rightarrow> ('k, 'v) call \<Rightarrow> ('k \<rightharpoonup> 'v) \<Rightarrow> 'k \<rightharpoonup> 'v" where
  "map_after hm (Insert k v) m = m(k \<mapsto> v)"
| "map_after hm (Remove k) m = m(k := None)"
| "map_after hm (Remove_if k p) m = (case m k of Some v \<Rightarrow> if p k v then m(k := None) else m | None \<Rightarrow> m)"
| "map_after hm (Remove_if_mut k p) m = (case m k of
     Some v \<Rightarrow> (case p k v of (True, v') \<Rightarrow> m(k := None) | (False, v') \<Rightarrow> m(k \<mapsto> v')) | None \<Rightarrow> m)"
| "map_after hm (Alter k f) m = m(k := map_option (f k) (m k))"
| "map_after hm (Or_insert k v) m = (case m k of None \<Rightarrow> m(k \<mapsto> v) | Some w \<Rightarrow> m)"
| "map_after hm (And_modify k f) m = m(k := map_option f (m k))"
| "map_after hm (Clear_at i) m = (\<lambda>k. if hm k = i then None else m k)"
| "map_after hm (Retain_at i f) m = (\<lambda>k. if hm k = i then retained f m k else m k)"
| "map_after hm (Alter_at i f) m = (\<lambda>k. if hm k = i then map_option (f k) (m k) else m k)"
| "map_after hm call m = m"

fun map_answer :: "('k \<Rightarrow> usize) \<Rightarrow> ('k, 'v) call \<Rightarrow> ('k \<rightharpoonup> 'v) \<Rightarrow> ('k, 'v) answer \<Rightarrow> bool" where
  "map_answer hm (Insert k v) m a \<longleftrightarrow> a = Value (m k)"
| "map_answer hm (Remove k) m a \<longleftrightarrow> a = Value (m k)"
| "map_answer hm (Remove_if k p) m a \<longleftrightarrow>
     a = Value (case m k of Some v \<Rightarrow> if p k v then Some v else None | None \<Rightarrow> None)"
| "map_answer hm (Remove_if_mut k p) m a \<longleftrightarrow> a = Value (case m k of
     Some v \<Rightarrow> (case p k v of (True, v') \<Rightarrow> Some v' | (False, v') \<Rightarrow> None) | None \<Rightarrow> None)"
| "map_answer hm (Or_insert k v) m a \<longleftrightarrow> a = Value (Some (case m k of None \<Rightarrow> v | Some w \<Rightarrow> w))"
| "map_answer hm (Lookup k) m a \<longleftrightarrow> a = Value (m k)"
| "map_answer hm (Len_at i) m a \<longleftrightarrow> a = Count (card {k \<in> dom m. hm k = i})"
| "map_answer hm (Visit_at i) m a \<longleftrightarrow> (\<exists>ps. a = Pairs ps \<and> distinct (map fst ps) \<and>
     (\<forall>k. map_of ps k = (if hm k = i then m k else None)))"
| "map_answer hm call m a \<longleftrightarrow> a = Unit"

fun new_key :: "('k, 'v) call \<Rightarrow> ('k \<rightharpoonup> 'v) \<Rightarrow> 'k option" where
  "new_key (Insert k v) m = (if m k = None then Some k else None)"
| "new_key (Or_insert k v) m = (if m k = None then Some k else None)"
| "new_key call m = None"

definition lossy_step :: "bool \<Rightarrow> ('k \<Rightarrow> usize) \<Rightarrow> ('k, 'v) call \<Rightarrow> ('k, 'v) answer \<Rightarrow> ('k \<rightharpoonup> 'v) \<Rightarrow> ('k \<rightharpoonup> 'v) \<Rightarrow> bool" where
  "lossy_step b hm call a m m' \<longleftrightarrow> map_answer hm call m a \<and>
     (m' = map_after hm call m \<or>
      b \<and> (\<exists>k j. new_key call m = Some k \<and> j \<noteq> k \<and> hm j = hm k \<and> m j \<noteq> None \<and> m' = (map_after hm call m)(j := None)))"

fun lossy_run :: "bool \<Rightarrow> ('k \<Rightarrow> usize) \<Rightarrow> (('k, 'v) call \<times> ('k, 'v) answer) list \<Rightarrow> ('k \<rightharpoonup> 'v) \<Rightarrow> ('k \<rightharpoonup> 'v) \<Rightarrow> bool" where
  "lossy_run b hm [] m m' \<longleftrightarrow> m' = m"
| "lossy_run b hm ((call, a) # es) m m' \<longleftrightarrow> (\<exists>m1. lossy_step b hm call a m m1 \<and> lossy_run b hm es m1 m')"

lemma map_after_dom: "dom (map_after hm call m) \<subseteq> dom m \<union> (case new_key call m of None \<Rightarrow> {} | Some k \<Rightarrow> {k})"
  by (cases call) (auto simp: retained_def split: option.splits prod.splits bool.splits if_splits)

lemma lossy_step_card:
  assumes "lossy_step b hm call a m m'" and "finite (dom m)"
  shows "finite (dom m') \<and> card (dom m') \<le> Suc (card (dom m))"
proof -
  obtain x where x: "dom (map_after hm call m) \<subseteq> insert x (dom m)"
    using map_after_dom [of hm call m] by (cases "new_key call m") auto
  have "dom m' \<subseteq> dom (map_after hm call m)" using assms(1) by (auto simp: lossy_step_def split: if_splits)
  with x have s: "dom m' \<subseteq> insert x (dom m)" by blast
  have "card (dom m') \<le> card (insert x (dom m))" by (rule card_mono [OF _ s]) (simp add: assms(2))
  also have "\<dots> \<le> Suc (card (dom m))" by (rule card_insert_le_m1) simp_all
  finally show ?thesis using finite_subset [OF s] assms(2) by simp
qed

lemma lossy_run_card:
  "lossy_run b hm es m m' \<Longrightarrow> finite (dom m) \<Longrightarrow> card (dom m') \<le> card (dom m) + length es"
proof (induction b hm es m m' rule: lossy_run.induct)
  case (2 b hm call a es m m')
  then obtain m1 where "lossy_step b hm call a m m1" "lossy_run b hm es m1 m'" by auto
  with lossy_step_card [OF this(1) "2.prems"(2)] "2.IH" [of m1] show ?case by auto
qed simp

section \<open>Every call implements it\<close>

text \<open>Altering every entry of a shard is retaining every entry with its new value.\<close>

lemma alter_buckets_retain:
  "alter_buckets T f bs s = snd (retain_buckets T (unit_closure (\<lambda>k v. (True, f k v))) bs () s)"
  by (induction bs arbitrary: s) (simp_all add: unit_closure_def Let_def split_def)

lemma alter_shard_retain:
  "alter_buckets T f (rt_iter T (raw_map s)) s = snd (retain_locked T (unit_closure (\<lambda>k v. (True, f k v))) () s)"
  by (simp add: alter_buckets_retain retain_locked_def)

context shard_table
begin

text \<open>A section of the whole shard \<open>i\<close> that keeps the invariant and adds no key.\<close>

lemma shard_section:
  assumes ok: "cache_ok T hash rt_wf c" and i: "i < length (shards c)"
    and s: "shard_inv T hash rt_wf s" "same_caps (shard_at c i) s"
      "shard_vals T s = m" "dom m \<subseteq> dom (shard_vals T (shard_at c i))"
  shows "cache_ok T hash rt_wf (put_shard c i s)"
    and "cache_vals T (put_shard c i s) = (\<lambda>k. if key_shard c k = i then m k else cache_vals T c k)"
proof -
  have "dom (shard_map T s) \<subseteq> dom (shard_map T (shard_at c i))"
    using s(4) by (simp add: s(3) [symmetric])
  then have "cache_inv T rt_wf (put_shard c i s)"
    using cache_okD(1,2) [OF ok] i s(1,2) by (intro cache_inv_put) (auto dest: subsetD)
  then show "cache_ok T hash rt_wf (put_shard c i s)" using ok by (simp add: cache_ok_def)
  show "cache_vals T (put_shard c i s) = (\<lambda>k. if key_shard c k = i then m k else cache_vals T c k)"
    using cache_vals_put [OF i, of T s] by (simp only: s(3))
qed

lemma shard_vals_cache:
  assumes ok: "cache_ok T hash rt_wf c" and i: "i < length (shards c)"
  shows "shard_vals T (shard_at c i) k = (if key_shard c k = i then cache_vals T c k else None)"
proof (cases "shard_vals T (shard_at c i) k")
  case (Some v)
  then obtain e where "shard_map T (shard_at c i) k = Some e" by (auto simp: shard_vals_def)
  then have "key_shard c k = i" using cache_inv_shard(3) [OF cache_okD(2) [OF ok] i] by blast
  with Some show ?thesis by (simp add: cache_vals_at)
qed (auto simp: cache_vals_at)

lemma retain_unit:
  assumes "shard_inv T hash rt_wf s"
  shows "shard_inv T hash rt_wf (snd (retain_locked T (unit_closure f) () s))"
    and "same_caps s (snd (retain_locked T (unit_closure f) () s))"
    and "shard_vals T (snd (retain_locked T (unit_closure f) () s)) = retained f (shard_vals T s)"
proof -
  have "case unit_closure f st k v of (keep, v', st') \<Rightarrow> (keep, v') = f k v" for st k v
    by (simp add: unit_closure_def split: prod.split)
  from retain_locked_spec [where f = "unit_closure f" and p = f and st = "()", OF assms this]
  show "shard_inv T hash rt_wf (snd (retain_locked T (unit_closure f) () s))"
    "same_caps s (snd (retain_locked T (unit_closure f) () s))"
    "shard_vals T (snd (retain_locked T (unit_closure f) () s)) = retained f (shard_vals T s)" by auto
qed

lemma dom_retained: "dom (retained f m) \<subseteq> dom m"
  by (auto simp: retained_def split: option.splits)

text \<open>The sections on all entries of one shard.\<close>

lemma bulk_call_spec:
  assumes ok: "cache_ok T hash rt_wf c" and i: "i < length (shards c)"
    and call: "call \<in> {Clear_at i, Retain_at i p, Alter_at i f, Shrink_at i}"
  shows "\<exists>c'. run_section T call i c = returns (Unit, c') \<and> cache_ok T hash rt_wf c' \<and> same_config c c' \<and>
    cache_vals T c' = map_after (key_shard c) call (cache_vals T c)"
proof -
  note inv = cache_inv_shard(1) [OF cache_okD(2) [OF ok] i, unfolded cache_okD(1) [OF ok]]
  let ?v = "shard_vals T (shard_at c i)"
  obtain s m where s: "call_body T hash call (shard_at c i) = returns (Unit, s)" "shard_inv T hash rt_wf s"
      "same_caps (shard_at c i) s" "shard_vals T s = m" "dom m \<subseteq> dom ?v"
    and m: "\<And>k. key_shard c k = i \<Longrightarrow> m k = map_after (key_shard c) call (cache_vals T c) k"
  proof -
    have v: "?v k = cache_vals T c k" if "key_shard c k = i" for k
      using that shard_vals_cache [OF ok i] by simp
    consider "call = Clear_at i" | "call = Retain_at i p" | "call = Alter_at i f" | "call = Shrink_at i" using call by blast
    then show thesis
    proof cases
      case 1
      note cl = clear_all_spec [OF inv]
      show thesis by (rule that [of "clear_all T (shard_at c i)" Map.empty]) (use cl 1 in \<open>auto simp: shard_vals_def\<close>)
    next
      case 2
      show thesis by (rule that [OF _ retain_unit [OF inv, of p] dom_retained]) (simp_all add: 2 v retained_def)
    next
      case 3
      show thesis
        by (rule that [OF _ retain_unit [OF inv, of "\<lambda>k v. (True, f k v)"] dom_retained])
          (simp_all add: 3 alter_shard_retain v retained_def split: option.split)
    next
      case 4
      note sh = map_shrink_to_spec [OF inv, of "rt_len T (raw_map (shard_at c i))"]
      show thesis by (rule that [OF _ sh(1,2), of ?v]) (use sh(3) 4 v in \<open>simp_all add: shard_vals_def\<close>)
    qed
  qed
  note w = shard_section [OF ok i s(2-5)]
  have "m k = map_after (key_shard c) call (cache_vals T c) k \<or> key_shard c k \<noteq> i" for k using m by blast
  moreover have "map_after (key_shard c) call (cache_vals T c) k = cache_vals T c k" if "key_shard c k \<noteq> i" for k
    using that call by auto
  ultimately have "cache_vals T (put_shard c i s) = map_after (key_shard c) call (cache_vals T c)"
    using w(2) by (auto simp: fun_eq_iff)
  with w(1) s(1) show ?thesis by (simp add: run_section_def cache_okD(1) [OF ok])
qed

text \<open>Inserting a key, by either method.\<close>

lemma room_small_live:
  assumes "cache_ok T hash rt_wf c" and "nc_room T (Suc 0) c" and "cache_capacity c = 0"
  shows "small_live (home c k) < usize_max"
  using unbounded_room [OF assms(1,3), of k] assms(2,3) by (simp add: nc_room_def)

lemma lossy_insert:
  assumes ok: "cache_ok T hash rt_wf c" and room: "nc_room T (Suc 0) c"
  shows "\<exists>c'. nc_insert T c k v = returns (cache_vals T c k, c') \<and> cache_ok T hash rt_wf c' \<and> same_config c c' \<and>
    lossy_step (0 < cache_capacity c) (key_shard c) (Insert k v) (Value (cache_vals T c k)) (cache_vals T c) (cache_vals T c')"
proof (cases "cache_map T c k")
  case None
  then have abs: "cache_vals T c k = None" by (simp add: cache_map_def cache_vals_def shard_vals_def)
  with nc_insert_absent [OF ok abs room_small_live [OF ok room], of v] obtain c' vict where
    c': "nc_insert T c k v = returns (None, c')" "cache_ok T hash rt_wf c'" "same_config c c'"
      "case vict of None \<Rightarrow> cache_vals T c' = (cache_vals T c)(k \<mapsto> v)
       | Some j \<Rightarrow> j \<noteq> k \<and> key_shard c j = key_shard c k \<and> cache_vals T c j \<noteq> None \<and>
         cache_vals T c' = (cache_vals T c)(j := None, k \<mapsto> v)"
      "vict = None \<longleftrightarrow> \<not> shard_full (home c k)"
    by auto
  have "vict = None" if "cache_capacity c = 0"
    using c'(5) home_okD(3) [OF ok, of k] that by (simp add: shard_full_def per_shard_cap_def)
  then have "lossy_step (0 < cache_capacity c) (key_shard c) (Insert k v) (Value None) (cache_vals T c) (cache_vals T c')"
    using c'(4) abs by (cases vict) (auto simp: lossy_step_def intro!: exI fun_upd_twist)
  with c'(1-3) abs show ?thesis by simp
next
  case (Some e)
  then have "cache_vals T c k = Some (entry_val e)"
    by (simp add: cache_map_def cache_vals_def shard_vals_def)
  with nc_insert_present [OF ok Some, of v] show ?thesis by (auto simp: lossy_step_def)
qed

lemma vacant_or_insert:
  assumes ok: "cache_ok T hash rt_wf c" and room: "nc_room T (Suc 0) c" and abs: "cache_map T c k = None"
  shows "\<exists>c'. nc_call T (Or_insert k v) c = returns (Value (Some v), c') \<and> nc_insert T c k v = returns (None, c')"
proof -
  obtain slot s where en: "nc_entry T c k = returns (Vacant \<lparr>ve_shard = key_shard c k, ve_key = k, ve_hash = hash k,
        ve_slot = slot\<rparr>, hit_state c k ONE_WRITER s)"
      "nc_insert T c k v = comp_bind (insert_new T (hash k) k slot v s) (\<lambda>(b, s'). returns (None, put_shard c (key_shard c k) s'))"
      "shard_inv T hash rt_wf s" "shard_map T s k = None" "slot_ok (raw_map s) (hash k) slot"
      "shard_cap s = shard_cap (home c k)" "small_live s = small_live (home c k)"
    by (rule nc_entry_vacant [OF ok abs, of v])
  have "small_live s < usize_max" if "shard_cap s = 0"
    using en(6,7) home_okD(3) [OF ok, of k] that room_small_live [OF ok room, of k] by (auto simp: per_shard_cap_def split: if_splits)
  then obtain b s' where n: "insert_new T (hash k) k slot v s = returns (b, s')"
      "rt_as_ref T (raw_map s') b = (k, the (shard_map T s' k))"
      "\<exists>l. shard_map T s' k = Some (CacheEntry_new v l)"
    using insert_new_total [OF en(3-5), of v] by auto
  have hit: "put_shard (hit_state c k ONE_WRITER s) (key_shard c k) s' = hit_state c k ONE_WRITER s'"
    by (rule put_shard_twice)
  have "snd (ref_pair T (hit_state c k ONE_WRITER s') \<lparr>ref_shard = key_shard c k, ref_bucket = b\<rparr>) = v"
    using n(2,3) by (auto simp: ref_pair_def hit_state_facts [OF ok] CacheEntry_new_def)
  then have "nc_call T (Or_insert k v) c = returns (Value (Some v), put_shard c (key_shard c k) s')"
    using n(1) by (simp add: en(1) entry_or_insert_def vacant_insert_def hit_state_facts [OF ok] hit drop_hit_guard [OF ok])
  moreover have "nc_insert T c k v = returns (None, put_shard c (key_shard c k) s')" using en(2) n(1) by simp
  ultimately show ?thesis by blast
qed

lemma lossy_or_insert:
  assumes ok: "cache_ok T hash rt_wf c" and room: "nc_room T (Suc 0) c"
  shows "\<exists>a c'. nc_call T (Or_insert k v) c = returns (a, c') \<and> cache_ok T hash rt_wf c' \<and> same_config c c' \<and>
    lossy_step (0 < cache_capacity c) (key_shard c) (Or_insert k v) a (cache_vals T c) (cache_vals T c')"
proof (cases "cache_map T c k")
  case None
  then have abs: "cache_vals T c k = None" by (simp add: cache_map_def cache_vals_def shard_vals_def)
  have "lossy_step (0 < cache_capacity c) (key_shard c) (Or_insert k v) (Value (Some v)) (cache_vals T c) m' \<longleftrightarrow>
      lossy_step (0 < cache_capacity c) (key_shard c) (Insert k v) (Value None) (cache_vals T c) m'" for m'
    by (simp add: lossy_step_def abs)
  with vacant_or_insert [OF ok room None, of v] lossy_insert [OF ok room, of k v] abs show ?thesis
    by (auto simp del: nc_call.simps)
next
  case (Some e)
  then have v: "cache_vals T c k = Some (entry_val e)"
    by (simp add: cache_map_def cache_vals_def shard_vals_def)
  obtain oe s where en: "nc_entry T c k = returns (Occupied oe, hit_state c k ONE_WRITER s)"
      "occupied_at T c k e s oe" "cache_ok T hash rt_wf (put_shard c (key_shard c k) s)"
      "cache_map T (put_shard c (key_shard c k) s) = cache_map T c"
    by (rule nc_entry_occupied [OF ok Some])
  have vals: "cache_vals T (put_shard c (key_shard c k) s) = cache_vals T c"
    using en(4) by (simp add: cache_map_def cache_vals_def shard_vals_def fun_eq_iff)
  have "nc_call T (Or_insert k v) c = returns (Value (Some (entry_val e)), put_shard c (key_shard c k) s)"
    by (simp add: en(1) entry_or_insert_def occ_get_hit [OF ok en(2)] drop_hit_guard [OF ok])
  with en(3) vals v show ?thesis by (simp add: lossy_step_def)
qed

lemma lossy_and_modify:
  assumes ok: "cache_ok T hash rt_wf c"
  shows "\<exists>c'. run_section T (And_modify k f) (key_shard c k) c = returns (Unit, c') \<and> cache_ok T hash rt_wf c' \<and> same_config c c' \<and>
    cache_vals T c' = (cache_vals T c)(k := map_option f (cache_vals T c k))"
proof -
  let ?s = "shard_at c (key_shard c k)"
  have i: "key_shard c k < length (shards c)" by (rule home_okD(1) [OF ok])
  note inv = home_okD(2) [OF ok, of k, unfolded home_def] and h = cache_okD(1) [OF ok]
  obtain r t where fs: "rt_find_or_find_insert_slot T (raw_map ?s) (hash k) (key_eq k) (elem_hash hash) = (r, t)" by fastforce
  note wf = inv_tab(1,2) [OF inv]
  note f' = find_or_slot_lookup [OF wf fs]
  obtain s' where s': "call_body T hash (And_modify k f) ?s = returns (Unit, s')" "shard_inv T hash rt_wf s'" "same_caps ?s s'"
    "shard_vals T s' = (shard_vals T ?s)(k := map_option f (shard_vals T ?s k))"
  proof (cases "shard_map T ?s k")
    case None
    then obtain slot where "r = Err slot"
      using find_or_slot_cases [OF wf fs] by (cases r) (auto simp: shard_map_def)
    moreover have "shard_inv T hash rt_wf (?s\<lparr>raw_map := t\<rparr>)"
      using inv f' by (intro shard_inv_rehash) (simp_all add: shard_map_def)
    ultimately show thesis
      using None f'(3) fs by (intro that [of "?s\<lparr>raw_map := t\<rparr>"]) (simp_all add: same_caps_def shard_vals_def shard_map_def fun_eq_iff)
  next
    case (Some e)
    then obtain b where r: "r = Ok b"
      using find_or_slot_cases [OF wf fs] by (cases r) (auto simp: shard_map_def)
    have b: "rt_as_ref T t b = (k, e)"
      using find_or_slot_Ok_lookup [OF wf fs [unfolded r]] Some by (auto simp: shard_map_def)
    obtain s1 where s1: "insert_locked T hash k (f (entry_val e)) ?s = returns (Some (entry_val e), s1)" "shard_inv T hash rt_wf s1"
        "same_caps ?s s1" "shard_map T s1 = (shard_map T ?s)(k \<mapsto> e\<lparr>entry_value := sv_new (f (entry_val e))\<rparr>)"
      using insert_locked_present [OF inv Some] by blast
    have "call_body T hash (And_modify k f) ?s = returns (Unit, s1)"
      using s1(1) fs r b by (simp add: insert_locked_def entry_val_def)
    with s1 Some show thesis by (intro that [of s1]) (simp_all add: shard_vals_def fun_eq_iff entry_val_def)
  qed
  have "dom (shard_vals T s') \<subseteq> dom (shard_vals T ?s)" by (auto simp: s'(4) dom_def split: if_splits)
  note w = shard_section [OF ok i s'(2,3) refl this]
  have "cache_vals T (put_shard c (key_shard c k) s') = (cache_vals T c)(k := map_option f (cache_vals T c k))"
    unfolding w(2) s'(4) using shard_vals_cache [OF ok i] by (auto simp: fun_eq_iff)
  with w(1) s'(1) h show ?thesis by (simp add: run_section_def del: call_body.simps)
qed

text \<open>The sections that only read a shard.\<close>

lemma count_call_spec:
  assumes ok: "cache_ok T hash rt_wf c" and i: "i < length (shards c)"
  shows "run_section T (Len_at i) i c = returns (Count (card {k \<in> dom (cache_vals T c). key_shard c k = i}), c)"
proof -
  note inv = cache_inv_shard(1) [OF cache_okD(2) [OF ok] i, unfolded cache_okD(1) [OF ok]]
  have "dom (shard_map T (shard_at c i)) = {k \<in> dom (cache_vals T c). key_shard c k = i}"
    using shard_vals_cache [OF ok i] by (auto simp flip: dom_shard_vals split: if_splits)
  then show ?thesis by (simp add: run_section_def shard_len_card [OF inv] put_shard_same)
qed

lemma visit_call_spec:
  assumes ok: "cache_ok T hash rt_wf c" and i: "i < length (shards c)"
  shows "run_section T (Visit_at i) i c = returns (Pairs (shard_pairs T (shard_at c i)), c)"
    and "distinct (map fst (shard_pairs T (shard_at c i)))"
    and "map_of (shard_pairs T (shard_at c i)) k = (if key_shard c k = i then cache_vals T c k else None)"
proof -
  note inv = cache_inv_shard(1) [OF cache_okD(2) [OF ok] i, unfolded cache_okD(1) [OF ok]]
  show "run_section T (Visit_at i) i c = returns (Pairs (shard_pairs T (shard_at c i)), c)"
    by (simp add: run_section_def put_shard_same)
  show "distinct (map fst (shard_pairs T (shard_at c i)))"
    using inv_tab(2) [OF inv] by (simp add: fst_shard_pairs rt_keys_distinct_def)
  show "map_of (shard_pairs T (shard_at c i)) k = (if key_shard c k = i then cache_vals T c k else None)"
    by (simp add: map_of_shard_pairs shard_vals_cache [OF ok i])
qed

text \<open>The single step of the refinement: a call returns and is a step of the specification.\<close>

lemma nc_call_lossy:
  assumes ok: "cache_ok T hash rt_wf c" and room: "nc_room T (Suc 0) c"
    and i: "call_shard (key_shard c) call < length (shards c)"
  shows "\<exists>a c'. nc_call T call c = returns (a, c') \<and> cache_ok T hash rt_wf c' \<and> same_config c c' \<and>
    lossy_step (0 < cache_capacity c) (key_shard c) call a (cache_vals T c) (cache_vals T c')"
proof -
  note sec = nc_call_section [OF cache_okD(3) [OF ok] refl i]
  have bulk: ?thesis if "call \<in> {Clear_at j, Retain_at j p, Alter_at j f, Shrink_at j}" for j p f
  proof -
    have j: "call_shard (key_shard c) call = j" and a: "map_answer (key_shard c) call (cache_vals T c) Unit"
      using that by auto
    from bulk_call_spec [OF ok i [unfolded j] that] obtain c' where c': "nc_call T call c = returns (Unit, c')"
        "cache_ok T hash rt_wf c'" "same_config c c'"
        "cache_vals T c' = map_after (key_shard c) call (cache_vals T c)"
      using sec [of T] unfolding j by auto
    with a show ?thesis by (intro exI [of _ Unit] exI [of _ c']) (simp add: lossy_step_def)
  qed
  show ?thesis
  proof (cases call)
    case (Insert k v)
    then show ?thesis using lossy_insert [OF ok room, of k v] by auto
  next
    case (Remove k)
    then show ?thesis
      using nc_remove_spec [OF ok, of k] by (auto simp: lossy_step_def option.map_comp comp_def option.map_ident)
  next
    case (Remove_if k p)
    then show ?thesis
      using nc_remove_if_spec [OF ok, of k p] by (auto simp: lossy_step_def split: option.splits if_splits)
  next
    case (Remove_if_mut k p)
    then show ?thesis
      using nc_remove_if_mut_spec [OF ok, of k p]
      by (auto simp: lossy_step_def split: option.splits prod.splits bool.splits)
  next
    case (Alter k f)
    then show ?thesis
      using nc_alter_spec [OF ok, of k "\<lambda>k v. Return (f k v)"] ok
      by (cases "cache_vals T c k") (auto simp: lossy_step_def fun_upd_idem)
  next
    case (Or_insert k v)
    then show ?thesis using lossy_or_insert [OF ok room, of k v] by (simp only:)
  next
    case (And_modify k f)
    then show ?thesis using lossy_and_modify [OF ok, of k f] sec [of T] by (auto simp: lossy_step_def simp del: nc_call.simps)
  next
    case (Lookup k)
    then show ?thesis
      using nc_view_spec [OF ok, of k "\<lambda>_ v. v"] by (auto simp: lossy_step_def option.map_ident)
  next
    case (Len_at i)
    then show ?thesis using sec count_call_spec [OF ok] i ok by (auto simp: lossy_step_def)
  next
    case (Visit_at i)
    then show ?thesis using sec visit_call_spec [OF ok] i ok by (auto simp: lossy_step_def)
  next
    case (Clear_at i)
    then show ?thesis using bulk by blast
  next
    case (Retain_at i p)
    then show ?thesis using bulk by blast
  next
    case (Alter_at i f)
    then show ?thesis using bulk by blast
  next
    case (Shrink_at i)
    then show ?thesis using bulk by blast
  qed
qed

end

end
