(* ===== verification/Shared_Iter.thy ===== *)
theory Shared_Iter
  imports Neo_Iter
begin

text \<open>
  Iterators whose references outlive the next call. \<open>src/iter.rs\<close> shares the guard of a shard
  through an \<open>Arc\<close> between the iterator and every \<open>RefMulti\<close> or \<open>RefMutMulti\<close>
  (\<open>src/mapref/multiple.rs\<close>) it yields from that shard; the lock is released when the last
  clone goes. Here references may be kept, moved to other threads and dropped in any order, as
  \<open>into_par_iter\<close> of \<open>src/rayon_impl.rs\<close> lets a pool of threads do: \<open>par_bridge\<close> hands the items
  of one \<open>Iter\<close> to the threads, one call of \<open>next\<close> at a time.
\<close>

datatype guard_kind = Read_guard | Write_guard

fun yield_shard :: "guard_kind \<Rightarrow> ('k, 't) NeoCache \<Rightarrow> usize \<Rightarrow> ('k, 't) NeoCache comp" where
  "yield_shard Read_guard c i = yield_read_shard c i"
| "yield_shard Write_guard c i = yield_write_shard c i"

fun drop_guard :: "guard_kind \<Rightarrow> ('k, 't) NeoCache \<Rightarrow> usize \<Rightarrow> ('k, 't) NeoCache run" where
  "drop_guard Read_guard c i = Return (drop_read_guard c i)"
| "drop_guard Write_guard c i = drop_write_guard c i"

text \<open>\<open>ai_arcs\<close> is the strong count of the \<open>Arc\<close> around each shard's guard.\<close>

record ('k, 't) ArcIter =
  ai_cache :: "('k, 't) NeoCache"
  ai_shard_i :: usize
  ai_current :: "(usize \<times> nat list) option"
  ai_arcs :: "usize \<Rightarrow> nat"

definition ArcIter_new :: "('k, 't) NeoCache \<Rightarrow> ('k, 't) ArcIter" where
  "ArcIter_new c = \<lparr>ai_cache = c, ai_shard_i = 0, ai_current = None, ai_arcs = (\<lambda>_. 0)\<rparr>"

definition arc_clone :: "usize \<Rightarrow> ('k, 't) ArcIter \<Rightarrow> ('k, 't) ArcIter" where
  "arc_clone i x = x\<lparr>ai_arcs := (ai_arcs x)(i := ai_arcs x i + 1)\<rparr>"

definition arc_drop :: "guard_kind \<Rightarrow> usize \<Rightarrow> ('k, 't) ArcIter \<Rightarrow> ('k, 't) ArcIter run" where
  "arc_drop g i x = (let x' = x\<lparr>ai_arcs := (ai_arcs x)(i := ai_arcs x i - 1)\<rparr>
     in if ai_arcs x' i = 0 then run_bind (drop_guard g (ai_cache x) i) (\<lambda>c. Return (x'\<lparr>ai_cache := c\<rparr>))
        else Return x')"

fun arc_drop_current :: "guard_kind \<Rightarrow> ('k, 't) ArcIter \<Rightarrow> (usize \<times> nat list) option \<Rightarrow> ('k, 't) ArcIter run" where
  "arc_drop_current g x None = Return x"
| "arc_drop_current g x (Some (i, bs)) = arc_drop g i x"

definition multi_new :: "usize \<Rightarrow> nat \<Rightarrow> Ref" where
  "multi_new i b = \<lparr>ref_shard = i, ref_bucket = b\<rparr>"

partial_function (option) arc_next :: "guard_kind \<Rightarrow> ('k, 'v, 't) table \<Rightarrow> ('k, 't) ArcIter
    \<Rightarrow> (Ref option \<times> ('k, 't) ArcIter) comp" where
  "arc_next g T x = (case ai_current x of
     Some (i, b # bs) \<Rightarrow> returns (Some (multi_new i b), arc_clone i (x\<lparr>ai_current := Some (i, bs)\<rparr>))
   | _ \<Rightarrow>
       if ai_shard_i x = shard_count (ai_cache x) then returns (None, x)
       else (case yield_shard g (ai_cache x) (ai_shard_i x) of
           None \<Rightarrow> None
         | Some (Panic p) \<Rightarrow> Some (Panic p)
         | Some (Return c1) \<Rightarrow>
             (case arc_drop_current g
                     (x\<lparr>ai_cache := c1, ai_shard_i := ai_shard_i x + 1,
                       ai_current := Some (ai_shard_i x, rt_iter T (raw_map (shard_at c1 (ai_shard_i x)))),
                       ai_arcs := (ai_arcs x)(ai_shard_i x := 1)\<rparr>)
                     (ai_current x) of
                Panic p \<Rightarrow> Some (Panic p)
              | Return x' \<Rightarrow> arc_next g T x')))"

declare arc_next.simps [code]

text \<open>\<open>RefMulti\<close> and \<open>RefMutMulti\<close>: the methods, and dropping one.\<close>

definition multi_pair :: "('k, 'v, 't) table \<Rightarrow> ('k, 't) ArcIter \<Rightarrow> Ref \<Rightarrow> 'k \<times> 'v" where
  "multi_pair T x r = ref_pair T (ai_cache x) r"

definition multi_key :: "('k, 'v, 't) table \<Rightarrow> ('k, 't) ArcIter \<Rightarrow> Ref \<Rightarrow> 'k" where
  "multi_key T x r = fst (multi_pair T x r)"

definition multi_value :: "('k, 'v, 't) table \<Rightarrow> ('k, 't) ArcIter \<Rightarrow> Ref \<Rightarrow> 'v" where
  "multi_value T x r = snd (multi_pair T x r)"

definition multi_pair_mut :: "('k, 'v, 't) table \<Rightarrow> ('k, 't) ArcIter \<Rightarrow> Ref \<Rightarrow> ('k \<Rightarrow> 'v \<Rightarrow> 'v) \<Rightarrow> ('k, 't) ArcIter" where
  "multi_pair_mut T x r f =
     (let (k, v) = multi_pair T x r in x\<lparr>ai_cache := ref_write T (ai_cache x) r (f k v)\<rparr>)"

definition multi_value_mut :: "('k, 'v, 't) table \<Rightarrow> ('k, 't) ArcIter \<Rightarrow> Ref \<Rightarrow> ('v \<Rightarrow> 'v) \<Rightarrow> ('k, 't) ArcIter" where
  "multi_value_mut T x r f = multi_pair_mut T x r (\<lambda>_. f)"

definition multi_drop :: "guard_kind \<Rightarrow> Ref \<Rightarrow> ('k, 't) ArcIter \<Rightarrow> ('k, 't) ArcIter run" where
  "multi_drop g r x = arc_drop g (ref_shard r) x"

text \<open>
  A schedule of an iteration: calls of \<open>next\<close>, uses and drops of the references that are
  alive, and at some point the drop of the iterator itself.
\<close>

record ('k, 'v, 't) iteration =
  iter :: "('k, 't) ArcIter"
  alive :: "Ref list"
  yielded :: "Ref list"
  stored :: "Ref \<Rightarrow> 'v option"
  is_open :: bool
  ended :: bool

definition iteration_of :: "('k, 't) NeoCache \<Rightarrow> ('k, 'v, 't) iteration" where
  "iteration_of c = \<lparr>iter = ArcIter_new c, alive = [], yielded = [], stored = (\<lambda>_. None), is_open = True, ended = False\<rparr>"

inductive iter_step :: "guard_kind \<Rightarrow> ('k, 'v, 't) table \<Rightarrow> ('k, 'v, 't) iteration \<Rightarrow> ('k, 'v, 't) iteration \<Rightarrow> bool"
  for g T where
  item: "is_open s \<Longrightarrow> arc_next g T (iter s) = returns (Some r, x) \<Longrightarrow>
    iter_step g T s (s\<lparr>iter := x, alive := r # alive s, yielded := yielded s @ [r]\<rparr>)"
| no_item: "is_open s \<Longrightarrow> arc_next g T (iter s) = returns (None, x) \<Longrightarrow>
    iter_step g T s (s\<lparr>iter := x, ended := True\<rparr>)"
| store: "r \<in> set (alive s) \<Longrightarrow> g = Write_guard \<Longrightarrow>
    iter_step g T s (s\<lparr>iter := multi_value_mut T (iter s) r (\<lambda>_. v), stored := (stored s)(r \<mapsto> v)\<rparr>)"
| drop_ref: "r \<in> set (alive s) \<Longrightarrow> multi_drop g r (iter s) = Return x \<Longrightarrow>
    iter_step g T s (s\<lparr>iter := x, alive := remove1 r (alive s)\<rparr>)"
| drop_iter: "is_open s \<Longrightarrow> arc_drop_current g ((iter s)\<lparr>ai_current := None\<rparr>) (ai_current (iter s)) = Return x \<Longrightarrow>
    iter_step g T s (s\<lparr>iter := x, is_open := False\<rparr>)"

inductive iterates :: "guard_kind \<Rightarrow> ('k, 'v, 't) table \<Rightarrow> ('k, 't) NeoCache \<Rightarrow> ('k, 'v, 't) iteration \<Rightarrow> bool"
  for g T c where
  start: "iterates g T c (iteration_of c)"
| step: "iterates g T c s \<Longrightarrow> iter_step g T s s' \<Longrightarrow> iterates g T c s'"

end
