(* ===== verification/Concurrent_Cache.thy ===== *)
theory Concurrent_Cache
  imports Shard_Calls Shared_Iter Lock_Wakeup
begin

text \<open>
  Threads that share one cache. A thread runs a list of actions: take a guard on a shard, run
  the section of a call under it (theory \<open>Shard_Calls\<close>), downgrade a write guard, drop a guard.
  It may hold several guards, as an iterator does between two shards or a caller that keeps a
  \<open>Ref\<close>. The steps of different threads interleave freely, and a thread that cannot take a
  lock waits. A section that writes reads the shard in one step and stores its result in
  another, so an update by anybody else in between would be lost; a lookup bumps the
  frequency, and reads the value through its \<open>Ref\<close> at a later step; an iteration reads the pairs of a
  shard one step at a time. \<open>effects\<close> records the calls in the order they took effect.
\<close>

datatype ('k, 'v) action =
    Acquire guard_kind usize
  | Do "('k, 'v) call"
  | Downgrade usize
  | Release usize

datatype ('k, 'v, 't) phase =
    Ready
  | Writing "('k, 'v) call" "('k, 't) ShardData"
  | Found 'k "nat option"
  | Visiting usize "nat list" "('k \<times> 'v) list"

record ('k, 'v, 't) worker =
  todo :: "('k, 'v) action list"
  held :: "usize \<rightharpoonup> guard_kind"
  phase :: "('k, 'v, 't) phase"
  answers :: "('k, 'v) answer list"

record ('k, 'v, 't, 'w) concurrent =
  cache :: "('k, 't) NeoCache"
  workers :: "'w \<Rightarrow> ('k, 'v, 't) worker"
  effects :: "('w \<times> ('k, 'v) call \<times> ('k, 'v) answer) list"

definition moved :: "('k, 'v, 't, 'w) concurrent \<Rightarrow> 'w \<Rightarrow> ('k, 't) NeoCache \<Rightarrow> ('k, 'v, 't) worker
    \<Rightarrow> (('k, 'v) call \<times> ('k, 'v) answer) list \<Rightarrow> ('k, 'v, 't, 'w) concurrent" where
  "moved S w c x es = \<lparr>cache = c, workers = (workers S)(w := x), effects = effects S @ map (Pair w) es\<rparr>"

text \<open>The value behind the reference that a lookup of \<open>k\<close> got, if any.\<close>

definition found_value :: "('k, 'v, 't) table \<Rightarrow> ('k, 't) NeoCache \<Rightarrow> 'k \<Rightarrow> nat option \<Rightarrow> 'v option" where
  "found_value T c k b = map_option (value_at T (shard_at c (key_shard c k))) b"

inductive call_step :: "('k, 'v, 't) table \<Rightarrow> 'w \<Rightarrow> ('k, 'v, 't, 'w) concurrent \<Rightarrow> ('k, 'v, 't, 'w) concurrent \<Rightarrow> bool"
  for T where
  acquire: "x = workers S w \<Longrightarrow> phase x = Ready \<Longrightarrow> todo x = Acquire g i # rest \<Longrightarrow>
    yield_shard g (cache S) i = returns c \<Longrightarrow>
    call_step T w S (moved S w c (x\<lparr>todo := rest, held := (held x)(i \<mapsto> g)\<rparr>) [])"
| release: "x = workers S w \<Longrightarrow> phase x = Ready \<Longrightarrow> todo x = Release i # rest \<Longrightarrow> held x i = Some g \<Longrightarrow>
    drop_guard g (cache S) i = Return c \<Longrightarrow>
    call_step T w S (moved S w c (x\<lparr>todo := rest, held := (held x)(i := None)\<rparr>) [])"
| downgrade: "x = workers S w \<Longrightarrow> phase x = Ready \<Longrightarrow> todo x = Downgrade i # rest \<Longrightarrow>
    c = put_state (cache S) i (fst (downgrade (rw_state (shards (cache S) ! i)))) \<Longrightarrow>
    call_step T w S (moved S w c (x\<lparr>todo := rest, held := (held x)(i \<mapsto> Read_guard)\<rparr>) [])"
| begin_write: "x = workers S w \<Longrightarrow> phase x = Ready \<Longrightarrow> todo x = Do call # rest \<Longrightarrow> writes call \<Longrightarrow>
    i = call_shard (key_shard (cache S)) call \<Longrightarrow>
    call_step T w S (moved S w (cache S) (x\<lparr>todo := rest, phase := Writing call (shard_at (cache S) i)\<rparr>) [])"
| end_write: "x = workers S w \<Longrightarrow> phase x = Writing call s \<Longrightarrow>
    call_body T (hasher (cache S)) call s = returns (a, s') \<Longrightarrow> i = call_shard (key_shard (cache S)) call \<Longrightarrow>
    call_step T w S (moved S w (put_shard (cache S) i s') (x\<lparr>phase := Ready, answers := answers x @ [a]\<rparr>) [(call, a)])"
| look: "x = workers S w \<Longrightarrow> phase x = Ready \<Longrightarrow> todo x = Do (Lookup k) # rest \<Longrightarrow> i = key_shard (cache S) k \<Longrightarrow>
    get_locked T (hasher (cache S)) k (shard_at (cache S) i) = (b, s) \<Longrightarrow>
    call_step T w S (moved S w (put_shard (cache S) i s) (x\<lparr>todo := rest, phase := Found k b\<rparr>)
      [(Lookup k, Value (map_option (value_at T s) b))])"
| read: "x = workers S w \<Longrightarrow> phase x = Found k b \<Longrightarrow>
    call_step T w S (moved S w (cache S)
      (x\<lparr>phase := Ready, answers := answers x @ [Value (found_value T (cache S) k b)]\<rparr>) [])"
| count: "x = workers S w \<Longrightarrow> phase x = Ready \<Longrightarrow> todo x = Do (Len_at i) # rest \<Longrightarrow>
    a = Count (shard_len T (shard_at (cache S) i)) \<Longrightarrow>
    call_step T w S (moved S w (cache S) (x\<lparr>todo := rest, answers := answers x @ [a]\<rparr>) [(Len_at i, a)])"
| begin_visit: "x = workers S w \<Longrightarrow> phase x = Ready \<Longrightarrow> todo x = Do (Visit_at i) # rest \<Longrightarrow>
    s = shard_at (cache S) i \<Longrightarrow>
    call_step T w S (moved S w (cache S) (x\<lparr>todo := rest, phase := Visiting i (rt_iter T (raw_map s)) []\<rparr>)
      [(Visit_at i, Pairs (shard_pairs T s))])"
| visit: "x = workers S w \<Longrightarrow> phase x = Visiting i (b # bs) ps \<Longrightarrow>
    call_step T w S (moved S w (cache S) (x\<lparr>phase := Visiting i bs (ps @ [bucket_pair T (shard_at (cache S) i) b])\<rparr>) [])"
| end_visit: "x = workers S w \<Longrightarrow> phase x = Visiting i [] ps \<Longrightarrow>
    call_step T w S (moved S w (cache S) (x\<lparr>phase := Ready, answers := answers x @ [Pairs ps]\<rparr>) [])"

inductive_cases call_stepE: "call_step T w S S'"

definition started :: "('k, 't) NeoCache \<Rightarrow> ('w \<Rightarrow> ('k, 'v) action list) \<Rightarrow> ('k, 'v, 't, 'w) concurrent" where
  "started c progs = \<lparr>cache = c,
     workers = (\<lambda>w. \<lparr>todo = progs w, held = Map.empty, phase = Ready, answers = []\<rparr>), effects = []\<rparr>"

inductive runs_to :: "('k, 'v, 't) table \<Rightarrow> ('k, 'v, 't, 'w) concurrent \<Rightarrow> ('k, 'v, 't, 'w) concurrent \<Rightarrow> bool"
  for T S where
  start: "runs_to T S S"
| step: "runs_to T S S' \<Longrightarrow> call_step T w S' S'' \<Longrightarrow> runs_to T S S''"

section \<open>Disciplined programs\<close>

text \<open>
  What the borrow checker and the \<open>unsafe\<close> contracts ensure: a section runs under a guard of
  its shard, a write guard if it writes, every guard is dropped once, and no thread takes a
  second guard on a shard it holds (the source warns that this may deadlock).
\<close>

fun may_do :: "guard_kind option \<Rightarrow> ('k, 'v) call \<Rightarrow> bool" where
  "may_do None call = False"
| "may_do (Some Read_guard) call = (\<not> writes call)"
| "may_do (Some Write_guard) call = True"

fun disciplined :: "('k \<Rightarrow> usize) \<Rightarrow> nat \<Rightarrow> (usize \<rightharpoonup> guard_kind) \<Rightarrow> ('k, 'v) action list \<Rightarrow> bool" where
  "disciplined hm n h [] \<longleftrightarrow> h = Map.empty"
| "disciplined hm n h (Acquire g i # acts) \<longleftrightarrow> i < n \<and> h i = None \<and> disciplined hm n (h(i \<mapsto> g)) acts"
| "disciplined hm n h (Do call # acts) \<longleftrightarrow> may_do (h (call_shard hm call)) call \<and> disciplined hm n h acts"
| "disciplined hm n h (Downgrade i # acts) \<longleftrightarrow> h i = Some Write_guard \<and> disciplined hm n (h(i \<mapsto> Read_guard)) acts"
| "disciplined hm n h (Release i # acts) \<longleftrightarrow> h i \<noteq> None \<and> disciplined hm n (h(i := None)) acts"

text \<open>The order in which iterators take their guards: shard by shard, from the first to the last.\<close>

fun ascending :: "(usize \<rightharpoonup> guard_kind) \<Rightarrow> ('k, 'v) action list \<Rightarrow> bool" where
  "ascending h [] \<longleftrightarrow> True"
| "ascending h (Acquire g i # acts) \<longleftrightarrow> (\<forall>j \<in> dom h. j < i) \<and> ascending (h(i \<mapsto> g)) acts"
| "ascending h (Do call # acts) \<longleftrightarrow> ascending h acts"
| "ascending h (Downgrade i # acts) \<longleftrightarrow> ascending (h(i \<mapsto> Read_guard)) acts"
| "ascending h (Release i # acts) \<longleftrightarrow> ascending (h(i := None)) acts"

fun calls_of :: "('k, 'v) action list \<Rightarrow> ('k, 'v) call list" where
  "calls_of [] = []"
| "calls_of (Do call # acts) = call # calls_of acts"
| "calls_of (a # acts) = calls_of acts"

section \<open>The cache with every lock released\<close>

definition at_rest :: "('k, 't) NeoCache \<Rightarrow> ('k, 't) NeoCache" where
  "at_rest c = with_shards c (shard_list c)"

lemma at_rest_frame [simp]:
  "hasher (at_rest c) = hasher c" "shard_count (at_rest c) = shard_count c" "quiet (at_rest c)"
  "key_shard (at_rest c) k = key_shard c k" "cache_capacity (at_rest c) = cache_capacity c"
  "length (shards (at_rest c)) = length (shards c)"
  by (simp_all add: at_rest_def) (simp add: with_shards_def shard_list_def)

lemma at_rest_shard [simp]: "i < length (shards c) \<Longrightarrow> shard_at (at_rest c) i = shard_at c i"
  by (simp add: at_rest_def shard_at_with shard_list_nth shard_count_def)

lemma at_rest_quiet: "quiet c \<Longrightarrow> at_rest c = c"
  by (simp add: at_rest_def with_shards_same)

lemma at_rest_put_state [simp]: "at_rest (put_state c i w) = at_rest c"
proof -
  have "shard_list (put_state c i w) = shard_list c"
    by (intro nth_equalityI) (simp_all add: shard_list_nth shard_count_def)
  then show ?thesis by (simp add: at_rest_def with_shards_def put_state_def)
qed

lemma at_rest_put_shard [simp]:
  assumes "i < length (shards c)"
  shows "at_rest (put_shard c i s) = put_shard (at_rest c) i s"
proof -
  have "shard_list (put_shard c i s) = (shard_list c)[i := s]"
    using assms by (simp add: shard_list_def put_shard_def map_update)
  then have "at_rest (put_shard c i s) = with_shards c ((shard_list c)[i := s])"
    by (simp add: at_rest_def with_shards_def put_shard_def)
  moreover have "i < shard_count (at_rest c)" using assms by (simp add: shard_count_def)
  from with_shards_put [OF at_rest_frame(3) this, of s]
  have "put_shard (at_rest c) i s = with_shards c ((shard_list c)[i := s])" by (simp add: at_rest_def)
  ultimately show ?thesis by simp
qed

lemma comp_run_snoc:
  "comp_run step ops s = returns (rs, s1) \<Longrightarrow> step op s1 = returns (r, s2) \<Longrightarrow>
   comp_run step (ops @ [op]) s = returns (rs @ [r], s2)"
proof (induction ops arbitrary: s rs)
  case (Cons o' ops)
  from Cons.prems(1) obtain r' s' rs' where
    "step o' s = returns (r', s')" "comp_run step ops s' = returns (rs', s1)" "rs = r' # rs'"
    by (auto simp: comp_bind_returns_iff split: prod.splits)
  with Cons.IH [of s' rs'] Cons.prems(2) show ?case by simp
qed simp

section \<open>The invariant\<close>

definition holding :: "('w \<Rightarrow> ('k, 'v, 't) worker) \<Rightarrow> guard_kind \<Rightarrow> usize \<Rightarrow> 'w set" where
  "holding ws g i = {w. held (ws w) i = Some g}"

definition word_ok :: "u64 \<Rightarrow> 'w set \<Rightarrow> 'w set \<Rightarrow> bool" where
  "word_ok v W R \<longleftrightarrow> \<not> rp v \<and> \<not> wp v \<and> finite R \<and>
     (W = {} \<and> holders v = card R \<and> card R < writer_code \<or> (\<exists>w. W = {w}) \<and> R = {} \<and> holders v = writer_code)"

definition own_effects :: "('w \<times> ('k, 'v) call \<times> ('k, 'v) answer) list \<Rightarrow> 'w \<Rightarrow> (('k, 'v) call \<times> ('k, 'v) answer) list" where
  "own_effects es w = map snd (filter (\<lambda>e. fst e = w) es)"

fun phase_ok :: "('k, 't) NeoCache \<Rightarrow> (usize \<rightharpoonup> guard_kind) \<Rightarrow> ('k, 'v, 't) phase \<Rightarrow> bool" where
  "phase_ok c h Ready \<longleftrightarrow> True"
| "phase_ok c h (Writing call s) \<longleftrightarrow> writes call \<and>
     h (call_shard (key_shard c) call) = Some Write_guard \<and> s = shard_at c (call_shard (key_shard c) call)"
| "phase_ok c h (Found k b) \<longleftrightarrow> h (key_shard c k) \<noteq> None"
| "phase_ok c h (Visiting i bs ps) \<longleftrightarrow> h i \<noteq> None"

text \<open>
  A call that has begun but not taken effect, and the answer of a call that has taken effect
  but is still being read.
\<close>

fun pending_call :: "('k, 'v, 't) phase \<Rightarrow> ('k, 'v) call list" where
  "pending_call (Writing call s) = [call]"
| "pending_call p = []"

fun pending_answer :: "('k, 'v, 't) table \<Rightarrow> ('k, 't) NeoCache \<Rightarrow> ('k, 'v, 't) phase \<Rightarrow> ('k, 'v) answer list" where
  "pending_answer T c (Found k b) = [Value (found_value T c k b)]"
| "pending_answer T c (Visiting i bs ps) = [Pairs (ps @ map (bucket_pair T (shard_at c i)) bs)]"
| "pending_answer T c p = []"

definition worker_ok :: "('k, 'v, 't) table \<Rightarrow> ('k, 't) NeoCache \<Rightarrow> ('k, 'v) action list
    \<Rightarrow> (('k, 'v) call \<times> ('k, 'v) answer) list \<Rightarrow> ('k, 'v, 't) worker \<Rightarrow> bool" where
  "worker_ok T c prog es x \<longleftrightarrow>
     disciplined (key_shard c) (length (shards c)) (held x) (todo x) \<and> dom (held x) \<subseteq> {..<length (shards c)} \<and>
     phase_ok c (held x) (phase x) \<and>
     calls_of prog = map fst es @ pending_call (phase x) @ calls_of (todo x) \<and>
     map snd es = answers x @ pending_answer T c (phase x)"

text \<open>A cache without a bound must not be given more keys than a counter can count.\<close>

definition roomy :: "('k, 'v, 't) table \<Rightarrow> ('k, 't) NeoCache \<Rightarrow> ('w \<Rightarrow> ('k, 'v) action list) \<Rightarrow> bool" where
  "roomy T c progs \<longleftrightarrow> (cache_capacity c = 0 \<longrightarrow> finite {w. calls_of (progs w) \<noteq> []} \<and>
     card (dom (cache_vals T c)) + (\<Sum>w | calls_of (progs w) \<noteq> []. length (calls_of (progs w))) \<le> usize_max)"

definition conc_inv :: "('k, 'v, 't) table \<Rightarrow> ('k \<Rightarrow> u64) \<Rightarrow> ('t \<Rightarrow> bool) \<Rightarrow> ('k, 't) NeoCache
    \<Rightarrow> ('w \<Rightarrow> ('k, 'v) action list) \<Rightarrow> ('k, 'v, 't, 'w) concurrent \<Rightarrow> bool" where
  "conc_inv T hash tok c0 progs S \<longleftrightarrow>
     comp_run (nc_call T) (map (fst \<circ> snd) (effects S)) c0 = returns (map (snd \<circ> snd) (effects S), at_rest (cache S)) \<and>
     lossy_run (0 < cache_capacity c0) (key_shard c0) (map snd (effects S)) (cache_vals T c0) (cache_vals T (at_rest (cache S))) \<and>
     key_shard (cache S) = key_shard c0 \<and>
     cache_ok T hash tok (at_rest (cache S)) \<and> cache_capacity (cache S) = cache_capacity c0 \<and> roomy T c0 progs \<and>
     finite (dom (cache_vals T c0)) \<and>
     (\<forall>i < length (shards (cache S)).
        word_ok (lock_word (cache S) i) (holding (workers S) Write_guard i) (holding (workers S) Read_guard i)) \<and>
     (\<forall>w. worker_ok T (cache S) (progs w) (own_effects (effects S) w) (workers S w))"

section \<open>Frame lemmas\<close>

lemma own_effects_snoc [simp]:
  "own_effects (es @ map (Pair w) l) u = own_effects es u @ (if u = w then l else [])"
  by (simp add: own_effects_def filter_map comp_def)

text \<open>The effects are those of the workers that have calls.\<close>

lemma length_effects:
  assumes "finite W" and "\<And>w. w \<notin> W \<Longrightarrow> own_effects es w = []"
  shows "length es = (\<Sum>w \<in> W. length (own_effects es w))"
  using assms(2)
proof (induction es)
  case (Cons e es)
  have own: "length (own_effects (e # es) w) = (if w = fst e then 1 else 0) + length (own_effects es w)" for w
    by (simp add: own_effects_def)
  have "fst e \<in> W"
  proof (rule ccontr)
    assume "fst e \<notin> W"
    from Cons.prems [OF this] show False by (simp add: own_effects_def)
  qed
  moreover have "own_effects es w = []" if "w \<notin> W" for w
    using Cons.prems [OF that] own [of w] by (simp split: if_splits)
  ultimately show ?case using Cons.IH assms(1) by (simp add: own sum.distrib)
qed (simp add: own_effects_def)

lemma holding_upd: "holding (ws(w := x)) g i = (if held x i = Some g then insert w (holding ws g i) else holding ws g i - {w})"
  by (auto simp: holding_def)

lemma lossy_run_snoc:
  "lossy_run b hm es m m1 \<Longrightarrow> lossy_step b hm call a m1 m2 \<Longrightarrow> lossy_run b hm (es @ [(call, a)]) m m2"
  by (induction b hm es m m1 rule: lossy_run.induct) auto

text \<open>A change of a shard that nobody who only reads values through references can see.\<close>

definition same_view :: "('k, 'v, 't) table \<Rightarrow> ('k, 't) ShardData \<Rightarrow> ('k, 't) ShardData \<Rightarrow> bool" where
  "same_view T s s' \<longleftrightarrow> (\<forall>b. bucket_pair T s' b = bucket_pair T s b)"

lemma same_view_refl [simp]: "same_view T s s"
  by (simp add: same_view_def)

lemma worker_frame:
  assumes ok: "worker_ok T c prog es x"
    and ks: "key_shard c' = key_shard c" "length (shards c') = length (shards c)"
    and data: "\<And>i. held x i \<noteq> None \<Longrightarrow> same_view T (shard_at c i) (shard_at c' i) \<and>
      (held x i = Some Write_guard \<longrightarrow> shard_at c' i = shard_at c i)"
  shows "worker_ok T c' prog es x"
proof -
  have "phase_ok c' (held x) (phase x)"
    using ok data by (cases "phase x") (auto simp: worker_ok_def ks(1))
  moreover have "pending_answer T c' (phase x) = pending_answer T c (phase x)"
  proof (cases "phase x")
    case (Found k b)
    then have "same_view T (shard_at c (key_shard c k)) (shard_at c' (key_shard c k))"
      using ok data by (auto simp: worker_ok_def)
    then show ?thesis by (cases b) (simp_all add: Found found_value_def value_at_def ks(1) same_view_def)
  next
    case (Visiting i bs ps)
    then have "same_view T (shard_at c i) (shard_at c' i)" using ok data by (auto simp: worker_ok_def)
    then show ?thesis by (simp add: Visiting same_view_def)
  qed simp_all
  ultimately show ?thesis using ok by (simp add: worker_ok_def ks)
qed

lemma key_shard_eqI: "shift c' = shift c \<Longrightarrow> hasher c' = hasher c \<Longrightarrow> key_shard c' = key_shard c"
  by (simp add: fun_eq_iff key_shard_def determine_shard_def)

section \<open>Lock words\<close>

lemma free_word: "holders v = 0 \<Longrightarrow> \<not> rp v \<Longrightarrow> \<not> wp v \<Longrightarrow> v = 0"
  unfolding word_by_fields [of v] by simp

lemma lock_exclusive_word:
  assumes "word_ok v W R" and "lock_exclusive v = returns v'"
  shows "v' = ONE_WRITER" and "W = {}" and "R = {}"
proof -
  have "holders v = 0"
  proof (rule ccontr)
    assume "holders v \<noteq> 0"
    then have "v \<noteq> 0" "v AND ONE_WRITER \<noteq> 0" by (auto simp: and_writer_0)
    then show False using assms(2) by (simp add: lock_exclusive_def lock_exclusive_slow_def compare_exchange_def)
  qed
  then have "v = 0" using assms(1) free_word by (auto simp: word_ok_def)
  with assms(2) show "v' = ONE_WRITER" by simp
  show "W = {}" "R = {}" using assms(1) \<open>holders v = 0\<close> by (auto simp: word_ok_def)
qed

lemma lock_shared_word:
  assumes "word_ok v W R" and "lock_shared v = returns v'" and "w \<notin> R"
  shows "word_ok v' W (insert w R)" and "W = {}"
proof -
  have a: "checked_add v ONE_READER = Some v'" "v' AND ONE_WRITER \<noteq> ONE_WRITER"
    using assms(2) by (auto simp: lock_shared_def lock_shared_slow_def try_lock_shared_fast_def split: option.splits if_splits)
  note f = added_facts [OF a(1)] and r = reader_added [OF a]
  show W: "W = {}" using assms(1) f by (auto simp: word_ok_def)
  then show "word_ok v' W (insert w R)" using assms(1,3) f r by (auto simp: word_ok_def)
qed

lemma exclusive_word:
  assumes "word_ok v W R" and "w \<in> W"
  shows "v = ONE_WRITER" and "W = {w}" and "R = {}"
proof -
  have "holders v = writer_code" "\<not> rp v" "\<not> wp v" "W = {w}" "R = {}" using assms by (auto simp: word_ok_def)
  then show "v = ONE_WRITER" "W = {w}" "R = {}"
    using word_by_fields [of v] word_by_fields [of ONE_WRITER] by simp_all
qed

lemma unlock_shared_word:
  assumes "word_ok v W R" and "w \<in> R"
  shows "word_ok (fst (unlock_shared v)) W (R - {w})"
proof -
  have W: "W = {}" and h: "holders v = card R" "card R < writer_code" "finite R" and b: "\<not> rp v" "\<not> wp v"
    using assms by (auto simp: word_ok_def)
  have pos: "0 < card R" using assms(2) h(3) by (auto simp: card_gt_0_iff)
  have "v \<noteq> ONE_READER OR WRITERS_PARKED" using b(2) by (auto simp: bit_or_iff)
  then have u: "fst (unlock_shared v) = v - ONE_READER" by (simp add: unlock_shared_def Let_def)
  have "holders (v - ONE_READER) = card (R - {w})" using holders_minus [of v] h pos assms(2) by simp
  then show ?thesis
    using W h b pos assms(2) by (simp add: u word_ok_def park_bits)
qed

lemma downgrade_word:
  assumes "word_ok v W R" and "w \<in> W"
  shows "word_ok (fst (downgrade v)) (W - {w}) (insert w R)"
proof -
  note x = exclusive_word [OF assms]
  have "fst (downgrade v) = ONE_READER" by (simp add: x(1) downgrade_def layout_simps)
  moreover have "holders ONE_READER = 1" "\<not> rp ONE_READER" "\<not> wp ONE_READER"
    by (simp_all add: holders_def layout_simps)
  ultimately show ?thesis by (simp add: word_ok_def x(2,3))
qed

end
