(* ===== verification/Concurrent_Steps.thy ===== *)
theory Concurrent_Steps
  imports Concurrent_Cache
begin

text \<open>
  Every step of theory \<open>Concurrent_Cache\<close> keeps its invariant: steps on the guards, steps of a
  section that takes effect, and steps that only read; then rule induction over the runs.
\<close>

text \<open>
  A step of worker \<open>w\<close> at shard \<open>i\<close>: the words of the other shards and the other workers are
  not affected, provided the data it changes is not data another worker relies on.
\<close>

definition step_frame :: "('k, 'v, 't) table \<Rightarrow> ('k, 'v, 't, 'w) concurrent \<Rightarrow> 'w \<Rightarrow> usize \<Rightarrow> ('k, 't) NeoCache
    \<Rightarrow> ('k, 'v, 't) worker \<Rightarrow> bool" where
  "step_frame T S w i c' x \<longleftrightarrow>
     hasher c' = hasher (cache S) \<and> shift c' = shift (cache S) \<and> cache_capacity c' = cache_capacity (cache S) \<and>
     length (shards c') = length (shards (cache S)) \<and>
     (\<forall>j. j \<noteq> i \<longrightarrow> lock_word c' j = lock_word (cache S) j \<and> shard_at c' j = shard_at (cache S) j \<and>
        held x j = held (workers S w) j) \<and>
     (\<forall>u. u \<noteq> w \<longrightarrow> held (workers S u) i \<noteq> None \<longrightarrow>
        same_view T (shard_at (cache S) i) (shard_at c' i) \<and>
        (held (workers S u) i = Some Write_guard \<longrightarrow> shard_at c' i = shard_at (cache S) i))"

lemma moved_frame [simp]:
  "cache (moved S w c x es) = c" "workers (moved S w c x es) = (workers S)(w := x)"
  "effects (moved S w c x es) = effects S @ map (Pair w) es"
  by (simp_all add: moved_def)

lemma holding_frame:
  assumes "held x j = held (ws w) j"
  shows "holding (ws(w := x)) g j = holding ws g j"
  using assms by (auto simp: holding_def)

lemma conc_invI:
  assumes inv: "conc_inv T hash tok c0 progs S"
    and fr: "step_frame T S w i c' x"
    and run: "comp_run (nc_call T) (map (fst \<circ> snd) (effects S) @ map fst es) c0 =
      returns (map (snd \<circ> snd) (effects S) @ map snd es, at_rest c')"
    and lossy: "lossy_run (0 < cache_capacity c0) (key_shard c0) (map snd (effects S) @ es) (cache_vals T c0) (cache_vals T (at_rest c'))"
    and ok: "cache_ok T hash tok (at_rest c')"
    and word: "i < length (shards c') \<Longrightarrow>
      word_ok (lock_word c' i) (holding ((workers S)(w := x)) Write_guard i) (holding ((workers S)(w := x)) Read_guard i)"
    and own: "worker_ok T c' (progs w) (own_effects (effects S) w @ es) x"
  shows "conc_inv T hash tok c0 progs (moved S w c' x es)"
proof -
  have ks: "key_shard c' = key_shard (cache S)" "length (shards c') = length (shards (cache S))"
    using fr by (auto simp: step_frame_def intro: key_shard_eqI)
  have words: "word_ok (lock_word c' j) (holding ((workers S)(w := x)) Write_guard j) (holding ((workers S)(w := x)) Read_guard j)"
    if "j < length (shards c')" for j
    using inv fr word that holding_frame [of x j "workers S" w]
    by (cases "j = i") (auto simp: conc_inv_def step_frame_def ks(2))
  have "worker_ok T c' (progs u) (own_effects (effects S) u) (workers S u)" if "u \<noteq> w" for u
  proof (rule worker_frame [OF _ ks])
    show "worker_ok T (cache S) (progs u) (own_effects (effects S) u) (workers S u)"
      using inv by (simp add: conc_inv_def)
    show "same_view T (shard_at (cache S) j) (shard_at c' j) \<and>
        (held (workers S u) j = Some Write_guard \<longrightarrow> shard_at c' j = shard_at (cache S) j)"
      if "held (workers S u) j \<noteq> None" for j
      using fr that \<open>u \<noteq> w\<close> by (cases "j = i") (simp_all add: step_frame_def)
  qed
  then have "\<forall>u. worker_ok T c' (progs u) (own_effects (effects (moved S w c' x es)) u) (((workers S)(w := x)) u)"
    using own by simp
  then show ?thesis using words run lossy ok inv fr ks by (simp add: conc_inv_def step_frame_def comp_def)
qed

context shard_table
begin

abbreviation "steady \<equiv> conc_inv T hash rt_wf"

lemma steadyD:
  assumes "steady c0 progs S"
  shows "cache_ok T hash rt_wf (at_rest (cache S))" "hasher (cache S) = hash"
    and "cache_capacity (cache S) = cache_capacity c0 \<and> roomy T c0 progs \<and> finite (dom (cache_vals T c0))"
    and "key_shard (cache S) k < length (shards (cache S))"
    and "i < length (shards (cache S)) \<Longrightarrow>
      word_ok (lock_word (cache S) i) (holding (workers S) Write_guard i) (holding (workers S) Read_guard i)"
    and "worker_ok T (cache S) (progs w) (own_effects (effects S) w) (workers S w)"
    and "comp_run (nc_call T) (map (fst \<circ> snd) (effects S)) c0 = returns (map (snd \<circ> snd) (effects S), at_rest (cache S))"
    and "lossy_run (0 < cache_capacity c0) (key_shard c0) (map snd (effects S)) (cache_vals T c0) (cache_vals T (at_rest (cache S)))"
    and "key_shard (cache S) = key_shard c0"
  using assms home_okD(1) [of "at_rest (cache S)" k] by (auto simp: conc_inv_def cache_ok_def)

text \<open>While a worker has a call left, there is room for one more key.\<close>

lemma steady_room:
  assumes inv: "steady c0 progs S" and w: "length (own_effects (effects S) w) < length (calls_of (progs w))"
  shows "nc_room T (Suc 0) (at_rest (cache S))"
  unfolding nc_room_def
proof
  assume "cache_capacity (at_rest (cache S)) = 0"
  then have cap: "cache_capacity c0 = 0" using steadyD(3) [OF inv] by simp
  define W where "W = {w. calls_of (progs w) \<noteq> []}"
  have fin: "finite W" and room: "card (dom (cache_vals T c0)) + (\<Sum>w \<in> W. length (calls_of (progs w))) \<le> usize_max"
    using steadyD(3) [OF inv] cap by (simp_all add: roomy_def W_def)
  have le: "length (own_effects (effects S) u) \<le> length (calls_of (progs u))" for u
    using steadyD(6) [OF inv, of u] by (simp add: worker_ok_def)
  then have "own_effects (effects S) u = []" if "u \<notin> W" for u
    using that le [of u] by (simp add: W_def)
  with length_effects [OF fin] have "length (effects S) = (\<Sum>u \<in> W. length (own_effects (effects S) u))" by blast
  also have "\<dots> < (\<Sum>u \<in> W. length (calls_of (progs u)))"
  proof (rule sum_strict_mono_ex1 [OF fin])
    show "\<exists>u \<in> W. length (own_effects (effects S) u) < length (calls_of (progs u))"
      using w by (intro bexI [of _ w]) (auto simp: W_def)
  qed (use le in blast)
  finally have "length (effects S) < (\<Sum>u \<in> W. length (calls_of (progs u)))" .
  moreover have "card (dom (cache_vals T (at_rest (cache S)))) \<le> card (dom (cache_vals T c0)) + length (map snd (effects S))"
    using steadyD(3) [OF inv] by (intro lossy_run_card [OF steadyD(8) [OF inv]]) simp
  ultimately show "card (dom (cache_vals T (at_rest (cache S)))) + Suc 0 \<le> usize_max" using room by simp
qed

section \<open>Steps on the guards\<close>

lemma steady_guard:
  assumes inv: "steady c0 progs S" and ready: "phase (workers S w) = Ready" and i: "i < length (shards (cache S))"
    and h: "\<And>j. j \<noteq> i \<Longrightarrow> h j = held (workers S w) j"
    and rest: "disciplined (key_shard (cache S)) (length (shards (cache S))) h rest"
      "calls_of rest = calls_of (todo (workers S w))"
    and word: "word_ok v (holding ((workers S)(w := (workers S w)\<lparr>held := h\<rparr>)) Write_guard i)
      (holding ((workers S)(w := (workers S w)\<lparr>held := h\<rparr>)) Read_guard i)"
  shows "steady c0 progs (moved S w (put_state (cache S) i v) ((workers S w)\<lparr>todo := rest, held := h\<rparr>) [])"
proof -
  let ?x = "(workers S w)\<lparr>todo := rest, held := h\<rparr>" and ?c = "put_state (cache S) i v"
  note own = steadyD(6) [OF inv, of w]
  have "holding ((workers S)(w := ?x)) g i = holding ((workers S)(w := (workers S w)\<lparr>held := h\<rparr>)) g i" for g
    by (auto simp: holding_def)
  moreover have ks: "key_shard ?c = key_shard (cache S)" by (rule key_shard_eqI) simp_all
  moreover have "dom h \<subseteq> {..<length (shards (cache S))}"
  proof
    fix j assume "j \<in> dom h"
    then show "j \<in> {..<length (shards (cache S))}"
      using own i h [of j] by (cases "j = i") (auto simp: worker_ok_def dom_def subset_iff)
  qed
  ultimately show ?thesis
    using steadyD(1,7,8) [OF inv] own ready rest word i h
    by (intro conc_invI [OF inv, where i = i]) (auto simp: step_frame_def lock_word_put_state worker_ok_def)
qed

lemma steady_acquire:
  assumes inv: "steady c0 progs S" and ready: "phase (workers S w) = Ready" "todo (workers S w) = Acquire g i # rest"
    and y: "yield_shard g (cache S) i = returns c"
  shows "steady c0 progs (moved S w c ((workers S w)\<lparr>todo := rest, held := (held (workers S w))(i \<mapsto> g)\<rparr>) [])"
proof -
  have d: "i < length (shards (cache S))" "held (workers S w) i = None"
      "disciplined (key_shard (cache S)) (length (shards (cache S))) ((held (workers S w))(i \<mapsto> g)) rest"
    using steadyD(6) [OF inv, of w] ready(2) by (auto simp: worker_ok_def)
  note word = steadyD(5) [OF inv d(1)]
  have out: "w \<notin> holding (workers S) g' i" for g' using d(2) by (simp add: holding_def)
  obtain v where v: "c = put_state (cache S) i v"
      "word_ok v (holding ((workers S)(w := (workers S w)\<lparr>held := (held (workers S w))(i \<mapsto> g)\<rparr>)) Write_guard i)
        (holding ((workers S)(w := (workers S w)\<lparr>held := (held (workers S w))(i \<mapsto> g)\<rparr>)) Read_guard i)"
  proof (cases g)
    case Read_guard
    with y d(1) obtain v where v: "lock_shared (lock_word (cache S) i) = returns v" "c = put_state (cache S) i v"
      by (auto simp: yield_read_shard_def comp_bind_returns_iff lock_word_def)
    from lock_shared_word [OF word v(1) out] Read_guard out show thesis
      by (intro that [OF v(2)]) (simp add: holding_upd)
  next
    case Write_guard
    with y d(1) obtain v where v: "lock_exclusive (lock_word (cache S) i) = returns v" "c = put_state (cache S) i v"
      by (auto simp: yield_write_shard_def comp_bind_returns_iff lock_word_def)
    from lock_exclusive_word [OF word v(1)] Write_guard show thesis
      by (intro that [OF v(2)]) (simp add: holding_upd word_ok_def)
  qed
  show ?thesis unfolding v(1) using d v(2) ready by (intro steady_guard [OF inv]) auto
qed

text \<open>Dropping a guard that is held returns, and leaves a word for the remaining holders.\<close>

lemma drop_guard_word:
  assumes inv: "steady c0 progs S" and h: "held (workers S w) i = Some g"
  obtains v where "drop_guard g (cache S) i = Return (put_state (cache S) i v)" and "i < length (shards (cache S))"
    and "word_ok v (holding (workers S) Write_guard i - {w}) (holding (workers S) Read_guard i - {w})"
proof -
  have i: "i < length (shards (cache S))" using steadyD(6) [OF inv, of w] h by (auto simp: worker_ok_def)
  note word = steadyD(5) [OF inv i]
  show thesis
  proof (cases g)
    case Read_guard
    then have w: "w \<in> holding (workers S) Read_guard i" "w \<notin> holding (workers S) Write_guard i"
      using h by (simp_all add: holding_def)
    from unlock_shared_word [OF word w(1)] w(2) show thesis
      by (intro that [OF _ i]) (auto simp: Read_guard drop_read_guard_def lock_word_def)
  next
    case Write_guard
    then have "w \<in> holding (workers S) Write_guard i" using h by (simp add: holding_def)
    note x = exclusive_word [OF word this]
    show thesis
    proof (rule that [OF _ i])
      show "drop_guard g (cache S) i = Return (put_state (cache S) i 0)"
        using x(1) by (simp add: Write_guard drop_write_guard_def lock_word_def [symmetric] unlock_exclusive_def compare_exchange_def)
    qed (simp add: x(2,3) word_ok_def)
  qed
qed

lemma steady_release:
  assumes inv: "steady c0 progs S" and ready: "phase (workers S w) = Ready" "todo (workers S w) = Release i # rest"
    and h: "held (workers S w) i = Some g" and c: "drop_guard g (cache S) i = Return c"
  shows "steady c0 progs (moved S w c ((workers S w)\<lparr>todo := rest, held := (held (workers S w))(i := None)\<rparr>) [])"
proof -
  obtain v where v: "drop_guard g (cache S) i = Return (put_state (cache S) i v)" "i < length (shards (cache S))"
      "word_ok v (holding (workers S) Write_guard i - {w}) (holding (workers S) Read_guard i - {w})"
    by (rule drop_guard_word [OF inv h])
  have "disciplined (key_shard (cache S)) (length (shards (cache S))) ((held (workers S w))(i := None)) rest"
    using steadyD(6) [OF inv, of w] ready(2) by (auto simp: worker_ok_def)
  moreover have "c = put_state (cache S) i v" using c v(1) by simp
  ultimately show ?thesis using v ready by (auto simp: holding_upd intro!: steady_guard [OF inv])
qed

lemma steady_downgrade:
  assumes inv: "steady c0 progs S" and ready: "phase (workers S w) = Ready" "todo (workers S w) = Downgrade i # rest"
  shows "steady c0 progs (moved S w (put_state (cache S) i (fst (downgrade (rw_state (shards (cache S) ! i)))))
    ((workers S w)\<lparr>todo := rest, held := (held (workers S w))(i \<mapsto> Read_guard)\<rparr>) [])"
proof -
  have d: "held (workers S w) i = Some Write_guard" "i < length (shards (cache S))"
      "disciplined (key_shard (cache S)) (length (shards (cache S))) ((held (workers S w))(i \<mapsto> Read_guard)) rest"
    using steadyD(6) [OF inv, of w] ready(2) by (auto simp: worker_ok_def)
  then have "w \<in> holding (workers S) Write_guard i" by (simp add: holding_def)
  from downgrade_word [OF steadyD(5) [OF inv d(2)] this] show ?thesis
    using d ready by (intro steady_guard [OF inv]) (auto simp: holding_upd lock_word_def)
qed

section \<open>Steps of a section\<close>

text \<open>A section that takes effect is a single-threaded call on the cache at rest.\<close>

lemma steady_effect:
  assumes inv: "steady c0 progs S" and i: "call_shard (key_shard (cache S)) call = i" "i < length (shards (cache S))"
    and body: "call_body T hash call (shard_at (cache S) i) = returns (a, s)" and room: "nc_room T (Suc 0) (at_rest (cache S))"
  shows "cache_ok T hash rt_wf (at_rest (put_shard (cache S) i s))"
    and "comp_run (nc_call T) (map (fst \<circ> snd) (effects S) @ [call]) c0 =
      returns (map (snd \<circ> snd) (effects S) @ [a], at_rest (put_shard (cache S) i s))"
    and "lossy_run (0 < cache_capacity c0) (key_shard c0) (map snd (effects S) @ [(call, a)]) (cache_vals T c0)
      (cache_vals T (at_rest (put_shard (cache S) i s)))"
proof -
  let ?c = "at_rest (cache S)"
  have ks: "key_shard ?c = key_shard (cache S)" by (simp add: fun_eq_iff)
  have "nc_call T call ?c = run_section T call i ?c"
    using i by (intro nc_call_section) (simp_all add: ks)
  then have st: "nc_call T call ?c = returns (a, at_rest (put_shard (cache S) i s))"
    using i(2) body steadyD(2) [OF inv] by (simp add: run_section_def)
  have l: "call_shard (key_shard ?c) call < length (shards ?c)" using i by (simp add: ks)
  from nc_call_lossy [OF steadyD(1) [OF inv] room l] st
  show "cache_ok T hash rt_wf (at_rest (put_shard (cache S) i s))" by auto
  show "comp_run (nc_call T) (map (fst \<circ> snd) (effects S) @ [call]) c0 =
      returns (map (snd \<circ> snd) (effects S) @ [a], at_rest (put_shard (cache S) i s))"
    by (rule comp_run_snoc [OF steadyD(7) [OF inv] st])
  show "lossy_run (0 < cache_capacity c0) (key_shard c0) (map snd (effects S) @ [(call, a)]) (cache_vals T c0)
      (cache_vals T (at_rest (put_shard (cache S) i s)))"
    using nc_call_lossy [OF steadyD(1) [OF inv] room l] st
    by (intro lossy_run_snoc [OF steadyD(8) [OF inv]]) (auto simp: ks steadyD(9) [OF inv] steadyD(3) [OF inv])
qed

lemma steady_section:
  assumes inv: "steady c0 progs S" and i: "call_shard (key_shard (cache S)) call = i"
    and body: "call_body T hash call (shard_at (cache S) i) = returns (a, s)"
    and h: "held x = held (workers S w)" "held (workers S w) i = Some g"
    and view: "g = Read_guard \<Longrightarrow> same_view T (shard_at (cache S) i) s"
    and own: "worker_ok T (put_shard (cache S) i s) (progs w) (own_effects (effects S) w @ [(call, a)]) x"
  shows "steady c0 progs (moved S w (put_shard (cache S) i s) x [(call, a)])"
proof -
  have l: "i < length (shards (cache S))" using steadyD(6) [OF inv, of w] h(2) by (auto simp: worker_ok_def)
  note word = steadyD(5) [OF inv l]
  have others: "g' = Read_guard \<and> g = Read_guard" if "u \<noteq> w" "held (workers S u) i = Some g'" for u g'
  proof (rule ccontr)
    assume n: "\<not> (g' = Read_guard \<and> g = Read_guard)"
    have m: "u \<in> holding (workers S) g' i" "w \<in> holding (workers S) g i" using that(2) h(2) by (simp_all add: holding_def)
    show False
    proof (cases "g = Write_guard")
      case True
      then show False using exclusive_word(2,3) [OF word, of w] m that(1) by (cases g') auto
    next
      case False
      then have "g = Read_guard" "g' = Write_guard" using n by (cases g; cases g'; simp)+
      then show False using exclusive_word(3) [OF word, of u] m by auto
    qed
  qed
  have "step_frame T S w i (put_shard (cache S) i s) x"
    unfolding step_frame_def using l h(1) view others by (auto simp: shard_at_put)
  moreover have "nc_room T (Suc 0) (at_rest (cache S))"
    by (rule steady_room [OF inv, of w]) (use own in \<open>simp add: worker_ok_def\<close>)
  ultimately show ?thesis
    using steady_effect [OF inv i l body] own word by (intro conc_invI [OF inv]) (simp_all add: holding_frame h(1))
qed

lemma steady_end_write:
  assumes inv: "steady c0 progs S" and w: "phase (workers S w) = Writing call s"
    and body: "call_body T (hasher (cache S)) call s = returns (a, s')" and i: "i = call_shard (key_shard (cache S)) call"
  shows "steady c0 progs (moved S w (put_shard (cache S) i s')
    ((workers S w)\<lparr>phase := Ready, answers := answers (workers S w) @ [a]\<rparr>) [(call, a)])"
proof -
  note own = steadyD(6) [OF inv, of w]
  have h: "held (workers S w) i = Some Write_guard" "s = shard_at (cache S) i"
    using own w i by (simp_all add: worker_ok_def)
  have ks: "key_shard (put_shard (cache S) i s') = key_shard (cache S)" by (rule key_shard_eqI) simp_all
  show ?thesis
    using body h own w by (intro steady_section [OF inv i [symmetric] _ _ h(1)])
      (simp_all add: steadyD(2) [OF inv] worker_ok_def ks)
qed

lemma get_locked_view:
  assumes wf: "rt_wf (raw_map s)" and get: "get_locked T hash k s = (b, s')"
  shows "same_view T s s'"
proof (cases "rt_find T (raw_map s) (hash k) (key_eq k)")
  case None
  then show ?thesis using get by (auto simp: get_locked_def)
next
  case (Some p)
  obtain k' e where e: "rt_as_ref T (raw_map s) p = (k', e)" by fastforce
  have p: "p \<in> set (rt_iter T (raw_map s))" using find_Some [OF wf Some] by blast
  have "raw_map s' = rt_write T (raw_map s) p (k', bump_freq e)" using get Some e by (auto simp: get_locked_def)
  then have "rt_as_ref T (raw_map s') = (rt_as_ref T (raw_map s))(p := (k', bump_freq e))"
    using write_bucket [OF wf p, of "(k', bump_freq e)"] e by simp
  then show ?thesis using e by (simp add: same_view_def bucket_pair_def)
qed

lemma steady_look:
  assumes inv: "steady c0 progs S" and w: "phase (workers S w) = Ready" "todo (workers S w) = Do (Lookup k) # rest"
    and i: "i = key_shard (cache S) k" and get: "get_locked T (hasher (cache S)) k (shard_at (cache S) i) = (b, s)"
  shows "steady c0 progs (moved S w (put_shard (cache S) i s) ((workers S w)\<lparr>todo := rest, phase := Found k b\<rparr>)
      [(Lookup k, Value (map_option (value_at T s) b))])"
proof -
  note own = steadyD(6) [OF inv, of w]
  obtain g where h: "held (workers S w) i = Some g" using own w(2) i by (cases "held (workers S w) i") (auto simp: worker_ok_def)
  have l: "i < length (shards (cache S))" by (simp add: i steadyD(4) [OF inv])
  have "shard_inv T hash rt_wf (shard_at (cache S) i)"
    using home_okD(2) [OF steadyD(1) [OF inv], of k] i l by (simp add: home_def)
  note view = get_locked_view [OF inv_tab(1) [OF this] get [unfolded steadyD(2) [OF inv]]]
  have ks: "key_shard (put_shard (cache S) i s) = key_shard (cache S)" by (rule key_shard_eqI) simp_all
  have fv: "found_value T (put_shard (cache S) i s) k b = map_option (value_at T s) b"
    using l by (simp add: found_value_def i shard_at_put)
  show ?thesis
    using get h own w i by (intro steady_section [OF inv _ _ _ h view])
      (simp_all add: steadyD(2) [OF inv] worker_ok_def ks [unfolded i] fv [unfolded i])
qed

section \<open>Steps that leave the cache alone\<close>

lemma steady_local:
  assumes inv: "steady c0 progs S" and h: "held x = held (workers S w)"
    and own: "worker_ok T (cache S) (progs w) (own_effects (effects S) w) x"
  shows "steady c0 progs (moved S w (cache S) x [])"
proof -
  have "step_frame T S w 0 (cache S) x" by (simp add: step_frame_def h)
  then show ?thesis
    using steadyD(1,5,7,8) [OF inv] own by (intro conc_invI [OF inv]) (simp_all add: holding_frame h)
qed

lemma steady_begin_write:
  assumes inv: "steady c0 progs S" and w: "phase (workers S w) = Ready" "todo (workers S w) = Do call # rest" "writes call"
    and i: "i = call_shard (key_shard (cache S)) call"
  shows "steady c0 progs (moved S w (cache S)
    ((workers S w)\<lparr>todo := rest, phase := Writing call (shard_at (cache S) i)\<rparr>) [])"
proof -
  note own = steadyD(6) [OF inv, of w]
  have "may_do (held (workers S w) i) call" using own w(2) i by (simp add: worker_ok_def)
  then have "held (workers S w) i = Some Write_guard" using w(3) by (elim may_do.elims) auto
  then show ?thesis using own w i by (intro steady_local [OF inv]) (simp_all add: worker_ok_def)
qed

lemma steady_read:
  assumes inv: "steady c0 progs S" and w: "phase (workers S w) = Found k b"
  shows "steady c0 progs (moved S w (cache S)
    ((workers S w)\<lparr>phase := Ready, answers := answers (workers S w) @ [Value (found_value T (cache S) k b)]\<rparr>) [])"
  using steadyD(6) [OF inv, of w] w by (intro steady_local [OF inv]) (simp_all add: worker_ok_def)

lemma steady_visit:
  assumes inv: "steady c0 progs S" and w: "phase (workers S w) = Visiting i (b # bs) ps"
  shows "steady c0 progs (moved S w (cache S)
    ((workers S w)\<lparr>phase := Visiting i bs (ps @ [bucket_pair T (shard_at (cache S) i) b])\<rparr>) [])"
  using steadyD(6) [OF inv, of w] w by (intro steady_local [OF inv]) (simp_all add: worker_ok_def)

lemma steady_end_visit:
  assumes inv: "steady c0 progs S" and w: "phase (workers S w) = Visiting i [] ps"
  shows "steady c0 progs (moved S w (cache S)
    ((workers S w)\<lparr>phase := Ready, answers := answers (workers S w) @ [Pairs ps]\<rparr>) [])"
  using steadyD(6) [OF inv, of w] w by (intro steady_local [OF inv]) (simp_all add: worker_ok_def)

text \<open>Sections whose effect is to read the shard as it is.\<close>

lemma steady_observe:
  assumes inv: "steady c0 progs S" and w: "todo (workers S w) = Do call # rest"
    and i: "call_shard (key_shard (cache S)) call = i"
    and body: "call_body T hash call (shard_at (cache S) i) = returns (a, shard_at (cache S) i)"
    and h: "held x = held (workers S w)"
    and own: "worker_ok T (cache S) (progs w) (own_effects (effects S) w @ [(call, a)]) x"
  shows "steady c0 progs (moved S w (cache S) x [(call, a)])"
proof -
  obtain g where g: "held (workers S w) i = Some g"
    using steadyD(6) [OF inv, of w] w i by (cases "held (workers S w) i") (auto simp: worker_ok_def)
  from steady_section [OF inv i body h g same_view_refl] own show ?thesis by (simp add: put_shard_same)
qed

lemma steady_count:
  assumes inv: "steady c0 progs S" and w: "phase (workers S w) = Ready" "todo (workers S w) = Do (Len_at i) # rest"
    and a: "a = Count (shard_len T (shard_at (cache S) i))"
  shows "steady c0 progs (moved S w (cache S)
    ((workers S w)\<lparr>todo := rest, answers := answers (workers S w) @ [a]\<rparr>) [(Len_at i, a)])"
  using steadyD(6) [OF inv, of w] w a by (intro steady_observe [OF inv w(2)]) (simp_all add: worker_ok_def)

lemma steady_begin_visit:
  assumes inv: "steady c0 progs S" and w: "phase (workers S w) = Ready" "todo (workers S w) = Do (Visit_at i) # rest"
    and s: "s = shard_at (cache S) i"
  shows "steady c0 progs (moved S w (cache S)
    ((workers S w)\<lparr>todo := rest, phase := Visiting i (rt_iter T (raw_map s)) []\<rparr>) [(Visit_at i, Pairs (shard_pairs T s))])"
proof -
  have "held (workers S w) i \<noteq> None"
    using steadyD(6) [OF inv, of w] w(2) by (cases "held (workers S w) i") (auto simp: worker_ok_def)
  then show ?thesis
    using steadyD(6) [OF inv, of w] w s
    by (intro steady_observe [OF inv w(2)]) (simp_all add: worker_ok_def shard_pairs_def)
qed

section \<open>Runs\<close>

lemma steady_step: "steady c0 progs S \<Longrightarrow> call_step T w S S' \<Longrightarrow> steady c0 progs S'"
  by (erule call_stepE)
    (simp_all only: steady_acquire steady_release steady_downgrade steady_begin_write steady_end_write steady_look
      steady_read steady_count steady_begin_visit steady_visit steady_end_visit)

lemma steady_started:
  assumes "cache_ok T hash rt_wf c" and "roomy T c progs"
    and "\<And>w. disciplined (key_shard c) (length (shards c)) Map.empty (progs w)"
  shows "steady c progs (started c progs)"
proof -
  have "lock_word c i = 0" if "i < length (shards c)" for i
    using assms(1) that by (simp add: cache_ok_def lock_word_def quiet_nth)
  with assms cache_dom_finite [OF assms(1)] show ?thesis
    by (simp add: conc_inv_def started_def at_rest_quiet cache_ok_def word_ok_def holding_def worker_ok_def own_effects_def)
qed

lemma steady_runs:
  assumes "runs_to T (started c progs) S" and "cache_ok T hash rt_wf c" and "roomy T c progs"
    and "\<And>w. disciplined (key_shard c) (length (shards c)) Map.empty (progs w)"
  shows "steady c progs S"
  using assms(1) by (induction rule: runs_to.induct) (simp_all add: steady_started [OF assms(2-4)] steady_step)

end

end
