(* ===== verification/Concurrent_Progress.thy ===== *)
theory Concurrent_Progress
  imports Concurrent_Steps
begin

text \<open>
  Threads that share a cache do not wait for each other forever when each of them takes its
  guards in ascending order of the shards: a thread that waits for the highest shard anybody
  waits for can take its guard. Every step shrinks what is left to do, so runs end.
\<close>

section \<open>What is left to do\<close>

fun phase_left :: "('k, 'v, 't) phase \<Rightarrow> nat" where
  "phase_left Ready = 0"
| "phase_left (Writing call s) = 1"
| "phase_left (Found k b) = 1"
| "phase_left (Visiting i bs ps) = Suc (length bs)"

definition actions_left :: "'w set \<Rightarrow> ('k, 'v, 't, 'w) concurrent \<Rightarrow> nat" where
  "actions_left ws S = (\<Sum>w \<in> ws. length (todo (workers S w)))"

definition phases_left :: "'w set \<Rightarrow> ('k, 'v, 't, 'w) concurrent \<Rightarrow> nat" where
  "phases_left ws S = (\<Sum>w \<in> ws. phase_left (phase (workers S w)))"

definition work :: "'w set \<Rightarrow> (('k, 'v, 't, 'w) concurrent \<times> ('k, 'v, 't, 'w) concurrent) set" where
  "work ws = measures [actions_left ws, phases_left ws]"

lemma wf_work: "wf (work ws)"
  by (simp add: work_def)

lemma sum_moved:
  assumes "finite ws" and "w \<in> ws"
  shows "(\<Sum>u \<in> ws. f (((workers S)(w := x)) u)) = f x + (\<Sum>u \<in> ws - {w}. f (workers S u))"
  using assms by (simp add: sum.remove [OF assms])

lemma step_work:
  assumes "call_step T w S S'" and "finite ws" and "w \<in> ws"
  shows "(S', S) \<in> work ws"
  using assms(1) by (elim call_stepE)
    (auto simp: work_def actions_left_def phases_left_def sum_moved [OF assms(2,3)] sum.remove [OF assms(2,3)])

section \<open>The order of the guards\<close>

definition all_ascending :: "('k, 'v, 't, 'w) concurrent \<Rightarrow> bool" where
  "all_ascending S \<longleftrightarrow> (\<forall>w. ascending (held (workers S w)) (todo (workers S w)))"

lemma ascending_step: "call_step T w S S' \<Longrightarrow> all_ascending S \<Longrightarrow> all_ascending S'"
  by (elim call_stepE) (auto simp: all_ascending_def dest: spec [of _ w])

lemma ascending_runs:
  assumes "runs_to T (started c progs) S" and "\<And>w. ascending Map.empty (progs w)"
  shows "all_ascending S"
  using assms(1)
proof (induction rule: runs_to.induct)
  case start
  then show ?case by (simp add: all_ascending_def started_def assms(2))
qed (rule ascending_step)

section \<open>Progress\<close>

definition waits_for :: "('k, 'v, 't, 'w) concurrent \<Rightarrow> 'w \<Rightarrow> usize \<Rightarrow> bool" where
  "waits_for S w i \<longleftrightarrow> phase (workers S w) = Ready \<and> (\<exists>g rest. todo (workers S w) = Acquire g i # rest)"

lemma take_free_guard:
  assumes "phase (workers S w) = Ready" and "todo (workers S w) = Acquire Write_guard i # rest"
    and "i < length (shards (cache S))" and "lock_word (cache S) i = 0"
  shows "call_step T w S (moved S w (put_state (cache S) i ONE_WRITER)
    ((workers S w)\<lparr>todo := rest, held := (held (workers S w))(i \<mapsto> Write_guard)\<rparr>) [])"
  using assms by (intro acquire) (simp_all add: yield_write_shard_def lock_word_def)

lemma taken_guard_blocks:
  assumes "lock_word c i = ONE_WRITER" and "i < length (shards c)"
  shows "yield_shard Write_guard c i = None"
  using assms by (simp add: yield_write_shard_def lock_word_def lock_exclusive_def compare_exchange_def
      lock_exclusive_slow_def layout_simps)

text \<open>A worker that is done, or whose next guard is not to be had, cannot move.\<close>

lemma blocked_no_step:
  assumes "phase (workers S w) = Ready"
    and "todo (workers S w) = [] \<or> todo (workers S w) = Acquire g i # rest \<and> yield_shard g (cache S) i = None"
  shows "\<not> call_step T w S S'"
  using assms by (auto elim!: call_stepE)

context shard_table
begin

lemma body_returns:
  assumes inv: "steady c0 progs S" and room: "nc_room T (Suc 0) (at_rest (cache S))" and i: "call_shard (key_shard (cache S)) call < length (shards (cache S))"
  shows "\<exists>a s. call_body T hash call (shard_at (cache S) (call_shard (key_shard (cache S)) call)) = returns (a, s)"
proof -
  let ?c = "at_rest (cache S)" and ?i = "call_shard (key_shard (cache S)) call"
  have ks: "key_shard ?c = key_shard (cache S)" by (simp add: fun_eq_iff)
  have "call_shard (key_shard ?c) call < length (shards ?c)" using i by (simp add: ks)
  from nc_call_lossy [OF steadyD(1) [OF inv] room this] obtain a c' where "nc_call T call ?c = returns (a, c')" by auto
  then have "run_section T call ?i ?c = returns (a, c')" using nc_call_section [of ?c ?i call T] i by (simp add: ks)
  then show ?thesis using i steadyD(2) [OF inv] by (auto simp: run_section_def comp_bind_returns_iff)
qed

text \<open>A worker in the middle of a section, or whose next action is not to take a guard, can move.\<close>

lemma steady_busy:
  assumes inv: "steady c0 progs S" and busy: "phase (workers S w) \<noteq> Ready"
  shows "\<exists>S'. call_step T w S S'"
proof (cases "phase (workers S w)")
  case (Writing call s)
  let ?i = "call_shard (key_shard (cache S)) call"
  have "held (workers S w) ?i = Some Write_guard" "s = shard_at (cache S) ?i" "?i < length (shards (cache S))"
    using steadyD(6) [OF inv, of w] Writing by (auto simp: worker_ok_def)
  moreover have "nc_room T (Suc 0) (at_rest (cache S))"
    by (rule steady_room [OF inv, of w]) (use steadyD(6) [OF inv, of w] Writing in \<open>simp add: worker_ok_def\<close>)
  ultimately obtain a s' where "call_body T (hasher (cache S)) call s = returns (a, s')"
    using body_returns [OF inv, of call] by (auto simp: steadyD(2) [OF inv])
  from end_write [OF refl Writing this refl] show ?thesis by blast
next
  case (Found k b)
  from read [OF refl Found] show ?thesis by blast
next
  case (Visiting i bs ps)
  then show ?thesis
  proof (cases bs)
    case Nil
    from end_visit [OF refl Visiting [unfolded Nil]] show ?thesis by blast
  next
    case (Cons b bs')
    from visit [OF refl Visiting [unfolded Cons]] show ?thesis by blast
  qed
qed (use busy in simp)

lemma steady_enabled:
  assumes inv: "steady c0 progs S" and todo: "todo (workers S w) \<noteq> []" and free: "\<nexists>i. waits_for S w i"
  shows "\<exists>S'. call_step T w S S'"
proof (cases "phase (workers S w) = Ready")
  case ready: True
  note own = steadyD(6) [OF inv, of w]
  obtain a rest where a: "todo (workers S w) = a # rest" using todo by (cases "todo (workers S w)") auto
  show ?thesis
  proof (cases a)
    case (Acquire g i)
    then show ?thesis using free a ready by (auto simp: waits_for_def)
  next
    case (Do call)
    show ?thesis
    proof (cases "writes call")
      case True
      then show ?thesis using begin_write [OF refl ready] a Do by blast
    next
      case False
      then consider k where "call = Lookup k" | i where "call = Len_at i" | i where "call = Visit_at i" by (cases call) auto
      then show ?thesis
        using look [OF refl ready] count [OF refl ready] begin_visit [OF refl ready] a Do
        by cases (metis surj_pair)+
    qed
  next
    case (Downgrade i)
    then show ?thesis using downgrade [OF refl ready] a by blast
  next
    case (Release i)
    then obtain g where h: "held (workers S w) i = Some g" using own a by (auto simp: worker_ok_def)
    obtain v where "drop_guard g (cache S) i = Return (put_state (cache S) i v)" by (rule drop_guard_word [OF inv h])
    then show ?thesis using release [OF refl ready _ h] a Release by blast
  qed
qed (rule steady_busy [OF inv])

lemma steady_free_shard:
  assumes inv: "steady c0 progs S" and w: "waits_for S w i" and free: "\<And>u. held (workers S u) i = None"
  shows "\<exists>S'. call_step T w S S'"
proof -
  obtain g rest where a: "phase (workers S w) = Ready" "todo (workers S w) = Acquire g i # rest"
    using w by (auto simp: waits_for_def)
  have i: "i < length (shards (cache S))" using steadyD(6) [OF inv, of w] a(2) by (simp add: worker_ok_def)
  have "holding (workers S) g' i = {}" for g' using free by (simp add: holding_def)
  with steadyD(5) [OF inv i] have "lock_word (cache S) i = 0" by (auto simp: word_ok_def intro: free_word)
  then have "\<exists>c. yield_shard g (cache S) i = returns c"
    using i by (cases g) (simp_all add: yield_write_shard_def yield_read_shard_def lock_word_def)
  then show ?thesis using acquire [OF refl a] by blast
qed

lemma steady_progress:
  assumes inv: "steady c0 progs S" and asc: "all_ascending S" and left: "todo (workers S w) \<noteq> [] \<or> phase (workers S w) \<noteq> Ready"
  shows "\<exists>u S'. call_step T u S S'"
proof (rule ccontr)
  assume stuck: "\<nexists>u S'. call_step T u S S'"
  have waits: "\<exists>i. waits_for S u i" if "todo (workers S u) \<noteq> []" for u using steady_enabled [OF inv that] stuck by blast
  have range: "i < length (shards (cache S))" if "waits_for S u i" for u i
    using that steadyD(6) [OF inv, of u] by (auto simp: waits_for_def worker_ok_def)
  define I where "I = {i. \<exists>u. waits_for S u i}"
  have fin: "finite I" by (rule finite_subset [of _ "{..<length (shards (cache S))}"]) (auto simp: I_def range)
  have "I \<noteq> {}" using waits [of w] left steady_busy [OF inv] stuck by (auto simp: I_def)
  with Max_in [OF fin] obtain u where u: "waits_for S u (Max I)" by (auto simp: I_def)
  then obtain v g where v: "held (workers S v) (Max I) = Some g"
    using steady_free_shard [OF inv u] stuck by (metis not_None_eq)
  have "todo (workers S v) \<noteq> []" using steadyD(6) [OF inv, of v] v by (auto simp: worker_ok_def)
  then obtain j where j: "waits_for S v j" using waits by blast
  then obtain g' rest where "todo (workers S v) = Acquire g' j # rest" by (auto simp: waits_for_def)
  moreover have "ascending (held (workers S v)) (todo (workers S v))" using asc by (simp add: all_ascending_def)
  ultimately have "\<forall>i \<in> dom (held (workers S v)). i < j" by simp
  then have "Max I < j" using v by blast
  moreover have "j \<le> Max I" using j fin by (intro Max_ge) (auto simp: I_def)
  ultimately show False by simp
qed

lemma step_of_program:
  assumes "steady c0 progs S" and "call_step T w S S'" and "runs_to T (started c0 progs) S"
  shows "progs w \<noteq> []"
proof
  assume empty: "progs w = []"
  have "todo (workers S w) = [] \<and> phase (workers S w) = Ready" using assms(3)
  proof (induction rule: runs_to.induct)
    case (step S' u S'')
    then show ?case by (cases "u = w") (auto elim!: call_stepE)
  qed (simp add: started_def empty)
  with assms(2) show False by (auto elim!: call_stepE)
qed

text \<open>Every reachable state can be run to the end.\<close>

lemma runs_to_end:
  assumes prog: "\<And>w. disciplined (key_shard c) (length (shards c)) Map.empty (progs w)" "\<And>w. ascending Map.empty (progs w)"
    and ok: "cache_ok T hash rt_wf c" "roomy T c progs" and fin: "finite {w. progs w \<noteq> []}"
    and run: "runs_to T (started c progs) S"
  shows "\<exists>S'. runs_to T (started c progs) S' \<and> (\<forall>w. todo (workers S' w) = [] \<and> phase (workers S' w) = Ready)"
  using wf_work [of "{w. progs w \<noteq> []}"] run
proof (induction S rule: wf_induct_rule)
  case (less S)
  note inv = steady_runs [OF less.prems ok prog(1)]
  show ?case
  proof (cases "\<exists>w. todo (workers S w) \<noteq> [] \<or> phase (workers S w) \<noteq> Ready")
    case True
    with steady_progress [OF inv ascending_runs [OF less.prems prog(2)]] obtain u S' where st: "call_step T u S S'" by blast
    have "(S', S) \<in> work {w. progs w \<noteq> []}"
      using step_work [OF st fin] step_of_program [OF inv st less.prems] by simp
    from less.IH [OF this runs_to.step [OF less.prems st]] show ?thesis .
  qed (use less.prems in auto)
qed

end

end
