(* ===== verification/Concurrent_Methods.thy ===== *)
theory Concurrent_Methods
  imports Concurrent_Progress
begin

text \<open>
  The methods of \<open>src/lib.rs\<close> as programs of theory \<open>Concurrent_Cache\<close>: a call on a key takes the
  guard of its shard and drops it after its section; \<open>clear\<close>, \<open>retain\<close>, \<open>shrink_to_fit\<close> and \<open>len\<close> do
  so shard by shard; \<open>Iter\<close> and \<open>IterMut\<close> (\<open>src/iter.rs\<close>) take the guard of the next shard before
  they drop the current one. Run by one thread, the sections of a program are the method.
\<close>

datatype ('k, 'v) api_method =
    One "('k, 'v) call"
  | Clear
  | Retain "'k \<Rightarrow> 'v \<Rightarrow> bool \<times> 'v"
  | Shrink_to_fit
  | Len
  | Iterate
  | Alter_all "'k \<Rightarrow> 'v \<Rightarrow> 'v"

definition guard_for :: "('k, 'v) call \<Rightarrow> guard_kind" where
  "guard_for call = (if writes call then Write_guard else Read_guard)"

definition guarded :: "('k \<Rightarrow> usize) \<Rightarrow> ('k, 'v) call \<Rightarrow> ('k, 'v) action list" where
  "guarded hm call = (let i = call_shard hm call in [Acquire (guard_for call) i, Do call, Release i])"

fun release_prev :: "usize option \<Rightarrow> ('k, 'v) action list" where
  "release_prev None = []"
| "release_prev (Some j) = [Release j]"

fun sweep :: "(usize \<Rightarrow> ('k, 'v) call) \<Rightarrow> usize option \<Rightarrow> usize list \<Rightarrow> ('k, 'v) action list" where
  "sweep mk prev [] = release_prev prev"
| "sweep mk prev (i # is) = Acquire (guard_for (mk i)) i # release_prev prev @ Do (mk i) # sweep mk (Some i) is"

fun program :: "('k \<Rightarrow> usize) \<Rightarrow> nat \<Rightarrow> ('k, 'v) api_method \<Rightarrow> ('k, 'v) action list" where
  "program hm n (One call) = guarded hm call"
| "program hm n Clear = concat (map (guarded hm \<circ> Clear_at) [0..<n])"
| "program hm n (Retain f) = concat (map (guarded hm \<circ> (\<lambda>i. Retain_at i f)) [0..<n])"
| "program hm n Shrink_to_fit = concat (map (guarded hm \<circ> Shrink_at) [0..<n])"
| "program hm n Len = concat (map (guarded hm \<circ> Len_at) [0..<n])"
| "program hm n Iterate = sweep Visit_at None [0..<n]"
| "program hm n (Alter_all f) = sweep (\<lambda>i. Alter_at i f) None [0..<n]"

definition thread :: "('k, 't) NeoCache \<Rightarrow> ('k, 'v) api_method list \<Rightarrow> ('k, 'v) action list" where
  "thread c ms = concat (map (program (key_shard c) (shard_count c)) ms)"

text \<open>The section of a single call exists: only an index given by the caller could be wrong.\<close>

fun method_ok :: "('k \<Rightarrow> usize) \<Rightarrow> nat \<Rightarrow> ('k, 'v) api_method \<Rightarrow> bool" where
  "method_ok hm n (One call) = (call_shard hm call < n)"
| "method_ok hm n m = True"

section \<open>The programs are disciplined and ascending\<close>

definition well_locked :: "('k \<Rightarrow> usize) \<Rightarrow> nat \<Rightarrow> (usize \<rightharpoonup> guard_kind) \<Rightarrow> ('k, 'v) action list \<Rightarrow> bool" where
  "well_locked hm n h acts \<longleftrightarrow> disciplined hm n h acts \<and> ascending h acts"

lemma well_locked_simps [simp]:
  "well_locked hm n h [] \<longleftrightarrow> h = Map.empty"
  "well_locked hm n h (Acquire g i # acts) \<longleftrightarrow> i < n \<and> (\<forall>j \<in> dom h. j < i) \<and> well_locked hm n (h(i \<mapsto> g)) acts"
  "well_locked hm n h (Do call # acts) \<longleftrightarrow> may_do (h (call_shard hm call)) call \<and> well_locked hm n h acts"
  "well_locked hm n h (Release i # acts) \<longleftrightarrow> i \<in> dom h \<and> well_locked hm n (h(i := None)) acts"
  by (auto simp: well_locked_def domIff)

lemma may_do_guard_for [simp]: "may_do (Some (guard_for call)) call"
  by (simp add: guard_for_def)

lemma guarded_ok:
  assumes "call_shard hm call < n"
  shows "well_locked hm n Map.empty (guarded hm call @ rest) \<longleftrightarrow> well_locked hm n Map.empty rest"
  using assms by (simp add: guarded_def Let_def)

lemma guarded_all_ok:
  assumes "\<And>i. i \<in> set is \<Longrightarrow> call_shard hm (mk i) < n"
  shows "well_locked hm n Map.empty (concat (map (guarded hm \<circ> mk) is) @ rest) \<longleftrightarrow> well_locked hm n Map.empty rest"
  using assms by (induction "is") (simp_all add: guarded_ok)

lemma sweep_from_ok:
  assumes mk: "\<And>i. call_shard hm (mk i) = i" and "sorted_wrt (<) (j # is)" and "set is \<subseteq> {..<n}"
  shows "well_locked hm n [j \<mapsto> g] (sweep mk (Some j) is @ rest) \<longleftrightarrow> well_locked hm n Map.empty rest"
  using assms(2,3)
proof (induction "is" arbitrary: j g)
  case (Cons i "is")
  then have i: "j < i" "i < n" "sorted_wrt (<) (i # is)" "set is \<subseteq> {..<n}" by auto
  then have h: "[j \<mapsto> g, i \<mapsto> g'](j := None) = [i \<mapsto> g']" for g' by auto
  have "well_locked hm n [j \<mapsto> g] (sweep mk (Some j) (i # is) @ rest) \<longleftrightarrow>
      well_locked hm n ([j \<mapsto> g, i \<mapsto> guard_for (mk i)](j := None)) (Do (mk i) # sweep mk (Some i) is @ rest)"
    using i(1,2) by simp
  also have "\<dots> \<longleftrightarrow> well_locked hm n [i \<mapsto> guard_for (mk i)] (sweep mk (Some i) is @ rest)"
    unfolding h by (simp add: mk)
  also have "\<dots> \<longleftrightarrow> well_locked hm n Map.empty rest" by (rule Cons.IH [OF i(3,4)])
  finally show ?case .
qed simp

lemma sweep_ok:
  assumes "\<And>i. call_shard hm (mk i) = i"
  shows "well_locked hm n Map.empty (sweep mk None [0..<n] @ rest) \<longleftrightarrow> well_locked hm n Map.empty rest"
proof (cases n)
  case (Suc m)
  have s: "sorted_wrt (<) (0 # [1..<n])" "set [1..<n] \<subseteq> {..<n}" by auto
  have "well_locked hm n Map.empty (sweep mk None [0..<n] @ rest) \<longleftrightarrow>
      well_locked hm n [0 \<mapsto> guard_for (mk 0)] (sweep mk (Some 0) [1..<n] @ rest)"
    using Suc by (simp add: upt_conv_Cons assms del: upt_Suc)
  also have "\<dots> \<longleftrightarrow> well_locked hm n Map.empty rest" by (rule sweep_from_ok [OF assms s])
  finally show ?thesis .
qed simp

lemma program_ok:
  assumes "method_ok hm n m"
  shows "well_locked hm n Map.empty (program hm n m @ rest) \<longleftrightarrow> well_locked hm n Map.empty rest"
proof -
  note all = guarded_all_ok [of "[0..<n]" hm _ n]
  show ?thesis
    using assms all [of Clear_at] all [of "\<lambda>i. Retain_at i _"] all [of Shrink_at] all [of Len_at]
    by (cases m) (simp_all add: guarded_ok sweep_ok)
qed

lemma thread_ok:
  assumes "\<forall>m \<in> set ms. method_ok (key_shard c) (shard_count c) m"
  shows "disciplined (key_shard c) (length (shards c)) Map.empty (thread c ms)" and "ascending Map.empty (thread c ms)"
proof -
  have "well_locked (key_shard c) (shard_count c) Map.empty (thread c ms)"
    using assms by (induction ms) (simp_all add: thread_def program_ok)
  then show "disciplined (key_shard c) (length (shards c)) Map.empty (thread c ms)" "ascending Map.empty (thread c ms)"
    by (simp_all add: shard_count_def well_locked_def)
qed

section \<open>The sections of a program are the method\<close>

fun nc_method :: "('k, 'v, 't) table \<Rightarrow> ('k, 'v) api_method \<Rightarrow> ('k, 't) NeoCache
    \<Rightarrow> (('k, 'v) answer \<times> ('k, 't) NeoCache) comp" where
  "nc_method T (One call) c = nc_call T call c"
| "nc_method T Clear c = comp_bind (nc_clear T c) (\<lambda>(u, c'). returns (Unit, c'))"
| "nc_method T (Retain f) c = comp_bind (nc_retain T c (unit_closure f) ()) (\<lambda>(u, c'). returns (Unit, c'))"
| "nc_method T Shrink_to_fit c = comp_bind (nc_shrink_to_fit T c) (\<lambda>(u, c'). returns (Unit, c'))"
| "nc_method T Len c = comp_bind (nc_len T c) (\<lambda>(n, c'). returns (Count n, c'))"
| "nc_method T Iterate c = comp_bind (nc_for_each T (\<lambda>ps p. (Ok (ps @ [p]) :: (_, unit) result)) c [])
     (\<lambda>(r, c'). returns (case r of Ok ps \<Rightarrow> Pairs ps | Err e \<Rightarrow> Unit, c'))"
| "nc_method T (Alter_all f) c =
     comp_bind (nc_alter_all T (\<lambda>u k v. Return (f k v, ())) c ()) (\<lambda>(u, c'). returns (Unit, c'))"

fun count_of :: "('k, 'v) answer \<Rightarrow> nat" where
  "count_of (Count n) = n"
| "count_of a = 0"

fun pairs_of :: "('k, 'v) answer \<Rightarrow> ('k \<times> 'v) list" where
  "pairs_of (Pairs ps) = ps"
| "pairs_of a = []"

fun combine :: "('k, 'v) api_method \<Rightarrow> ('k, 'v) answer list \<Rightarrow> ('k, 'v) answer" where
  "combine (One call) as = hd as"
| "combine Len as = Count (sum_list (map count_of as))"
| "combine Iterate as = Pairs (concat (map pairs_of as))"
| "combine m as = Unit"

lemma calls_of_append [simp]: "calls_of (xs @ ys) = calls_of xs @ calls_of ys"
  by (induction xs rule: calls_of.induct) simp_all

lemma calls_of_guarded: "calls_of (concat (map (guarded hm \<circ> mk) is)) = map mk is"
  by (induction "is") (simp_all add: guarded_def Let_def)

lemma calls_of_release_prev [simp]: "calls_of (release_prev prev) = []"
  by (cases prev) simp_all

lemma calls_of_sweep: "calls_of (sweep mk prev is) = map mk is"
  by (induction "is" arbitrary: prev) simp_all

fun sections :: "nat \<Rightarrow> ('k, 'v) api_method \<Rightarrow> ('k, 'v) call list" where
  "sections n (One call) = [call]"
| "sections n Clear = map Clear_at [0..<n]"
| "sections n (Retain f) = map (\<lambda>i. Retain_at i f) [0..<n]"
| "sections n Shrink_to_fit = map Shrink_at [0..<n]"
| "sections n Len = map Len_at [0..<n]"
| "sections n Iterate = map Visit_at [0..<n]"
| "sections n (Alter_all f) = map (\<lambda>i. Alter_at i f) [0..<n]"

lemma calls_of_program: "calls_of (program hm n m) = sections n m"
proof (cases m)
  case (One call)
  then show ?thesis by (simp add: guarded_def Let_def)
qed (simp_all add: calls_of_sweep calls_of_guarded)

text \<open>One section per shard, in order, is a map over the shards.\<close>

lemma sections_from:
  assumes mk: "\<And>hm i. call_shard hm (mk i) = i"
    and body: "\<And>i s. call_body T (hasher c) (mk i) s = returns (ans s, g s)"
    and n: "length pre + length ss = n"
  shows "comp_run (nc_call T) (map mk [length pre..<n]) (with_shards c (pre @ ss)) =
    returns (map ans ss, with_shards c (pre @ map g ss))"
  using n
proof (induction ss arbitrary: pre)
  case (Cons s ss)
  let ?c = "with_shards c (pre @ s # ss)" and ?i = "length pre"
  have i: "?i < n" "?i < length (shards ?c)" using Cons.prems by (simp_all add: with_shards_def)
  have "nc_call T (mk ?i) ?c = run_section T (mk ?i) ?i ?c"
    using i(2) by (intro nc_call_section) (simp_all add: mk)
  then have "nc_call T (mk ?i) ?c = returns (ans s, put_shard ?c ?i (g s))"
    by (simp add: run_section_def body shard_at_with)
  moreover have "put_shard ?c ?i (g s) = with_shards c ((pre @ [g s]) @ ss)"
    using i by (simp add: with_shards_put)
  moreover have "comp_run (nc_call T) (map mk [length (pre @ [g s])..<n]) (with_shards c ((pre @ [g s]) @ ss)) =
      returns (map ans ss, with_shards c ((pre @ [g s]) @ map g ss))"
    using Cons.prems by (intro Cons.IH) simp
  ultimately show ?case using i(1) by (simp add: upt_conv_Cons)
qed simp

lemma sections_all:
  assumes "quiet c" and mk: "\<And>hm i. call_shard hm (mk i) = i"
    and body: "\<And>i s. call_body T (hasher c) (mk i) s = returns (ans s, g s)"
  shows "comp_run (nc_call T) (map mk [0..<shard_count c]) c =
    returns (map ans (shard_list c), with_shards c (map g (shard_list c)))"
  using sections_from [where pre = "[]" and ss = "shard_list c", OF mk body] with_shards_same [OF assms(1)] by simp

lemma shards_fold_unit_state: "shards_fold g () ss = ((), map (\<lambda>s. snd (g () s)) ss)"
  by (induction ss) (simp_all add: Let_def split_def)

lemma bulk_method:
  assumes q: "quiet c" and "0 < shard_count c" and "m \<in> {Clear, Retain f, Shrink_to_fit, Alter_all h}"
  shows "nc_method T m c = comp_bind (comp_run (nc_call T) (sections (shard_count c) m) c) (\<lambda>(as, c'). returns (Unit, c'))"
proof -
  note all = sections_all [OF q, where T = T] each_shard_write [OF q]
  consider "m = Clear" | "m = Retain f" | "m = Shrink_to_fit" | "m = Alter_all h" using assms(3) by blast
  then show ?thesis
  proof cases
    case 1
    then show ?thesis
      using all(1) [of Clear_at "\<lambda>_. Unit" "clear_all T"] all(2) [of "\<lambda>u s. ((), clear_all T s)" "()"]
      by (simp add: nc_clear_def shards_fold_unit_state)
  next
    case 2
    then show ?thesis
      using all(1) [of "\<lambda>i. Retain_at i f" "\<lambda>_. Unit" "\<lambda>s. snd (retain_locked T (unit_closure f) () s)"]
        all(2) [of "retain_locked T (unit_closure f)" "()"]
      by (simp add: nc_retain_def shards_fold_unit_state)
  next
    case 3
    let ?g = "\<lambda>s. map_shrink_to T (rt_len T (raw_map s)) (hasher c) s"
    have "nc_shrink_to_fit T c = returns ((), with_shards c (map ?g (shard_list c)))"
      unfolding nc_shrink_to_fit_def
      by (rule each_shard_fold [where g = "\<lambda>u s. ((), ?g s)", OF q])
        (simp_all add: shards_fold_unit with_write_quiet shard_count_def Let_def)
    then show ?thesis using all(1) [of Shrink_at "\<lambda>_. Unit" ?g] 3 by simp
  next
    case 4
    have np: "no_panic (\<lambda>u k v. Return (h k v, ()))" by (simp add: no_panic_def)
    have k: "keep_all (\<lambda>u k v. Return (h k v, ())) = unit_closure (\<lambda>k v. (True, h k v))"
      by (simp add: keep_all_def unit_closure_def fun_eq_iff)
    show ?thesis
      using all(1) [of "\<lambda>i. Alter_at i h" "\<lambda>_. Unit" "\<lambda>s. alter_buckets T h (rt_iter T (raw_map s)) s"]
        all(2) [of "retain_locked T (unit_closure (\<lambda>k v. (True, h k v)))" "()"] 4
      by (simp add: alter_all_retain [OF np assms(1,2)] k nc_retain_def shards_fold_unit_state alter_shard_retain)
  qed
qed

lemma count_method:
  assumes q: "quiet c" and "(\<Sum>s \<leftarrow> shard_list c. shard_len T s) \<le> usize_max"
  shows "nc_method T Len c =
    comp_bind (comp_run (nc_call T) (sections (shard_count c) Len) c) (\<lambda>(as, c'). returns (combine Len as, c'))"
proof -
  have l: "map (shard_at c) [0..<shard_count c] = shard_list c"
    by (intro nth_equalityI) (simp_all add: shard_list_nth)
  then have s: "(\<Sum>i \<leftarrow> [0..<shard_count c]. shard_len T (shard_at c i)) = (\<Sum>s \<leftarrow> shard_list c. shard_len T s)"
    by (metis (mono_tags, lifting) comp_apply list.map_cong0 map_map)
  have "nc_len T c = returns ((\<Sum>s \<leftarrow> shard_list c. shard_len T s), c)"
    using each_shard_sum [OF q, of "[0..<shard_count c]" 0 "shard_len T"] assms(2)
    by (simp add: nc_len_def s lessThan_atLeast0)
  moreover have "comp_run (nc_call T) (map Len_at [0..<shard_count c]) c =
      returns (map (\<lambda>s. Count (shard_len T s)) (shard_list c), c)"
    using sections_all [OF q, of Len_at T "\<lambda>s. Count (shard_len T s)" "\<lambda>s. s"] by (simp add: with_shards_same [OF q])
  ultimately show ?thesis by (simp add: comp_def)
qed

lemma iterate_method:
  assumes q: "quiet c" and "0 < shard_count c"
  shows "nc_method T Iterate c =
    comp_bind (comp_run (nc_call T) (sections (shard_count c) Iterate) c) (\<lambda>(as, c'). returns (combine Iterate as, c'))"
proof -
  have "nc_method T Iterate c = returns (Pairs (cache_pairs T c), c)"
    by (simp add: nc_for_each_spec [OF assms] try_fold_collect)
  moreover have "comp_run (nc_call T) (map Visit_at [0..<shard_count c]) c =
      returns (map (\<lambda>s. Pairs (shard_pairs T s)) (shard_list c), c)"
    using sections_all [OF q, of Visit_at T "\<lambda>s. Pairs (shard_pairs T s)" "\<lambda>s. s"] by (simp add: with_shards_same [OF q])
  ultimately show ?thesis by (simp add: comp_def cache_pairs_def)
qed

lemma method_sections:
  assumes "quiet c" and "0 < shard_count c" and "m = Len \<Longrightarrow> (\<Sum>s \<leftarrow> shard_list c. shard_len T s) \<le> usize_max"
  shows "nc_method T m c = comp_bind (comp_run (nc_call T) (sections (shard_count c) m) c) (\<lambda>(as, c'). returns (combine m as, c'))"
proof (cases m)
  case (One call)
  then show ?thesis by (simp add: comp_bind_assoc split_def)
next
  case Len
  then show ?thesis using count_method [OF assms(1)] assms(3) by simp
next
  case Iterate
  then show ?thesis using iterate_method [OF assms(1,2)] by simp
next
  case Clear
  then show ?thesis using bulk_method [OF assms(1,2), of Clear] by simp
next
  case (Retain f)
  then show ?thesis using bulk_method [OF assms(1,2), of "Retain f" f] by simp
next
  case Shrink_to_fit
  then show ?thesis using bulk_method [OF assms(1,2), of Shrink_to_fit] by simp
next
  case (Alter_all h)
  then show ?thesis using bulk_method [OF assms(1,2), of "Alter_all h" _ h] by simp
qed

end
