(* ===== verification/Atomic_Lock.thy ===== *)
theory Atomic_Lock
  imports Concurrent_Progress
begin

text \<open>
  The interface between the two models of concurrency. An atomic lock is the map from threads
  to the guards they hold, and its steps are to take a guard that conflicts with no other, to
  downgrade one and to drop one. The protocol of \<open>src/lock.rs\<close> (theory \<open>Lock_Protocol\<close>, with its
  races, spurious failures and parking) implements it: every step of every thread leaves the
  guards alone or is a step of the atomic lock. The threads of theory \<open>Concurrent_Cache\<close> use each
  shard's lock in exactly these steps.
\<close>

inductive atomic_step :: "'w \<Rightarrow> ('w \<rightharpoonup> guard_kind) \<Rightarrow> ('w \<rightharpoonup> guard_kind) \<Rightarrow> bool" for w where
  take_write: "\<forall>u. h u = None \<Longrightarrow> atomic_step w h (h(w \<mapsto> Write_guard))"
| take_read: "h w = None \<Longrightarrow> \<forall>u. h u \<noteq> Some Write_guard \<Longrightarrow> atomic_step w h (h(w \<mapsto> Read_guard))"
| to_read: "h w = Some Write_guard \<Longrightarrow> atomic_step w h (h(w \<mapsto> Read_guard))"
| give_back: "h w \<noteq> None \<Longrightarrow> atomic_step w h (h(w := None))"

inductive_simps atomic_step_iff: "atomic_step w h h'"

definition exclusive :: "('w \<rightharpoonup> guard_kind) \<Rightarrow> bool" where
  "exclusive h \<longleftrightarrow> (\<forall>w u. h w = Some Write_guard \<longrightarrow> u \<noteq> w \<longrightarrow> h u = None)"

lemma exclusive_step: "exclusive h \<Longrightarrow> atomic_step w h h' \<Longrightarrow> exclusive h'"
  by (auto simp: exclusive_def atomic_step_iff split: if_splits)

section \<open>The interface\<close>

text \<open>
  A system whose threads go by \<open>step\<close> through states that satisfy \<open>inv\<close>, and whose lock is seen
  through \<open>guards\<close>.
\<close>

locale atomic_guards =
  fixes inv :: "'s \<Rightarrow> bool" and step :: "'w \<Rightarrow> 's \<Rightarrow> 's \<Rightarrow> bool" and guards :: "'s \<Rightarrow> 'w \<rightharpoonup> guard_kind"
  assumes inv_step: "inv s \<Longrightarrow> step w s s' \<Longrightarrow> inv s'"
    and atomic: "inv s \<Longrightarrow> step w s s' \<Longrightarrow> guards s' = guards s \<or> atomic_step w (guards s) (guards s')"
begin

text \<open>Over a run no guard of another thread changes, and exclusion is kept.\<close>

lemma others_kept: "inv s \<Longrightarrow> step w s s' \<Longrightarrow> u \<noteq> w \<Longrightarrow> guards s' u = guards s u"
  using atomic [of s w s'] by (auto simp: atomic_step_iff)

lemma exclusive_kept: "inv s \<Longrightarrow> step w s s' \<Longrightarrow> exclusive (guards s) \<Longrightarrow> exclusive (guards s')"
  using atomic [of s w s'] exclusive_step by metis

lemma exclusive_run:
  assumes "(\<lambda>s s'. \<exists>w. step w s s')\<^sup>*\<^sup>* s s'" and "inv s" and "exclusive (guards s)"
  shows "inv s' \<and> exclusive (guards s')"
  using assms by (induction rule: rtranclp_induct) (auto intro: inv_step exclusive_kept)

end

section \<open>The protocol of the lock\<close>

definition guards_of :: "'tid lock_system \<Rightarrow> 'tid \<rightharpoonup> guard_kind" where
  "guards_of s t = (if holds_excl (pc_of s t) then Some Write_guard
     else if holds_shared (pc_of s t) then Some Read_guard else None)"

definition protocol_step :: "'tid \<Rightarrow> 'tid lock_system \<Rightarrow> 'tid lock_system \<Rightarrow> bool" where
  "protocol_step t s s' \<longleftrightarrow> (\<exists>p' w'. lock_action (pc_of s t) (word_of s) p' w' \<and>
     s' = \<lparr>word_of = w', pc_of = (pc_of s)(t := p')\<rparr>)"

lemma guards_of_upd:
  "guards_of \<lparr>word_of = w', pc_of = (pc_of s)(t := p')\<rparr> = (guards_of s)(t := guards_of \<lparr>word_of = w', pc_of = (\<lambda>_. p')\<rparr> t)"
  by (simp add: guards_of_def fun_eq_iff)

lemma guards_of_None: "guards_of s t = None \<longleftrightarrow> t \<notin> writers s \<and> t \<notin> readers s"
  by (simp add: guards_of_def writers_def readers_def)

lemma guards_of_Write: "guards_of s t = Some Write_guard \<longleftrightarrow> t \<in> writers s"
  by (simp add: guards_of_def writers_def)

lemma protocol_atomic:
  assumes inv: "lock_inv s" and st: "protocol_step t s s'"
  shows "guards_of s' = guards_of s \<or> atomic_step t (guards_of s) (guards_of s')"
proof -
  obtain p' w' where act: "lock_action (pc_of s t) (word_of s) p' w'" and s': "s' = \<lparr>word_of = w', pc_of = (pc_of s)(t := p')\<rparr>"
    using st by (auto simp: protocol_step_def)
  let ?p = "pc_of s t" and ?w = "word_of s"
  note ex = excl_holder [OF inv, of t] and sh = shared_holder [OF inv, of t]
  have loc: "local_ok ?p ?w" using inv by (simp add: lock_inv_def)
  have eff: "if holds_excl ?p then excl_effect p' ?w w' else if holds_shared ?p then shared_effect p' ?w w' else free_effect p' ?w w'"
    using action_effect [OF act loc] ex sh by blast
  have g': "guards_of s' = (guards_of s)(t := (if holds_excl p' then Some Write_guard
      else if holds_shared p' then Some Read_guard else None))"
    by (simp add: s' guards_of_def fun_eq_iff)
  consider (excl) "holds_excl ?p" | (shared) "\<not> holds_excl ?p" "holds_shared ?p" | (free) "\<not> holds_excl ?p" "\<not> holds_shared ?p" by blast
  then show ?thesis
  proof cases
    case excl
    then have "guards_of s t = Some Write_guard" by (simp add: guards_of_def)
    moreover have "\<not> (holds_excl p' \<and> holds_shared p')" using not_both by blast
    ultimately show ?thesis unfolding g' using to_read [of "guards_of s" t] give_back [of "guards_of s" t] by (auto simp: fun_upd_idem)
  next
    case shared
    then have "guards_of s t = Some Read_guard" by (simp add: guards_of_def)
    moreover have "\<not> holds_excl p'" using eff shared by (simp add: shared_effect_def)
    ultimately show ?thesis unfolding g' using give_back [of "guards_of s" t] by (auto simp: fun_upd_idem)
  next
    case free
    then have n: "guards_of s t = None" by (simp add: guards_of_def)
    have eff': "free_effect p' ?w w'" using eff free by simp
    have "guards_of s u = None" if "holds_excl p'" for u
    proof -
      have "holders ?w = 0" using eff' that by (auto simp: free_effect_def)
      then show ?thesis using inv by (auto simp: guards_of_None lock_inv_def)
    qed
    moreover have "guards_of s u \<noteq> Some Write_guard" if "holds_shared p'" "\<not> holds_excl p'" for u
    proof -
      have "holders ?w \<noteq> writer_code" using eff' that by (auto simp: free_effect_def)
      then show ?thesis using inv by (auto simp: guards_of_Write lock_inv_def)
    qed
    ultimately show ?thesis
      unfolding g' using n take_write [of "guards_of s" t] take_read [of "guards_of s" t] by (auto simp: fun_upd_idem)
  qed
qed

interpretation protocol: atomic_guards lock_inv protocol_step guards_of
proof
  show "lock_inv s'" if "lock_inv s" "protocol_step w s s'" for s w and s' :: "'tid lock_system"
    using that by (auto simp: protocol_step_def intro: lock_inv_step)
qed (rule protocol_atomic)

section \<open>The threads of a cache\<close>

definition guards_at :: "usize \<Rightarrow> ('k, 'v, 't, 'w) concurrent \<Rightarrow> 'w \<rightharpoonup> guard_kind" where
  "guards_at i S w = held (workers S w) i"

text \<open>When the word of a shard lets a thread in.\<close>

lemma lock_exclusive_iff:
  assumes "word_ok v W R"
  shows "(\<exists>v'. lock_exclusive v = returns v') \<longleftrightarrow> W = {} \<and> R = {}"
proof
  assume "\<exists>v'. lock_exclusive v = returns v'"
  then show "W = {} \<and> R = {}" using lock_exclusive_word [OF assms] by blast
next
  assume "W = {} \<and> R = {}"
  then have "v = 0" using assms by (auto simp: word_ok_def intro: free_word)
  then show "\<exists>v'. lock_exclusive v = returns v'" by simp
qed

lemma lock_shared_iff:
  assumes "word_ok v W R"
  shows "(\<exists>v'. lock_shared v = returns v') \<longleftrightarrow> W = {} \<and> Suc (card R) < writer_code"
proof (cases "W = {}")
  case False
  then have h: "holders v = writer_code" using assms by (auto simp: word_ok_def)
  then have "lock_shared v = None"
    using checked_add_reader(2) [of v] by (simp add: lock_shared_def lock_shared_slow_def try_lock_shared_fast_def)
  with False show ?thesis by simp
next
  case True
  then have h: "holders v = card R" "card R < writer_code" using assms by (auto simp: word_ok_def)
  then have "checked_add v ONE_READER \<noteq> None" using checked_add_reader(2) [of v] by simp
  then obtain v' where v': "checked_add v ONE_READER = Some v'" by blast
  then have "holders v' = Suc (card R)" using checked_add_reader(1) h(1) by simp
  then have "v' AND ONE_WRITER = ONE_WRITER \<longleftrightarrow> \<not> Suc (card R) < writer_code"
    using h(2) by (auto simp: and_writer_full)
  then show ?thesis
    using True v' by (simp add: lock_shared_def lock_shared_slow_def try_lock_shared_fast_def)
qed

lemma yield_shard_iff:
  assumes "i < length (shards c)"
  shows "(\<exists>c'. yield_shard Write_guard c i = returns c') \<longleftrightarrow> (\<exists>v. lock_exclusive (lock_word c i) = returns v)"
    and "(\<exists>c'. yield_shard Read_guard c i = returns c') \<longleftrightarrow> (\<exists>v. lock_shared (lock_word c i) = returns v)"
  using assms by (auto simp: yield_write_shard_def yield_read_shard_def lock_word_def comp_bind_returns_iff)

lemma acquire_enabled:
  assumes "phase (workers S w) = Ready" and "todo (workers S w) = Acquire g i # rest"
  shows "(\<exists>S'. call_step T w S S') \<longleftrightarrow> (\<exists>c. yield_shard g (cache S) i = returns c)"
  using assms acquire [OF refl assms] by (auto elim!: call_stepE)

lemma no_holder: "(\<forall>u. guards_at i S u = None) \<longleftrightarrow> holding (workers S) Write_guard i = {} \<and> holding (workers S) Read_guard i = {}"
proof -
  have "held (workers S u) i = None \<longleftrightarrow> held (workers S u) i \<noteq> Some Write_guard \<and> held (workers S u) i \<noteq> Some Read_guard" for u
    by (metis guard_kind.exhaust not_None_eq option.distinct(1))
  then show ?thesis by (auto simp: guards_at_def holding_def)
qed

lemma no_writer: "(\<forall>u. guards_at i S u \<noteq> Some Write_guard) \<longleftrightarrow> holding (workers S) Write_guard i = {}"
  by (auto simp: guards_at_def holding_def)

lemma guards_at_moved: "guards_at i (moved S w c x es) = (guards_at i S)(w := held x i)"
  by (simp add: guards_at_def fun_eq_iff)

context shard_table
begin

lemma take_guard_atomic:
  assumes inv: "steady c0 progs S" and ready: "todo (workers S w) = Acquire g i # rest"
    and y: "yield_shard g (cache S) i = returns c"
  shows "atomic_step w (guards_at i S) ((guards_at i S)(w \<mapsto> g))"
proof -
  have d: "i < length (shards (cache S))" "guards_at i S w = None"
    using steadyD(6) [OF inv, of w] ready by (auto simp: worker_ok_def guards_at_def)
  note word = steadyD(5) [OF inv d(1)]
  show ?thesis
  proof (cases g)
    case Write_guard
    then have "\<exists>v. lock_exclusive (lock_word (cache S) i) = returns v" using y yield_shard_iff(1) [OF d(1)] by blast
    then have "\<forall>u. guards_at i S u = None" unfolding no_holder lock_exclusive_iff [OF word] .
    then show ?thesis unfolding Write_guard by (rule take_write)
  next
    case Read_guard
    then have "\<exists>v. lock_shared (lock_word (cache S) i) = returns v" using y yield_shard_iff(2) [OF d(1)] by blast
    then have "\<forall>u. guards_at i S u \<noteq> Some Write_guard" unfolding no_writer lock_shared_iff [OF word] by simp
    then show ?thesis unfolding Read_guard using d(2) by (intro take_read)
  qed
qed

text \<open>When a thread that waits for a guard can go on.\<close>

lemma acquire_iff:
  assumes inv: "steady c0 progs S" and ph: "phase (workers S w) = Ready" and todo: "todo (workers S w) = Acquire g i # rest"
  shows "(\<exists>S'. call_step T w S S') \<longleftrightarrow> (case g of Write_guard \<Rightarrow> \<forall>u. guards_at i S u = None
    | Read_guard \<Rightarrow> (\<forall>u. guards_at i S u \<noteq> Some Write_guard) \<and> Suc (card {u. guards_at i S u = Some Read_guard}) < writer_code)"
proof -
  have i: "i < length (shards (cache S))" using steadyD(6) [OF inv, of w] ph todo by (auto simp: worker_ok_def)
  note word = steadyD(5) [OF inv i]
  have rd: "{u. guards_at i S u = Some Read_guard} = holding (workers S) Read_guard i" by (simp add: guards_at_def holding_def)
  show ?thesis unfolding acquire_enabled [OF ph todo]
    by (cases g) (simp_all add: yield_shard_iff [OF i] lock_exclusive_iff [OF word] lock_shared_iff [OF word] no_holder no_writer rd
      del: yield_shard.simps)
qed

lemma threads_atomic:
  assumes inv: "steady c0 progs S" and st: "call_step T w S S'"
  shows "guards_at i S' = guards_at i S \<or> atomic_step w (guards_at i S) (guards_at i S')"
  using st
proof cases
  case (acquire x g j rest c)
  then show ?thesis using take_guard_atomic [OF inv, of w g j rest c]
    by (cases "i = j") (auto simp: guards_at_moved fun_upd_idem guards_at_def)
next
  case (release x j rest g c)
  then show ?thesis using give_back [of "guards_at i S" w]
    by (cases "i = j") (auto simp: guards_at_moved fun_upd_idem guards_at_def)
next
  case (downgrade x j rest c)
  then have "held (workers S w) j = Some Write_guard" using steadyD(6) [OF inv, of w] by (auto simp: worker_ok_def)
  with downgrade show ?thesis using to_read [of "guards_at i S" w]
    by (cases "i = j") (auto simp: guards_at_moved fun_upd_idem guards_at_def)
qed (auto simp: guards_at_moved fun_upd_idem guards_at_def)

end

sublocale shard_table \<subseteq> threads: atomic_guards "conc_inv T hash rt_wf c0 progs" "call_step T" "guards_at i"
  for c0 and progs :: "'w \<Rightarrow> ('k, 'v) action list" and i
  by unfold_locales (rule steady_step threads_atomic; assumption)+

lemma runs_to_steps: "runs_to T S0 S \<Longrightarrow> (\<lambda>S S'. \<exists>w. call_step T w S S')\<^sup>*\<^sup>* S0 S"
  by (induction rule: runs_to.induct) (auto intro: rtranclp.rtrancl_into_rtrancl)

lemma started_exclusive: "exclusive (guards_at i (started c progs))"
  by (simp add: exclusive_def guards_at_def started_def)

context shard_table
begin

lemma guards_exclusive:
  assumes run: "runs_to T (started c progs) S" and ok: "cache_ok T hash rt_wf c" and room: "roomy T c progs"
    and progs: "\<And>w. disciplined (key_shard c) (length (shards c)) Map.empty (progs w)"
  shows "exclusive (guards_at i S)"
  using threads.exclusive_run [OF runs_to_steps [OF run] steady_runs [OF runs_to.start ok room progs] started_exclusive] by blast

end

end
