(* ===== verification/Concurrent_Properties.thy ===== *)
theory Concurrent_Properties
  imports Concurrent_Methods Atomic_Lock
begin

text \<open>
  What threads that share a cache can rely on: the sections of their calls take effect one at
  a time, in an order that contains each thread's own order, with the answers of a
  single-threaded run; methods always return, whatever the schedule; a thread that holds a
  guard and calls a method on another shard may deadlock.
\<close>

definition demo_methods :: "nat \<Rightarrow> (nat, string) api_method list" where
  "demo_methods w = (if w = 0 then [One (Insert 3 ''three''), Iterate] else if w = 1 then [One (Remove 1), Len] else [])"

definition demo_threads :: "nat \<Rightarrow> (nat, string) action list" where
  "demo_threads w = thread demo_full (demo_methods w)"

lemma demo_methods_ok:
  "\<forall>m \<in> set (demo_methods w). method_ok (key_shard demo_full) (shard_count demo_full) m" "finite {w. demo_methods w \<noteq> []}"
proof -
  have "key_shard demo_full k < shard_count demo_full" for k
    using slot_shard.home_okD(1) [OF demo_states_ok(3)] by (simp add: shard_count_def)
  then show "\<forall>m \<in> set (demo_methods w). method_ok (key_shard demo_full) (shard_count demo_full) m"
    by (auto simp: demo_methods_def)
  show "finite {w. demo_methods w \<noteq> []}"
    by (rule finite_subset [of _ "{0, 1}"]) (auto simp: demo_methods_def split: if_splits)
qed

lemmas demo_threads_ok = thread_ok [OF demo_methods_ok(1), folded demo_threads_def]

lemma demo_run: "runs_to slot_table (started demo_full demo_threads) (started demo_full demo_threads)"
  by (rule runs_to.start)

lemma demo_roomy: "roomy slot_table demo_full progs"
  by (simp add: roomy_def demo_states_ok)

text \<open>C2:
  Threads that share a cache are serializable, whatever guards they hold and however their
  lock steps, sections, reads through references and drops interleave: the sections in the
  order they took effect are a single-threaded run from the initial state, with the same
  answers and, locks aside, the same final state; each is a step of a map that answers
  exactly and loses nothing if the cache is unbounded, and otherwise at most one other entry of
  the same shard, when a new key is inserted;
  and a thread between two sections has got exactly the answers of its own, in its own order.
\<close>

theorem concurrent_serializable:
  assumes tab: "shard_table T hash tok sok" and ok: "cache_ok T hash tok c" and room: "roomy T c progs"
    and progs: "\<forall>w. disciplined (key_shard c) (length (shards c)) Map.empty (progs w)"
    and run: "runs_to T (started c progs) S"
  shows "comp_run (nc_call T) (map (fst \<circ> snd) (effects S)) c =
      returns (map (snd \<circ> snd) (effects S), at_rest (cache S)) \<and>
    cache_ok T hash tok (at_rest (cache S)) \<and>
    lossy_run (0 < cache_capacity c) (key_shard c) (map snd (effects S)) (cache_vals T c) (cache_vals T (at_rest (cache S))) \<and>
    (\<forall>w. phase (workers S w) = Ready \<longrightarrow>
      calls_of (progs w) = map fst (own_effects (effects S) w) @ calls_of (todo (workers S w)) \<and>
      answers (workers S w) = map snd (own_effects (effects S) w))"
proof -
  note inv = shard_table.steady_runs [OF tab run ok room spec [OF progs]]
  note seq = shard_table.steadyD(1,7,8) [OF tab inv]
  have "calls_of (progs w) = map fst (own_effects (effects S) w) @ calls_of (todo (workers S w)) \<and>
      answers (workers S w) = map snd (own_effects (effects S) w)" if "phase (workers S w) = Ready" for w
    using shard_table.steadyD(6) [OF tab inv, of w] that by (simp add: worker_ok_def)
  with seq show ?thesis by blast
qed

theorem concurrent_serializable_witness:
  "\<exists>S. runs_to slot_table (started demo_full demo_threads) S \<and>
    comp_run (nc_call slot_table) (map (fst \<circ> snd) (effects S)) demo_full =
      returns (map (snd \<circ> snd) (effects S), at_rest (cache S)) \<and>
    map fst (own_effects (effects S) 1) = [Remove 1, Len_at 0, Len_at 1]"
proof -
  have fin: "finite {w. demo_threads w \<noteq> []}"
    by (rule finite_subset [OF _ demo_methods_ok(2)]) (auto simp: demo_threads_def thread_def)
  from slot_shard.runs_to_end [OF demo_threads_ok demo_states_ok(3) demo_roomy fin demo_run] obtain S where
    S: "runs_to slot_table (started demo_full demo_threads) S" "todo (workers S 1) = []" "phase (workers S 1) = Ready" by blast
  note c = concurrent_serializable [OF slot_shard.shard_table_axioms demo_states_ok(3) demo_roomy _ S(1)]
  have "shard_count demo_full = 2" by code_simp
  then have "calls_of (demo_threads 1) = [Remove 1, Len_at 0, Len_at 1]"
    by (simp add: demo_threads_def thread_def demo_methods_def guarded_def Let_def upt_rec)
  with c demo_threads_ok(1) S show ?thesis by (intro exI [of _ S]) auto
qed

text \<open>C8:
  Threads that share a cache all return: let each of finitely many threads call any list of methods, single
  calls and operations on all shards, iterations that wait for the lock of the next shard
  while they hold that of the current one included. In every reachable state a step of any
  thread strictly decreases a well-founded measure, and as long as some thread is not done,
  some thread can take a step; so every schedule that goes on as long as it can ends, and a
  thread that is done holds no guard and has got an answer for every section.
\<close>

theorem concurrent_completes:
  assumes tab: "shard_table T hash tok sok" and ok: "cache_ok T hash tok c" and room: "roomy T c (\<lambda>w. thread c (ms w))"
    and ms: "\<forall>w. \<forall>m \<in> set (ms w). method_ok (key_shard c) (shard_count c) m" and fin: "finite {w. ms w \<noteq> []}"
    and run: "runs_to T (started c (\<lambda>w. thread c (ms w))) S"
  shows "wf (work {w. ms w \<noteq> []}) \<and> (\<forall>w S'. call_step T w S S' \<longrightarrow> (S', S) \<in> work {w. ms w \<noteq> []}) \<and>
    ((\<exists>w. todo (workers S w) \<noteq> [] \<or> phase (workers S w) \<noteq> Ready) \<longrightarrow> (\<exists>w S'. call_step T w S S')) \<and>
    (\<forall>w. todo (workers S w) = [] \<and> phase (workers S w) = Ready \<longrightarrow> held (workers S w) = Map.empty \<and>
      length (answers (workers S w)) = length (calls_of (thread c (ms w))))"
proof -
  note prog = thread_ok [OF spec [OF ms]]
  note inv = shard_table.steady_runs [OF tab run ok room prog(1)]
  have "(S', S) \<in> work {w. ms w \<noteq> []}" if "call_step T w S S'" for w S'
  proof -
    have "thread c (ms w) \<noteq> []" by (rule shard_table.step_of_program [OF tab inv that run])
    then have "ms w \<noteq> []" by (auto simp: thread_def)
    then show ?thesis using step_work [OF that fin] by simp
  qed
  moreover have "held (workers S w) = Map.empty \<and> length (answers (workers S w)) = length (calls_of (thread c (ms w)))"
    if "todo (workers S w) = []" "phase (workers S w) = Ready" for w
  proof -
    have "held (workers S w) = Map.empty" "calls_of (thread c (ms w)) = map fst (own_effects (effects S) w)"
      "map snd (own_effects (effects S) w) = answers (workers S w)"
      using shard_table.steadyD(6) [OF tab inv, of w] that by (simp_all add: worker_ok_def)
    then show ?thesis by (metis length_map)
  qed
  moreover have "all_ascending S" using ascending_runs [OF run prog(2)] .
  ultimately show ?thesis using shard_table.steady_progress [OF tab inv] wf_work by blast
qed

theorem concurrent_completes_witness:
  "\<exists>u S'. call_step slot_table u (started demo_full demo_threads) S' \<and>
     (S', started demo_full demo_threads) \<in> work {w. demo_methods w \<noteq> []}"
proof -
  have n: "shard_count demo_full = 2" by code_simp
  have "\<forall>w. \<forall>m \<in> set (demo_methods w). method_ok (key_shard demo_full) (shard_count demo_full) m"
    using demo_methods_ok(1) by blast
  note c = concurrent_completes [OF slot_shard.shard_table_axioms demo_states_ok(3) demo_roomy this demo_methods_ok(2),
      folded demo_threads_def, OF demo_run]
  have "todo (workers (started demo_full demo_threads) 0) \<noteq> []"
    by (simp add: started_def demo_threads_def thread_def demo_methods_def n upt_rec)
  with c show ?thesis by blast
qed

text \<open>C9:
  A method is the sections of its program: on a cache at rest, running the sections one after the
  other gives what the method gives in one piece, for every call on a key and for \<open>clear\<close>,
  \<open>retain\<close>, \<open>shrink_to_fit\<close>, \<open>len\<close>, a loop over \<open>iter\<close> and \<open>alter_all\<close>: the same final cache, the
  number of entries as the sum of the shards' and the pairs as the concatenation of the
  shards'. Every such program takes its guards in ascending order and drops them all.
\<close>

theorem method_is_its_sections:
  assumes "shard_table T hash tok sok" and ok: "cache_ok T hash tok c" and m: "method_ok (key_shard c) (shard_count c) m"
    and len: "card (dom (cache_vals T c)) \<le> usize_max"
  shows "nc_method T m c = comp_bind (comp_run (nc_call T) (calls_of (program (key_shard c) (shard_count c) m)) c)
      (\<lambda>(as, c'). returns (combine m as, c')) \<and>
    disciplined (key_shard c) (length (shards c)) Map.empty (program (key_shard c) (shard_count c) m) \<and>
    ascending Map.empty (program (key_shard c) (shard_count c) m)"
proof -
  have "(\<Sum>s \<leftarrow> shard_list c. shard_len T s) = card (dom (cache_vals T c))"
    by (simp add: shard_table.cache_card [OF assms(1) ok] sum_list_sum_nth shard_list_nth atLeast0LessThan)
  then have "nc_method T m c = comp_bind (comp_run (nc_call T) (sections (shard_count c) m) c)
      (\<lambda>(as, c'). returns (combine m as, c'))"
    using len shard_table.cache_ok_count [OF assms(1) ok] by (intro method_sections [OF shard_table.cache_okD(3) [OF assms(1) ok]]) simp_all
  then show ?thesis using thread_ok [of "[m]" c] m by (simp add: calls_of_program thread_def)
qed

theorem method_is_its_sections_witness:
  "nc_method slot_table Iterate demo_full = comp_bind
      (comp_run (nc_call slot_table) [Visit_at 0, Visit_at 1] demo_full) (\<lambda>(as, c'). returns (combine Iterate as, c')) \<and>
    ascending Map.empty (program (key_shard demo_full) 2 (Iterate :: (nat, string) api_method))"
proof -
  have n: "shard_count demo_full = 2" by code_simp
  have "method_ok (key_shard demo_full) (shard_count demo_full) (Iterate :: (nat, string) api_method)" by simp
  from method_is_its_sections [OF slot_shard.shard_table_axioms demo_states_ok(3) this demo_full_card]
  show ?thesis by (simp add: n calls_of_sweep upt_rec del: nc_method.simps combine.simps comp_run.simps)
qed

text \<open>
  A thread that keeps an \<open>Entry\<close> of \<open>k\<close> (which owns the write guard of its shard) while it inserts \<open>l\<close>.
\<close>

definition hold_entry_and_insert :: "('k, 't) NeoCache \<Rightarrow> 'k \<Rightarrow> 'k \<Rightarrow> 'v \<Rightarrow> ('k, 'v) action list" where
  "hold_entry_and_insert c k l v = [Acquire Write_guard (key_shard c k), Acquire Write_guard (key_shard c l), Do (Insert l v),
     Release (key_shard c l), Do (Or_insert k v), Release (key_shard c k)]"

definition crossed :: "('k, 't) NeoCache \<Rightarrow> 'k \<Rightarrow> 'k \<Rightarrow> 'v \<Rightarrow> nat \<Rightarrow> ('k, 'v) action list" where
  "crossed c k l v w = (if w = 0 then hold_entry_and_insert c k l v else if w = 1 then hold_entry_and_insert c l k v else [])"

text \<open>C10:
  Guards of different shards can deadlock too. The usage guide warns of two guards of the same
  shard; but two threads that each keep an entry and insert the other's key, in two different
  shards, follow the rules for guards as well, and yet can reach a state in which neither can
  ever take a step, although both have calls left. So the ascending order of the guards is
  what makes the methods return.
\<close>

theorem crossed_entries_deadlock:
  assumes tab: "shard_table T hash tok sok" and ok: "cache_ok T hash tok c" and kl: "key_shard c k \<noteq> key_shard c l"
  shows "(\<forall>w. disciplined (key_shard c) (length (shards c)) Map.empty (crossed c k l v w)) \<and>
    (\<exists>S. runs_to T (started c (crossed c k l v)) S \<and> (\<forall>w S'. \<not> call_step T w S S') \<and>
      todo (workers S 0) \<noteq> [] \<and> todo (workers S 1) \<noteq> [])"
proof -
  let ?i = "key_shard c k" and ?j = "key_shard c l" and ?S0 = "started c (crossed c k l v)"
  have n: "?i < length (shards c)" "?j < length (shards c)" by (rule shard_table.home_okD(1) [OF tab ok])+
  have q: "lock_word c ?i = 0" "lock_word c ?j = 0"
    using quiet_nth [OF shard_table.cache_okD(3) [OF tab ok]] n by (simp_all add: lock_word_def)
  define S1 where "S1 = moved ?S0 0 (put_state c ?i ONE_WRITER)
    ((workers ?S0 0)\<lparr>todo := tl (crossed c k l v 0), held := [?i \<mapsto> Write_guard]\<rparr>) []"
  define S2 where "S2 = moved S1 1 (put_state (cache S1) ?j ONE_WRITER)
    ((workers S1 1)\<lparr>todo := tl (crossed c k l v 1), held := [?j \<mapsto> Write_guard]\<rparr>) []"
  note progs = started_def crossed_def hold_entry_and_insert_def
  have "call_step T 0 ?S0 S1"
    using take_free_guard [of ?S0 0 ?i "tl (crossed c k l v 0)" T] n q by (simp add: S1_def progs)
  moreover have "call_step T 1 S1 S2"
    using take_free_guard [of S1 1 ?j "tl (crossed c k l v 1)" T] n q kl
    by (simp add: S2_def S1_def progs lock_word_put_state)
  ultimately have run: "runs_to T ?S0 S2" by (blast intro: runs_to.intros)
  have word: "lock_word (cache S2) ?i = ONE_WRITER" "lock_word (cache S2) ?j = ONE_WRITER"
    using n kl by (simp_all add: S2_def S1_def lock_word_put_state)
  then have blocked: "yield_shard Write_guard (cache S2) ?i = None" "yield_shard Write_guard (cache S2) ?j = None"
    using n by (intro taken_guard_blocks; simp add: S2_def S1_def)+
  have ws: "phase (workers S2 w) = Ready" "w \<noteq> 0 \<Longrightarrow> w \<noteq> 1 \<Longrightarrow> todo (workers S2 w) = []"
      "todo (workers S2 0) = Acquire Write_guard ?j # tl (tl (crossed c k l v 0))"
      "todo (workers S2 1) = Acquire Write_guard ?i # tl (tl (crossed c k l v 1))" for w
    by (simp_all add: S2_def S1_def progs)
  then have "\<exists>g i rest. todo (workers S2 w) = [] \<or>
      todo (workers S2 w) = Acquire g i # rest \<and> yield_shard g (cache S2) i = None" for w
    using blocked by (metis One_nat_def)
  then have "\<not> call_step T w S2 S'" for w S' using blocked_no_step [OF ws(1)] by metis
  moreover have "disciplined (key_shard c) (length (shards c)) Map.empty (crossed c k l v w)" for w
    using n kl by (auto simp: crossed_def hold_entry_and_insert_def)
  moreover have "todo (workers S2 0) \<noteq> []" unfolding ws(3) by simp
  moreover have "todo (workers S2 1) \<noteq> []" unfolding ws(4) by simp
  ultimately show ?thesis using run by blast
qed

theorem crossed_entries_deadlock_witness:
  "\<exists>S. runs_to slot_table (started demo_full (crossed demo_full 1 72057594037927936 ''v'')) S \<and>
    (\<forall>w S'. \<not> call_step slot_table w S S')"
proof -
  have "shift demo_full = 63" by code_simp
  then have "key_shard demo_full 1 \<noteq> key_shard demo_full 72057594037927936"
    using slot_shard.cache_okD(1) [OF demo_states_ok(3)]
    by (simp add: key_shard_def determine_shard_def demo_hash_def push_bit_eq_mult drop_bit_eq_div)
  from crossed_entries_deadlock [OF slot_shard.shard_table_axioms demo_states_ok(3) this, of "''v''"] show ?thesis by blast
qed

section \<open>The lock between the two models\<close>

text \<open>
  The lock the threads of a cache use is the lock that \<open>src/lock.rs\<close> implements. In every state the
  protocol can reach, with its retries, races and parking, a step of a thread leaves all
  guards alone or is one step of an atomic lock: it takes a guard that conflicts with no other,
  downgrades one or drops one. The steps of the threads on the guards of every shard are of the
  same kind, so guards are exclusive throughout; and a thread about to take a guard can go on exactly if
  the atomic lock grants it: the write guard if nobody holds one, the read guard if nobody
  writes and one more reader fits into the 62 bits of the count.
\<close>

theorem atomic_lock_interface:
  assumes reach: "reachable s" and st: "protocol_step t s s'"
    and tab: "shard_table T hash tok sok" and ok: "cache_ok T hash tok c" and room: "roomy T c progs"
    and progs: "\<forall>w. disciplined (key_shard c) (length (shards c)) Map.empty (progs w)"
    and run: "runs_to T (started c progs) S"
  shows "reachable s' \<and> (guards_of s' = guards_of s \<or> atomic_step t (guards_of s) (guards_of s')) \<and>
    exclusive (guards_at i S) \<and>
    (\<forall>w S'. call_step T w S S' \<longrightarrow> guards_at i S' = guards_at i S \<or> atomic_step w (guards_at i S) (guards_at i S')) \<and>
    (\<forall>w g rest. phase (workers S w) = Ready \<and> todo (workers S w) = Acquire g i # rest \<longrightarrow>
      (\<exists>S'. call_step T w S S') = (case g of Write_guard \<Rightarrow> \<forall>u. guards_at i S u = None
        | Read_guard \<Rightarrow> (\<forall>u. guards_at i S u \<noteq> Some Write_guard) \<and>
            Suc (card {u. guards_at i S u = Some Read_guard}) < 2 ^ 62 - 1))"
proof -
  have "reachable s'" using st reach by (auto simp: protocol_step_def intro: reachable.step)
  moreover note protocol.atomic [OF reachable_inv [OF reach] st]
  moreover note inv = shard_table.steady_runs [OF tab run ok room spec [OF progs]]
  moreover have "exclusive (guards_at i S)"
    by (rule shard_table.guards_exclusive [OF tab run ok room spec [OF progs]])
  ultimately show ?thesis
    using shard_table.threads_atomic [OF tab inv] shard_table.acquire_iff [OF tab inv] by blast
qed

end
