(* ===== verification/Composed_Threads.thy ===== *)
theory Composed_Threads
  imports Atomic_Lock
begin

text \<open>
  The threads of a cache over the lock of \<open>src/lock.rs\<close> itself. Every shard has the state word and
  the program points of theory \<open>Lock_Protocol\<close>, with the parking of theory \<open>Lock_Wakeup\<close>; a thread
  that takes, downgrades or drops a guard runs the code of the lock one atomic access at a
  time, interleaved with everything the other threads do, and sleeps until it is unparked. The
  sections under the guards are the steps of theory \<open>Concurrent_Cache\<close>. In \<open>core\<close> the words of
  the cache are unused; they are in \<open>locks\<close>.
\<close>

record ('k, 'v, 't, 'w) composed =
  core :: "('k, 'v, 't, 'w) concurrent"
  locks :: "usize \<Rightarrow> 'w lock_system"

text \<open>A thread between two calls of the lock: it holds a guard or not.\<close>

fun settled :: "pc \<Rightarrow> bool" where
  "settled Idle = True"
| "settled Writer = True"
| "settled Reader = True"
| "settled p = False"

definition guard_at_pc :: "pc \<Rightarrow> guard_kind option" where
  "guard_at_pc p = (if holds_excl p then Some Write_guard else if holds_shared p then Some Read_guard else None)"

text \<open>How an action enters the code of the lock of shard \<open>i\<close>: \<open>lock_exclusive\<close>, \<open>lock_shared\<close>, the two unlocks and \<open>downgrade\<close>.\<close>

fun enters :: "('k, 'v) action \<Rightarrow> usize \<Rightarrow> pc \<Rightarrow> pc \<Rightarrow> bool" where
  "enters (Acquire Write_guard j) i p p' \<longleftrightarrow> i = j \<and> p = Idle \<and> p' = Excl_first"
| "enters (Acquire Read_guard j) i p p' \<longleftrightarrow> i = j \<and> p = Idle \<and> p' = Fast By_lock_first"
| "enters (Release j) i p p' \<longleftrightarrow> i = j \<and> (p = Reader \<or> p = Writer \<and> (p' = Idle \<or> p' = Unlock_load))"
| "enters (Downgrade j) i p p' \<longleftrightarrow> i = j \<and> p = Writer \<and> (p' = Reader \<or> p' = Downgrade_unpark)"
| "enters (Do call) i p p' \<longleftrightarrow> False"

text \<open>An action is over when the guard changes hands; the thread may still have others to unpark.\<close>

definition after_lock :: "usize \<Rightarrow> pc \<Rightarrow> pc \<Rightarrow> ('k, 'v, 't) worker \<Rightarrow> ('k, 'v, 't) worker" where
  "after_lock i p p' x = (if guard_at_pc p' = guard_at_pc p then x
     else x\<lparr>todo := tl (todo x), held := (held x)(i := guard_at_pc p')\<rparr>)"

definition lock_moved :: "('k, 'v, 't, 'w) composed \<Rightarrow> 'w \<Rightarrow> usize \<Rightarrow> 'w lock_system \<Rightarrow> ('k, 'v, 't, 'w) composed" where
  "lock_moved Z w i L = \<lparr>
     core = (core Z)\<lparr>workers := (workers (core Z))
       (w := after_lock i (pc_of (locks Z i) w) (pc_of L w) (workers (core Z) w))\<rparr>,
     locks = (locks Z)(i := L)\<rparr>"

abbreviation all_settled :: "('k, 'v, 't, 'w) composed \<Rightarrow> 'w \<Rightarrow> bool" where
  "all_settled Z w \<equiv> \<forall>i. settled (pc_of (locks Z i) w)"

definition at_section :: "('k, 'v, 't) worker \<Rightarrow> bool" where
  "at_section x \<longleftrightarrow> phase x \<noteq> Ready \<or> (\<exists>call rest. todo x = Do call # rest)"

inductive composed_step :: "('k, 'v, 't) table \<Rightarrow> 'w \<Rightarrow> ('k, 'v, 't, 'w) composed \<Rightarrow> ('k, 'v, 't, 'w) composed \<Rightarrow> bool"
  for T where
  in_section: "at_section (workers (core Z) w) \<Longrightarrow> all_settled Z w \<Longrightarrow> call_step T w (core Z) S \<Longrightarrow>
    composed_step T w Z (Z\<lparr>core := S\<rparr>)"
| enter_lock: "phase (workers (core Z) w) = Ready \<Longrightarrow> todo (workers (core Z) w) = a # rest \<Longrightarrow> all_settled Z w \<Longrightarrow>
    park_step w (locks Z i) L \<Longrightarrow> enters a i (pc_of (locks Z i) w) (pc_of L w) \<Longrightarrow>
    composed_step T w Z (lock_moved Z w i L)"
| in_lock: "\<not> settled (pc_of (locks Z i) w) \<Longrightarrow> park_step w (locks Z i) L \<Longrightarrow>
    composed_step T w Z (lock_moved Z w i L)"

definition composed_start :: "('k, 't) NeoCache \<Rightarrow> ('w \<Rightarrow> ('k, 'v) action list) \<Rightarrow> ('k, 'v, 't, 'w) composed" where
  "composed_start c progs = \<lparr>core = started c progs, locks = (\<lambda>_. lock_init)\<rparr>"

inductive composed_run :: "('k, 'v, 't) table \<Rightarrow> ('k, 'v, 't, 'w) composed \<Rightarrow> ('k, 'v, 't, 'w) composed \<Rightarrow> bool"
  for T Z where
  start: "composed_run T Z Z"
| step: "composed_run T Z Z' \<Longrightarrow> composed_step T w Z' Z'' \<Longrightarrow> composed_run T Z Z''"

text \<open>A thread that has actions left or is inside a section or a lock.\<close>

definition unfinished :: "('k, 'v, 't, 'w) composed \<Rightarrow> 'w \<Rightarrow> bool" where
  "unfinished Z w \<longleftrightarrow> todo (workers (core Z) w) \<noteq> [] \<or> phase (workers (core Z) w) \<noteq> Ready \<or> \<not> all_settled Z w"

section \<open>Where a thread is in the code of a lock\<close>

text \<open>The action a thread inside the lock of shard \<open>i\<close> is at, as long as its guard has not changed hands.\<close>

fun lock_task :: "usize \<Rightarrow> pc \<Rightarrow> ('k, 'v) action option" where
  "lock_task i Excl_first = Some (Acquire Write_guard i)"
| "lock_task i Excl_second = Some (Acquire Write_guard i)"
| "lock_task i (Excl_slow a) = Some (Acquire Write_guard i)"
| "lock_task i (Excl_loop a state) = Some (Acquire Write_guard i)"
| "lock_task i Excl_park = Some (Acquire Write_guard i)"
| "lock_task i Excl_parked = Some (Acquire Write_guard i)"
| "lock_task i (Fast c) = Some (Acquire Read_guard i)"
| "lock_task i (Fast_cas c state new) = Some (Acquire Read_guard i)"
| "lock_task i Shared_slow = Some (Acquire Read_guard i)"
| "lock_task i (Shared_loop state) = Some (Acquire Read_guard i)"
| "lock_task i Shared_park = Some (Acquire Read_guard i)"
| "lock_task i Shared_parked = Some (Acquire Read_guard i)"
| "lock_task i Overflow_panic = Some (Acquire Read_guard i)"
| "lock_task i Unlock_load = Some (Release i)"
| "lock_task i (Unlock_cas state) = Some (Release i)"
| "lock_task i Unlock_store = Some (Release i)"
| "lock_task i p = None"

text \<open>The program points of \<open>try_lock_shared\<close>, which no action enters.\<close>

fun in_try :: "pc \<Rightarrow> bool" where
  "in_try (Fast c) = (c = By_try)"
| "in_try (Fast_cas c state new) = (c = By_try)"
| "in_try Try_slow = True"
| "in_try (Try_loop state) = True"
| "in_try p = False"

lemma fast_failed_task: "c \<noteq> By_try \<Longrightarrow> lock_task i (fast_failed c) = Some (Acquire Read_guard i) \<and>
    \<not> in_try (fast_failed c) \<and> \<not> settled (fast_failed c)"
  by (cases c) simp_all

lemma guard_fast_failed [simp]: "guard_at_pc (fast_failed c) = None"
  by (simp add: guard_at_pc_def)

text \<open>The guard changes hands only at the end of the task, and until then the task stays.\<close>

lemma task_kept:
  assumes "lock_action p v p' v'" and "\<not> settled p" and "\<not> in_try p" and "p' \<noteq> Assert_panic"
  shows "\<not> in_try p' \<and> (if guard_at_pc p' = guard_at_pc p then settled p' \<or> lock_task i p' = (lock_task i p :: ('k, 'v) action option)
    else (lock_task i p' :: ('k, 'v) action option) = None \<and>
      lock_task i p = Some (case guard_at_pc p' of Some g \<Rightarrow> Acquire g i | None \<Rightarrow> (Release i :: ('k, 'v) action)))"
  using assms fast_failed_task
  by (cases rule: lock_action.cases) (auto simp: guard_at_pc_def split: if_splits)

text \<open>When a guard changes hands, an action is completed.\<close>

fun completes :: "('k, 'v) action \<Rightarrow> usize \<Rightarrow> guard_kind option \<Rightarrow> guard_kind option \<Rightarrow> bool" where
  "completes (Acquire g j) i old new \<longleftrightarrow> i = j \<and> old = None \<and> new = Some g"
| "completes (Release j) i old new \<longleftrightarrow> i = j \<and> old \<noteq> None \<and> new = None"
| "completes (Downgrade j) i old new \<longleftrightarrow> i = j \<and> old = Some Write_guard \<and> new = Some Read_guard"
| "completes (Do call) i old new \<longleftrightarrow> False"

lemma task_completes:
  assumes "lock_action p v p' v'" and "\<not> settled p" and "\<not> in_try p" and "p' \<noteq> Assert_panic"
    and "guard_at_pc p' \<noteq> guard_at_pc p" and "lock_task i p = Some a"
  shows "completes a i (guard_at_pc p) (guard_at_pc p')"
  using assms by (cases rule: lock_action.cases) (auto simp: guard_at_pc_def split: if_splits)

lemma enter_task:
  assumes "lock_action p v p' v'" and "enters a i p p'"
  shows "\<not> in_try p' \<and> (if guard_at_pc p' = guard_at_pc p then lock_task i p' = Some a
    else lock_task i p' = (None :: ('k, 'v) action option) \<and> completes (a :: ('k, 'v) action) i (guard_at_pc p) (guard_at_pc p'))"
proof (cases a)
  case (Acquire g j)
  then show ?thesis using assms by (cases g) (auto simp: guard_at_pc_def)
next
  case (Release j)
  with assms show ?thesis by (cases rule: lock_action.cases) (auto simp: guard_at_pc_def split: if_splits)
qed (use assms in \<open>auto simp: guard_at_pc_def\<close>)

section \<open>A step with parking is a step of the protocol\<close>

definition woken :: "pc \<Rightarrow> pc \<Rightarrow> bool" where
  "woken p p' \<longleftrightarrow> p = Excl_parked \<and> p' = Excl_slow WRITERS_PARKED \<or> p = Shared_parked \<and> p' = Shared_slow"

lemma woken_same:
  assumes "p' = p \<or> woken p p'"
  shows "settled p' = settled p" "in_try p' = in_try p" "lock_task i p' = lock_task i p" "guard_at_pc p' = guard_at_pc p"
  using assms by (auto simp: woken_def guard_at_pc_def)

lemma park_step_moves:
  assumes inv: "lock_inv s" and st: "park_step t s s'"
  shows "lock_action (pc_of s t) (word_of s) (pc_of s' t) (word_of s')"
    and "u \<noteq> t \<Longrightarrow> pc_of s' u = pc_of s u \<or> woken (pc_of s u) (pc_of s' u)"
proof -
  have unpark: "lock_action p w (after_unpark p) w" if "wakes_writer p \<or> wakes_readers p" for p w
    using that unlock_unpark [of READERS_PARKED w] unlock_unpark [of WRITERS_PARKED w]
    by (auto simp: wakes_writer_def wakes_readers_def intro: lock_action.intros)
  show "lock_action (pc_of s t) (word_of s) (pc_of s' t) (word_of s')"
    using st
  proof cases
    case (unpark_one u)
    then have "u \<noteq> t" by (auto simp: wakes_writer_def)
    then show ?thesis using unpark_one unpark by simp
  qed (simp_all add: unpark)
  show "pc_of s' u = pc_of s u \<or> woken (pc_of s u) (pc_of s' u)" if "u \<noteq> t"
    using st that by cases (auto simp: woken_def)
qed

lemma guards_of_pc: "guards_of s t = guard_at_pc (pc_of s t)"
  by (simp add: guards_of_def guard_at_pc_def)

lemma park_step_guards:
  assumes inv: "lock_inv s" and st: "park_step t s s'"
  shows "guards_of s' = (guards_of s)(t := guard_at_pc (pc_of s' t))"
    and "guards_of s' = guards_of s \<or> atomic_step t (guards_of s) (guards_of s')"
proof -
  note mv = park_step_moves [OF inv st]
  show g: "guards_of s' = (guards_of s)(t := guard_at_pc (pc_of s' t))"
    using woken_same(4) [OF mv(2)] by (auto simp: fun_eq_iff guards_of_pc)
  let ?s = "\<lparr>word_of = word_of s', pc_of = (pc_of s)(t := pc_of s' t)\<rparr>"
  have "protocol_step t s ?s" using mv(1) by (auto simp: protocol_step_def)
  moreover have "guards_of ?s = guards_of s'" unfolding g by (simp add: fun_eq_iff guards_of_pc)
  ultimately show "guards_of s' = guards_of s \<or> atomic_step t (guards_of s) (guards_of s')"
    using protocol.atomic [OF inv] by fastforce
qed

section \<open>Sections do not look at the words\<close>

lemma at_rest_eqD:
  assumes "at_rest c' = at_rest c"
  shows "hasher c' = hasher c" "key_shard c' = key_shard c" "length (shards c') = length (shards c)"
    and "i < length (shards c) \<Longrightarrow> shard_at c' i = shard_at c i"
    and "i < length (shards c) \<Longrightarrow> at_rest (put_shard c' i s) = at_rest (put_shard c i s)"
proof -
  show "hasher c' = hasher c" "key_shard c' = key_shard c" and n: "length (shards c') = length (shards c)"
    using assms at_rest_frame(1,4,6) by (metis, metis ext, metis)
  show "i < length (shards c) \<Longrightarrow> shard_at c' i = shard_at c i" using assms at_rest_shard n by metis
  show "i < length (shards c) \<Longrightarrow> at_rest (put_shard c' i s) = at_rest (put_shard c i s)" using assms n by simp
qed

definition same_but_words :: "('k, 'v, 't, 'w) concurrent \<Rightarrow> ('k, 'v, 't, 'w) concurrent \<Rightarrow> bool" where
  "same_but_words S S' \<longleftrightarrow> workers S' = workers S \<and> effects S' = effects S \<and> at_rest (cache S') = at_rest (cache S)"

lemma same_but_wordsD:
  assumes "same_but_words S S'"
  shows "workers S' = workers S" "effects S' = effects S" "at_rest (cache S') = at_rest (cache S)"
  using assms by (simp_all add: same_but_words_def)

lemma same_but_words_sym: "same_but_words S S' \<Longrightarrow> same_but_words S' S"
  by (simp add: same_but_words_def)

lemma same_but_words_moved:
  "same_but_words S S' \<Longrightarrow> at_rest c' = at_rest c \<Longrightarrow> same_but_words (moved S w c x es) (moved S' w c' x es)"
  by (simp add: same_but_words_def)

text \<open>The shards a worker touches in a section are those it holds guards of.\<close>

lemma section_shards:
  assumes "worker_ok T c prog es x"
  shows "phase x = Ready \<Longrightarrow> todo x = Do call # rest \<Longrightarrow> call_shard (key_shard c) call < length (shards c)"
    and "phase x = Writing call s \<Longrightarrow> call_shard (key_shard c) call < length (shards c)"
    and "phase x = Found k b \<Longrightarrow> key_shard c k < length (shards c)"
    and "phase x = Visiting i bs ps \<Longrightarrow> i < length (shards c)"
  using assms by (auto simp: worker_ok_def elim!: may_do.elims)

lemma section_transfer:
  assumes same: "same_but_words S S'" and own: "worker_ok T (cache S) prog es (workers S w)"
    and sec: "at_section (workers S w)" and st: "call_step T w S S1"
  shows "\<exists>S2. call_step T w S' S2 \<and> same_but_words S1 S2"
proof -
  note eqs = at_rest_eqD [OF same_but_wordsD(3) [OF same]] and ws = same_but_wordsD(1) [OF same]
  note rng = section_shards [OF own] and mv = same_but_words_moved [OF same]
  from st show ?thesis
  proof cases
    case (begin_write x call rest i)
    then show ?thesis using call_step.begin_write [of x S' w call rest i T] mv [OF same_but_wordsD(3) [OF same]] rng(1)
      by (fastforce simp: ws eqs)
  next
    case (end_write x call s a s' i)
    then show ?thesis using call_step.end_write [of x S' w call s T a s' i] mv [OF eqs(5)] rng(2)
      by (fastforce simp: ws eqs)
  next
    case (look x k rest i b s)
    then show ?thesis using call_step.look [of x S' w k rest i T b s] mv [OF eqs(5)] rng(1) by (fastforce simp: ws eqs)
  next
    case (read x k b)
    then show ?thesis using call_step.read [of x S' w k b T] mv [OF same_but_wordsD(3) [OF same]] rng(3)
      by (fastforce simp: ws eqs found_value_def)
  next
    case (count x i rest a)
    then show ?thesis using call_step.count [of x S' w i rest a T] mv [OF same_but_wordsD(3) [OF same]] rng(1)
      by (fastforce simp: ws eqs)
  next
    case (begin_visit x i rest s)
    then show ?thesis using call_step.begin_visit [of x S' w i rest s T] mv [OF same_but_wordsD(3) [OF same]] rng(1)
      by (fastforce simp: ws eqs)
  next
    case (visit x i b bs ps)
    then show ?thesis using call_step.visit [of x S' w i b bs ps T] mv [OF same_but_wordsD(3) [OF same]] rng(4)
      by (fastforce simp: ws eqs)
  next
    case (end_visit x i ps)
    then show ?thesis using call_step.end_visit [of x S' w i ps T] mv [OF same_but_wordsD(3) [OF same]]
      by (fastforce simp: ws eqs)
  qed (use sec in \<open>auto simp: at_section_def\<close>)
qed

end
