(* ===== verification/Composed_Simulation.thy ===== *)
theory Composed_Simulation
  imports Composed_Threads
begin

text \<open>
  The threads over the lock protocol do what the threads over the atomic lock do: every step is
  matched by one step or none of theory \<open>Concurrent_Cache\<close> (a guard changes hands at one atomic
  access), so what is known of those threads holds here. And they do not get stuck:
  while a thread is not done, some thread is awake and can take a step.
\<close>

section \<open>The simulation\<close>

text \<open>
  Where a worker is in the locks fits what it holds and what it has to do, and it is inside the
  code of one lock at most.
\<close>

definition in_place :: "(usize \<Rightarrow> pc) \<Rightarrow> ('k, 'v, 't) worker \<Rightarrow> bool" where
  "in_place at x \<longleftrightarrow>
     (\<forall>i. guard_at_pc (at i) = held x i \<and> \<not> in_try (at i) \<and> (settled (at i) \<or> phase x = Ready) \<and>
        (\<forall>a. lock_task i (at i) = Some a \<longrightarrow> (\<exists>rest. todo x = a # rest))) \<and>
     (\<forall>i j. settled (at i) \<or> settled (at j) \<or> i = j)"

definition pcs :: "('k, 'v, 't, 'w) composed \<Rightarrow> 'w \<Rightarrow> usize \<Rightarrow> pc" where
  "pcs Z w i = pc_of (locks Z i) w"

definition matches :: "('k, 'v, 't, 'w) composed \<Rightarrow> ('k, 'v, 't, 'w) concurrent \<Rightarrow> bool" where
  "matches Z S \<longleftrightarrow> same_but_words (core Z) S \<and> (\<forall>i. lock_inv (locks Z i) \<and> wake_ok (locks Z i)) \<and>
     (\<forall>w. in_place (pcs Z w) (workers (core Z) w))"

lemma in_placeD:
  assumes "in_place at x"
  shows "guard_at_pc (at i) = held x i" "\<not> in_try (at i)" "\<not> settled (at i) \<Longrightarrow> phase x = Ready"
    and "lock_task i (at i) = Some a \<Longrightarrow> \<exists>rest. todo x = a # rest" "\<not> settled (at i) \<Longrightarrow> \<not> settled (at j) \<Longrightarrow> i = j"
  using assms by (auto simp: in_place_def)

text \<open>Being woken changes nothing that matters.\<close>

lemma in_place_woken:
  assumes "in_place at x" and "\<And>j. at' j = at j \<or> woken (at j) (at' j)"
  shows "in_place at' x"
  using assms(1) by (simp add: in_place_def woken_same [OF assms(2)])

text \<open>What a step of a thread in the lock of shard \<open>i\<close> does to its own state.\<close>

definition lock_result :: "usize \<Rightarrow> pc \<Rightarrow> pc \<Rightarrow> ('k, 'v, 't) worker \<Rightarrow> bool" where
  "lock_result i p p' x \<longleftrightarrow> \<not> in_try p' \<and> phase x = Ready \<and>
     (if guard_at_pc p' = guard_at_pc p then \<forall>a. lock_task i p' = Some a \<longrightarrow> (\<exists>rest. todo x = (a :: ('k, 'v) action) # rest)
      else lock_task i p' = (None :: ('k, 'v) action option) \<and>
        (\<exists>a rest. todo x = a # rest \<and> completes a i (guard_at_pc p) (guard_at_pc p')))"

lemma settled_task [simp]: "settled p \<Longrightarrow> lock_task i p = None"
  by (cases p) simp_all

lemma inside_result:
  assumes act: "lock_action p v p' v'" and "p' \<noteq> Assert_panic" and "\<not> settled p" and "\<not> in_try p" and "phase x = Ready"
    and task: "\<And>a. lock_task i p = Some a \<Longrightarrow> \<exists>rest. todo x = a # rest"
  shows "lock_result i p p' x"
proof -
  note kept = task_kept [OF act assms(3,4,2), of i, where ?'k = 'a and ?'v = 'b]
  show ?thesis
  proof (cases "guard_at_pc p' = guard_at_pc p")
    case True
    then show ?thesis using kept task assms(5) by (auto simp: lock_result_def)
  next
    case False
    with kept obtain a :: "('a, 'b) action" where a: "lock_task i p = Some a" by auto
    from task_completes [OF act assms(3,4,2) False a] task [OF a] show ?thesis
      using kept False assms(5) by (auto simp: lock_result_def)
  qed
qed

lemma enter_result:
  assumes "lock_action p v p' v'" and "enters a i p p'" and "phase x = Ready" and "todo x = a # rest"
  shows "lock_result i p p' x"
  using enter_task [OF assms(1,2)] assms(3,4) by (auto simp: lock_result_def split: if_splits)

lemma in_place_moved:
  assumes ok: "in_place at x" and p: "at i = p" and res: "lock_result i p p' x"
    and alone: "\<And>j. j \<noteq> i \<Longrightarrow> settled (at j)"
  shows "in_place (at(i := p')) (after_lock i p p' x)"
  unfolding in_place_def
proof (intro conjI allI)
  fix j k
  show "guard_at_pc ((at(i := p')) j) = held (after_lock i p p' x) j"
    using in_placeD(1) [OF ok, of j] p by (auto simp: after_lock_def)
  show "\<not> in_try ((at(i := p')) j)" using in_placeD(2) [OF ok, of j] res by (auto simp: lock_result_def)
  show "settled ((at(i := p')) j) \<or> phase (after_lock i p p' x) = Ready"
    using res by (simp add: lock_result_def after_lock_def)
  show "settled ((at(i := p')) j) \<or> settled ((at(i := p')) k) \<or> j = k" using alone by auto
  fix a
  show "lock_task j ((at(i := p')) j) = Some a \<longrightarrow> (\<exists>rest. todo (after_lock i p p' x) = a # rest)"
    using res alone [of j] by (cases "j = i") (auto simp: lock_result_def after_lock_def split: if_splits)
qed

lemma lock_moved_frame [simp]:
  "cache (core (lock_moved Z w i L)) = cache (core Z)" "effects (core (lock_moved Z w i L)) = effects (core Z)"
  "locks (lock_moved Z w i L) = (locks Z)(i := L)"
  "workers (core (lock_moved Z w i L)) = (workers (core Z))
     (w := after_lock i (pcs Z w i) (pc_of L w) (workers (core Z) w))"
  by (simp_all add: lock_moved_def pcs_def)

text \<open>A step in a lock keeps the invariants of all locks and of all other threads.\<close>

lemma lock_moved_places:
  assumes m: "matches Z S" and st: "park_step w (locks Z i) L"
    and res: "lock_result i (pcs Z w i) (pc_of L w) (workers (core Z) w)" and alone: "\<And>j. j \<noteq> i \<Longrightarrow> settled (pcs Z w j)"
  shows "lock_inv ((locks (lock_moved Z w i L)) j) \<and> wake_ok ((locks (lock_moved Z w i L)) j)"
    and "in_place (pcs (lock_moved Z w i L) u) (workers (core (lock_moved Z w i L)) u)"
proof -
  have inv: "lock_inv (locks Z j) \<and> wake_ok (locks Z j)" for j using m by (simp add: matches_def)
  then show "lock_inv ((locks (lock_moved Z w i L)) j) \<and> wake_ok ((locks (lock_moved Z w i L)) j)"
    using park_step_invariants [OF _ _ st] by simp
  have ok: "in_place (pcs Z u) (workers (core Z) u)" using m by (simp add: matches_def)
  show "in_place (pcs (lock_moved Z w i L) u) (workers (core (lock_moved Z w i L)) u)"
  proof (cases "u = w")
    case True
    have "pcs (lock_moved Z w i L) w = (pcs Z w)(i := pc_of L w)" by (simp add: pcs_def fun_eq_iff)
    then show ?thesis using in_place_moved [OF ok [unfolded True] refl res alone] True by simp
  next
    case False
    have "pcs (lock_moved Z w i L) u j = pcs Z u j \<or> woken (pcs Z u j) (pcs (lock_moved Z w i L) u j)" for j
      using park_step_moves(2) [OF _ st False] inv [of i] by (auto simp: pcs_def)
    from in_place_woken [OF ok this] False show ?thesis by simp
  qed
qed

text \<open>Only threads that are awake take steps.\<close>

lemma composed_step_awake:
  assumes m: "matches Z S" and st: "composed_step T w Z Z'"
  shows "\<not> asleep (pc_of (locks Z i) w)"
proof -
  have awake: "\<not> asleep p" if "settled p" for p using that by (cases p) simp_all
  have ok: "in_place (pcs Z w) (workers (core Z) w)" using m by (simp add: matches_def)
  from st show ?thesis
  proof cases
    case (in_lock j L)
    have "\<not> asleep (pc_of (locks Z j) w)" using in_lock(3) by cases (auto simp: wakes_writer_def wakes_readers_def)
    moreover have "settled (pc_of (locks Z i) w) \<or> i = j" using in_placeD(5) [OF ok, of i j] in_lock(2) by (auto simp: pcs_def)
    ultimately show ?thesis using awake by blast
  qed (use awake in blast)+
qed

context shard_table
begin

text \<open>When a guard changes hands in the protocol, the threads of the atomic model make the step too.\<close>

lemma completed_step:
  assumes inv: "steady c0 progs S" and ready: "phase (workers S w) = Ready" "todo (workers S w) = a # rest"
    and compl: "completes a i (held (workers S w) i) g'"
    and grant: "atomic_step w (guards_at i S) ((guards_at i S)(w := g'))"
    and fits: "held (workers S w) i = None \<Longrightarrow> g' = Some Read_guard \<Longrightarrow>
      Suc (card {u. guards_at i S u = Some Read_guard}) < writer_code"
  shows "\<exists>c. call_step T w S (moved S w c ((workers S w)\<lparr>todo := rest, held := (held (workers S w))(i := g')\<rparr>) []) \<and>
    at_rest c = at_rest (cache S)"
proof (cases a)
  case (Acquire g j)
  then have a: "j = i" "held (workers S w) i = None" "g' = Some g" using compl by auto
  have "\<exists>S'. call_step T w S S'"
    using grant fits a(2) unfolding acquire_iff [OF inv ready(1) ready(2) [unfolded Acquire a(1)]]
    by (cases g) (auto simp: atomic_step_iff guards_at_def a(3) fun_eq_iff split: if_splits)
  then obtain c where c: "yield_shard g (cache S) i = returns c"
    unfolding acquire_enabled [OF ready(1) ready(2) [unfolded Acquire a(1)]] by blast
  then have "at_rest c = at_rest (cache S)"
    by (cases g) (auto simp: yield_write_shard_def yield_read_shard_def comp_bind_returns_iff split: if_splits)
  then show ?thesis using call_step.acquire [OF refl ready(1) _ c, of rest T] ready(2) Acquire a by auto
next
  case (Release j)
  then obtain g where g: "j = i" "held (workers S w) i = Some g" "g' = None" using compl by auto
  obtain v where v: "drop_guard g (cache S) i = Return (put_state (cache S) i v)" by (rule drop_guard_word [OF inv g(2)])
  show ?thesis using call_step.release [OF refl ready(1) _ g(2) v, of rest T] ready(2) Release g
    by (intro exI [of _ "put_state (cache S) i v"]) simp
next
  case (Downgrade j)
  then show ?thesis using call_step.downgrade [OF refl ready(1), of i rest _ T] ready(2) compl
    by (intro exI [of _ "put_state (cache S) i (fst (downgrade (rw_state (shards (cache S) ! i))))"]) simp
qed (use compl in simp)

lemma lock_sim:
  assumes m: "matches Z S" and inv: "steady c0 progs S" and st: "park_step w (locks Z i) L"
    and res: "lock_result i (pcs Z w i) (pc_of L w) (workers (core Z) w)" and alone: "\<And>j. j \<noteq> i \<Longrightarrow> settled (pcs Z w j)"
  shows "\<exists>S'. (S' = S \<or> call_step T w S S') \<and> matches (lock_moved Z w i L) S'"
proof -
  let ?p = "pcs Z w i" and ?p' = "pc_of L w" and ?x = "workers (core Z) w"
  note places = lock_moved_places [OF m st res alone]
  have same: "same_but_words (core Z) S" and linv: "lock_inv (locks Z i)" using m by (simp_all add: matches_def)
  have held: "held (workers (core Z) u) i = guard_at_pc (pcs Z u i)" for u
    using in_placeD(1) [of "pcs Z u" "workers (core Z) u" i] m by (simp add: matches_def)
  note ws = same_but_wordsD(1) [OF same]
  show ?thesis
  proof (cases "guard_at_pc ?p' = guard_at_pc ?p")
    case True
    then have "same_but_words (core (lock_moved Z w i L)) S"
      using same by (simp add: same_but_words_def after_lock_def fun_upd_idem)
    then have "matches (lock_moved Z w i L) S" unfolding matches_def using places by blast
    then show ?thesis by blast
  next
    case False
    with res obtain a rest where a: "phase ?x = Ready" "todo ?x = a # rest"
      "completes a i (guard_at_pc ?p) (guard_at_pc ?p')" by (auto simp: lock_result_def)
    have g: "guards_at i S = guards_of (locks Z i)"
      by (simp add: fun_eq_iff guards_at_def guards_of_pc ws held pcs_def)
    note gs = park_step_guards [OF linv st]
    have "guards_of L w \<noteq> guards_of (locks Z i) w" using False by (simp add: guards_of_pc pcs_def)
    then have grant: "atomic_step w (guards_at i S) ((guards_at i S)(w := guard_at_pc ?p'))"
      using gs(2) unfolding g gs(1) [symmetric] by metis
    have fits: "Suc (card {u. guards_at i S u = Some Read_guard}) < writer_code"
      if "held (workers S w) i = None" "guard_at_pc ?p' = Some Read_guard"
    proof -
      have rd: "readers s = {u. guards_of s u = Some Read_guard}" for s :: "'e lock_system"
        using not_both by (auto simp: readers_def guards_of_def)
      have r: "readers L = insert w {u. guards_at i S u = Some Read_guard}"
        unfolding rd gs(1) g using that(2) by auto
      have w: "w \<notin> {u. guards_at i S u = Some Read_guard}" using that(1) by (simp add: guards_at_def)
      have "lock_inv L" using park_step_invariants [OF linv _ st] m by (simp add: matches_def)
      then have "finite (readers L)" "card (readers L) < writer_code" by (auto simp: lock_inv_def)
      then show ?thesis unfolding r using w by simp
    qed
    have a': "phase (workers S w) = Ready" "todo (workers S w) = a # rest"
      "completes a i (held (workers S w) i) (guard_at_pc ?p')" using a by (simp_all add: ws held)
    from completed_step [OF inv a' grant fits] obtain c where
      c: "call_step T w S (moved S w c (?x\<lparr>todo := rest, held := (held ?x)(i := guard_at_pc ?p')\<rparr>) [])"
        "at_rest c = at_rest (cache S)" unfolding ws by blast
    have "same_but_words (core (lock_moved Z w i L)) (moved S w c (?x\<lparr>todo := rest, held := (held ?x)(i := guard_at_pc ?p')\<rparr>) [])"
      using False a(2) c(2) same by (simp add: same_but_words_def after_lock_def)
    with places have "matches (lock_moved Z w i L) (moved S w c (?x\<lparr>todo := rest, held := (held ?x)(i := guard_at_pc ?p')\<rparr>) [])"
      unfolding matches_def by blast
    with c(1) show ?thesis by blast
  qed
qed

lemma core_worker:
  assumes same: "same_but_words Z S" and inv: "steady c0 progs S"
  shows "worker_ok T (cache Z) (progs w) (own_effects (effects S) w) (workers S w)"
proof (rule worker_frame [OF steadyD(6) [OF inv]])
  note eqs = at_rest_eqD [OF same_but_wordsD(3) [OF same_but_words_sym [OF same]]]
  show "key_shard (cache Z) = key_shard (cache S)" "length (shards (cache Z)) = length (shards (cache S))" by (rule eqs)+
  fix i assume "held (workers S w) i \<noteq> None"
  then have "i < length (shards (cache S))" using steadyD(6) [OF inv, of w] by (auto simp: worker_ok_def)
  from eqs(4) [OF this]
  show "same_view T (shard_at (cache S) i) (shard_at (cache Z) i) \<and>
      (held (workers S w) i = Some Write_guard \<longrightarrow> shard_at (cache Z) i = shard_at (cache S) i)" by simp
qed

lemma section_held:
  assumes "at_section (workers S w)" and "call_step T w S S'"
  shows "u \<noteq> w \<Longrightarrow> workers S' u = workers S u" and "held (workers S' w) = held (workers S w)"
  using assms(2,1) by (cases rule: call_step.cases; auto simp: at_section_def)+

lemma section_sim:
  assumes m: "matches Z S" and inv: "steady c0 progs S" and sec: "at_section (workers (core Z) w)"
    and settled: "all_settled Z w" and st: "call_step T w (core Z) C"
  shows "\<exists>S'. call_step T w S S' \<and> matches (Z\<lparr>core := C\<rparr>) S'"
proof -
  have same: "same_but_words (core Z) S" using m by (simp add: matches_def)
  have "worker_ok T (cache (core Z)) (progs w) (own_effects (effects S) w) (workers (core Z) w)"
    using core_worker [OF same inv] by (simp add: same_but_wordsD(1) [OF same])
  from section_transfer [OF same this sec st] obtain S' where S': "call_step T w S S'" "same_but_words C S'" by blast
  have p: "pcs (Z\<lparr>core := C\<rparr>) = pcs Z" by (simp add: pcs_def fun_eq_iff)
  have "in_place (pcs Z u) (workers C u)" for u
  proof (cases "u = w")
    case True
    have "in_place (pcs Z w) (workers (core Z) w)" using m by (simp add: matches_def)
    then show ?thesis using settled section_held(2) [OF sec st] True by (simp add: in_place_def pcs_def)
  next
    case False
    then show ?thesis using m section_held(1) [OF sec st False] by (simp add: matches_def)
  qed
  then have "matches (Z\<lparr>core := C\<rparr>) S'" using S'(2) m by (simp add: matches_def p)
  with S'(1) show ?thesis by blast
qed

lemma composed_sim:
  assumes m: "matches Z S" and inv: "steady c0 progs S" and st: "composed_step T w Z Z'"
  shows "\<exists>S'. (S' = S \<or> call_step T w S S') \<and> matches Z' S'"
proof -
  have ok: "in_place (pcs Z w) (workers (core Z) w)" and linv: "\<And>i. lock_inv (locks Z i)" "\<And>i. wake_ok (locks Z i)"
    using m by (simp_all add: matches_def)
  from st show ?thesis
  proof cases
    case (in_section C)
    then show ?thesis using section_sim [OF m inv] by blast
  next
    case (enter_lock a rest i L)
    note act = park_step_moves(1) [OF linv(1) enter_lock(5)]
    show ?thesis unfolding enter_lock(1)
      using enter_result [OF act enter_lock(6,2,3)] enter_lock(4)
      by (intro lock_sim [OF m inv enter_lock(5)]) (simp_all add: pcs_def)
  next
    case (in_lock i L)
    note act = park_step_moves(1) [OF linv(1) in_lock(3)]
    have u: "\<not> settled (pcs Z w i)" using in_lock(2) by (simp add: pcs_def)
    have "local_ok (pc_of L w) (word_of L)"
      using park_step_invariants [OF linv in_lock(3)] by (simp add: lock_inv_def)
    then have "pc_of L w \<noteq> Assert_panic" by auto
    from inside_result [OF act this in_lock(2) in_placeD(2,3,4) [OF ok, of i, unfolded pcs_def]] in_lock(2)
    have "lock_result i (pcs Z w i) (pc_of L w) (workers (core Z) w)" by (simp add: pcs_def)
    then show ?thesis unfolding in_lock(1) using in_placeD(5) [OF ok u]
      by (intro lock_sim [OF m inv in_lock(3)]) auto
  qed
qed

lemma matches_start: "matches (composed_start c progs) (started c (progs :: 'w \<Rightarrow> ('k, 'v) action list))"
proof -
  have init: "lock_inv (lock_init :: 'w lock_system) \<and> wake_ok (lock_init :: 'w lock_system)"
    by (rule park_invariants [OF park_reachable.init])
  have "in_place (\<lambda>_. Idle) (workers (started c progs) w)" for w
    by (simp add: in_place_def started_def guard_at_pc_def)
  then show ?thesis
    using init by (simp add: matches_def composed_start_def same_but_words_def pcs_def [abs_def] lock_init_def)
qed

lemma composed_runs:
  assumes run: "composed_run T (composed_start c progs) Z" and ok: "cache_ok T hash rt_wf c" and room: "roomy T c progs"
    and progs: "\<And>w. disciplined (key_shard c) (length (shards c)) Map.empty (progs w)"
  shows "\<exists>S. runs_to T (started c progs) S \<and> matches Z S"
  using run
proof (induction rule: composed_run.induct)
  case start
  show ?case using runs_to.start matches_start by blast
next
  case (step Z' w Z'')
  then obtain S where S: "runs_to T (started c progs) S" "matches Z' S" by blast
  from composed_sim [OF S(2) steady_runs [OF S(1) ok room progs] step.hyps(2)] S(1) show ?case
    by (blast intro: runs_to.step)
qed

section \<open>Progress over the parking lot\<close>

lemma section_enabled:
  assumes m: "matches Z S" and inv: "steady c0 progs S" and sec: "at_section (workers (core Z) w)" and settled: "all_settled Z w"
  shows "\<exists>Z'. composed_step T w Z Z'"
proof -
  have same: "same_but_words (core Z) S" using m by (simp add: matches_def)
  note ws = same_but_wordsD(1) [OF same]
  have secS: "at_section (workers S w)" using sec by (simp add: ws)
  have "\<exists>S'. call_step T w S S'"
  proof (cases "phase (workers S w) = Ready")
    case True
    then have "todo (workers S w) \<noteq> []" "\<nexists>i. waits_for S w i" using secS by (auto simp: at_section_def waits_for_def)
    then show ?thesis by (rule steady_enabled [OF inv])
  qed (rule steady_busy [OF inv])
  then obtain S' where "call_step T w S S'" ..
  from section_transfer [OF same_but_words_sym [OF same] steadyD(6) [OF inv] secS this] obtain C where
    "call_step T w (core Z) C" by blast
  from in_section [OF sec settled this] show ?thesis ..
qed

lemma lock_entered:
  assumes m: "matches Z S" and inv: "steady c0 progs S" and settled: "all_settled Z w"
    and ready: "phase (workers (core Z) w) = Ready" "todo (workers (core Z) w) = a # rest" and a: "\<And>call. a \<noteq> Do call"
  shows "\<exists>Z'. composed_step T w Z Z'"
proof -
  have same: "same_but_words (core Z) S" using m by (simp add: matches_def)
  have held: "held (workers (core Z) w) i = guard_at_pc (pc_of (locks Z i) w)" for i
    using in_placeD(1) [of "pcs Z w" "workers (core Z) w" i] m by (simp add: matches_def pcs_def)
  have disc: "disciplined (key_shard (cache S)) (length (shards (cache S))) (held (workers (core Z) w)) (a # rest)"
    using steadyD(6) [OF inv, of w] ready by (simp add: worker_ok_def same_but_wordsD(1) [OF same])
  have pcs: "pc_of (locks Z i) w = Idle \<or> pc_of (locks Z i) w = Writer \<or> pc_of (locks Z i) w = Reader" for i
    using settled by (cases "pc_of (locks Z i) w") (metis settled.simps)+
  have go: "\<exists>Z'. composed_step T w Z Z'"
    if "lock_action (pc_of (locks Z i) w) (word_of (locks Z i)) p' v'" "enters a i (pc_of (locks Z i) w) p'" for i p' v'
  proof -
    have "\<not> asleep (pc_of (locks Z i) w)" "\<not> wakes_writer (pc_of (locks Z i) w)" "\<not> wakes_readers (pc_of (locks Z i) w)"
      using pcs [of i] by (auto simp: wakes_writer_def wakes_readers_def)
    from park_step.run [OF that(1) this] that(2) show ?thesis
      using enter_lock [OF ready settled, of i] by fastforce
  qed
  show ?thesis
  proof (cases a)
    case (Acquire g i)
    then have "pc_of (locks Z i) w = Idle" using disc held [of i] pcs [of i] by (auto simp: guard_at_pc_def)
    then show ?thesis
      using go [of i] lock_exclusive_call lock_shared_call Acquire by (cases g) (metis enters.simps(1,2))+
  next
    case (Downgrade i)
    then have "pc_of (locks Z i) w = Writer" using disc held [of i] pcs [of i] by (auto simp: guard_at_pc_def split: if_splits)
    then show ?thesis using go [of i] downgrade_readers downgrade_plain Downgrade by (metis enters.simps(4))
  next
    case (Release i)
    then have "pc_of (locks Z i) w = Writer \<or> pc_of (locks Z i) w = Reader"
      using disc held [of i] pcs [of i] by (auto simp: guard_at_pc_def)
    then show ?thesis
      using go [of i] unlock_fast unlock_slow unlock_shared_last unlock_shared_more Release by (metis enters.simps(3))
  qed (use a in simp)
qed

text \<open>A thread that is not done and not asleep can move.\<close>

lemma in_lock_enabled:
  assumes m: "matches Z S" and "\<not> settled (pc_of (locks Z i) w)" and "\<not> asleep (pc_of (locks Z i) w)"
    and "pc_of (locks Z i) w \<noteq> Overflow_panic"
  shows "\<exists>Z'. composed_step T w Z Z'"
proof -
  have "local_ok (pc_of (locks Z i) w) (word_of (locks Z i))" using m by (simp add: matches_def lock_inv_def)
  then have "pc_of (locks Z i) w \<noteq> Assert_panic" by auto
  from park_step_enabled [OF assms(3,4) this] obtain L where "park_step w (locks Z i) L" ..
  from in_lock [OF assms(2) this] show ?thesis ..
qed

lemma awake_enabled:
  assumes m: "matches Z S" and inv: "steady c0 progs S" and left: "unfinished Z w"
    and awake: "\<And>i. \<not> asleep (pc_of (locks Z i) w)" and no_overflow: "\<And>i. pc_of (locks Z i) w \<noteq> Overflow_panic"
  shows "\<exists>Z'. composed_step T w Z Z'"
proof (cases "all_settled Z w")
  case settled: True
  show ?thesis
  proof (cases "at_section (workers (core Z) w)")
    case False
    with left settled obtain a rest where "phase (workers (core Z) w) = Ready" "todo (workers (core Z) w) = a # rest" "\<And>call. a \<noteq> Do call"
      by (cases "todo (workers (core Z) w)") (auto simp: at_section_def unfinished_def)
    from lock_entered [OF m inv settled this] show ?thesis .
  qed (rule section_enabled [OF m inv _ settled])
qed (use in_lock_enabled [OF m _ awake no_overflow] in blast)

text \<open>A thread that sleeps waits for the guard of the shard it sleeps at.\<close>

lemma asleep_waits:
  assumes m: "matches Z S" and inv: "steady c0 progs S" and sleep: "asleep (pc_of (locks Z i) w)"
  shows "unfinished Z w \<and> i < length (shards (cache S)) \<and> (\<exists>g rest. todo (workers (core Z) w) = Acquire g i # rest)"
proof -
  have ok: "in_place (pcs Z w) (workers (core Z) w)" and same: "same_but_words (core Z) S" using m by (simp_all add: matches_def)
  have "\<exists>g. lock_task i (pcs Z w i) = Some (Acquire g i)" using sleep by (cases "pc_of (locks Z i) w") (auto simp: pcs_def)
  then obtain g rest where t: "todo (workers (core Z) w) = Acquire g i # rest" using in_placeD(4) [OF ok] by blast
  then show ?thesis using steadyD(6) [OF inv, of w] by (auto simp: worker_ok_def same_but_wordsD(1) [OF same] unfinished_def)
qed

text \<open>While a thread sleeps at a shard, another one is in its lock and awake, or holds its guard.\<close>

lemma sleeper_blocked:
  assumes m: "matches Z S" and "asleep (pc_of (locks Z i) w)"
    and quiet: "\<And>u. settled (pc_of (locks Z i) u) \<or> asleep (pc_of (locks Z i) u)"
  shows "\<exists>u. held (workers (core Z) u) i \<noteq> None"
proof -
  have linv: "lock_inv (locks Z i)" "wake_ok (locks Z i)" using m by (simp_all add: matches_def)
  from sleeper_has_waker [OF linv assms(2)] obtain u where u: "\<not> asleep (pc_of (locks Z i) u)" "pc_of (locks Z i) u \<noteq> Idle" by blast
  with quiet [of u] have "guard_at_pc (pcs Z u i) \<noteq> None"
    by (cases "pc_of (locks Z i) u") (auto simp: pcs_def guard_at_pc_def)
  moreover have "in_place (pcs Z u) (workers (core Z) u)" using m by (simp add: matches_def)
  ultimately show ?thesis using in_placeD(1) by metis
qed

lemma composed_progress:
  assumes m: "matches Z S" and inv: "steady c0 progs S" and asc: "all_ascending S" and left: "unfinished Z w"
    and no_overflow: "\<And>u i. pc_of (locks Z i) u \<noteq> Overflow_panic"
  shows "\<exists>u Z'. composed_step T u Z Z'"
proof (rule ccontr)
  assume stuck: "\<nexists>u Z'. composed_step T u Z Z'"
  note ws = same_but_wordsD(1) [of "core Z" S]
  have same: "workers S = workers (core Z)" using m by (simp add: matches_def ws)
  have sleeps: "\<exists>i. asleep (pc_of (locks Z i) u)" if "unfinished Z u" for u
    using awake_enabled [OF m inv that _ no_overflow] stuck by blast
  define I where "I = {i. \<exists>u. asleep (pc_of (locks Z i) u)}"
  have fin: "finite I"
    by (rule finite_subset [of _ "{..<length (shards (cache S))}"]) (use asleep_waits [OF m inv] in \<open>auto simp: I_def\<close>)
  have "I \<noteq> {}" using sleeps [OF left] by (auto simp: I_def)
  with Max_in [OF fin] obtain u where u: "asleep (pc_of (locks Z (Max I)) u)" by (auto simp: I_def)
  have "settled (pc_of (locks Z (Max I)) v) \<or> asleep (pc_of (locks Z (Max I)) v)" for v
    using in_lock_enabled [OF m _ _ no_overflow] stuck by blast
  from sleeper_blocked [OF m u this] obtain v where v: "held (workers (core Z) v) (Max I) \<noteq> None" by blast
  then have "todo (workers (core Z) v) \<noteq> []" using steadyD(6) [OF inv, of v] by (auto simp: worker_ok_def same)
  then obtain j where j: "asleep (pc_of (locks Z j) v)" using sleeps by (auto simp: unfinished_def)
  from asleep_waits [OF m inv j] obtain g rest where "todo (workers (core Z) v) = Acquire g j # rest" by blast
  moreover have "ascending (held (workers S v)) (todo (workers S v))" using asc by (simp add: all_ascending_def)
  ultimately have "\<forall>i \<in> dom (held (workers (core Z) v)). i < j" by (simp add: same)
  then have "Max I < j" using v by auto
  moreover have "j \<le> Max I" using j fin by (intro Max_ge) (auto simp: I_def)
  ultimately show False by simp
qed

end

end
