(* ===== verification/Composed_Readers.thy ===== *)
theory Composed_Readers
  imports Composed_Simulation
begin

text \<open>
  The panic of \<open>lock_shared_slow\<close> for too many readers cannot happen unless there are about
  \<open>2\<^sup>6\<^sup>2\<close> threads: the counter of the word counts the readers, a reader that goes into the slow
  path has seen a counter below the limit or a writer, and threads with nothing to do stay out of the locks.
\<close>

section \<open>One lock\<close>

definition crowd_ok :: "'w set \<Rightarrow> 'w lock_system \<Rightarrow> bool" where
  "crowd_ok W s \<longleftrightarrow> (\<forall>t. t \<notin> W \<longrightarrow> pc_of s t = Idle) \<and>
     (\<forall>t. pc_of s t \<noteq> Overflow_panic \<and> (\<forall>state. pc_of s t = Shared_loop state \<longrightarrow> Suc (holders state) \<noteq> writer_code))"

lemma crowd_init: "crowd_ok W lock_init"
  by (simp add: crowd_ok_def lock_init_def)

lemma word_below_limit:
  assumes inv: "lock_inv s" and ok: "crowd_ok W s" and W: "finite W" "Suc (card W) < writer_code"
  shows "Suc (holders (word_of s)) \<noteq> writer_code"
proof -
  have "readers s \<subseteq> W"
  proof
    fix t assume "t \<in> readers s"
    then have "pc_of s t \<noteq> Idle" by (auto simp: readers_def)
    then show "t \<in> W" using ok by (auto simp: crowd_ok_def)
  qed
  then have "card (readers s) \<le> card W" by (rule card_mono [OF W(1)])
  then show ?thesis using inv W(2) by (auto simp: lock_inv_def)
qed

text \<open>The accesses that lead into the loop load the word; the panic needs a loaded word at the limit.\<close>

lemma slow_reader_load:
  assumes "lock_action p v p' v'"
  shows "p' = Shared_loop state \<Longrightarrow> state = v" and "p' = Overflow_panic \<Longrightarrow> \<exists>state. p = Shared_loop state \<and> Suc (holders state) = writer_code"
proof -
  have "p' = Overflow_panic \<longrightarrow> (\<exists>state new. p = Shared_loop state \<and> checked_add state ONE_READER = Some new \<and> new AND ONE_WRITER = ONE_WRITER)"
    using assms
  proof (cases rule: lock_action.cases)
    case (fast_full caller)
    then show ?thesis by (cases caller) simp_all
  next
    case (fast_cas_fail caller)
    then show ?thesis by (cases caller) simp_all
  qed (auto split: if_splits)
  then show "\<exists>state. p = Shared_loop state \<and> Suc (holders state) = writer_code" if "p' = Overflow_panic"
    using that checked_add_reader(1) and_writer_full by metis
  show "state = v" if "p' = Shared_loop state"
    using assms that
  proof (cases rule: lock_action.cases)
    case (fast_full caller)
    then show ?thesis using that by (cases caller) simp_all
  next
    case (fast_cas_fail caller)
    then show ?thesis using that by (cases caller) simp_all
  qed (auto split: if_splits)
qed

lemma crowd_step:
  assumes inv: "lock_inv s" and ok: "crowd_ok W s" and W: "finite W" "Suc (card W) < writer_code"
    and st: "park_step t s s'" and t: "t \<in> W"
  shows "crowd_ok W s'"
  using st
proof cases
  case (run p' w')
  note low = word_below_limit [OF inv ok W]
  have "p' \<noteq> Overflow_panic" using slow_reader_load(2) [OF run(2)] ok by (auto simp: crowd_ok_def)
  moreover have "Suc (holders state) \<noteq> writer_code" if "p' = Shared_loop state" for state
    using slow_reader_load(1) [OF run(2) that] low by simp
  ultimately show ?thesis using ok t by (auto simp: crowd_ok_def run(1))
next
  case (unpark_one u)
  have "u \<in> W" using ok unpark_one(3) by (auto simp: crowd_ok_def)
  then show ?thesis using ok t unpark_one(2) by (cases "pc_of s t") (auto simp: crowd_ok_def unpark_one(1) wakes_writer_def)
next
  case unpark_none
  then show ?thesis using ok t by (cases "pc_of s t") (auto simp: crowd_ok_def wakes_writer_def)
next
  case unpark_all
  then show ?thesis using ok t by (cases "pc_of s t") (auto simp: crowd_ok_def wakes_readers_def)
qed

section \<open>All locks of a cache\<close>

definition crowd_inv :: "'w set \<Rightarrow> ('k, 'v, 't, 'w) composed \<Rightarrow> bool" where
  "crowd_inv W Z \<longleftrightarrow> (\<forall>i. lock_inv (locks Z i) \<and> wake_ok (locks Z i) \<and> crowd_ok W (locks Z i)) \<and>
     (\<forall>w. w \<notin> W \<longrightarrow> todo (workers (core Z) w) = [] \<and> phase (workers (core Z) w) = Ready)"

lemma crowd_moved:
  assumes inv: "crowd_inv W Z" and W: "finite W" "Suc (card W) < writer_code" and st: "park_step w (locks Z i) L" and w: "w \<in> W"
  shows "crowd_inv W (lock_moved Z w i L)"
proof -
  have l: "lock_inv (locks Z i)" "wake_ok (locks Z i)" "crowd_ok W (locks Z i)" using inv by (simp_all add: crowd_inv_def)
  from park_step_invariants [OF l(1,2) st] crowd_step [OF l(1,3) W st w] inv w show ?thesis
    by (auto simp: crowd_inv_def lock_moved_def)
qed

lemma section_others: "call_step T w S S' \<Longrightarrow> u \<noteq> w \<Longrightarrow> workers S' u = workers S u"
  by (erule call_step.cases) simp_all

lemma crowd_composed_step:
  assumes inv: "crowd_inv W Z" and W: "finite W" "Suc (card W) < writer_code" and st: "composed_step T w Z Z'"
  shows "crowd_inv W Z'"
proof -
  have out: "u \<in> W" if "\<not> settled (pc_of (locks Z i) u)" for u i
    using that inv unfolding crowd_inv_def crowd_ok_def by (metis settled.simps(1))
  have idle: "u \<in> W" if "phase (workers (core Z) u) \<noteq> Ready \<or> todo (workers (core Z) u) \<noteq> []" for u
    using that inv by (auto simp: crowd_inv_def)
  from st show ?thesis
  proof cases
    case (in_section S)
    have "w \<in> W" using idle in_section(2) by (auto simp: at_section_def)
    then have "workers S u = workers (core Z) u" if "u \<notin> W" for u using that by (intro section_others [OF in_section(4)]) blast
    then show ?thesis using inv by (simp add: crowd_inv_def in_section(1))
  next
    case (enter_lock a rest i L)
    have "w \<in> W" using idle enter_lock(3) by simp
    then show ?thesis unfolding enter_lock(1) by (rule crowd_moved [OF inv W enter_lock(5)])
  next
    case (in_lock i L)
    have "w \<in> W" by (rule out [OF in_lock(2)])
    then show ?thesis unfolding in_lock(1) by (rule crowd_moved [OF inv W in_lock(3)])
  qed
qed

lemma no_overflow:
  assumes "composed_run T (composed_start c progs) Z" and W: "finite {w. progs w \<noteq> []}" "card {w. progs w \<noteq> []} < 2 ^ 62 - 2"
  shows "pc_of (locks Z i) w \<noteq> Overflow_panic"
proof -
  let ?W = "{w. progs w \<noteq> []}"
  have W': "Suc (card ?W) < writer_code" using W(2) by simp
  have "crowd_inv ?W Z"
    using assms(1)
  proof induction
    case start
    show ?case
      using park_invariants [OF park_reachable.init] by (simp add: crowd_inv_def composed_start_def started_def crowd_init)
  next
    case (step Z' w Z'')
    from crowd_composed_step [OF step.IH W(1) W' step.hyps(2)] show ?case .
  qed
  then have "crowd_ok ?W (locks Z i)" by (simp add: crowd_inv_def)
  then show ?thesis by (simp add: crowd_ok_def)
qed

end
