(* ===== verification/Composed_Properties.thy ===== *)
theory Composed_Properties
  imports Composed_Readers Concurrent_Properties
begin

text \<open>
  What threads that share a cache can rely on when each guard is taken by the code of
  \<open>src/lock.rs\<close> step by step, with its races, its spinning and its parking.
\<close>

text \<open>C11:
  The whole crate under threads. Threads run the lock protocol of every shard one atomic access
  at a time, with parking, and their sections in between, in any interleaving. Still the
  sections in the order they took effect are a single-threaded run with the same answers and the
  same final contents, each a step of a map that loses at most one other entry of the same
  shard when a new key is inserted, and nothing if the cache is unbounded; a thread that
  holds the write guard of a shard is alone with it; and the state is one of the threads over an
  atomic lock.
\<close>

theorem composed_serializable:
  assumes tab: "shard_table T hash tok sok" and ok: "cache_ok T hash tok c" and room: "roomy T c progs"
    and progs: "\<forall>w. disciplined (key_shard c) (length (shards c)) Map.empty (progs w)"
    and run: "composed_run T (composed_start c progs) Z"
  shows "comp_run (nc_call T) (map (fst \<circ> snd) (effects (core Z))) c =
      returns (map (snd \<circ> snd) (effects (core Z)), at_rest (cache (core Z))) \<and>
    lossy_run (0 < cache_capacity c) (key_shard c) (map snd (effects (core Z)))
      (cache_vals T c) (cache_vals T (at_rest (cache (core Z)))) \<and>
    (\<forall>i. exclusive (guards_of (locks Z i))) \<and>
    (\<exists>S. runs_to T (started c progs) S \<and> workers S = workers (core Z) \<and> effects S = effects (core Z))"
proof -
  from shard_table.composed_runs [OF tab run ok room spec [OF progs]] obtain S where
    S: "runs_to T (started c progs) S" "matches Z S" by blast
  have same: "same_but_words (core Z) S" using S(2) by (simp add: matches_def)
  note eqs = same_but_wordsD [OF same]
  note inv = shard_table.steady_runs [OF tab S(1) ok room spec [OF progs]]
  have "exclusive (guards_of (locks Z i))" for i
  proof -
    have "guards_of (locks Z i) = guards_at i S"
      using S(2) in_placeD(1) unfolding matches_def by (metis eqs(1) ext guards_at_def guards_of_pc pcs_def)
    then show ?thesis using shard_table.guards_exclusive [OF tab S(1) ok room spec [OF progs]] by simp
  qed
  then show ?thesis using shard_table.steadyD(7,8) [OF tab inv] S(1) eqs by auto
qed

theorem composed_serializable_witness:
  "\<exists>Z. composed_run slot_table (composed_start demo_full demo_threads) Z \<and>
    guards_of (locks Z (key_shard demo_full 3)) 0 = Some Write_guard \<and> exclusive (guards_of (locks Z (key_shard demo_full 3)))"
proof -
  let ?i = "key_shard demo_full 3" and ?Z = "composed_start demo_full demo_threads"
  let ?L1 = "\<lparr>word_of = 0, pc_of = (\<lambda>_. Idle)(0 := Excl_first)\<rparr>"
  let ?L2 = "\<lparr>word_of = ONE_WRITER, pc_of = (\<lambda>_. Idle)(0 := Writer)\<rparr>"
  let ?Z1 = "lock_moved ?Z 0 ?i ?L1"
  let ?Z2 = "lock_moved ?Z1 0 ?i ?L2"
  have prog: "demo_threads 0 = Acquire Write_guard ?i # tl (demo_threads 0)"
    by (simp add: demo_threads_def thread_def demo_methods_def guarded_def Let_def guard_for_def)
  have "park_step 0 lock_init ?L1"
    using park_step.run [of lock_init 0 Excl_first 0] lock_exclusive_call [of 0]
    by (simp add: lock_init_def wakes_writer_def wakes_readers_def)
  then have 1: "composed_step slot_table 0 ?Z ?Z1"
    using prog by (intro enter_lock [where a = "Acquire Write_guard ?i" and rest = "tl (demo_threads 0)"])
      (simp_all add: composed_start_def started_def lock_init_def)
  have "park_step 0 ?L1 ?L2"
    using park_step.run [of ?L1 0 Writer ONE_WRITER] first_cas_ok by (simp add: wakes_writer_def wakes_readers_def)
  then have 2: "composed_step slot_table 0 ?Z1 ?Z2" by (intro in_lock) simp_all
  have run: "composed_run slot_table ?Z ?Z2" by (intro composed_run.step [OF composed_run.step [OF composed_run.start 1] 2])
  have "\<forall>w. disciplined (key_shard demo_full) (length (shards demo_full)) Map.empty (demo_threads w)"
    using demo_threads_ok(1) by blast
  from composed_serializable [OF slot_shard.shard_table_axioms demo_states_ok(3) demo_roomy this run]
  have "exclusive (guards_of (locks ?Z2 ?i))" by blast
  moreover have "guards_of (locks ?Z2 ?i) 0 = Some Write_guard" by (simp add: guards_of_def)
  ultimately show ?thesis using run by blast
qed

lemma thread_overflow:
  assumes "composed_run T (composed_start c (\<lambda>w. thread c (ms w))) Z" and "finite {w. ms w \<noteq> []}" "card {w. ms w \<noteq> []} < 2 ^ 62 - 2"
  shows "pc_of (locks Z i) w \<noteq> Overflow_panic"
proof (rule no_overflow [OF assms(1)])
  have sub: "{w. thread c (ms w) \<noteq> []} \<subseteq> {w. ms w \<noteq> []}" by (auto simp: thread_def)
  show "finite {w. thread c (ms w) \<noteq> []}" by (rule finite_subset [OF sub assms(2)])
  show "card {w. thread c (ms w) \<noteq> []} < 2 ^ 62 - 2" by (rule le_less_trans [OF card_mono [OF assms(2) sub] assms(3)])
qed

lemma threads_progress:
  assumes tab: "shard_table T hash tok sok" and ok: "cache_ok T hash tok c" and room: "roomy T c (\<lambda>w. thread c (ms w))"
    and ms: "\<forall>w. \<forall>m \<in> set (ms w). method_ok (key_shard c) (shard_count c) m"
    and few: "finite {w. ms w \<noteq> []}" "card {w. ms w \<noteq> []} < 2 ^ 62 - 2"
    and run: "composed_run T (composed_start c (\<lambda>w. thread c (ms w))) Z"
  shows "(unfinished Z w \<longrightarrow> (\<exists>u Z'. (\<forall>i. \<not> asleep (pc_of (locks Z i) u)) \<and> composed_step T u Z Z')) \<and>
    pc_of (locks Z i) w \<noteq> Overflow_panic"
proof -
  note prog = thread_ok [OF spec [OF ms]]
  from shard_table.composed_runs [OF tab run ok room prog(1)] obtain S where
    S: "runs_to T (started c (\<lambda>w. thread c (ms w))) S" "matches Z S" by blast
  note inv = shard_table.steady_runs [OF tab S(1) ok room prog(1)]
  note over = thread_overflow [OF run few]
  note go = shard_table.composed_progress [OF tab S(2) inv ascending_runs [OF S(1) prog(2)] _ over]
  have "\<not> asleep (pc_of (locks Z j) u)" if "composed_step T u Z Z'" for u Z' j by (rule composed_step_awake [OF S(2) that])
  then show ?thesis using go over by blast
qed

text \<open>C12:
  No deadlock over the parking lot: let finitely many threads, fewer than \<open>2\<^sup>6\<^sup>2 - 2\<close>, call any
  lists of methods, iterations included. In every state they reach in which some thread has not
  returned, some thread is awake and can take a step; a parked thread is not woken by chance, but
  by the thread that unlocks; and no thread ever hits the panic for too many readers.
\<close>

theorem composed_no_deadlock:
  assumes tab: "shard_table T hash tok sok" and ok: "cache_ok T hash tok c" and room: "roomy T c (\<lambda>w. thread c (ms w))"
    and ms: "\<forall>w. \<forall>m \<in> set (ms w). method_ok (key_shard c) (shard_count c) m"
    and few: "finite {w. ms w \<noteq> []}" "card {w. ms w \<noteq> []} < 2 ^ 62 - 2"
    and run: "composed_run T (composed_start c (\<lambda>w. thread c (ms w))) Z"
  shows "(unfinished Z w \<longrightarrow> (\<exists>u Z'. (\<forall>i. \<not> asleep (pc_of (locks Z i) u)) \<and> composed_step T u Z Z')) \<and>
    pc_of (locks Z i) w \<noteq> Overflow_panic"
  by (rule threads_progress [OF assms])

theorem composed_no_deadlock_witness:
  "\<exists>u Z'. composed_step slot_table u (composed_start demo_full demo_threads) Z'"
proof -
  have ms: "\<forall>w. \<forall>m \<in> set (demo_methods w). method_ok (key_shard demo_full) (shard_count demo_full) m"
    using demo_methods_ok(1) by blast
  have "unfinished (composed_start demo_full demo_threads) 0"
    by (simp add: unfinished_def composed_start_def started_def demo_threads_def thread_def demo_methods_def guarded_def Let_def)
  moreover have "finite {w. demo_methods w \<noteq> []}" "card {w. demo_methods w \<noteq> []} < 2 ^ 62 - 2"
  proof -
    show "finite {w. demo_methods w \<noteq> []}" by (rule demo_methods_ok(2))
    have "card {w. demo_methods w \<noteq> []} \<le> card {0, 1 :: nat}" by (rule card_mono) (auto simp: demo_methods_def split: if_splits)
    then show "card {w. demo_methods w \<noteq> []} < 2 ^ 62 - 2" by simp
  qed
  ultimately show ?thesis
    using composed_no_deadlock [OF slot_shard.shard_table_axioms demo_states_ok(3) demo_roomy ms, folded demo_threads_def,
      OF _ _ composed_run.start] by blast
qed

end
