(* ===== verification/Shared_Iter_Inv.thy ===== *)
theory Shared_Iter_Inv
  imports Shared_Iter
begin

text \<open>
  The invariant of an iteration with shared guards, kept by every step of every schedule:
  the strong count of a shard's guard is the number of live references into the shard plus
  the iterator's own clone, the lock is held exactly while the count is positive, and the
  references yielded so far and the cursor together are the buckets in iteration order.
\<close>

section \<open>The references of a cache in iteration order\<close>

definition shard_refs :: "('k, 'v, 't) table \<Rightarrow> ('k, 't) NeoCache \<Rightarrow> usize \<Rightarrow> Ref list" where
  "shard_refs T c i = map (multi_new i) (rt_iter T (raw_map (shard_at c i)))"

definition refs_upto :: "('k, 'v, 't) table \<Rightarrow> ('k, 't) NeoCache \<Rightarrow> usize \<Rightarrow> Ref list" where
  "refs_upto T c n = concat (map (shard_refs T c) [0..<n])"

definition all_refs :: "('k, 'v, 't) table \<Rightarrow> ('k, 't) NeoCache \<Rightarrow> Ref list" where
  "all_refs T c = refs_upto T c (shard_count c)"

lemma multi_new_simps [simp]:
  "ref_shard (multi_new i b) = i" "ref_bucket (multi_new i b) = b" "multi_new (ref_shard r) (ref_bucket r) = r"
  by (simp_all add: multi_new_def)

lemma multi_new_inject [simp]: "multi_new i b = multi_new j d \<longleftrightarrow> i = j \<and> b = d"
  by (simp add: multi_new_def)

lemma refs_upto_simps [simp]: "refs_upto T c 0 = []" "refs_upto T c (Suc n) = refs_upto T c n @ shard_refs T c n"
  by (simp_all add: refs_upto_def)

lemma refs_upto_set:
  "r \<in> set (refs_upto T c n) \<longleftrightarrow> ref_shard r < n \<and> ref_bucket r \<in> set (rt_iter T (raw_map (shard_at c (ref_shard r))))"
proof -
  have "r \<in> set (shard_refs T c i) \<longleftrightarrow> ref_shard r = i \<and> ref_bucket r \<in> set (rt_iter T (raw_map (shard_at c i)))" for i
    by (cases r) (auto simp: shard_refs_def multi_new_def)
  then show ?thesis by (simp add: refs_upto_def)
qed

lemma refs_upto_add: "refs_upto T c (m + d) = refs_upto T c m @ concat (map (shard_refs T c) [m..<m + d])"
  using upt_add_eq_append [of 0 m d] by (simp add: refs_upto_def)

lemma refs_upto_distinct:
  "(\<And>i. i < n \<Longrightarrow> distinct (rt_iter T (raw_map (shard_at c i)))) \<Longrightarrow> distinct (refs_upto T c n)"
proof (induction n)
  case (Suc n)
  have "distinct (shard_refs T c n)" using Suc.prems by (simp add: shard_refs_def distinct_map inj_on_def)
  moreover have "set (refs_upto T c n) \<inter> set (shard_refs T c n) = {}"
    by (auto simp: refs_upto_set shard_refs_def)
  ultimately show ?case using Suc by simp
qed simp

lemma all_refs_pairs: "map (ref_pair T c) (all_refs T c) = cache_pairs T c"
proof -
  have "map (ref_pair T c) (shard_refs T c i) = shard_pairs T (shard_at c i)" for i
    by (simp add: shard_refs_def shard_pairs_def multi_new_def ref_pair_bucket)
  moreover have "shard_list c = map (shard_at c) [0..<shard_count c]"
    by (intro nth_equalityI) (simp_all add: shard_list_nth shard_count_def)
  ultimately show ?thesis
    by (simp add: all_refs_def refs_upto_def cache_pairs_def map_concat o_def)
qed

section \<open>The invariant\<close>

fun guard_word :: "guard_kind \<Rightarrow> u64" where
  "guard_word Read_guard = ONE_READER"
| "guard_word Write_guard = ONE_WRITER"

definition cursor_ok :: "('k, 'v, 't) table \<Rightarrow> ('k, 't) NeoCache \<Rightarrow> Ref list \<Rightarrow> bool \<Rightarrow> ('k, 't) ArcIter \<Rightarrow> bool" where
  "cursor_ok T c0 ys op x \<longleftrightarrow> (case ai_current x of
     None \<Rightarrow> if op then ai_shard_i x = 0 \<and> ys = [] else \<exists>zs. ys @ zs = all_refs T c0
   | Some (i, bs) \<Rightarrow> op \<and> ai_shard_i x = Suc i \<and> i < shard_count c0 \<and>
       ys @ map (multi_new i) bs = refs_upto T c0 (Suc i))"

definition arcs_ok :: "Ref list \<Rightarrow> ('k, 't) ArcIter \<Rightarrow> bool" where
  "arcs_ok al x \<longleftrightarrow> (\<forall>i. ai_arcs x i = count_list (map ref_shard al) i +
     (case ai_current x of None \<Rightarrow> 0 | Some (j, bs) \<Rightarrow> if i = j then 1 else 0))"

definition locks_ok :: "guard_kind \<Rightarrow> ('k, 't) ArcIter \<Rightarrow> bool" where
  "locks_ok g x \<longleftrightarrow> (\<forall>i < shard_count (ai_cache x).
     lock_word (ai_cache x) i = (if ai_arcs x i = 0 then 0 else guard_word g))"

definition tables_ok :: "('k, 'v, 't) table \<Rightarrow> ('t \<Rightarrow> bool) \<Rightarrow> ('k, 't) NeoCache \<Rightarrow> (Ref \<Rightarrow> 'v option) \<Rightarrow> ('k, 't) NeoCache \<Rightarrow> bool" where
  "tables_ok T tok c0 st c \<longleftrightarrow> same_config c0 c \<and>
     (\<forall>i < shard_count c0. tok (raw_map (shard_at c i)) \<and>
        rt_iter T (raw_map (shard_at c i)) = rt_iter T (raw_map (shard_at c0 i))) \<and>
     (\<forall>r \<in> set (all_refs T c0). ref_pair T c r =
        (fst (ref_pair T c0 r), case st r of None \<Rightarrow> snd (ref_pair T c0 r) | Some v \<Rightarrow> v))"

definition live_ok :: "guard_kind \<Rightarrow> ('k, 'v, 't) table \<Rightarrow> ('t \<Rightarrow> bool) \<Rightarrow> ('k, 't) NeoCache \<Rightarrow> (Ref \<Rightarrow> 'v option)
    \<Rightarrow> Ref list \<Rightarrow> Ref list \<Rightarrow> bool \<Rightarrow> ('k, 't) ArcIter \<Rightarrow> bool" where
  "live_ok g T tok c0 st al ys op x \<longleftrightarrow> tables_ok T tok c0 st (ai_cache x) \<and> cursor_ok T c0 ys op x \<and>
     arcs_ok al x \<and> locks_ok g x \<and> mset al \<subseteq># mset ys"

lemma guard_word_0 [simp]: "guard_word g \<noteq> 0"
  by (cases g) (simp_all add: layout_simps)

lemma yield_free:
  "i < shard_count c \<Longrightarrow> lock_word c i = 0 \<Longrightarrow> yield_shard g c i = returns (put_state c i (guard_word g))"
  by (cases g) (simp_all add: yield_read_shard_def yield_write_shard_def lock_word_def shard_count_def)

lemma drop_held:
  "lock_word c i = guard_word g \<Longrightarrow> drop_guard g c i = Return (put_state c i 0)"
  by (cases g) (simp_all add: drop_read_guard_def drop_write_guard_def lock_word_def)

lemma ref_pair_put_state [simp]: "ref_pair T (put_state c i v) r = ref_pair T c r"
  by (simp add: ref_pair_def)

lemma shard_count_put [simp]: "shard_count (put_state c i v) = shard_count c" "shard_count (put_shard c i s) = shard_count c"
  by (simp_all add: shard_count_def)

lemma tables_ok_put_state [simp]: "tables_ok T tok c0 st (put_state c i v) = tables_ok T tok c0 st c"
  by (simp add: tables_ok_def same_config_def)

section \<open>Dropping a clone\<close>

text \<open>What \<open>arc_drop\<close> does when the lock is held exactly while the count is positive.\<close>

definition arc_dropped :: "usize \<Rightarrow> ('k, 't) ArcIter \<Rightarrow> ('k, 't) ArcIter" where
  "arc_dropped i x = x\<lparr>ai_cache := (if ai_arcs x i = 1 then put_state (ai_cache x) i 0 else ai_cache x),
     ai_arcs := (ai_arcs x)(i := ai_arcs x i - 1)\<rparr>"

lemma arc_drop_held:
  assumes "locks_ok g x" and "i < shard_count (ai_cache x)" and "0 < ai_arcs x i"
  shows "arc_drop g i x = Return (arc_dropped i x)" and "locks_ok g (arc_dropped i x)"
proof -
  have "lock_word (ai_cache x) i = guard_word g" using assms by (simp add: locks_ok_def)
  then show "arc_drop g i x = Return (arc_dropped i x)"
    using assms(3) by (auto simp: arc_drop_def arc_dropped_def drop_held Let_def)
  show "locks_ok g (arc_dropped i x)"
    using assms by (auto simp: locks_ok_def arc_dropped_def lock_word_put_state shard_count_def)
qed

lemma arc_dropped_frame [simp]:
  "ai_shard_i (arc_dropped i x) = ai_shard_i x" "ai_current (arc_dropped i x) = ai_current x"
  "shard_count (ai_cache (arc_dropped i x)) = shard_count (ai_cache x)"
  "tables_ok T tok c0 st (ai_cache (arc_dropped i x)) = tables_ok T tok c0 st (ai_cache x)"
  "ai_arcs (arc_dropped i x) = (ai_arcs x)(i := ai_arcs x i - 1)"
  by (simp_all add: arc_dropped_def)

lemma cursor_ok_dropped [simp]: "cursor_ok T c0 ys op (arc_dropped i x) = cursor_ok T c0 ys op x"
  by (simp only: cursor_ok_def arc_dropped_frame)

lemma cursor_ok_cache [simp]: "cursor_ok T c0 ys op (x\<lparr>ai_cache := c\<rparr>) = cursor_ok T c0 ys op x"
  by (simp add: cursor_ok_def split: option.split)

section \<open>The next item\<close>

lemma live_okD:
  assumes "live_ok g T tok c0 st al ys op x"
  shows "tables_ok T tok c0 st (ai_cache x)" "cursor_ok T c0 ys op x" "arcs_ok al x" "locks_ok g x" "mset al \<subseteq># mset ys"
    and "shard_count (ai_cache x) = shard_count c0" "set al \<subseteq> set ys"
  using assms by (auto simp: live_ok_def tables_ok_def same_config_def dest: mset_subset_eqD)

lemma cursor_yielded:
  assumes "cursor_ok T c0 ys op x" and "ai_shard_i x \<le> shard_count c0"
  shows "set ys \<subseteq> set (all_refs T c0)" and "op \<Longrightarrow> set ys \<subseteq> set (refs_upto T c0 (ai_shard_i x))"
proof -
  have le: "set (refs_upto T c0 (ai_shard_i x)) \<subseteq> set (all_refs T c0)"
    using assms(2) by (auto simp: all_refs_def refs_upto_set)
  have "set ys \<subseteq> set (ys @ zs)" for zs by simp
  then have "set ys \<subseteq> set (all_refs T c0) \<and> (op \<longrightarrow> set ys \<subseteq> set (refs_upto T c0 (ai_shard_i x)))"
    using assms(1) le unfolding cursor_ok_def
    by (auto split: option.splits if_splits simp del: refs_upto_simps set_append) (metis in_mono)+
  then show "set ys \<subseteq> set (all_refs T c0)" "op \<Longrightarrow> set ys \<subseteq> set (refs_upto T c0 (ai_shard_i x))" by simp_all
qed

lemma count_shards_0: "(\<And>r. r \<in> set al \<Longrightarrow> ref_shard r < n) \<Longrightarrow> n \<le> i \<Longrightarrow> count_list (map ref_shard al) i = 0"
  by (rule count_notin) fastforce

lemma cursor_pos: "cursor_ok T c0 ys True x \<Longrightarrow> ai_shard_i x \<le> shard_count c0"
  by (auto simp: cursor_ok_def split: option.splits)

lemma arc_next_item:
  assumes ok: "live_ok g T tok c0 st al ys True x" and cur: "ai_current x = Some (i, b # bs)"
  shows "\<exists>x'. arc_next g T x = returns (Some (multi_new i b), x') \<and>
    live_ok g T tok c0 st (multi_new i b # al) (ys @ [multi_new i b]) True x'"
proof -
  have "arc_next g T x = returns (Some (multi_new i b), arc_clone i (x\<lparr>ai_current := Some (i, bs)\<rparr>))"
    using cur by (subst arc_next.simps) simp
  moreover have "0 < ai_arcs x i" using live_okD(3) [OF ok] cur by (simp add: arcs_ok_def)
  then have "live_ok g T tok c0 st (multi_new i b # al) (ys @ [multi_new i b]) True (arc_clone i (x\<lparr>ai_current := Some (i, bs)\<rparr>))"
    using ok cur by (auto simp: live_ok_def arc_clone_def cursor_ok_def arcs_ok_def locks_ok_def)
  ultimately show ?thesis by blast
qed

lemma arc_next_advance:
  assumes ok: "live_ok g T tok c0 st al ys True x" and cur: "\<forall>i bs. ai_current x = Some (i, bs) \<longrightarrow> bs = []"
    and more: "ai_shard_i x < shard_count c0"
  shows "\<exists>x'. arc_next g T x = arc_next g T x' \<and> live_ok g T tok c0 st al ys True x' \<and> ai_shard_i x' = Suc (ai_shard_i x)"
proof -
  let ?k = "ai_shard_i x" and ?c = "ai_cache x"
  note D = live_okD [OF ok]
  have yl: "set ys \<subseteq> set (refs_upto T c0 ?k)" by (rule cursor_yielded(2) [OF D(2) cursor_pos [OF D(2)] TrueI])
  have count: "count_list (map ref_shard al) ?k = 0"
    by (rule count_shards_0 [of _ ?k]) (use D(7) yl in \<open>auto simp: refs_upto_set\<close>)
  moreover have "i \<noteq> ?k" if "ai_current x = Some (i, bs)" for i bs using D(2) that by (simp add: cursor_ok_def)
  ultimately have "ai_arcs x ?k = 0" using D(3) by (auto simp: arcs_ok_def split: option.splits)
  then have y: "yield_shard g ?c ?k = returns (put_state ?c ?k (guard_word g))"
    using D(4,6) more by (intro yield_free) (simp_all add: locks_ok_def)
  define x1 where "x1 = x\<lparr>ai_cache := put_state ?c ?k (guard_word g), ai_shard_i := ?k + 1,
     ai_current := Some (?k, rt_iter T (raw_map (shard_at ?c ?k))), ai_arcs := (ai_arcs x)(?k := 1)\<rparr>"
  have ys: "ys = refs_upto T c0 ?k"
    using D(2) cur by (auto simp: cursor_ok_def split: option.splits)
  have tab: "tables_ok T tok c0 st (ai_cache x1)" using D(1) by (simp add: x1_def)
  have cur1: "cursor_ok T c0 ys True x1"
    using D(1) more by (simp add: cursor_ok_def x1_def ys tables_ok_def shard_refs_def)
  have locks1: "locks_ok g x1"
    using D(4,6) more by (auto simp: locks_ok_def x1_def lock_word_put_state shard_count_def)
  have next1: "arc_next g T x = (case arc_drop_current g x1 (ai_current x) of Panic p \<Rightarrow> Some (Panic p) | Return x' \<Rightarrow> arc_next g T x')"
    using y more D(6) cur by (subst arc_next.simps) (auto simp: x1_def split: option.split list.split)
  show ?thesis
  proof (cases "ai_current x")
    case None
    have "arcs_ok al x1" using D(3) None count by (auto simp: arcs_ok_def x1_def)
    with None next1 tab cur1 locks1 D(5) show ?thesis
      by (intro exI [of _ x1]) (simp add: live_ok_def, simp add: x1_def)
  next
    case (Some p)
    then obtain i where i: "ai_current x = Some (i, [])" "Suc i = ?k" "i < shard_count c0"
      using cur D(2) by (cases p) (auto simp: cursor_ok_def)
    have a: "0 < ai_arcs x1 i" "i < shard_count (ai_cache x1)"
      using D(3,6) i by (auto simp: arcs_ok_def x1_def)
    note drop = arc_drop_held [OF locks1 a(2,1)]
    have "arcs_ok al (arc_dropped i x1)" using D(3) i count by (auto simp: arcs_ok_def x1_def)
    then have "live_ok g T tok c0 st al ys True (arc_dropped i x1)"
      using tab cur1 drop(2) D(5) by (simp add: live_ok_def)
    then show ?thesis using next1 i(1) drop(1) by (intro exI [of _ "arc_dropped i x1"]) (simp add: x1_def)
  qed
qed

lemma arc_next_end:
  assumes ok: "live_ok g T tok c0 st al ys True x" and cur: "\<forall>i bs. ai_current x = Some (i, bs) \<longrightarrow> bs = []"
    and no_more: "\<not> ai_shard_i x < shard_count c0"
  shows "arc_next g T x = returns (None, x)" and "ys = all_refs T c0"
proof -
  note D = live_okD [OF ok]
  have n: "ai_shard_i x = shard_count c0" using cursor_pos [OF D(2)] no_more by simp
  then show "arc_next g T x = returns (None, x)"
    using D(6) cur by (subst arc_next.simps) (auto split: option.split list.split)
  show "ys = all_refs T c0"
    using D(2) cur n by (auto simp: cursor_ok_def all_refs_def split: option.splits)
qed

lemma arc_next_spec:
  assumes "live_ok g T tok c0 st al ys True x"
  shows "\<exists>r x'. arc_next g T x = returns (r, x') \<and>
    (case r of None \<Rightarrow> live_ok g T tok c0 st al ys True x' \<and> ys = all_refs T c0
     | Some r \<Rightarrow> live_ok g T tok c0 st (r # al) (ys @ [r]) True x')"
  using assms
proof (induction "shard_count c0 - ai_shard_i x" arbitrary: x rule: less_induct)
  case less
  consider i b bs where "ai_current x = Some (i, b # bs)" | "\<forall>i bs. ai_current x = Some (i, bs) \<longrightarrow> bs = []"
    by (cases "ai_current x") (auto, metis list.exhaust)
  then show ?case
  proof cases
    case 1
    then show ?thesis using arc_next_item [OF less.prems] by fastforce
  next
    case 2
    show ?thesis
    proof (cases "ai_shard_i x < shard_count c0")
      case True
      from arc_next_advance [OF less.prems 2 True] obtain x' where
        "arc_next g T x = arc_next g T x'" "live_ok g T tok c0 st al ys True x'" "ai_shard_i x' = Suc (ai_shard_i x)" by blast
      with less.hyps [of x'] True show ?thesis by simp
    next
      case False
      show ?thesis using arc_next_end [OF less.prems 2 False] less.prems by simp
    qed
  qed
qed

text \<open>Once everything has been yielded there is no further item.\<close>

lemma arc_next_ended:
  assumes ok: "live_ok g T tok c0 st al ys True x" and all: "ys = all_refs T c0"
  shows "arc_next g T x \<noteq> returns (Some r, x')"
proof
  assume "arc_next g T x = returns (Some r, x')"
  with arc_next_spec [OF ok] have "live_ok g T tok c0 st (r # al) (ys @ [r]) True x'" by auto
  note D = live_okD [OF this]
  have le: "ai_shard_i x' \<le> shard_count c0" by (rule cursor_pos [OF D(2)])
  have "\<exists>zs. (ys @ [r]) @ zs = refs_upto T c0 (ai_shard_i x')"
    using D(2) by (auto simp: cursor_ok_def split: option.splits)
  moreover have "length (refs_upto T c0 (ai_shard_i x')) \<le> length (all_refs T c0)"
    using refs_upto_add [of T c0 "ai_shard_i x'" "shard_count c0 - ai_shard_i x'"] le by (simp add: all_refs_def)
  ultimately show False by (metis all append.assoc append_Cons length_append length_Cons not_less_eq_eq le_add1 append_Nil add_Suc_right)
qed

section \<open>Every step keeps the invariant\<close>

definition iteration_ok :: "guard_kind \<Rightarrow> ('k, 'v, 't) table \<Rightarrow> ('t \<Rightarrow> bool) \<Rightarrow> ('k, 't) NeoCache \<Rightarrow> ('k, 'v, 't) iteration \<Rightarrow> bool" where
  "iteration_ok g T tok c0 s \<longleftrightarrow> live_ok g T tok c0 (stored s) (alive s) (yielded s) (is_open s) (iter s) \<and>
     (ended s \<longrightarrow> yielded s = all_refs T c0)"

lemma count_alive: "r \<in> set al \<Longrightarrow> 0 < count_list (map ref_shard al) (ref_shard r)"
  by (induction al) auto

lemma count_remove:
  "r \<in> set al \<Longrightarrow> count_list (map ref_shard (remove1 r al)) i =
     count_list (map ref_shard al) i - (if i = ref_shard r then 1 else 0)"
proof (induction al)
  case (Cons a al)
  then show ?case using count_alive [of r al] by (cases "r = a") auto
qed simp

lemma alive_ref:
  assumes ok: "live_ok g T tok c0 st al ys op x" and r: "r \<in> set al"
  shows "r \<in> set (all_refs T c0)" and "ref_shard r < shard_count (ai_cache x)" and "0 < ai_arcs x (ref_shard r)"
proof -
  note D = live_okD [OF ok]
  have "set ys \<subseteq> set (all_refs T c0)"
  proof (cases op)
    case True
    then show ?thesis using cursor_yielded(1) [OF D(2)] cursor_pos [of T c0 ys x] D(2) by simp
  next
    case False
    then show ?thesis using D(2) by (auto simp: cursor_ok_def split: option.splits) (metis UnI1 set_append)
  qed
  then show "r \<in> set (all_refs T c0)" using D(7) r by blast
  then show "ref_shard r < shard_count (ai_cache x)" by (simp add: all_refs_def refs_upto_set D(6))
  show "0 < ai_arcs x (ref_shard r)" using D(3) count_alive [OF r] by (simp add: arcs_ok_def)
qed

lemma drop_ref_ok:
  assumes ok: "live_ok g T tok c0 st al ys op x" and r: "r \<in> set al"
  shows "multi_drop g r x = Return (arc_dropped (ref_shard r) x)"
    and "live_ok g T tok c0 st (remove1 r al) ys op (arc_dropped (ref_shard r) x)"
proof -
  note D = live_okD [OF ok] and A = alive_ref [OF ok r]
  note drop = arc_drop_held [OF D(4) A(2,3)]
  show "multi_drop g r x = Return (arc_dropped (ref_shard r) x)" by (simp add: multi_drop_def drop(1))
  have "arcs_ok (remove1 r al) (arc_dropped (ref_shard r) x)"
    unfolding arcs_ok_def arc_dropped_frame
  proof
    fix i
    have "ai_arcs x i = count_list (map ref_shard al) i +
        (case ai_current x of None \<Rightarrow> 0 | Some (j, bs) \<Rightarrow> if i = j then 1 else 0)"
      using D(3) unfolding arcs_ok_def ..
    then show "((ai_arcs x)(ref_shard r := ai_arcs x (ref_shard r) - 1)) i = count_list (map ref_shard (remove1 r al)) i +
        (case ai_current x of None \<Rightarrow> 0 | Some (j, bs) \<Rightarrow> if i = j then 1 else 0)"
      using count_alive [OF r] by (cases "i = ref_shard r") (simp_all add: count_remove [OF r])
  qed
  moreover have "mset (remove1 r al) \<subseteq># mset ys"
    using D(5) by (metis diff_subset_eq_self mset_remove1 subset_mset.order_trans)
  ultimately show "live_ok g T tok c0 st (remove1 r al) ys op (arc_dropped (ref_shard r) x)"
    using D drop(2) by (simp add: live_ok_def)
qed

lemma drop_iter_ok:
  assumes ok: "live_ok g T tok c0 st al ys True x"
  shows "\<exists>x'. arc_drop_current g (x\<lparr>ai_current := None\<rparr>) (ai_current x) = Return x' \<and> live_ok g T tok c0 st al ys False x'"
proof -
  note D = live_okD [OF ok]
  let ?y = "x\<lparr>ai_current := None\<rparr>"
  have pre: "\<exists>zs. ys @ zs = all_refs T c0"
  proof -
    have "\<exists>zs. ys @ zs = refs_upto T c0 (ai_shard_i x)" using D(2) by (auto simp: cursor_ok_def split: option.splits)
    then show ?thesis
      using refs_upto_add [of T c0 "ai_shard_i x" "shard_count c0 - ai_shard_i x"] cursor_pos [OF D(2)]
      unfolding all_refs_def by (metis append.assoc le_add_diff_inverse)
  qed
  show ?thesis
  proof (cases "ai_current x")
    case None
    then show ?thesis using D pre by (simp add: live_ok_def cursor_ok_def arcs_ok_def locks_ok_def)
  next
    case (Some p)
    then obtain i bs where i: "ai_current x = Some (i, bs)" "i < shard_count c0"
      using D(2) by (cases p) (auto simp: cursor_ok_def)
    have a: "locks_ok g ?y" "i < shard_count (ai_cache ?y)" "0 < ai_arcs ?y i"
      using D(3,4,6) i by (auto simp: locks_ok_def arcs_ok_def)
    note drop = arc_drop_held [OF a]
    have "arcs_ok al (arc_dropped i ?y)" using D(3) i by (auto simp: arcs_ok_def)
    moreover have "cursor_ok T c0 ys False (arc_dropped i ?y)" using pre by (simp only: cursor_ok_dropped) (simp add: cursor_ok_def)
    ultimately have "live_ok g T tok c0 st al ys False (arc_dropped i ?y)" using D drop(2) by (simp add: live_ok_def)
    then show ?thesis using drop(1) i(1) by simp
  qed
qed

context shard_table
begin

lemma ref_write_tables:
  assumes i: "ref_shard r < shard_count c" and wf: "rt_wf (raw_map (shard_at c (ref_shard r)))"
    and b: "ref_bucket r \<in> set (rt_iter T (raw_map (shard_at c (ref_shard r))))"
  shows "rt_wf (raw_map (shard_at c j)) \<Longrightarrow> rt_wf (raw_map (shard_at (ref_write T c r v) j))"
    and "rt_iter T (raw_map (shard_at (ref_write T c r v) j)) = rt_iter T (raw_map (shard_at c j))"
    and "ref_pair T (ref_write T c r v) q = (if q = r then (fst (ref_pair T c r), v) else ref_pair T c q)"
proof -
  let ?t = "raw_map (shard_at c (ref_shard r))"
  obtain k e where ke: "rt_as_ref T ?t (ref_bucket r) = (k, e)" by fastforce
  have l: "ref_shard r < length (shards c)" using i by (simp add: shard_count_def)
  note w = write_bucket [OF wf b, of "(k, e\<lparr>entry_value := sv_new v\<rparr>)"]
  have at: "shard_at (ref_write T c r v) j = (if ref_shard r = j
      then (shard_at c j)\<lparr>raw_map := rt_write T ?t (ref_bucket r) (k, e\<lparr>entry_value := sv_new v\<rparr>)\<rparr> else shard_at c j)" for j
    by (simp add: ref_write_def ke shard_at_put [OF l] Let_def)
  show "rt_wf (raw_map (shard_at c j)) \<Longrightarrow> rt_wf (raw_map (shard_at (ref_write T c r v) j))"
    and "rt_iter T (raw_map (shard_at (ref_write T c r v) j)) = rt_iter T (raw_map (shard_at c j))"
    using w ke by (auto simp: at)
  have "q = r" if "ref_shard q = ref_shard r" "ref_bucket q = ref_bucket r" using that by (cases q, cases r) simp
  then show "ref_pair T (ref_write T c r v) q = (if q = r then (fst (ref_pair T c r), v) else ref_pair T c q)"
    using w ke by (auto simp: ref_pair_def at)
qed

lemma store_ok:
  assumes ok: "live_ok g T rt_wf c0 st al ys op x" and r: "r \<in> set al"
  shows "live_ok g T rt_wf c0 (st(r \<mapsto> v)) al ys op (multi_value_mut T x r (\<lambda>_. v))"
proof -
  note D = live_okD [OF ok] and A = alive_ref [OF ok r]
  have x': "multi_value_mut T x r (\<lambda>_. v) = x\<lparr>ai_cache := ref_write T (ai_cache x) r v\<rparr>"
    by (simp add: multi_value_mut_def multi_pair_mut_def split_def Let_def)
  have tab: "rt_wf (raw_map (shard_at (ai_cache x) (ref_shard r)))"
      "ref_bucket r \<in> set (rt_iter T (raw_map (shard_at (ai_cache x) (ref_shard r))))"
    using D(1,6) A(1,2) by (auto simp: tables_ok_def all_refs_def refs_upto_set)
  note w = ref_write_tables [OF A(2) tab]
  have frame: "same_config (ai_cache x) (ref_write T (ai_cache x) r v)" "lock_word (ref_write T (ai_cache x) r v) = lock_word (ai_cache x)"
    by (simp_all add: ref_write_def Let_def split_def fun_eq_iff)
  then have "tables_ok T rt_wf c0 (st(r \<mapsto> v)) (ref_write T (ai_cache x) r v)"
    using D(1) A(1) w same_config_trans by (auto simp: tables_ok_def)
  moreover have "locks_ok g (x\<lparr>ai_cache := ref_write T (ai_cache x) r v\<rparr>)"
    using D(4) frame by (simp add: locks_ok_def same_config_def)
  ultimately show ?thesis
    using D by (simp add: x' live_ok_def arcs_ok_def)
qed

lemma iteration_ok_step:
  assumes "iteration_ok g T rt_wf c0 s" and "iter_step g T s s'"
  shows "iteration_ok g T rt_wf c0 s'"
  using assms(2)
proof cases
  case (item r x)
  with assms(1) arc_next_spec [of g T rt_wf c0 "stored s" "alive s" "yielded s" "iter s"]
  show ?thesis by (auto simp: iteration_ok_def dest: arc_next_ended)
next
  case (no_item x)
  with assms(1) arc_next_spec [of g T rt_wf c0 "stored s" "alive s" "yielded s" "iter s"]
  show ?thesis by (auto simp: iteration_ok_def)
next
  case (store r v)
  with assms(1) store_ok show ?thesis by (simp add: iteration_ok_def)
next
  case (drop_ref r x)
  with assms(1) drop_ref_ok [of g T rt_wf c0 "stored s" "alive s" "yielded s" "is_open s" "iter s" r]
  show ?thesis by (auto simp: iteration_ok_def)
next
  case (drop_iter x)
  with assms(1) drop_iter_ok [of g T rt_wf c0 "stored s" "alive s" "yielded s" "iter s"]
  show ?thesis by (auto simp: iteration_ok_def)
qed

lemma iteration_ok_start:
  assumes "cache_ok T hash rt_wf c"
  shows "iteration_ok g T rt_wf c (iteration_of c)"
proof -
  have "rt_wf (raw_map (shard_at c i))" if "i < shard_count c" for i
    using assms that cache_inv_shard(1) [of T rt_wf c i]
    by (auto simp: cache_ok_def shard_inv_def table_ok_def shard_count_def)
  moreover have "lock_word c i = 0" if "i < shard_count c" for i
    using assms that by (simp add: cache_ok_def quiet_lock_word shard_count_def)
  ultimately show ?thesis
    by (simp add: iteration_ok_def iteration_of_def ArcIter_new_def live_ok_def tables_ok_def cursor_ok_def
      arcs_ok_def locks_ok_def)
qed

lemma iterates_ok: "iterates g T c s \<Longrightarrow> cache_ok T hash rt_wf c \<Longrightarrow> iteration_ok g T rt_wf c s"
  by (induction rule: iterates.induct) (simp_all add: iteration_ok_start iteration_ok_step)

lemma all_refs_distinct:
  assumes "cache_ok T hash rt_wf c"
  shows "distinct (all_refs T c)"
  unfolding all_refs_def
proof (rule refs_upto_distinct)
  fix i assume "i < shard_count c"
  then show "distinct (rt_iter T (raw_map (shard_at c i)))"
    using assms cache_inv_shard(1) [of T rt_wf c i] iter_distinct
    by (auto simp: cache_ok_def shard_inv_def table_ok_def shard_count_def)
qed

lemma yielded_prefix:
  assumes "iteration_ok g T rt_wf c s"
  shows "\<exists>zs. yielded s @ zs = all_refs T c"
proof (cases "is_open s")
  case True
  then have ok: "live_ok g T rt_wf c (stored s) (alive s) (yielded s) True (iter s)" using assms by (simp add: iteration_ok_def)
  from drop_iter_ok [OF ok] obtain x where "live_ok g T rt_wf c (stored s) (alive s) (yielded s) False x" by blast
  from live_okD(2) [OF this] show ?thesis by (auto simp: cursor_ok_def split: option.splits)
next
  case False
  then show ?thesis using assms by (auto simp: iteration_ok_def live_ok_def cursor_ok_def split: option.splits)
qed

end

end
