(* ===== verification/Shared_Iter_Properties.thy ===== *)
theory Shared_Iter_Properties
  imports Demo_Cache Shared_Iter_Inv
begin

text \<open>The properties of iterations whose references are kept and dropped in any order.\<close>

text \<open>C14:
  An iteration is right under every schedule of its steps, shared or exclusive, also when its
  references go to several threads and are kept and dropped in any order: every bucket is
  yielded at most once, so no two live references are to the same entry; when the iterator is
  exhausted, every pair of the cache has been yielded; the shard of every live reference is
  locked; every entry has its key and the value last stored through its own reference, or its
  old value; neither \<open>next\<close> nor a drop panics or blocks; and once the iterator and all
  references are gone, every lock is released.
\<close>

theorem iteration_any_schedule:
  assumes tab: "shard_table T hash tok sok" and ok: "cache_ok T hash tok c" and run: "iterates g T c s"
  shows "distinct (yielded s) \<and> mset (alive s) \<subseteq># mset (yielded s) \<and> set (yielded s) \<subseteq> set (all_refs T c) \<and>
    (ended s \<longrightarrow> map (ref_pair T c) (yielded s) = cache_pairs T c) \<and>
    (\<forall>r \<in> set (alive s). lock_word (ai_cache (iter s)) (ref_shard r) = guard_word g) \<and>
    (\<forall>r \<in> set (all_refs T c). multi_pair T (iter s) r =
       (fst (ref_pair T c r), case stored s r of None \<Rightarrow> snd (ref_pair T c r) | Some v \<Rightarrow> v)) \<and>
    (is_open s \<longrightarrow> (\<exists>r x. arc_next g T (iter s) = returns (r, x))) \<and>
    (\<forall>r \<in> set (alive s). \<exists>x. multi_drop g r (iter s) = Return x) \<and>
    (\<not> is_open s \<longrightarrow> alive s = [] \<longrightarrow> quiet (ai_cache (iter s)))"
proof -
  note it = shard_table.iterates_ok [OF tab run ok]
  then have live: "live_ok g T tok c (stored s) (alive s) (yielded s) (is_open s) (iter s)" by (simp add: iteration_ok_def)
  note D = live_okD [OF live]
  obtain zs where zs: "yielded s @ zs = all_refs T c" using shard_table.yielded_prefix [OF tab it] by blast
  have "distinct (yielded s)" "set (yielded s) \<subseteq> set (all_refs T c)"
    using shard_table.all_refs_distinct [OF tab ok] by (simp_all flip: zs)
  moreover have "ended s \<longrightarrow> map (ref_pair T c) (yielded s) = cache_pairs T c"
    using it all_refs_pairs [of T c] by (simp add: iteration_ok_def)
  moreover have "lock_word (ai_cache (iter s)) (ref_shard r) = guard_word g" if "r \<in> set (alive s)" for r
    using D(4) alive_ref(2,3) [OF live that] by (simp add: locks_ok_def)
  moreover have "multi_pair T (iter s) r = (fst (ref_pair T c r), case stored s r of None \<Rightarrow> snd (ref_pair T c r) | Some v \<Rightarrow> v)"
    if "r \<in> set (all_refs T c)" for r
    using D(1) that unfolding tables_ok_def multi_pair_def by blast
  moreover have "\<exists>r x. arc_next g T (iter s) = returns (r, x)" if "is_open s"
  proof -
    from live that have "live_ok g T tok c (stored s) (alive s) (yielded s) True (iter s)" by simp
    from arc_next_spec [OF this] show ?thesis by blast
  qed
  moreover have "\<exists>x. multi_drop g r (iter s) = Return x" if "r \<in> set (alive s)" for r
    using drop_ref_ok(1) [OF live that] by blast
  moreover have "quiet (ai_cache (iter s))" if "\<not> is_open s" "alive s = []"
    using D(2-4) that by (auto simp: quiet_lock_word locks_ok_def arcs_ok_def cursor_ok_def shard_count_def split: option.splits)
  ultimately show ?thesis using D(5) by blast
qed

text \<open>The first reference of an exclusive iteration is written through and outlives the iterator.\<close>

theorem iteration_any_schedule_witness:
  "\<exists>s r. iterates Write_guard slot_table demo_full s \<and> alive s = [r] \<and> \<not> is_open s \<and>
    lock_word (ai_cache (iter s)) (ref_shard r) = ONE_WRITER \<and> multi_value slot_table (iter s) r = ''new''"
proof -
  let ?s0 = "iteration_of demo_full :: (nat, string, (nat \<times> string CacheEntry) slots) iteration"
  note sched = iteration_any_schedule [OF slot_shard.shard_table_axioms demo_states_ok(3)]
  have "case arc_next Write_guard slot_table (ArcIter_new demo_full) of Some (Return (Some r, x)) \<Rightarrow> True | _ \<Rightarrow> False"
    by code_simp
  then obtain r x where "arc_next Write_guard slot_table (iter ?s0) = returns (Some r, x)"
    by (auto simp: iteration_of_def split: option.splits run.splits prod.splits)
  from iterates.step [OF iterates.start iter_step.item [OF _ this]]
  have 1: "iterates Write_guard slot_table demo_full (?s0\<lparr>iter := x, alive := [r], yielded := [r]\<rparr>)" (is "iterates _ _ _ ?s1")
    by (simp add: iteration_of_def)
  have r: "r \<in> set (all_refs slot_table demo_full)" using sched [OF 1] by auto
  let ?s2 = "?s1\<lparr>iter := multi_value_mut slot_table x r (\<lambda>_. ''new''), stored := [r \<mapsto> ''new'']\<rparr>"
  from iterates.step [OF 1 iter_step.store [of r ?s1 Write_guard slot_table "''new''"]]
  have 2: "iterates Write_guard slot_table demo_full ?s2" by (simp add: iteration_of_def)
  have live2: "live_ok Write_guard slot_table (st_wf demo_hash) demo_full (stored ?s2) [r] [r] True (iter ?s2)"
    using shard_table.iterates_ok [OF slot_shard.shard_table_axioms 2 demo_states_ok(3)] by (simp add: iteration_ok_def iteration_of_def)
  from drop_iter_ok [OF live2] obtain y where
    "arc_drop_current Write_guard ((iter ?s2)\<lparr>ai_current := None\<rparr>) (ai_current (iter ?s2)) = Return y" by blast
  from iterates.step [OF 2 iter_step.drop_iter [OF _ this]]
  have 3: "iterates Write_guard slot_table demo_full (?s2\<lparr>iter := y, is_open := False\<rparr>)" (is "iterates _ _ _ ?s3")
    by (simp add: iteration_of_def)
  have "multi_pair slot_table (iter ?s3) r = (fst (ref_pair slot_table demo_full r), ''new'')"
    and "lock_word (ai_cache (iter ?s3)) (ref_shard r) = ONE_WRITER"
    using sched [OF 3] r by auto
  with 3 show ?thesis by (intro exI [of _ ?s3] exI [of _ r]) (simp add: multi_value_def)
qed

end
