(* ===== verification/Freq_Protocol.thy ===== *)
theory Freq_Protocol
  imports Cache_Entry
begin

text \<open>
  \<open>CacheEntry::bump_freq\<close> of \<open>src/util.rs\<close> as several threads run it at once: readers that hold
  the shard's shared lock bump the same atomic counter. \<open>fetch_update\<close> loads the counter, asks
  the closure for the next value, gives up when there is none, and otherwise stores it with a
  weak compare-and-exchange, which fails when the counter has changed or spuriously, and then
  tries again with the value it saw. Each access of the atomic is one step; the steps of
  different threads interleave freely.
\<close>

datatype bump_pc = Bump_start | Bump_loaded u8 | Bump_done

record 'w bumping =
  freq :: u8
  bump_pcs :: "'w \<Rightarrow> bump_pc"

inductive bump_step :: "'w \<Rightarrow> 'w bumping \<Rightarrow> 'w bumping \<Rightarrow> bool" where
  load: "bump_pcs s w = Bump_start \<Longrightarrow>
    bump_step w s (s\<lparr>bump_pcs := (bump_pcs s)(w := Bump_loaded (freq s))\<rparr>)"
| give_up: "bump_pcs s w = Bump_loaded prev \<Longrightarrow> bump_fn prev = None \<Longrightarrow>
    bump_step w s (s\<lparr>bump_pcs := (bump_pcs s)(w := Bump_done)\<rparr>)"
| exchanged: "bump_pcs s w = Bump_loaded prev \<Longrightarrow> bump_fn prev = Some new \<Longrightarrow> freq s = prev \<Longrightarrow>
    bump_step w s \<lparr>freq = new, bump_pcs = (bump_pcs s)(w := Bump_done)\<rparr>"
| failed: "bump_pcs s w = Bump_loaded prev \<Longrightarrow> bump_fn prev = Some new \<Longrightarrow>
    bump_step w s (s\<lparr>bump_pcs := (bump_pcs s)(w := Bump_loaded (freq s))\<rparr>)"

definition bump_begin :: "'v CacheEntry \<Rightarrow> 'w bumping" where
  "bump_begin e = \<lparr>freq = entry_freq e, bump_pcs = (\<lambda>_. Bump_start)\<rparr>"

inductive bumps_to :: "'w bumping \<Rightarrow> 'w bumping \<Rightarrow> bool" for s where
  start: "bumps_to s s"
| step: "bumps_to s s' \<Longrightarrow> bump_step w s' s'' \<Longrightarrow> bumps_to s s''"

definition bumped :: "'w bumping \<Rightarrow> 'w set" where
  "bumped s = {w. bump_pcs s w = Bump_done}"

section \<open>The counter after some bumps\<close>

lemma unat_bump_power:
  assumes "unat (entry_freq e) \<le> 3"
  shows "unat (entry_freq ((bump_freq ^^ n) e)) = min 3 (unat (entry_freq e) + n)"
proof (induction n)
  case (Suc n)
  then show ?case using unat_bump [of "entry_freq ((bump_freq ^^ n) e)"] by (simp add: bump_freq_freq)
qed (use assms in simp)

lemma bump_fn_cases:
  "bump_fn f = Some g \<longleftrightarrow> unat f < 3 \<and> g = f + 1" "bump_fn f = None \<longleftrightarrow> 3 \<le> unat f"
  by (auto simp: bump_fn_def MAX_FREQ_def word_less_nat_alt)

text \<open>
  The invariant: the counter is the number of completed bumps, saturated; a thread's loaded
  value is at most the counter, which never decreases.
\<close>

definition bump_inv :: "nat \<Rightarrow> 'w bumping \<Rightarrow> bool" where
  "bump_inv n s \<longleftrightarrow> finite (bumped s) \<and> unat (freq s) = min 3 (n + card (bumped s)) \<and>
     (\<forall>w prev. bump_pcs s w = Bump_loaded prev \<longrightarrow> unat prev \<le> unat (freq s))"

lemma bumped_upd:
  "bumped (s\<lparr>bump_pcs := (bump_pcs s)(w := p)\<rparr>) = (if p = Bump_done then insert w (bumped s) else bumped s - {w})"
  "bumped \<lparr>freq = f, bump_pcs = (bump_pcs s)(w := Bump_done)\<rparr> = insert w (bumped s)"
  by (auto simp: bumped_def)

lemma bump_inv_step:
  assumes inv: "bump_inv n s" and "bump_step w s s'"
  shows "bump_inv n s'"
  using assms(2)
proof cases
  case load
  then have "w \<notin> bumped s" by (simp add: bumped_def)
  with load inv show ?thesis by (auto simp: bump_inv_def bumped_upd)
next
  case (give_up prev)
  then have "3 \<le> unat prev" by (simp add: bump_fn_cases)
  moreover have "unat prev \<le> unat (freq s)" using give_up(2) inv unfolding bump_inv_def by blast
  ultimately have "3 \<le> unat (freq s)" by simp
  then have "3 \<le> n + card (bumped s)" using inv by (simp add: bump_inv_def)
  moreover have "w \<notin> bumped s" using give_up by (simp add: bumped_def)
  ultimately show ?thesis using give_up inv by (auto simp: bump_inv_def bumped_upd)
next
  case (exchanged prev new)
  then have w: "w \<notin> bumped s" "unat (freq s) < 3" "new = freq s + 1" by (auto simp: bumped_def bump_fn_cases)
  then have "unat new = unat (freq s) + 1" by (simp add: unat_word_ariths)
  with w exchanged inv show ?thesis by (fastforce simp: bump_inv_def bumped_upd)
next
  case (failed prev new)
  then have "w \<notin> bumped s" by (simp add: bumped_def)
  with failed inv show ?thesis by (auto simp: bump_inv_def bumped_upd)
qed

lemma bump_inv_reachable:
  "bumps_to (bump_begin e) s \<Longrightarrow> unat (entry_freq e) \<le> 3 \<Longrightarrow> bump_inv (unat (entry_freq e)) s"
  by (induction rule: bumps_to.induct)
    (simp_all add: bump_inv_step, simp add: bump_inv_def bump_begin_def bumped_def)

text \<open>C19:
  Readers that bump the frequency of one entry at the same time do exactly what as many bumps
  one after the other do: whatever the interleaving and however often a compare-and-exchange
  fails, the counter is that of the entry bumped once per completed call, so no bump is lost
  below the limit and the counter never passes \<open>MAX_FREQ\<close>; a retry that was not spurious has
  seen a larger value, so there are at most \<open>MAX_FREQ\<close> of them.
\<close>

theorem bump_linearizable:
  assumes "unat (entry_freq e) \<le> unat MAX_FREQ" and "bumps_to (bump_begin e) s"
  shows "freq s = entry_freq ((bump_freq ^^ card (bumped s)) e) \<and> freq s \<le> MAX_FREQ \<and> finite (bumped s) \<and>
    (\<forall>w prev. bump_pcs s w = Bump_loaded prev \<longrightarrow> prev \<noteq> freq s \<longrightarrow> prev < freq s)"
proof -
  have e: "unat (entry_freq e) \<le> 3" using assms(1) by (simp add: MAX_FREQ_def)
  note inv = bump_inv_reachable [OF assms(2) e]
  have "freq s = entry_freq ((bump_freq ^^ card (bumped s)) e)"
    using inv unat_bump_power [OF e] by (simp add: bump_inv_def word_unat_eq_iff)
  moreover have "freq s \<le> MAX_FREQ" using inv by (simp add: bump_inv_def MAX_FREQ_def word_le_nat_alt)
  moreover have "prev < freq s" if "bump_pcs s w = Bump_loaded prev" "prev \<noteq> freq s" for w prev
    using inv that by (fastforce simp: bump_inv_def word_less_nat_alt word_unat_eq_iff)
  ultimately show ?thesis using inv by (simp add: bump_inv_def)
qed

text \<open>Two threads load the same value; the second one's exchange fails once.\<close>

theorem bump_linearizable_witness:
  "\<exists>s :: nat bumping. bumps_to (bump_begin (CacheEntry_new ''x'' LOC_SMALL)) s \<and> bumped s = {0, 1} \<and> freq s = 2 \<and>
    freq s = entry_freq ((bump_freq ^^ 2) (CacheEntry_new ''x'' LOC_SMALL))"
proof -
  let ?e = "CacheEntry_new ''x'' LOC_SMALL"
  let ?st = "\<lambda>f p q. \<lparr>freq = f, bump_pcs = (\<lambda>_. Bump_start)(0 := p, 1 := q)\<rparr> :: nat bumping"
  have "bumps_to (bump_begin ?e) (?st 0 Bump_start Bump_start)"
    using bumps_to.start [of "bump_begin ?e :: nat bumping"] by (simp add: bump_begin_def fun_upd_idem)
  from bumps_to.step [OF this load [where w = 0]]
  have "bumps_to (bump_begin ?e) (?st 0 (Bump_loaded 0) Bump_start)" by (simp add: fun_upd_twist)
  from bumps_to.step [OF this load [where w = 1]]
  have "bumps_to (bump_begin ?e) (?st 0 (Bump_loaded 0) (Bump_loaded 0))" by (simp add: fun_upd_twist)
  from bumps_to.step [OF this exchanged [where w = 0 and prev = 0 and new = 1]]
  have "bumps_to (bump_begin ?e) (?st 1 Bump_done (Bump_loaded 0))" by (simp add: bump_fn_def MAX_FREQ_def fun_upd_twist)
  from bumps_to.step [OF this failed [where w = 1 and prev = 0 and new = 1]]
  have "bumps_to (bump_begin ?e) (?st 1 Bump_done (Bump_loaded 1))" by (simp add: bump_fn_def MAX_FREQ_def fun_upd_twist)
  from bumps_to.step [OF this exchanged [where w = 1 and prev = 1 and new = 2]]
  have run: "bumps_to (bump_begin ?e) (?st 2 Bump_done Bump_done)" by (simp add: bump_fn_def MAX_FREQ_def fun_upd_twist)
  have b: "bumped (?st 2 Bump_done Bump_done) = {0, 1}" by (auto simp: bumped_def)
  have "freq (?st 2 Bump_done Bump_done) = entry_freq ((bump_freq ^^ card (bumped (?st 2 Bump_done Bump_done))) ?e)"
    using bump_linearizable [OF _ run] by simp
  then show ?thesis using run b by (intro exI [of _ "?st 2 Bump_done Bump_done"]) (simp add: numeral_2_eq_2)
qed

end
