(* ===== verification/Shard_Tidy.thy ===== *)
theory Shard_Tidy
  imports Shard_Ops
begin

text \<open>
  Shards from which nothing was removed by hand. The live counters of \<open>src/shard.rs\<close> are exact
  as long as entries leave a shard only by eviction or \<open>clear\<close>: then the queues hold every
  live key of their location exactly once and no stale pair, and each counter is the length of
  its queue. Removal is what breaks this (theory \<open>Counter_Drift\<close>).
\<close>

definition smalls :: "('k \<rightharpoonup> 'v CacheEntry) \<Rightarrow> 'k set" where
  "smalls m = {k. \<exists>e. m k = Some e \<and> is_small e}"

definition mains :: "('k \<rightharpoonup> 'v CacheEntry) \<Rightarrow> 'k set" where
  "mains m = {k. \<exists>e. m k = Some e \<and> is_main e}"

definition tidy :: "('k, 'v, 't) table \<Rightarrow> ('k, 't) ShardData \<Rightarrow> bool" where
  "tidy T s \<longleftrightarrow> distinct (small_keys s) \<and> distinct (main_keys s) \<and>
     set (small_keys s) = smalls (shard_map T s) \<and> set (main_keys s) = mains (shard_map T s) \<and>
     small_live s = length (small_keys s) \<and> main_live s = length (main_keys s)"

lemma smalls_mains_upd [simp]:
  "smalls (m(k \<mapsto> e)) = (if is_small e then insert k (smalls m) else smalls m - {k})"
  "mains (m(k \<mapsto> e)) = (if is_main e then insert k (mains m) else mains m - {k})"
  "smalls (m(k := None)) = smalls m - {k}" "mains (m(k := None)) = mains m - {k}"
  "smalls Map.empty = {}" "mains Map.empty = {}"
  by (auto simp: smalls_def mains_def)

lemma smalls_mains_disjoint: "k \<in> smalls m \<Longrightarrow> k \<notin> mains m"
  using not_small_and_main by (fastforce simp: smalls_def mains_def)

lemma smalls_mains_absent: "m k = None \<Longrightarrow> k \<notin> smalls m" "m k = None \<Longrightarrow> k \<notin> mains m"
  by (auto simp: smalls_def mains_def)

lemma smalls_mains_Some: "m k = Some e \<Longrightarrow> k \<in> smalls m \<longleftrightarrow> is_small e" "m k = Some e \<Longrightarrow> k \<in> mains m \<longleftrightarrow> is_main e"
  by (simp_all add: smalls_def mains_def)

text \<open>No stale pairs: what a queue yields first is its head.\<close>

lemma tidy_heads:
  assumes "tidy T s"
  shows "small_keys s = st @ k # ks \<Longrightarrow> (\<And>j. j \<in> set st \<Longrightarrow> shard_map T s j = None) \<Longrightarrow> st = []"
    and "main_keys s = st @ k # ks \<Longrightarrow> (\<And>j. j \<in> set st \<Longrightarrow> shard_map T s j = None) \<Longrightarrow> st = []"
proof -
  have live: "shard_map T s j \<noteq> None" if "j \<in> set (small_keys s) \<union> set (main_keys s)" for j
    using assms that by (auto simp: tidy_def smalls_def mains_def)
  show "st = []" if "small_keys s = st @ k # ks" "\<And>j. j \<in> set st \<Longrightarrow> shard_map T s j = None"
    using live [of "hd st"] that(2) [of "hd st"] that(1) by (cases st) auto
  show "st = []" if "main_keys s = st @ k # ks" "\<And>j. j \<in> set st \<Longrightarrow> shard_map T s j = None"
    using live [of "hd st"] that(2) [of "hd st"] that(1) by (cases st) auto
qed

section \<open>The elementary changes\<close>

lemma tidy_same_loc:
  assumes "tidy T s" and "shard_map T s k = Some e" and "shard_map T s' = (shard_map T s)(k \<mapsto> e')"
    and "entry_loc e' = entry_loc e" and "s' = s\<lparr>raw_map := t\<rparr>"
  shows "tidy T s'"
proof -
  have "is_small e' = is_small e" "is_main e' = is_main e" using assms(4) by (simp_all add: is_small_def is_main_def)
  then show ?thesis
    using assms(1,3,5) smalls_mains_Some [of "shard_map T s" k, OF assms(2)] by (auto simp: tidy_def)
qed

lemma tidy_requeue:
  assumes "tidy T s" and "main_keys s = k # ks" and "shard_map T s k = Some e"
    and "shard_map T s' = (shard_map T s)(k \<mapsto> e')" and "entry_loc e' = entry_loc e"
    and "small_keys s' = small_keys s" "small_live s' = small_live s" "main_keys s' = ks @ [k]" "main_live s' = main_live s"
  shows "tidy T s'"
proof -
  have "is_small e' = is_small e" "is_main e' = is_main e" using assms(5) by (simp_all add: is_small_def is_main_def)
  then show ?thesis
    using assms(1,2,4,6-) smalls_mains_Some [of "shard_map T s" k, OF assms(3)] by (auto simp: tidy_def)
qed

lemma tidy_drop_main:
  assumes "tidy T s" and "main_keys s = k # ks" and "shard_map T s' = (shard_map T s)(k := None)"
    and "small_keys s' = small_keys s" "small_live s' = small_live s" "main_keys s' = ks" "main_live s' = main_live s - 1"
  shows "tidy T s'"
proof -
  have "k \<notin> smalls (shard_map T s)"
    using assms(1,2) smalls_mains_disjoint [of k "shard_map T s"] by (auto simp: tidy_def)
  then show ?thesis using assms by (auto simp: tidy_def)
qed

lemma tidy_drop_small:
  assumes "tidy T s" and "small_keys s = k # ks" and "shard_map T s' = (shard_map T s)(k := None)"
    and "small_keys s' = ks" "small_live s' = small_live s - 1" "main_keys s' = main_keys s" "main_live s' = main_live s"
  shows "tidy T s'"
proof -
  have "k \<notin> mains (shard_map T s)"
    using assms(1,2) smalls_mains_disjoint [of k "shard_map T s"] by (auto simp: tidy_def)
  then show ?thesis using assms by (auto simp: tidy_def)
qed

lemma tidy_promote:
  assumes "tidy T s" and "small_keys s = k # ks" and "shard_map T s' = (shard_map T s)(k \<mapsto> e)" "is_main e"
    and "small_keys s' = ks" "small_live s' = small_live s - 1" "main_keys s' = main_keys s @ [k]" "main_live s' = main_live s + 1"
  shows "tidy T s'"
proof -
  have "k \<notin> mains (shard_map T s)"
    using assms(1,2) smalls_mains_disjoint [of k "shard_map T s"] by (auto simp: tidy_def)
  then show ?thesis using assms not_small_and_main [of e] by (auto simp: tidy_def)
qed

lemma tidy_enqueue:
  assumes "tidy T s" and "shard_map T s k = None" and "l = LOC_SMALL \<or> l = LOC_MAIN"
    and "rt_lookup T t = (shard_map T s)(k \<mapsto> CacheEntry_new v l)"
    and "enqueue l h k (s\<lparr>raw_map := t\<rparr>) = Return s'"
  shows "tidy T s'"
proof -
  have m: "shard_map T s' = (shard_map T s)(k \<mapsto> CacheEntry_new v l)"
    using assms(3-5) by (auto simp: shard_map_def enqueue_def usize_add_def split: if_splits)
  show ?thesis
    using assms(1,3,5) smalls_mains_absent [of "shard_map T s" k, OF assms(2)]
    by (auto simp: tidy_def m enqueue_def usize_add_def split: if_splits)
qed

section \<open>Eviction keeps a shard tidy\<close>

context shard_table
begin

lemma tidy_evict_from_main:
  assumes "shard_inv T hash rt_wf s" and "tidy T s" and "0 < shard_cap s" and "small_live s < small_cap s"
    and "live s = shard_cap s" and "evict_from_main T s = returns s'"
  shows "tidy T s'"
  using assms
proof (induction "freq_sum (shard_map T s)" arbitrary: s rule: less_induct)
  case less
  note full = less.prems(3-5)
  from less.prems(1) full show ?case
  proof (cases rule: evict_from_main_cases)
    case (requeue st k e ks s1)
    have "main_keys s = k # ks" using requeue(1) tidy_heads(2) [OF less.prems(2) requeue(1,2)] by simp
    from tidy_requeue [OF less.prems(2) this requeue(3,7)] requeue(8-10) have "tidy T s1"
      by (simp add: main_frame_def)
    with requeue(5,6,12) less.prems(6) main_frame_full [OF requeue(10,9) full] show ?thesis
      by (intro less.hyps [of s1]) simp_all
  next
    case (evict st k e ks s1)
    have "main_keys s = k # ks" using evict(1) tidy_heads(2) [OF less.prems(2) evict(1,2)] by simp
    from tidy_drop_main [OF less.prems(2) this evict(7)] evict(8-10) have "tidy T s1"
      by (simp add: main_frame_def)
    with evict(5) less.prems(6) show ?thesis by simp
  qed
qed

lemma tidy_evict_from_small:
  assumes "shard_inv T hash rt_wf s" and td: "tidy T s" and "0 < shard_cap s" and "small_cap s \<le> small_live s"
    and ev: "evict_from_small T s = returns s'"
  shows "tidy T s'"
  using assms(1,3,4)
proof (cases rule: evict_from_small_cases)
  case (promote st k e ks s1)
  have "small_keys s = k # ks" using promote(1) tidy_heads(1) [OF td promote(1,2)] by simp
  from tidy_promote [OF td this promote(7)] promote(8-11) have "tidy T s1" by simp
  with promote(5) ev show ?thesis by simp
next
  case (evict st k e ks s1)
  have "small_keys s = k # ks" using evict(1) tidy_heads(1) [OF td evict(1,2)] by simp
  from tidy_drop_small [OF td this evict(7)] evict(8-11) have "tidy T s1" by simp
  with evict(5) ev show ?thesis by simp
qed

lemma tidy_evict_one:
  assumes "shard_inv T hash rt_wf s" and "tidy T s" and "0 < shard_cap s" and "live s = shard_cap s"
    and "evict_one T s = returns s'"
  shows "tidy T s'"
  using tidy_evict_from_main [OF assms(1-3) _ assms(4)] tidy_evict_from_small [OF assms(1-3)] assms(5)
  by (simp add: evict_one_def split: if_splits)

lemma tidy_evict_while_full:
  assumes "shard_inv T hash rt_wf s" and "tidy T s" and "evict_while_full T s = returns s'"
  shows "tidy T s'"
  using assms
proof (induction "small_live s" arbitrary: s rule: less_induct)
  case less
  note inv = less.prems(1)
  show ?case
  proof (cases "shard_cap s = 0 \<or> live s < shard_cap s")
    case True
    then show ?thesis using evict_while_full_idle [OF inv] less.prems(2,3) by simp
  next
    case False
    then have full: "0 < shard_cap s" "live s = shard_cap s"
      using inv by (auto simp: shard_inv_def counts_ok_def)
    obtain s1 where one: "evict_one T s = returns s1" "shard_inv T hash rt_wf s1" "same_caps s s1"
        "live s1 + 1 = live s \<or> live s1 = live s \<and> small_live s1 < small_live s"
      using evict_one_total [OF inv full] by metis
    have td: "tidy T s1" by (rule tidy_evict_one [OF inv less.prems(2) full one(1)])
    have step: "evict_while_full T s1 = returns s'"
      using less.prems(3) full total_live_Return [OF inv full(1)] one(1) by (simp add: evict_while_full.simps [of T s])
    from one(4) show ?thesis
    proof
      assume "live s1 + 1 = live s"
      then have "evict_while_full T s1 = returns s1"
        using full one(2,3) by (intro evict_while_full_idle) (auto simp: same_caps_def)
      with step td show ?thesis by simp
    next
      assume "live s1 = live s \<and> small_live s1 < small_live s"
      then show ?thesis using less.hyps [OF _ one(2) td step] by blast
    qed
  qed
qed

section \<open>Insertion, lookup and clear keep a shard tidy\<close>

lemma tidy_rehash:
  assumes "tidy T s" and "rt_lookup T t = shard_map T s"
  shows "tidy T (s\<lparr>raw_map := t\<rparr>)"
  using assms by (simp add: tidy_def shard_map_def)

lemma tidy_insert_new:
  assumes inv: "shard_inv T hash rt_wf s" and td: "tidy T s" and absent: "shard_map T s k = None"
    and slot: "slot_ok (raw_map s) (hash k) slot" and ins: "insert_new T (hash k) k slot v s = returns (b, s')"
  shows "tidy T s'"
proof -
  obtain hit s0 where g: "ghost_remove (hash k) s = (hit, s0)" by fastforce
  note g0 = ghost_remove_inv [OF inv g]
  define l where "l = (if hit then LOC_MAIN else LOC_SMALL)"
  have td0: "tidy T s0" using td g by (auto simp: tidy_def ghost_remove_def shard_map_def)
  obtain s1 where e: "evict_while_full T s0 = returns s1"
    using ins by (auto simp: insert_new_def g comp_bind_returns_iff Let_def)
  obtain b' t where t: "rt_insert_in_slot T (raw_map s1) (hash k) slot (k, CacheEntry_new v l) = (b', t)" by fastforce
  have q: "enqueue l (hash k) k (s1\<lparr>raw_map := t\<rparr>) = Return s'"
    using ins e t by (auto simp: insert_new_def g comp_bind_returns_iff Let_def l_def)
  have s1: "shard_inv T hash rt_wf s1 \<and> keeps_slots slot_ok s0 s1 \<and> (\<forall>j. shard_vals T s0 j = None \<longrightarrow> shard_vals T s1 j = None)"
    using evict_for_insert [OF g0(1)] e by (auto split: option.splits)
  have absent1: "shard_map T s1 k = None"
    using s1 absent g0(6) by (auto simp: shard_vals_def)
  have "slot_ok (raw_map s1) (hash k) slot" using s1 slot g0(3) by (simp add: keeps_slots_def)
  note i = insert_lookup [OF inv_tab(1,2) [OF s1 [THEN conjunct1]] absent1 [unfolded shard_map_def] this t]
  show ?thesis
    by (rule tidy_enqueue [OF tidy_evict_while_full [OF g0(1) td0 e] absent1 _ _ q])
      (use i(3) in \<open>auto simp: l_def shard_map_def\<close>)
qed

lemma tidy_insert_locked:
  assumes inv: "shard_inv T hash rt_wf s" and td: "tidy T s" and ins: "insert_locked T hash k v s = returns (r, s')"
  shows "tidy T s'"
proof -
  obtain r0 t where f: "rt_find_or_find_insert_slot T (raw_map s) (hash k) (key_eq k) (elem_hash hash) = (r0, t)"
    by fastforce
  note wf = inv_tab(1,2) [OF inv]
  note f' = find_or_slot_lookup [OF wf f]
  have inv1: "shard_inv T hash rt_wf (s\<lparr>raw_map := t\<rparr>)"
    using inv f' by (intro shard_inv_rehash) (simp_all add: shard_map_def)
  have td1: "tidy T (s\<lparr>raw_map := t\<rparr>)" using td f'(3) by (intro tidy_rehash) (simp_all add: shard_map_def)
  show ?thesis
  proof (cases r0)
    case (Ok b)
    obtain e where b: "b \<in> set (rt_iter T t)" "rt_as_ref T t b = (k, e)" "rt_lookup T (raw_map s) k = Some e"
      using find_or_slot_Ok_lookup [OF wf f [unfolded Ok]] by blast
    have s': "s' = s\<lparr>raw_map := rt_write T t b (k, e\<lparr>entry_value := sv_new v\<rparr>)\<rparr>"
      using ins f Ok b(2) by (simp add: insert_locked_def)
    have m: "shard_map T s' = (shard_map T (s\<lparr>raw_map := t\<rparr>))(k \<mapsto> e\<lparr>entry_value := sv_new v\<rparr>)"
      by (rule shard_write(2) [OF inv_tab(3) [OF inv1]]) (use b in \<open>simp_all add: s'\<close>)
    show ?thesis
      by (rule tidy_same_loc [OF td1 _ m]) (use b(3) f'(3) in \<open>simp_all add: s' shard_map_def\<close>)
  next
    case (Err slot)
    have slot: "slot_ok t (hash k) slot" "rt_lookup T (raw_map s) k = None"
      using find_or_slot_Err_lookup [OF wf f [unfolded Err]] by simp_all
    obtain b where "insert_new T (hash k) k slot v (s\<lparr>raw_map := t\<rparr>) = returns (b, s')"
      using ins f Err by (auto simp: insert_locked_def comp_bind_returns_iff)
    then show ?thesis
      using tidy_insert_new [OF inv1 td1 _ _ _ , of k slot v b s'] slot f'(3) by (simp add: shard_map_def)
  qed
qed

lemma tidy_get_locked:
  assumes inv: "shard_inv T hash rt_wf s" and td: "tidy T s" and get: "get_locked T hash k s = (b, s')"
  shows "tidy T s'"
proof (cases "rt_find T (raw_map s) (hash k) (key_eq k)")
  case None
  then show ?thesis using td get by (simp add: get_locked_def)
next
  case (Some p)
  obtain e where e: "p \<in> set (rt_iter T (raw_map s))" "rt_as_ref T (raw_map s) p = (k, e)" "shard_map T s k = Some e"
    using find_key_Some [OF inv_tab(1,2) [OF inv] Some] by (auto simp: shard_map_def)
  have s': "s' = s\<lparr>raw_map := rt_write T (raw_map s) p (k, bump_freq e)\<rparr>"
    using get Some e(2) by (simp add: get_locked_def)
  have m: "shard_map T s' = (shard_map T s)(k \<mapsto> bump_freq e)"
    by (rule shard_write(2) [OF inv_tab(3) [OF inv] e(1,2)]) (simp add: s')
  show ?thesis by (rule tidy_same_loc [OF td e(3) m _ s']) simp
qed

end

lemma tidy_empty: "shard_map T s = Map.empty \<Longrightarrow> small_keys s = [] \<Longrightarrow> main_keys s = [] \<Longrightarrow>
    small_live s = 0 \<Longrightarrow> main_live s = 0 \<Longrightarrow> tidy T s"
  by (simp add: tidy_def)

lemma tidy_counts:
  assumes "tidy T s"
  shows "small_live s = n_small T s" and "main_live s = n_main T s"
  using assms distinct_card [of "small_keys s"] distinct_card [of "main_keys s"]
  by (simp_all add: tidy_def n_small_def n_main_def count_where_def smalls_def mains_def)

end
