(* ===== verification/Counter_Exact.thy ===== *)
theory Counter_Exact
  imports Shard_Calls Shard_Tidy
begin

text \<open>
  The live counters of a cache that is used without removal. From construction on, any run
  of insertions, lookups and clears keeps every shard tidy in the sense of theory
  \<open>Shard_Tidy\<close>; so the drift of theory \<open>Counter_Drift\<close> needs a removal.
\<close>

definition cache_tidy :: "('k, 'v, 't) table \<Rightarrow> ('k, 't) NeoCache \<Rightarrow> bool" where
  "cache_tidy T c \<longleftrightarrow> (\<forall>i < shard_count c. tidy T (shard_at c i))"

fun removes :: "('k, 'v) cache_op \<Rightarrow> bool" where
  "removes (Op_remove k) = True"
| "removes op = False"

lemma cache_tidy_put:
  "cache_tidy T c \<Longrightarrow> tidy T s \<Longrightarrow> i < length (shards c) \<Longrightarrow> cache_tidy T (put_shard c i s)"
  by (simp add: cache_tidy_def shard_at_put shard_count_def)

context shard_table
begin

lemma tidy_clear:
  assumes ok: "cache_ok T hash rt_wf c" and clr: "nc_clear T c = returns (u, c')"
  shows "cache_tidy T c'"
proof -
  let ?ss = "map (clear_all T) (shard_list c)"
  have "nc_clear T c = returns ((), with_shards c ?ss)"
    using each_shard_write [OF cache_okD(3) [OF ok], of "\<lambda>a s. ((), clear_all T s)" "()"]
    by (simp add: nc_clear_def shards_fold_unit)
  with clr have c': "c' = with_shards c ?ss" by simp
  have "tidy T (clear_all T s)" if "s \<in> set (shard_list c)" for s
    using clear_all_spec(3) [OF in_shard_list [OF ok that]] by (intro tidy_empty) (simp_all add: clear_all_def)
  then show ?thesis by (simp add: cache_tidy_def c' shard_at_with)
qed

lemma tidy_step:
  assumes ok: "cache_ok T hash rt_wf c" and td: "cache_tidy T c" and op: "\<not> removes op"
    and st: "nc_step T op c = returns (r, c')"
  shows "cache_tidy T c'"
proof (cases op)
  case (Op_insert k v)
  have i: "key_shard c k < length (shards c)" by (rule home_okD(1) [OF ok])
  note inv = home_okD(2) [OF ok, of k, unfolded home_def] and h = cache_okD [OF ok]
  have "comp_bind (insert_locked T hash k v (shard_at c (key_shard c k)))
      (\<lambda>(r, s). returns (r, put_shard c (key_shard c k) s)) = returns (r, c')"
    using st Op_insert h(1) by (simp add: nc_insert_def key_shard_eq with_write_quiet [OF h(3) i])
  then obtain s' where s': "insert_locked T hash k v (shard_at c (key_shard c k)) = returns (r, s')"
      "c' = put_shard c (key_shard c k) s'"
    by (auto simp: comp_bind_returns_iff)
  have "tidy T s'"
    using tidy_insert_locked [OF inv _ s'(1)] td i by (simp add: cache_tidy_def shard_count_def)
  then show ?thesis unfolding s'(2) by (rule cache_tidy_put [OF td _ i])
next
  case (Op_lookup k)
  have i: "key_shard c k < length (shards c)" by (rule home_okD(1) [OF ok])
  note inv = home_okD(2) [OF ok, of k, unfolded home_def] and h = cache_okD [OF ok]
  obtain b s' where g: "get_locked T hash k (shard_at c (key_shard c k)) = (b, s')" by fastforce
  have c': "c' = put_shard c (key_shard c k) s'"
    using lookup_section [OF h(3) i, of T] st Op_lookup g h(1) by (simp add: run_section_def)
  have "tidy T s'"
    using tidy_get_locked [OF inv _ g] td i by (simp add: cache_tidy_def shard_count_def)
  then show ?thesis unfolding c' by (rule cache_tidy_put [OF td _ i])
next
  case Op_clear
  with st obtain u where "nc_clear T c = returns (u, c')" by (auto simp: comp_bind_returns_iff)
  then show ?thesis by (rule tidy_clear [OF ok])
qed (use op in simp)

lemma tidy_run:
  assumes "cache_ok T hash rt_wf c" and "cache_tidy T c" and "nc_room T (length ops) c" and "\<forall>op \<in> set ops. \<not> removes op"
    and "comp_run (nc_step T) ops c = returns (rs, c')"
  shows "cache_tidy T c' \<and> cache_ok T hash rt_wf c'"
  using assms
proof (induction ops arbitrary: c rs)
  case (Cons op ops)
  from Cons.prems(5) obtain r c1 rs' where st: "nc_step T op c = returns (r, c1)" "comp_run (nc_step T) ops c1 = returns (rs', c')"
    by (auto simp: comp_bind_returns_iff)
  have "nc_room T (Suc (length ops)) c" using Cons.prems(3) by simp
  from nc_step_returns [OF Cons.prems(1) this, of op] st(1)
  have "cache_ok T hash rt_wf c1" "nc_room T (length ops) c1" by auto
  moreover have "cache_tidy T c1" using tidy_step [OF Cons.prems(1,2) _ st(1)] Cons.prems(4) by simp
  ultimately show ?case using Cons.IH [OF _ _ _ _ st(2)] Cons.prems(4) by simp
qed simp

lemma tidy_constructed:
  assumes "cap \<le> usize_max" and "1 < n" and "is_power_of_two n" and "n \<le> usize_max"
    and "with_capacity_and_hasher_and_shard_amount T cap hash n = Return c"
  shows "cache_tidy T c"
proof -
  obtain b where "with_capacity_and_hasher_and_shard_amount T cap hash n = Return \<lparr>shift = 64 - b,
       shards = map (\<lambda>_. \<lparr>rw_state = 0, rw_data = ShardData_new T 0 (per_shard_cap cap (2 ^ b))\<rparr>) [0..<2 ^ b],
       hasher = hash, cache_capacity = cap\<rparr>"
    by (rule constructor_Return [OF assms(1-4)])
  moreover have "tidy T (ShardData_new T 0 x)" for x
    by (rule tidy_empty [OF new_shard_empty]) (simp_all add: ShardData_new_def split_beta)
  ultimately show ?thesis using assms(5) by (auto simp: cache_tidy_def shard_count_def shard_at_def)
qed

lemma located:
  "shard_inv T hash rt_wf s \<Longrightarrow> shard_map T s k = Some e \<Longrightarrow> is_small e \<or> is_main e"
  by (auto simp: shard_inv_def queues_ok_def entry_ok_def)

text \<open>In a tidy shard the counters are the numbers of live entries.\<close>

lemma tidy_live:
  assumes "shard_inv T hash rt_wf s" and "tidy T s"
  shows "live s = shard_len T s"
  using tidy_counts [OF assms(2)] entries_split [OF assms(1)] shard_len_card [OF assms(1)] by (simp add: live_def)

end

text \<open>C20:
  Without removals the live counters are exact: after any run of insertions, lookups and clears
  on a new cache, bounded or not (an unbounded one must not get more than \<open>usize::MAX\<close> calls), in every shard \<open>small_live\<close> and \<open>main_live\<close> are the numbers of live entries of
  the two queues and add up to the shard's length, and the queues hold each live key once and
  nothing else. So a new key evicts an entry exactly when its shard really is full.
\<close>

theorem counters_exact_without_removal:
  assumes tab: "shard_table T hash tok sok"
    and new: "with_capacity_and_hasher_and_shard_amount T cap hash n = Return c"
    and args: "cap \<le> usize_max" "n \<le> usize_max" and few: "cap = 0 \<longrightarrow> length ops \<le> usize_max"
    and ops: "\<forall>op \<in> set ops. \<not> removes op"
    and run: "comp_run (nc_step T) ops c = returns (rs, c')" and i: "i < shard_count c'"
  shows "small_live (shard_at c' i) = n_small T (shard_at c' i) \<and> main_live (shard_at c' i) = n_main T (shard_at c' i) \<and>
    small_live (shard_at c' i) + main_live (shard_at c' i) = shard_len T (shard_at c' i) \<and>
    distinct (small_keys (shard_at c' i) @ main_keys (shard_at c' i)) \<and>
    set (small_keys (shard_at c' i) @ main_keys (shard_at c' i)) = dom (shard_map T (shard_at c' i))"
proof -
  have n: "1 < n" "is_power_of_two n"
    using new by (auto simp: with_capacity_and_hasher_and_shard_amount_def split: if_splits)
  have ok: "cache_ok T hash tok c" "cache_capacity c = cap" "cache_vals T c = Map.empty"
    using shard_table.constructor_ok [OF tab args(1) n args(2)] new by (metis run.inject(1))+
  have room: "nc_room T (length ops) c" using ok(2,3) few by (simp add: nc_room_def)
  note td = shard_table.tidy_constructed [OF tab args(1) n args(2) new]
  note fin = shard_table.tidy_run [OF tab ok(1) td room ops run]
  let ?s = "shard_at c' i"
  have td': "tidy T ?s" using fin i by (simp add: cache_tidy_def)
  have inv: "shard_inv T hash tok ?s" by (rule shard_table.cache_ok_shard(1) [OF tab _ i]) (use fin in simp)
  have "distinct (small_keys ?s @ main_keys ?s)"
    using td' smalls_mains_disjoint [of _ "shard_map T ?s"] by (auto simp: tidy_def)
  moreover have "set (small_keys ?s @ main_keys ?s) = dom (shard_map T ?s)"
    using td' by (auto simp: tidy_def smalls_def mains_def dest: shard_table.located [OF tab inv])
  ultimately show ?thesis
    using tidy_counts [OF td'] shard_table.tidy_live [OF tab inv td'] by (simp add: live_def)
qed

theorem counters_exact_without_removal_witness:
  "\<exists>rs c'. comp_run (nc_step slot_table) [Op_insert 1 ''a'', Op_lookup 1, Op_insert 2 ''b'', Op_insert 3 ''c''] demo_unbounded =
      returns (rs, c') \<and>
    small_live (shard_at c' 0) + main_live (shard_at c' 0) = shard_len slot_table (shard_at c' 0)"
proof -
  let ?ops = "[Op_insert 1 ''a'', Op_lookup 1, Op_insert 2 ''b'', Op_insert 3 ''c''] :: (nat, string) cache_op list"
  have cap: "(0::nat) \<le> usize_max" "(2::nat) \<le> usize_max" "(0::nat) = 0 \<longrightarrow> length ?ops \<le> usize_max"
    by (simp_all add: usize_max_def)
  have new: "with_capacity_and_hasher_and_shard_amount slot_table 0 demo_hash 2 = Return demo_unbounded"
  proof -
    obtain d :: demo_cache where "with_capacity_and_hasher_and_shard_amount slot_table 0 demo_hash 2 = Return d"
      using slot_shard.constructor_ok [OF cap(1) _ demo_amount cap(2), of demo_hash thesis] by fastforce
    then show ?thesis by (simp add: demo_unbounded_def)
  qed
  have "nc_room slot_table (length ?ops) demo_unbounded"
    using demo_unbounded_ok(2) by (simp add: nc_room_def usize_max_def)
  from slot_shard.client_run_agrees [OF demo_states_ok(4) this map_le_refl]
  obtain rs c' where run: "comp_run (nc_step slot_table) ?ops demo_unbounded = returns (rs, c')" "demo_ok c'" by blast
  have "0 < shard_count c'" using slot_shard.home_okD(1) [OF run(2)] by (fastforce simp: shard_count_def)
  from counters_exact_without_removal [OF slot_shard.shard_table_axioms new cap _ run(1) this] run(1)
  show ?thesis by auto
qed

end
