(* ===== verification/Scan_Resistance.thy ===== *)
theory Scan_Resistance
  imports Counter_Exact
begin

text \<open>
  What the S3-FIFO policy of \<open>src/shard.rs\<close> is for: a scan over many new keys does not push out
  the keys that are in use. A key is hot if it is in the main queue or was read since it came
  into the small queue. As long as a shard does not have more hot keys than its main queue is
  meant for, an insertion of a key that the ghost set does not know evicts a key that is not hot.
\<close>

definition hot :: "('k \<rightharpoonup> 'v CacheEntry) \<Rightarrow> 'k set" where
  "hot m = {k. \<exists>e. m k = Some e \<and> (is_main e \<or> 0 < entry_freq e)}"

definition hot_fits :: "('k, 'v, 't) table \<Rightarrow> ('k, 't) ShardData \<Rightarrow> bool" where
  "hot_fits T s \<longleftrightarrow> finite (hot (shard_map T s)) \<and> card (hot (shard_map T s)) + small_cap s \<le> shard_cap s"

text \<open>What eviction (\<open>K = {}\<close>) and insertion (\<open>K\<close> the new key) keep of a shard.\<close>

definition hot_kept :: "('k, 'v, 't) table \<Rightarrow> ('k \<Rightarrow> u64) \<Rightarrow> 'k set \<Rightarrow> ('k, 't) ShardData \<Rightarrow> ('k, 't) ShardData \<Rightarrow> bool" where
  "hot_kept T hash K s s' \<longleftrightarrow> hot (shard_map T s') = hot (shard_map T s) \<and>
     (\<forall>k \<in> hot (shard_map T s). shard_vals T s' k = shard_vals T s k) \<and> same_caps s s' \<and>
     dom (shard_map T s') \<subseteq> K \<union> dom (shard_map T s) \<and> ghost_set s' \<subseteq> ghost_set s \<union> hash ` dom (shard_map T s)"

lemma hot_upd [simp]:
  "hot (m(k \<mapsto> e)) = (if is_main e \<or> 0 < entry_freq e then insert k (hot m) else hot m - {k})"
  "hot (m(k := None)) = hot m - {k}"
  by (auto simp: hot_def)

lemma mains_hot: "mains m \<subseteq> hot m"
  by (auto simp: mains_def hot_def)

lemma hot_kept_refl: "hot_kept T hash K s s"
  by (auto simp: hot_kept_def same_caps_def)

lemma hot_kept_trans:
  assumes "hot_kept T hash {} s s1" and "hot_kept T hash K s1 s2"
  shows "hot_kept T hash K s s2"
proof -
  have "hash ` dom (shard_map T s1) \<subseteq> hash ` dom (shard_map T s)" using assms(1) by (intro image_mono) (simp add: hot_kept_def)
  moreover have "dom (shard_map T s2) \<subseteq> K \<union> dom (shard_map T s)" using assms unfolding hot_kept_def by blast
  ultimately have "ghost_set s2 \<subseteq> ghost_set s \<union> hash ` dom (shard_map T s)" "dom (shard_map T s2) \<subseteq> K \<union> dom (shard_map T s)"
    using assms unfolding hot_kept_def by blast+
  then show ?thesis using assms by (simp add: hot_kept_def same_caps_def)
qed

lemma hot_kept_fits: "hot_kept T hash K s s' \<Longrightarrow> hot_fits T s \<Longrightarrow> hot_fits T s'"
  by (simp add: hot_kept_def hot_fits_def same_caps_def)

context shard_table
begin

text \<open>With room for the hot keys, a full shard evicts from the small queue.\<close>

lemma hot_evict_one:
  assumes inv: "shard_inv T hash rt_wf s" and td: "tidy T s" and full: "0 < shard_cap s" "live s = shard_cap s"
    and fits: "hot_fits T s" and ev: "evict_one T s = returns s'"
  shows "hot_kept T hash {} s s'"
proof -
  have "card (mains (shard_map T s)) \<le> card (hot (shard_map T s))"
    using fits by (intro card_mono mains_hot) (simp add: hot_fits_def)
  moreover have "main_live s = card (mains (shard_map T s))"
    using td distinct_card [of "main_keys s"] by (simp add: tidy_def)
  ultimately have small: "small_cap s \<le> small_live s" using fits full(2) by (simp add: hot_fits_def live_def)
  from inv full(1) small show ?thesis
  proof (cases rule: evict_from_small_cases)
    case (promote st k e ks s1)
    have s': "s' = s1" using ev small promote(5) by (simp add: evict_one_def)
    have "k \<in> hot (shard_map T s)" using promote(3,4) by (auto simp: hot_def)
    moreover have "is_main (e\<lparr>entry_loc := LOC_MAIN\<rparr>)" by (simp add: is_main_def)
    ultimately show ?thesis
      using promote(3,7,12,13) by (auto simp: hot_kept_def s' shard_vals_def insert_absorb)
  next
    case (evict st k e ks s1)
    have s': "s' = s1" using ev small evict(5) by (simp add: evict_one_def)
    have "k \<in> smalls (shard_map T s)" using td evict(1) by (auto simp: tidy_def)
    then have "\<not> is_main e" using evict(3) not_small_and_main by (auto simp: smalls_def)
    then have "k \<notin> hot (shard_map T s)" using evict(3,4) by (simp add: hot_def)
    then show ?thesis
      using evict(3,7,13,15) by (auto simp: hot_kept_def s' shard_vals_def)
  qed
qed

lemma hot_evict_while_full:
  assumes "shard_inv T hash rt_wf s" and "tidy T s" and "hot_fits T s" and "evict_while_full T s = returns s'"
  shows "hot_kept T hash {} s s'"
  using assms
proof (induction "small_live s" arbitrary: s rule: less_induct)
  case less
  note inv = less.prems(1)
  show ?case
  proof (cases "shard_cap s = 0 \<or> live s < shard_cap s")
    case True
    then show ?thesis using evict_while_full_idle [OF inv] less.prems(4) by (simp add: hot_kept_refl)
  next
    case False
    then have full: "0 < shard_cap s" "live s = shard_cap s"
      using inv by (auto simp: shard_inv_def counts_ok_def)
    obtain s1 where one: "evict_one T s = returns s1" "shard_inv T hash rt_wf s1" "same_caps s s1"
        "live s1 + 1 = live s \<or> live s1 = live s \<and> small_live s1 < small_live s"
      using evict_one_total [OF inv full] by metis
    have step: "evict_while_full T s1 = returns s'"
      using less.prems(4) full total_live_Return [OF inv full(1)] one(1) by (simp add: evict_while_full.simps [of T s])
    note kept = hot_evict_one [OF inv less.prems(2) full less.prems(3) one(1)]
    from one(4) show ?thesis
    proof
      assume "live s1 + 1 = live s"
      then have "evict_while_full T s1 = returns s1"
        using full one(2,3) by (intro evict_while_full_idle) (auto simp: same_caps_def)
      with step kept show ?thesis by simp
    next
      assume "live s1 = live s \<and> small_live s1 < small_live s"
      then show ?thesis
        using less.hyps [OF _ one(2) tidy_evict_one [OF inv less.prems(2) full one(1)] hot_kept_fits [OF kept less.prems(3)] step]
          hot_kept_trans [OF kept] by blast
    qed
  qed
qed

text \<open>The insertion of a key that the ghost set does not know.\<close>

lemma hot_insert_new:
  assumes inv: "shard_inv T hash rt_wf s" and td: "tidy T s" and fits: "hot_fits T s" and absent: "shard_map T s k = None"
    and cold: "hash k \<notin> ghost_set s" and slot: "slot_ok (raw_map s) (hash k) slot"
    and ins: "insert_new T (hash k) k slot v s = returns (b, s')"
  shows "hot_kept T hash {k} s s'"
proof -
  obtain hit s0 where g: "ghost_remove (hash k) s = (hit, s0)" by fastforce
  note g0 = ghost_remove_inv [OF inv g]
  have s0: "s0 = s" "\<not> hit" using g cold by (auto simp: ghost_remove_def)
  obtain s1 where e: "evict_while_full T s = returns s1"
    using ins by (auto simp: insert_new_def g s0 comp_bind_returns_iff Let_def)
  let ?e = "CacheEntry_new v LOC_SMALL"
  obtain b' t where t: "rt_insert_in_slot T (raw_map s1) (hash k) slot (k, ?e) = (b', t)" by fastforce
  have q: "enqueue LOC_SMALL (hash k) k (s1\<lparr>raw_map := t\<rparr>) = Return s'"
    using ins e t by (auto simp: insert_new_def g s0 comp_bind_returns_iff Let_def)
  have s1: "shard_inv T hash rt_wf s1 \<and> keeps_slots slot_ok s s1 \<and> (\<forall>j. shard_vals T s j = None \<longrightarrow> shard_vals T s1 j = None)"
    using evict_for_insert [OF inv] e by (auto split: option.splits)
  have absent1: "shard_map T s1 k = None" using s1 absent by (auto simp: shard_vals_def)
  have "slot_ok (raw_map s1) (hash k) slot" using s1 slot by (simp add: keeps_slots_def)
  note i = insert_lookup [OF inv_tab(1,2) [OF s1 [THEN conjunct1]] absent1 [unfolded shard_map_def] this t]
  have m: "shard_map T s' = (shard_map T s1)(k \<mapsto> ?e)" "ghost_set s' = ghost_set s1" "same_caps s1 s'"
    using q i(3) by (auto simp: enqueue_def usize_add_def shard_map_def same_caps_def split: if_splits)
  have "k \<notin> hot (shard_map T s1)" using absent1 by (simp add: hot_def)
  moreover have "\<not> is_main ?e" "entry_freq ?e = 0" by (simp_all add: is_main_def CacheEntry_new_def)
  ultimately have "hot_kept T hash {k} s1 s'" using m by (auto simp: hot_kept_def shard_vals_def)
  with hot_evict_while_full [OF inv td fits e] show ?thesis by (rule hot_kept_trans)
qed

lemma hot_insert_locked:
  assumes inv: "shard_inv T hash rt_wf s" and td: "tidy T s" and fits: "hot_fits T s" and absent: "shard_map T s k = None"
    and cold: "hash k \<notin> ghost_set s" and ins: "insert_locked T hash k v s = returns (r, s')"
  shows "hot_kept T hash {k} s s'"
proof -
  obtain r0 t where f: "rt_find_or_find_insert_slot T (raw_map s) (hash k) (key_eq k) (elem_hash hash) = (r0, t)"
    by fastforce
  note wf = inv_tab(1,2) [OF inv]
  note f' = find_or_slot_lookup [OF wf f]
  have m: "shard_map T (s\<lparr>raw_map := t\<rparr>) = shard_map T s" using f'(3) by (simp add: shard_map_def)
  have inv1: "shard_inv T hash rt_wf (s\<lparr>raw_map := t\<rparr>)"
    using inv f' by (intro shard_inv_rehash) (simp_all add: shard_map_def)
  have td1: "tidy T (s\<lparr>raw_map := t\<rparr>)" using td f'(3) by (intro tidy_rehash) (simp_all add: shard_map_def)
  have "\<nexists>b. r0 = Ok b" using find_or_slot_Ok_lookup [OF wf] f absent by (fastforce simp: shard_map_def)
  then obtain slot where Err: "r0 = Err slot" by (metis result.exhaust)
  have slot: "slot_ok t (hash k) slot" using find_or_slot_Err_lookup [OF wf f [unfolded Err]] by simp
  obtain b where b: "insert_new T (hash k) k slot v (s\<lparr>raw_map := t\<rparr>) = returns (b, s')"
    using ins f Err by (auto simp: insert_locked_def comp_bind_returns_iff)
  have "hot_kept T hash {k} (s\<lparr>raw_map := t\<rparr>) s'"
    by (rule hot_insert_new [OF inv1 td1 _ _ _ _ b]) (use fits absent cold slot m in \<open>simp_all add: hot_fits_def\<close>)
  moreover have "hot_kept T hash {} s (s\<lparr>raw_map := t\<rparr>)"
    using m by (auto simp: hot_kept_def same_caps_def shard_vals_def)
  ultimately show ?thesis using hot_kept_trans by blast
qed

end

section \<open>Scans of a cache\<close>

definition scan_ready :: "('k, 'v, 't) table \<Rightarrow> ('k, 't) NeoCache \<Rightarrow> bool" where
  "scan_ready T c \<longleftrightarrow> cache_tidy T c \<and> (\<forall>i < shard_count c. hot_fits T (shard_at c i))"

text \<open>New keys that are not mistaken for keys that are or were in the cache.\<close>

definition fresh_for :: "('k, 'v, 't) table \<Rightarrow> ('k, 't) NeoCache \<Rightarrow> 'k list \<Rightarrow> bool" where
  "fresh_for T c ks \<longleftrightarrow> distinct (map (hasher c) ks) \<and>
     (\<forall>k \<in> set ks. hasher c k \<notin> ghost_set (home c k) \<union> hasher c ` dom (shard_map T (home c k)))"

definition is_hot :: "('k, 'v, 't) table \<Rightarrow> ('k, 't) NeoCache \<Rightarrow> 'k \<Rightarrow> bool" where
  "is_hot T c k \<longleftrightarrow> k \<in> hot (shard_map T (home c k))"

text \<open>What one or more lookups of a key that is present leave.\<close>

definition reads_to :: "('k, 'v, 't) table \<Rightarrow> ('k \<Rightarrow> u64) \<Rightarrow> ('t \<Rightarrow> bool) \<Rightarrow> 'k \<Rightarrow> 'k list \<Rightarrow> ('k, 't) NeoCache \<Rightarrow> ('k, 't) NeoCache \<Rightarrow> bool" where
  "reads_to T hash tok k ks c c' \<longleftrightarrow> cache_ok T hash tok c' \<and> cache_tidy T c' \<and> same_config c c' \<and>
     cache_vals T c' = cache_vals T c \<and> fresh_for T c' ks \<and> is_hot T c' k"

context shard_table
begin

lemma scan_step:
  assumes ok: "cache_ok T hash rt_wf c" and ready: "scan_ready T c" and fresh: "fresh_for T c (k # ks)"
    and ins: "nc_step T (Op_insert k v) c = returns (r, c')"
  shows "scan_ready T c'" and "fresh_for T c' ks"
    and "is_hot T c j \<Longrightarrow> is_hot T c' j \<and> cache_vals T c' j = cache_vals T c j"
proof -
  have i: "key_shard c k < length (shards c)" by (rule home_okD(1) [OF ok])
  note inv = home_okD(2) [OF ok, of k, unfolded home_def] and h = cache_okD [OF ok]
  let ?s = "shard_at c (key_shard c k)"
  have "comp_bind (insert_locked T hash k v ?s)
      (\<lambda>(r, s). returns (r, put_shard c (key_shard c k) s)) = returns (r, c')"
    using ins h(1) by (simp add: nc_insert_def key_shard_eq with_write_quiet [OF h(3) i])
  then obtain s' where s': "insert_locked T hash k v ?s = returns (r, s')" "c' = put_shard c (key_shard c k) s'"
    by (auto simp: comp_bind_returns_iff)
  have rdy: "tidy T ?s" "hot_fits T ?s" using ready i by (simp_all add: scan_ready_def cache_tidy_def shard_count_def)
  have cold: "hash k \<notin> ghost_set ?s" "shard_map T ?s k = None"
    using fresh h(1) by (auto simp: fresh_for_def home_def)
  note kept = hot_insert_locked [OF inv rdy cold(2,1) s'(1)]
  have td: "tidy T s'" by (rule tidy_insert_locked [OF inv rdy(1) s'(1)])
  have at: "shard_at c' j = (if j = key_shard c k then s' else shard_at c j)" for j using i by (simp add: s'(2) shard_at_put)
  have same: "key_shard c' = key_shard c" "hasher c' = hasher c" "shard_count c' = shard_count c"
    by (simp_all add: s'(2) fun_eq_iff shard_count_def)
  show "scan_ready T c'"
    using ready td hot_kept_fits [OF kept rdy(2)] cache_tidy_put [OF _ td i]
    by (auto simp: scan_ready_def s'(2) [symmetric] at same)
  show "fresh_for T c' ks"
    unfolding fresh_for_def same home_def at
  proof (intro conjI ballI)
    show "distinct (map (hasher c) ks)" using fresh by (simp add: fresh_for_def)
    fix l assume l: "l \<in> set ks"
    have "hash k \<notin> hash ` set ks" using fresh h(1) by (simp add: fresh_for_def)
    then have d: "hash l \<noteq> hash k" using l by (metis imageI)
    have g: "hash l \<notin> ghost_set (home c l) \<union> hash ` dom (shard_map T (home c l))"
      using fresh l h(1) by (auto simp: fresh_for_def)
    show "hasher c l \<notin> ghost_set (if key_shard c l = key_shard c k then s' else shard_at c (key_shard c l)) \<union>
        hasher c ` dom (shard_map T (if key_shard c l = key_shard c k then s' else shard_at c (key_shard c l)))"
    proof (cases "key_shard c l = key_shard c k")
      case True
      have "ghost_set s' \<subseteq> ghost_set ?s \<union> hash ` dom (shard_map T ?s)" "dom (shard_map T s') \<subseteq> {k} \<union> dom (shard_map T ?s)"
        using kept by (simp_all add: hot_kept_def)
      then show ?thesis using d g True h(1) by (auto simp: home_def)
    qed (use g h(1) in \<open>simp add: home_def\<close>)
  qed
  assume "is_hot T c j"
  then show "is_hot T c' j \<and> cache_vals T c' j = cache_vals T c j"
    using kept by (cases "key_shard c j = key_shard c k") (auto simp: is_hot_def home_def at same cache_vals_def hot_kept_def)
qed

lemma scan_run:
  assumes "cache_ok T hash rt_wf c" and "nc_room T (length kvs) c" and "scan_ready T c" and "fresh_for T c (map fst kvs)"
  shows "\<exists>rs c'. comp_run (nc_step T) (map (\<lambda>(k, v). Op_insert k v) kvs) c = returns (rs, c') \<and> cache_ok T hash rt_wf c' \<and>
    scan_ready T c' \<and> (\<forall>k. is_hot T c k \<longrightarrow> is_hot T c' k \<and> cache_vals T c' k = cache_vals T c k)"
  using assms
proof (induction kvs arbitrary: c)
  case (Cons kv kvs)
  obtain k v where kv: "kv = (k, v)" by fastforce
  have "nc_room T (Suc (length kvs)) c" using Cons.prems(2) by simp
  from nc_step_returns [OF Cons.prems(1) this, of "Op_insert k v"] obtain r c1 where
    st: "nc_step T (Op_insert k v) c = returns (r, c1)" "cache_ok T hash rt_wf c1" "nc_room T (length kvs) c1" by blast
  have fresh: "fresh_for T c (k # map fst kvs)" using Cons.prems(4) by (simp add: kv)
  note step = scan_step [OF Cons.prems(1,3) fresh st(1)]
  from Cons.IH [OF st(2,3) step(1,2)] step(3) st(1) show ?case by (fastforce simp: kv)
qed auto

lemma room_after:
  assumes "cache_ok T hash rt_wf c" and "nc_room T (length ops + n) c" and "comp_run (nc_step T) ops c = returns (rs, c')"
  shows "nc_room T n c'"
  using assms
proof (induction ops arbitrary: c rs)
  case (Cons op ops)
  have "nc_room T (Suc (length ops + n)) c" using Cons.prems(2) by simp
  from nc_step_returns [OF Cons.prems(1) this, of op] Cons.prems(3) obtain r c1 rs' where
    "nc_step T op c = returns (r, c1)" "cache_ok T hash rt_wf c1" "nc_room T (length ops + n) c1"
    "comp_run (nc_step T) ops c1 = returns (rs', c')"
    by (auto simp: comp_bind_returns_iff)
  then show ?case using Cons.IH by blast
qed simp

section \<open>How a key becomes hot\<close>

lemma bumped_hot: "0 < entry_freq (bump_freq e)"
proof (cases "unat (entry_freq e) \<le> 3")
  case True
  then have "0 < unat (entry_freq (bump_freq e))" by (simp add: bump_freq_freq unat_bump)
  then show ?thesis by (simp add: word_less_nat_alt)
next
  case False
  then have "\<not> entry_freq e < MAX_FREQ" "entry_freq e \<noteq> 0" by (auto simp: word_less_nat_alt MAX_FREQ_def)
  then show ?thesis by (simp add: bump_freq_freq bump_fn_def word_gt_0)
qed

text \<open>A lookup makes the key it finds hot and nothing else changes.\<close>

lemma scan_lookup:
  assumes ok: "cache_ok T hash rt_wf c" and st: "nc_step T (Op_lookup k) c = returns (r, c')"
  shows "fresh_for T c ks \<Longrightarrow> fresh_for T c' ks" and "cache_vals T c k \<noteq> None \<Longrightarrow> is_hot T c' k"
proof -
  have i: "key_shard c k < length (shards c)" by (rule home_okD(1) [OF ok])
  note inv = home_okD(2) [OF ok, of k, unfolded home_def] and h = cache_okD [OF ok]
  let ?s = "shard_at c (key_shard c k)"
  obtain b s' where g: "get_locked T hash k ?s = (b, s')" by fastforce
  have c': "c' = put_shard c (key_shard c k) s'"
    using lookup_section [OF h(3) i, of T] st g h(1) by (simp add: run_section_def)
  have s': "ghost_set s' = ghost_set ?s" "shard_map T s' = (shard_map T ?s)(k := map_option bump_freq (shard_map T ?s k))"
    using get_locked_spec [OF inv, of k] g by (auto split: option.splits simp: fun_upd_idem)
  have at: "shard_at c' j = (if j = key_shard c k then s' else shard_at c j)" for j using i by (simp add: c' shard_at_put)
  have same: "key_shard c' = key_shard c" "hasher c' = hasher c" by (simp_all add: c' fun_eq_iff)
  have "dom (shard_map T (shard_at c' j)) = dom (shard_map T (shard_at c j))" "ghost_set (shard_at c' j) = ghost_set (shard_at c j)" for j
    by (auto simp: at s' split: if_splits)
  then show "fresh_for T c' ks" if "fresh_for T c ks" using that by (simp add: fresh_for_def same home_def)
  show "is_hot T c' k" if "cache_vals T c k \<noteq> None"
    using that bumped_hot by (auto simp: is_hot_def hot_def home_def at same s' cache_vals_def shard_vals_def)
qed

text \<open>A cache in which only one key has been used is ready for a scan, as soon as its shards have two places.\<close>

lemma one_ready:
  assumes ok: "cache_ok T hash rt_wf c" and td: "cache_tidy T c" and one: "dom (cache_vals T c) \<subseteq> {k}"
    and room: "2 \<le> per_shard_cap (cache_capacity c) (shard_count c)"
  shows "scan_ready T c"
  unfolding scan_ready_def
proof (intro conjI allI impI td)
  fix i assume i: "i < shard_count c"
  let ?s = "shard_at c i"
  have "dom (shard_map T ?s) \<subseteq> {k}"
  proof
    fix j assume "j \<in> dom (shard_map T ?s)"
    then obtain e where e: "shard_map T ?s j = Some e" by blast
    then have "key_shard c j = i" by (rule cache_ok_shard(3) [OF ok i])
    then have "j \<in> dom (cache_vals T c)" using e by (auto simp: cache_vals_def shard_vals_def)
    then show "j \<in> {k}" using one by blast
  qed
  then have sub: "hot (shard_map T ?s) \<subseteq> {k}" by (auto simp: hot_def)
  have "card (hot (shard_map T ?s)) \<le> 1" using card_mono [OF _ sub] by simp
  moreover have "small_cap ?s + 1 \<le> shard_cap ?s"
    using cache_ok_shard(1,2) [OF ok i] room by (auto simp: shard_inv_def caps_ok_def shard_caps_def div_ceil_def Let_def)
  ultimately show "hot_fits T ?s" using finite_subset [OF sub] by (simp add: hot_fits_def)
qed

lemma new_fresh:
  assumes "cap \<le> usize_max" and "1 < n" and "is_power_of_two n" and "n \<le> usize_max"
    and "with_capacity_and_hasher_and_shard_amount T cap hash n = Return c" and "distinct (map hash ks)"
  shows "fresh_for T c ks"
proof -
  obtain b where "with_capacity_and_hasher_and_shard_amount T cap hash n = Return \<lparr>shift = 64 - b,
       shards = map (\<lambda>_. \<lparr>rw_state = 0, rw_data = ShardData_new T 0 (per_shard_cap cap (2 ^ b))\<rparr>) [0..<2 ^ b],
       hasher = hash, cache_capacity = cap\<rparr>"
    by (rule constructor_Return [OF assms(1-4)])
  then have c: "c = \<lparr>shift = 64 - b,
       shards = map (\<lambda>_. \<lparr>rw_state = 0, rw_data = ShardData_new T 0 (per_shard_cap cap (2 ^ b))\<rparr>) [0..<2 ^ b],
       hasher = hash, cache_capacity = cap\<rparr>" using assms(5) by simp
  obtain d where d: "with_capacity_and_hasher_and_shard_amount T cap hash n = Return d"
      "cache_ok T hash rt_wf d" "cache_vals T d = Map.empty"
    by (rule constructor_ok [OF assms(1-4)])
  then have ok: "cache_ok T hash rt_wf c" "cache_vals T c = Map.empty" using assms(5) by simp_all
  have "shard_map T (home c k) j = None" for k j
  proof (rule ccontr)
    assume "shard_map T (home c k) j \<noteq> None"
    then obtain e where e: "shard_map T (shard_at c (key_shard c k)) j = Some e" by (auto simp: home_def)
    have "key_shard c j = key_shard c k"
      using home_okD(1) [OF ok(1), of k] e by (intro cache_ok_shard(3) [OF ok(1)]) (simp_all add: shard_count_def)
    then have "cache_vals T c j \<noteq> None" using e by (simp add: cache_vals_def shard_vals_def)
    then show False by (simp add: ok(2))
  qed
  moreover have "ghost_set (home c k) = {}" for k
    using home_okD(1) [OF ok(1), of k] by (simp add: home_def shard_at_def c ShardData_new_def split: prod.split)
  ultimately show ?thesis using assms(6) by (simp add: fresh_for_def c dom_def)
qed

lemma lookup_hot:
  assumes ok: "cache_ok T hash rt_wf c" and "cache_tidy T c" and "fresh_for T c ks" and "cache_vals T c k \<noteq> None"
  obtains c' where "nc_step T (Op_lookup k) c = returns (cache_vals T c k, c')" and "reads_to T hash rt_wf k ks c c'"
proof -
  obtain c' where c': "nc_step T (Op_lookup k) c = returns (cache_vals T c k, c')" "cache_ok T hash rt_wf c'" "same_config c c'"
      "cache_vals T c' = cache_vals T c"
    using nc_view_spec [OF ok, of k "\<lambda>_ v. v"] by (auto simp: option.map_ident)
  moreover have "fresh_for T c' ks" "is_hot T c' k" using scan_lookup [OF ok c'(1)] assms by simp_all
  moreover have "cache_tidy T c'" using tidy_step [OF ok assms(2) _ c'(1)] by simp
  ultimately show thesis using that by (simp add: reads_to_def)
qed

lemma lookups_hot:
  assumes "cache_ok T hash rt_wf c" and "cache_tidy T c" and "fresh_for T c ks" and "cache_vals T c k \<noteq> None"
  shows "\<exists>rs c'. comp_run (nc_step T) (replicate (Suc n) (Op_lookup k)) c = returns (rs, c') \<and> reads_to T hash rt_wf k ks c c'"
  using assms
proof (induction n arbitrary: c)
  case 0
  from lookup_hot [OF 0] obtain c1 where "nc_step T (Op_lookup k) c = returns (cache_vals T c k, c1)" "reads_to T hash rt_wf k ks c c1" .
  then show ?case by simp
next
  case (Suc n)
  from lookup_hot [OF Suc.prems] obtain c1 where
    c1: "nc_step T (Op_lookup k) c = returns (cache_vals T c k, c1)" "reads_to T hash rt_wf k ks c c1" .
  moreover obtain rs c' where "comp_run (nc_step T) (replicate (Suc n) (Op_lookup k)) c1 = returns (rs, c')"
      "reads_to T hash rt_wf k ks c1 c'"
    using Suc.IH [of c1] c1(2) Suc.prems(4) by (auto simp: reads_to_def)
  ultimately show ?case by (auto simp: reads_to_def same_config_def)
qed

end

section \<open>The property\<close>

text \<open>C13:
  Scan resistance, the purpose of the two queues: take a bounded cache after any run of
  insertions, lookups and clears, in which no shard has more hot keys (keys in the main queue or
  read since they came in) than its main queue is meant to hold. Then any number of insertions of new keys,
  whose hashes are not those of keys that are or recently were in their shard, all return, and
  every hot key is still there with its value and still hot.
\<close>

theorem hot_keys_survive_scan:
  assumes tab: "shard_table T hash tok sok"
    and new: "with_capacity_and_hasher_and_shard_amount T cap hash n = Return c0"
    and args: "0 < cap" "cap \<le> usize_max" "n \<le> usize_max"
    and ops: "\<forall>op \<in> set ops. \<not> removes op" and run: "comp_run (nc_step T) ops c0 = returns (rs, c)"
    and fits: "\<forall>i < shard_count c. hot_fits T (shard_at c i)" and fresh: "fresh_for T c (map fst kvs)"
  shows "\<exists>rs' c'. comp_run (nc_step T) (map (\<lambda>(k, v). Op_insert k v) kvs) c = returns (rs', c') \<and>
    (\<forall>k. is_hot T c k \<longrightarrow> is_hot T c' k \<and> cache_vals T c' k = cache_vals T c k)"
proof -
  have n: "1 < n" "is_power_of_two n"
    using new by (auto simp: with_capacity_and_hasher_and_shard_amount_def split: if_splits)
  have ok: "cache_ok T hash tok c0" "cache_capacity c0 = cap"
    using shard_table.constructor_ok [OF tab args(2) n args(3)] new by (metis run.inject(1))+
  have room: "nc_room T (length ops) c0" using ok(2) args(1) by (simp add: nc_room_def)
  note fin = shard_table.tidy_run [OF tab ok(1) shard_table.tidy_constructed [OF tab args(2) n args(3) new] room ops run]
  have cap: "nc_room T (length kvs) c" by (rule shard_table.room_after [OF tab ok(1) _ run]) (use ok(2) args(1) in \<open>simp add: nc_room_def\<close>)
  have "scan_ready T c" using fin fits by (simp add: scan_ready_def)
  from shard_table.scan_run [OF tab fin [THEN conjunct2] cap this fresh] show ?thesis by blast
qed

theorem hot_keys_survive_scan_witness:
  "\<exists>rs c rs' c'. comp_run (nc_step slot_table) [Op_insert 1 ''one'', Op_lookup 1] demo_new = returns (rs, c) \<and>
    comp_run (nc_step slot_table) (map (\<lambda>(k, v). Op_insert k v) (map (\<lambda>k. (k, ''cold'')) [2..<50])) c = returns (rs', c') \<and>
    cache_vals slot_table c' 1 = Some ''one''"
proof -
  let ?kvs = "map (\<lambda>k. (k, ''cold'')) [2..<50 :: nat]"
  have cap: "(0::nat) < 4" "(4::nat) \<le> usize_max" "1 < (2::nat)" "(2::nat) \<le> usize_max" by (simp_all add: usize_max_def)
  note new = demo_new_Return
  have "distinct (map demo_hash (1 # map fst ?kvs))" by code_simp
  note fresh = slot_shard.new_fresh [OF cap(2,3) demo_amount cap(4) new this]
  have "nc_room slot_table (Suc 0) demo_new" by (simp add: nc_room_def demo_states_ok)
  from slot_shard.nc_step_returns [OF demo_states_ok(1) this, of "Op_insert 1 ''one''"] obtain c1 where
    c1: "nc_step slot_table (Op_insert 1 ''one'') demo_new = returns (None, c1)" "demo_ok c1" "cache_vals slot_table c1 \<subseteq>\<^sub>m [1 \<mapsto> ''one'']"
    using demo_new_ok(2) [OF cap(2)] by auto
  have one: "c1 = demo_one" using c1(1) by (simp add: demo_one_def demo_insert_def)
  note v = demo_values(1) [folded one]
  have "cache_tidy slot_table c1"
    using slot_shard.tidy_step [OF demo_states_ok(1) slot_shard.tidy_constructed [OF cap(2,3) demo_amount cap(4) new] _ c1(1)] by simp
  moreover have "2 \<le> per_shard_cap (cache_capacity demo_new) (shard_count demo_new)" by code_simp
  then have "scan_ready slot_table demo_new"
    using demo_new_ok(2) [OF cap(2)]
    by (intro slot_shard.one_ready [where k = 1, OF demo_states_ok(1) slot_shard.tidy_constructed [OF cap(2,3) demo_amount cap(4) new]]) simp_all
  then have "fresh_for slot_table c1 (map fst ?kvs)" by (rule slot_shard.scan_step(2) [OF demo_states_ok(1) _ fresh c1(1)])
  ultimately obtain c where c: "nc_step slot_table (Op_lookup 1) c1 = returns (Some ''one'', c)"
      "reads_to slot_table demo_hash (st_wf demo_hash) 1 (map fst ?kvs) c1 c"
    using slot_shard.lookup_hot [OF c1(2), of "map fst ?kvs" 1 thesis] v by auto
  have run: "comp_run (nc_step slot_table) [Op_insert 1 ''one'', Op_lookup 1] demo_new = returns ([None, Some ''one''], c)"
    using c1(1) c(1) by simp
  have "dom (cache_vals slot_table c) \<subseteq> {1}" using map_le_implies_dom_le [OF c1(3)] c(2) by (auto simp: reads_to_def)
  moreover have "per_shard_cap (cache_capacity c1) (shard_count c1) = 2" unfolding one by code_simp
  ultimately have "scan_ready slot_table c"
    using c(2) by (intro slot_shard.one_ready [where k = 1]) (auto simp: reads_to_def same_config_def)
  then have fits: "\<forall>i < shard_count c. hot_fits slot_table (shard_at c i)" by (simp add: scan_ready_def)
  have "fresh_for slot_table c (map fst ?kvs)" "is_hot slot_table c 1" "cache_vals slot_table c 1 = Some ''one''"
    using c(2) v by (simp_all add: reads_to_def)
  with hot_keys_survive_scan [OF slot_shard.shard_table_axioms new cap(1,2,4) _ run fits] run show ?thesis
    by (fastforce simp del: comp_run.simps upt_rec_numeral)
qed

end
