(* ===== verification/Neo_Api.thy ===== *)
theory Neo_Api
  imports Entry_Api Shared_Iter_Inv
begin

text \<open>
  The public methods of \<open>NeoCache\<close> in \<open>src/lib.rs\<close> that forward to the implementation of the
  trait \<open>Map\<close>, the accessors, the two iterators, and \<open>Debug\<close>, which walks over the cache
  under its read locks. \<open>clear\<close>, \<open>is_empty\<close>, \<open>contains_key\<close> and \<open>try_reserve\<close> have bodies of
  their own and are in theory \<open>Neo_Cache\<close>.
\<close>

definition pub_insert :: "('k, 'v, 't) table \<Rightarrow> ('k, 't) NeoCache \<Rightarrow> 'k \<Rightarrow> 'v \<Rightarrow> ('v option \<times> ('k, 't) NeoCache) comp" where
  "pub_insert T c key v = nc_insert T c key v"

definition pub_remove :: "('k, 'v, 't) table \<Rightarrow> ('k, 't) NeoCache \<Rightarrow> 'k \<Rightarrow> (('k \<times> 'v) option \<times> ('k, 't) NeoCache) comp" where
  "pub_remove T c key = nc_remove T c key"

definition pub_remove_if :: "('k, 'v, 't) table \<Rightarrow> ('k, 't) NeoCache \<Rightarrow> 'k \<Rightarrow> ('k \<Rightarrow> 'v \<Rightarrow> bool)
    \<Rightarrow> (('k \<times> 'v) option \<times> ('k, 't) NeoCache) comp" where
  "pub_remove_if T c key f = nc_remove_if T c key f"

definition pub_remove_if_mut :: "('k, 'v, 't) table \<Rightarrow> ('k, 't) NeoCache \<Rightarrow> 'k \<Rightarrow> ('k \<Rightarrow> 'v \<Rightarrow> bool \<times> 'v)
    \<Rightarrow> (('k \<times> 'v) option \<times> ('k, 't) NeoCache) comp" where
  "pub_remove_if_mut T c key f = nc_remove_if_mut T c key f"

definition pub_iter :: "('k, 't) NeoCache \<Rightarrow> ('k, 't) ArcIter" where
  "pub_iter c = ArcIter_new c"

definition pub_iter_mut :: "('k, 't) NeoCache \<Rightarrow> ('k, 't) ArcIter" where
  "pub_iter_mut c = ArcIter_new c"

definition pub_get :: "('k, 'v, 't) table \<Rightarrow> ('k, 't) NeoCache \<Rightarrow> 'k \<Rightarrow> (Ref option \<times> ('k, 't) NeoCache) comp" where
  "pub_get T c key = nc_get T c key"

definition pub_get_mut :: "('k, 'v, 't) table \<Rightarrow> ('k, 't) NeoCache \<Rightarrow> 'k \<Rightarrow> (Ref option \<times> ('k, 't) NeoCache) comp" where
  "pub_get_mut T c key = nc_get_mut T c key"

definition pub_try_get :: "('k, 'v, 't) table \<Rightarrow> ('k, 't) NeoCache \<Rightarrow> 'k \<Rightarrow> (Ref TryResult \<times> ('k, 't) NeoCache) run" where
  "pub_try_get T c key = nc_try_get T c key"

definition pub_try_get_mut :: "('k, 'v, 't) table \<Rightarrow> ('k, 't) NeoCache \<Rightarrow> 'k \<Rightarrow> (Ref TryResult \<times> ('k, 't) NeoCache) run" where
  "pub_try_get_mut T c key = nc_try_get_mut T c key"

definition pub_shrink_to_fit :: "('k, 'v, 't) table \<Rightarrow> ('k, 't) NeoCache \<Rightarrow> (unit \<times> ('k, 't) NeoCache) comp" where
  "pub_shrink_to_fit T c = nc_shrink_to_fit T c"

definition pub_retain :: "('k, 'v, 't) table \<Rightarrow> ('k, 't) NeoCache \<Rightarrow> ('s \<Rightarrow> 'k \<Rightarrow> 'v \<Rightarrow> bool \<times> 'v \<times> 's) \<Rightarrow> 's
    \<Rightarrow> ('s \<times> ('k, 't) NeoCache) comp" where
  "pub_retain T c f st = nc_retain T c f st"

definition pub_len :: "('k, 'v, 't) table \<Rightarrow> ('k, 't) NeoCache \<Rightarrow> (usize \<times> ('k, 't) NeoCache) comp" where
  "pub_len T c = nc_len T c"

definition pub_capacity :: "('k, 'v, 't) table \<Rightarrow> ('k, 't) NeoCache \<Rightarrow> (usize \<times> ('k, 't) NeoCache) comp" where
  "pub_capacity T c = nc_capacity T c"

definition pub_alter :: "('k, 'v, 't) table \<Rightarrow> ('k, 't) NeoCache \<Rightarrow> 'k \<Rightarrow> ('k \<Rightarrow> 'v \<Rightarrow> 'v run) \<Rightarrow> ('k, 't) NeoCache comp" where
  "pub_alter T c key f = nc_alter T c key f"

definition pub_alter_all :: "('k, 'v, 't) table \<Rightarrow> ('s \<Rightarrow> 'k \<Rightarrow> 'v \<Rightarrow> ('v \<times> 's) run) \<Rightarrow> ('k, 't) NeoCache \<Rightarrow> 's
    \<Rightarrow> ('s \<times> ('k, 't) NeoCache) comp" where
  "pub_alter_all T f c st = nc_alter_all T f c st"

definition pub_view :: "('k, 'v, 't) table \<Rightarrow> ('k, 't) NeoCache \<Rightarrow> 'k \<Rightarrow> ('k \<Rightarrow> 'v \<Rightarrow> 'r)
    \<Rightarrow> ('r option \<times> ('k, 't) NeoCache) comp" where
  "pub_view T c key f = nc_view T c key f"

definition pub_entry :: "('k, 'v, 't) table \<Rightarrow> ('k, 't) NeoCache \<Rightarrow> 'k \<Rightarrow> ('k Entry \<times> ('k, 't) NeoCache) comp" where
  "pub_entry T c key = nc_entry T c key"

definition pub_try_entry :: "('k, 'v, 't) table \<Rightarrow> ('k, 't) NeoCache \<Rightarrow> 'k \<Rightarrow> ('k Entry option \<times> ('k, 't) NeoCache) run" where
  "pub_try_entry T c key = nc_try_entry T c key"

text \<open>
  \<open>Debug\<close>: the pairs in the order they are given to the \<open>debug_map\<close> formatter, whose own
  failure is the only error.
\<close>

definition nc_fmt :: "('k, 'v, 't) table \<Rightarrow> ('k, 't) NeoCache \<Rightarrow> ((('k \<times> 'v) list, unit) result \<times> ('k, 't) NeoCache) comp" where
  "nc_fmt T c = nc_for_each T (\<lambda>pmap pair. Ok (pmap @ [pair])) c []"

lemma nc_fmt_pairs:
  assumes "quiet c" and "0 < shard_count c"
  shows "nc_fmt T c = returns (Ok (cache_pairs T c), c)"
  using nc_for_each_spec [OF assms, of T "\<lambda>pmap pair. Ok (pmap @ [pair])" "[]"] by (simp add: nc_fmt_def try_fold_collect)

text \<open>\<open>into_par_iter\<close> of \<open>src/rayon_impl.rs\<close>: the iterator that \<open>par_bridge\<close> shares between threads.\<close>

definition into_par_iter :: "('k, 't) NeoCache \<Rightarrow> ('k, 't) ArcIter" where
  "into_par_iter c = pub_iter c"

lemma iteration_of_par: "iter (iteration_of c) = into_par_iter c"
  by (simp add: iteration_of_def into_par_iter_def pub_iter_def)

end
