(* ===== verification/Ref_Views.thy ===== *)
theory Ref_Views
  imports Map_Ref Read_Only Neo_Api Demo_Cache
begin

text \<open>
  The remaining ways to look at a reference, an iterator or a cache: the constructors of the
  references, \<open>Deref\<close> and \<open>DerefMut\<close>, \<open>AsRef\<close>, \<open>Debug\<close> and \<open>Display\<close> (\<open>src/mapref/one.rs\<close>,
  \<open>src/mapref/multiple.rs\<close>), and the plain accessors of \<open>src/lib.rs\<close>, \<open>src/iter.rs\<close>,
  \<open>src/read_only.rs\<close> and \<open>src/lock.rs\<close>. How a key or a value prints is the user's code: a function
  to strings.
\<close>

section \<open>Formatting\<close>

text \<open>\<open>Formatter::debug_struct\<close> of the standard library, on one line.\<close>

fun join_with :: "string \<Rightarrow> string list \<Rightarrow> string" where
  "join_with sep [] = ''''"
| "join_with sep [x] = x"
| "join_with sep (x # xs) = x @ sep @ join_with sep xs"

definition debug_struct :: "string \<Rightarrow> (string \<times> string) list \<Rightarrow> string" where
  "debug_struct name fs = (if fs = [] then name
     else name @ '' { '' @ join_with '', '' (map (\<lambda>(f, x). f @ '': '' @ x) fs) @ '' }'')"

section \<open>References of one entry\<close>

text \<open>A guard of shard \<open>i\<close> and the two pointers into bucket \<open>b\<close>.\<close>

definition ref_new :: "usize \<Rightarrow> nat \<Rightarrow> Ref" where
  "ref_new i b = \<lparr>ref_shard = i, ref_bucket = b\<rparr>"

definition ref_deref :: "('k, 'v, 't) table \<Rightarrow> ('k, 't) NeoCache \<Rightarrow> Ref \<Rightarrow> 'v" where
  "ref_deref T c r = ref_value T c r"

definition ref_fmt :: "('k \<Rightarrow> string) \<Rightarrow> ('v \<Rightarrow> string) \<Rightarrow> ('k, 'v, 't) table \<Rightarrow> ('k, 't) NeoCache \<Rightarrow> Ref \<Rightarrow> string" where
  "ref_fmt fk fv T c r = debug_struct ''Ref'' [(''k'', fk (ref_key T c r)), (''v'', fv (ref_value T c r))]"

definition refmut_new :: "usize \<Rightarrow> nat \<Rightarrow> Ref" where
  "refmut_new i b = \<lparr>ref_shard = i, ref_bucket = b\<rparr>"

definition refmut_pair :: "('k, 'v, 't) table \<Rightarrow> ('k, 't) NeoCache \<Rightarrow> Ref \<Rightarrow> 'k \<times> 'v" where
  "refmut_pair T c r = ref_pair T c r"

definition refmut_key :: "('k, 'v, 't) table \<Rightarrow> ('k, 't) NeoCache \<Rightarrow> Ref \<Rightarrow> 'k" where
  "refmut_key T c r = fst (refmut_pair T c r)"

definition refmut_value :: "('k, 'v, 't) table \<Rightarrow> ('k, 't) NeoCache \<Rightarrow> Ref \<Rightarrow> 'v" where
  "refmut_value T c r = snd (refmut_pair T c r)"

definition refmut_fmt :: "('k \<Rightarrow> string) \<Rightarrow> ('v \<Rightarrow> string) \<Rightarrow> ('k, 'v, 't) table \<Rightarrow> ('k, 't) NeoCache \<Rightarrow> Ref \<Rightarrow> string" where
  "refmut_fmt fk fv T c r = debug_struct ''RefMut'' [(''k'', fk (refmut_key T c r)), (''v'', fv (refmut_value T c r))]"

definition refmut_deref :: "('k, 'v, 't) table \<Rightarrow> ('k, 't) NeoCache \<Rightarrow> Ref \<Rightarrow> 'v" where
  "refmut_deref T c r = refmut_value T c r"

text \<open>What an assignment through \<open>DerefMut\<close> does.\<close>

definition refmut_deref_mut :: "('k, 'v, 't) table \<Rightarrow> ('k, 't) NeoCache \<Rightarrow> Ref \<Rightarrow> ('v \<Rightarrow> 'v) \<Rightarrow> ('k, 't) NeoCache" where
  "refmut_deref_mut T c r f = ref_value_mut T c r f"

section \<open>Projected references\<close>

definition mapped_fmt :: "('k \<Rightarrow> string) \<Rightarrow> ('x \<Rightarrow> string) \<Rightarrow> ('k, 'v, 't) table \<Rightarrow> ('k, 't) NeoCache
    \<Rightarrow> ('v, 'x) MappedRef \<Rightarrow> string" where
  "mapped_fmt fk fx T c m = debug_struct ''MappedRef'' [(''k'', fk (mapped_key T c m)), (''v'', fx (mapped_value T c m))]"

definition mapped_deref :: "('k, 'v, 't) table \<Rightarrow> ('k, 't) NeoCache \<Rightarrow> ('v, 'x) MappedRef \<Rightarrow> 'x" where
  "mapped_deref T c m = mapped_value T c m"

definition mapped_display :: "('x \<Rightarrow> string) \<Rightarrow> ('k, 'v, 't) table \<Rightarrow> ('k, 't) NeoCache \<Rightarrow> ('v, 'x) MappedRef \<Rightarrow> string" where
  "mapped_display display T c m = display (mapped_value T c m)"

definition mapped_as_ref :: "('x \<Rightarrow> 'y) \<Rightarrow> ('k, 'v, 't) table \<Rightarrow> ('k, 't) NeoCache \<Rightarrow> ('v, 'x) MappedRef \<Rightarrow> 'y" where
  "mapped_as_ref as_ref T c m = as_ref (mapped_value T c m)"

definition mappedmut_fmt :: "('k \<Rightarrow> string) \<Rightarrow> ('x \<Rightarrow> string) \<Rightarrow> ('k, 'v, 't) table \<Rightarrow> ('k, 't) NeoCache
    \<Rightarrow> ('v, 'x) MappedRefMut \<Rightarrow> string" where
  "mappedmut_fmt fk fx T c m =
     debug_struct ''MappedRefMut'' [(''k'', fk (mappedmut_key T c m)), (''v'', fx (mappedmut_value T c m))]"

definition mappedmut_deref :: "('k, 'v, 't) table \<Rightarrow> ('k, 't) NeoCache \<Rightarrow> ('v, 'x) MappedRefMut \<Rightarrow> 'x" where
  "mappedmut_deref T c m = mappedmut_value T c m"

definition mappedmut_deref_mut :: "('k, 'v, 't) table \<Rightarrow> ('k, 't) NeoCache \<Rightarrow> ('v, 'x) MappedRefMut
    \<Rightarrow> ('x \<Rightarrow> 'x) \<Rightarrow> ('k, 't) NeoCache" where
  "mappedmut_deref_mut T c m f = mappedmut_value_mut T c m f"

section \<open>References of an iteration\<close>

definition multi_deref :: "('k, 'v, 't) table \<Rightarrow> ('k, 't) ArcIter \<Rightarrow> Ref \<Rightarrow> 'v" where
  "multi_deref T x r = multi_value T x r"

definition mutmulti_new :: "usize \<Rightarrow> nat \<Rightarrow> Ref" where
  "mutmulti_new i b = \<lparr>ref_shard = i, ref_bucket = b\<rparr>"

definition mutmulti_pair :: "('k, 'v, 't) table \<Rightarrow> ('k, 't) ArcIter \<Rightarrow> Ref \<Rightarrow> 'k \<times> 'v" where
  "mutmulti_pair T x r = ref_pair T (ai_cache x) r"

definition mutmulti_key :: "('k, 'v, 't) table \<Rightarrow> ('k, 't) ArcIter \<Rightarrow> Ref \<Rightarrow> 'k" where
  "mutmulti_key T x r = fst (mutmulti_pair T x r)"

definition mutmulti_value :: "('k, 'v, 't) table \<Rightarrow> ('k, 't) ArcIter \<Rightarrow> Ref \<Rightarrow> 'v" where
  "mutmulti_value T x r = snd (mutmulti_pair T x r)"

definition mutmulti_deref :: "('k, 'v, 't) table \<Rightarrow> ('k, 't) ArcIter \<Rightarrow> Ref \<Rightarrow> 'v" where
  "mutmulti_deref T x r = mutmulti_value T x r"

definition mutmulti_deref_mut :: "('k, 'v, 't) table \<Rightarrow> ('k, 't) ArcIter \<Rightarrow> Ref \<Rightarrow> ('v \<Rightarrow> 'v) \<Rightarrow> ('k, 't) ArcIter" where
  "mutmulti_deref_mut T x r f = multi_value_mut T x r f"

section \<open>Iterators, views and caches\<close>

text \<open>A clone of an iterator starts from the first shard and holds no guard.\<close>

definition iter_clone :: "Iter \<Rightarrow> Iter" where
  "iter_clone it = Iter_new"

definition nc_shards :: "('k, 't) NeoCache \<Rightarrow> ('k, 't) ShardData RwLock list" where
  "nc_shards c = shards c"

definition pub_hasher :: "('k, 't) NeoCache \<Rightarrow> 'k \<Rightarrow> u64" where
  "pub_hasher c = hasher c"

definition nc_hasher :: "('k, 't) NeoCache \<Rightarrow> 'k \<Rightarrow> u64" where
  "nc_hasher c = hasher c"

definition pub_cache_capacity :: "('k, 't) NeoCache \<Rightarrow> usize" where
  "pub_cache_capacity c = cache_capacity c"

definition ro_fmt :: "('k, 'v, 't) table \<Rightarrow> ('k, 't) ReadOnlyView
    \<Rightarrow> ((('k \<times> 'v) list, unit) result \<times> ('k, 't) NeoCache) comp" where
  "ro_fmt T w = nc_fmt T (ro_map w)"

definition ro_shards :: "('k, 't) ReadOnlyView \<Rightarrow> ('k, 't) ShardData RwLock list" where
  "ro_shards w = shards (ro_map w)"

definition visitor_expecting :: string where
  "visitor_expecting = ''a map''"

definition RawRwLock_INIT :: u64 where
  "RawRwLock_INIT = 0"

section \<open>They agree\<close>

lemmas view_defs = ref_deref_def ref_fmt_def refmut_fmt_def refmut_deref_def refmut_deref_mut_def refmut_key_def refmut_value_def
  refmut_pair_def ref_key_def ref_value_def ref_value_mut_def ref_new_def refmut_new_def

lemma iter_clone_restarts: "iter_for T f (iter_clone it) c a = nc_for_each T f c a"
  by (simp add: iter_clone_def nc_for_each_def)

lemma new_lock_free: "with_capacity_and_hasher_and_shard_amount T cap h n = Return c \<Longrightarrow> l \<in> set (nc_shards c) \<Longrightarrow> rw_state l = RawRwLock_INIT"
  by (auto simp: with_capacity_and_hasher_and_shard_amount_def run_simps Let_def nc_shards_def RawRwLock_INIT_def split: if_splits)

lemma multi_views:
  "multi_deref T x r = ref_deref T (ai_cache x) r" "mutmulti_deref T x r = ref_deref T (ai_cache x) r"
  "mutmulti_key T x r = multi_key T x r" "mutmulti_value T x r = multi_value T x r"
  "ai_cache (mutmulti_deref_mut T x r f) = refmut_deref_mut T (ai_cache x) r f"
  by (simp_all add: view_defs multi_deref_def multi_value_def multi_key_def multi_pair_def mutmulti_deref_def mutmulti_value_def
      mutmulti_key_def mutmulti_pair_def mutmulti_deref_mut_def multi_value_mut_def multi_pair_mut_def split_def Let_def)

text \<open>
  All views of a reference show the stored pair, and an assignment through \<open>DerefMut\<close> is in
  the cache once the reference is dropped.
\<close>

theorem reference_views:
  assumes tab: "shard_table T hash tok sok" and ok: "cache_ok T hash tok c" and hit: "cache_map T c k = Some e"
  shows "\<exists>r c1 c2. nc_get T c k = returns (Some r, c1) \<and> nc_get_mut T c k = returns (Some r, c2) \<and>
    ref_deref T c1 r = entry_val e \<and> refmut_deref T c2 r = entry_val e \<and> refmut_key T c2 r = k \<and>
    ref_fmt fk fv T c1 r = ''Ref { k: '' @ fk k @ '', v: '' @ fv (entry_val e) @ '' }'' \<and>
    refmut_fmt fk fv T c2 r = ''RefMut { k: '' @ fk k @ '', v: '' @ fv (entry_val e) @ '' }'' \<and>
    mapped_deref T c1 (ref_map r p) = p (entry_val e) \<and>
    (\<exists>c'. drop_write_guard (refmut_deref_mut T c2 r f) (ref_shard r) = Return c' \<and> cache_ok T hash tok c' \<and>
      cache_vals T c' = (cache_vals T c)(k \<mapsto> f (entry_val e)))"
proof -
  obtain b s where g: "nc_get T c k = returns (Some \<lparr>ref_shard = key_shard c k, ref_bucket = b\<rparr>, shard_table.hit_state c k ONE_READER s)"
      "nc_get_mut T c k = returns (Some \<lparr>ref_shard = key_shard c k, ref_bucket = b\<rparr>, shard_table.hit_state c k ONE_WRITER s)"
    and s: "cache_ok T hash tok (put_shard c (key_shard c k) s)"
      "cache_vals T (put_shard c (key_shard c k) s) = cache_vals T c"
      "b \<in> set (rt_iter T (raw_map s))" "rt_as_ref T (raw_map s) b = (k, bump_freq e)"
    by (rule shard_table.nc_get_hit [OF assms])
  let ?r = "\<lparr>ref_shard = key_shard c k, ref_bucket = b\<rparr>"
  note pair = shard_table.ref_pair_hit [OF tab ok s(4)]
  let ?c1 = "shard_table.hit_state c k ONE_READER s" and ?c2 = "shard_table.hit_state c k ONE_WRITER s"
  have store: "\<exists>c'. drop_write_guard (refmut_deref_mut T (shard_table.hit_state c k ONE_WRITER s) ?r f) (ref_shard ?r) = Return c' \<and>
      cache_ok T hash tok c' \<and> cache_vals T c' = (cache_vals T c)(k \<mapsto> f (entry_val e))"
    by (rule shard_table.ref_write_hit [OF tab ok s, of ONE_WRITER "f (entry_val e)"])
      (auto simp: view_defs pair shard_table.drop_hit_guard [OF tab ok])
  have shown: "ref_deref T ?c1 ?r = entry_val e" "refmut_deref T ?c2 ?r = entry_val e" "refmut_key T ?c2 ?r = k"
      "ref_fmt fk fv T ?c1 ?r = ''Ref { k: '' @ fk k @ '', v: '' @ fv (entry_val e) @ '' }''"
      "refmut_fmt fk fv T ?c2 ?r = ''RefMut { k: '' @ fk k @ '', v: '' @ fv (entry_val e) @ '' }''"
      "mapped_deref T ?c1 (ref_map ?r p) = p (entry_val e)"
    by (simp_all add: view_defs pair debug_struct_def mapped_deref_def mapped_value_def mapped_pair_def ref_map_def)
  from store obtain c' where "drop_write_guard (refmut_deref_mut T ?c2 ?r f) (ref_shard ?r) = Return c'"
      "cache_ok T hash tok c'" "cache_vals T c' = (cache_vals T c)(k \<mapsto> f (entry_val e))"
    by blast
  then show ?thesis by (intro exI conjI) (rule g shown | assumption)+
qed

end
