(* ===== verification/Call_Rules.thy ===== *)
theory Call_Rules
  imports Counter_Exact Guard_Properties Map_Ref Neo_Api
begin

text \<open>
  Rules for straight-line programs over a cache. \<open>yields m Q\<close> says that \<open>m\<close> returns, without a
  panic, a result that satisfies \<open>Q\<close>. The assertions about a cache are \<open>has\<close> (it is well formed
  and at rest and has this content) and \<open>has_room\<close> (in addition its counters are exact and its
  shards have room for \<open>p\<close> entries each, or are unbounded if \<open>p\<close> is \<open>0\<close>), under which an
  insertion into a shard with less than \<open>p\<close> keys evicts nothing.
\<close>

definition yields :: "'a comp \<Rightarrow> ('a \<Rightarrow> bool) \<Rightarrow> bool" where
  "yields m Q \<longleftrightarrow> (\<exists>r. m = returns r \<and> Q r)"

lemma yields_simps [simp]:
  "yields (returns r) Q \<longleftrightarrow> Q r" "\<not> yields None Q" "\<not> yields (Some (Panic p)) Q"
  "yields (comp_bind m f) Q \<longleftrightarrow> yields m (\<lambda>r. yields (f r) Q)"
  by (auto simp: yields_def comp_bind_returns_iff)

lemma yieldsI: "m = returns r \<Longrightarrow> Q r \<Longrightarrow> yields m Q"
  by simp

lemma yields_mono: "yields m P \<Longrightarrow> (\<And>r. P r \<Longrightarrow> Q r) \<Longrightarrow> yields m Q"
  by (auto simp: yields_def)

text \<open>A loop over a list whose body only changes the state.\<close>

fun comp_for :: "('a \<Rightarrow> 's \<Rightarrow> 's comp) \<Rightarrow> 'a list \<Rightarrow> 's \<Rightarrow> 's comp" where
  "comp_for f [] s = returns s"
| "comp_for f (x # xs) s = comp_bind (f x s) (comp_for f xs)"

lemma comp_for_inv:
  assumes "\<And>x s. x \<in> set xs \<Longrightarrow> I s \<Longrightarrow> yields (f x s) I" and "I s"
  shows "yields (comp_for f xs s) I"
  using assms
proof (induction xs arbitrary: s)
  case (Cons x xs)
  have "yields (f x s) I" using Cons.prems by simp
  then show ?case using Cons.IH Cons.prems(1) by (auto elim: yields_mono)
qed simp

lemma comp_for_map: "comp_for f (map g xs) = comp_for (\<lambda>x. f (g x)) xs"
  by (induction xs) (rule ext, simp)+

text \<open>As an induction over the elements done so far.\<close>

lemma comp_for_prefix:
  assumes "\<And>ys x zs s. xs = ys @ x # zs \<Longrightarrow> I ys s \<Longrightarrow> yields (f x s) (I (ys @ [x]))"
    and "I [] s"
  shows "yields (comp_for f xs s) (I xs)"
proof -
  have "yields (comp_for f zs s) (I xs)" if "xs = ys @ zs" "I ys s" for ys zs s
    using that
  proof (induction zs arbitrary: ys s)
    case (Cons z zs)
    then have "yields (f z s) (I (ys @ [z]))" by (intro assms(1) [of ys z zs]) simp_all
    then show ?case using Cons.IH [of "ys @ [z]"] Cons.prems(1) by (auto elim!: yields_mono)
  qed simp
  from this [of "[]" xs s] show ?thesis using assms(2) by simp
qed

definition has :: "('k, 'v, 't) table \<Rightarrow> ('k \<Rightarrow> u64) \<Rightarrow> ('t \<Rightarrow> bool) \<Rightarrow> ('k \<rightharpoonup> 'v) \<Rightarrow> ('k, 't) NeoCache \<Rightarrow> bool" where
  "has T hash tok m c \<longleftrightarrow> cache_ok T hash tok c \<and> cache_vals T c = m"

definition has_room :: "('k, 'v, 't) table \<Rightarrow> ('k \<Rightarrow> u64) \<Rightarrow> ('t \<Rightarrow> bool) \<Rightarrow> usize \<Rightarrow> ('k \<rightharpoonup> 'v) \<Rightarrow> ('k, 't) NeoCache \<Rightarrow> bool" where
  "has_room T hash tok p m c \<longleftrightarrow> has T hash tok m c \<and> cache_tidy T c \<and>
     per_shard_cap (cache_capacity c) (shard_count c) = p"

lemma has_room_has: "has_room T hash tok p m c \<Longrightarrow> has T hash tok m c"
  by (simp add: has_room_def)

lemma same_config_key_shard: "same_config c c' \<Longrightarrow> key_shard c' = key_shard c"
  by (simp add: same_config_def key_shard_def determine_shard_def fun_eq_iff)

section \<open>Constructors\<close>

text \<open>The parallelism that the system reports: an error, or a number of threads it can count.\<close>

definition thread_count :: "usize option \<Rightarrow> usize" where
  "thread_count parallelism = (case parallelism of None \<Rightarrow> 1 | Some n \<Rightarrow> n)"

definition threads_ok :: "usize option \<Rightarrow> bool" where
  "threads_ok parallelism \<longleftrightarrow> 0 < thread_count parallelism \<and> thread_count parallelism \<le> 2 ^ 59"

text \<open>\<open>NeoCache::new(100)\<close> makes 16 shards of 7 entries with one thread, and 32 shards of 4 with more.\<close>

definition room_100 :: "usize option \<Rightarrow> usize" where
  "room_100 parallelism = (if thread_count parallelism < 2 then 7 else 4)"

lemma default_amount:
  assumes "threads_ok par"
  obtains a b where "default_shard_amount par = Return a" "a = 2 ^ b" "16 \<le> a" "a \<le> usize_max"
    and "thread_count par * 16 \<le> a" and "thread_count par = 1 \<longrightarrow> a = 16"
proof -
  define n where "n = thread_count par * 16"
  have n: "16 \<le> n" "n \<le> 2 ^ 63" using assms by (auto simp: n_def threads_ok_def)
  then have "default_shard_amount par = Return (pow2_from 1 n)"
    using next_power_of_two_Return [OF n(2)]
    by (simp add: default_shard_amount_def n_def thread_count_def [symmetric] usize_max_def)
  moreover obtain b where "pow2_from 1 n = 2 ^ b" using pow2_from_1(1) by blast
  moreover have "n \<le> pow2_from 1 n" by (rule pow2_from_1(2))
  moreover have "pow2_from 1 n \<le> usize_max" using pow2_from_1(3) [OF n(2)] by (simp add: usize_max_def)
  moreover have "pow2_from 1 16 = 16" by (simp add: pow2_from.simps)
  ultimately show thesis using that [of "pow2_from 1 n" b] n(1) by (simp add: n_def)
qed

lemma constructed_count:
  "with_capacity_and_hasher_and_shard_amount T cap h n = Return c \<Longrightarrow> reduced_shard_amount cap n = Return (shard_count c)"
  by (auto simp: with_capacity_and_hasher_and_shard_amount_def run_simps Let_def shard_count_def split: if_splits)

context shard_table
begin

lemma new_rule:
  assumes "cap \<le> usize_max" and "1 < n" and "is_power_of_two n" and "n \<le> usize_max"
    and "reduced_shard_amount cap n = Return a"
  shows "yields (lift_run (with_capacity_and_hasher_and_shard_amount T cap hash n))
    (\<lambda>c. has_room T hash rt_wf (per_shard_cap cap a) Map.empty c \<and> shard_count c = a \<and> cache_capacity c = cap)"
proof -
  obtain c where c: "with_capacity_and_hasher_and_shard_amount T cap hash n = Return c"
      "cache_ok T hash rt_wf c" "cache_vals T c = Map.empty" "cache_capacity c = cap"
    by (rule constructor_ok [OF assms(1-4)])
  moreover have "shard_count c = a" using constructed_count [OF c(1)] assms(5) by simp
  ultimately show ?thesis using tidy_constructed [OF assms(1-4) c(1)] by (simp add: has_room_def has_def)
qed

lemma new_100_room:
  assumes "threads_ok par"
  shows "yields (lift_run (NeoCache_new T par hash 100)) (has_room T hash rt_wf (room_100 par) Map.empty)"
proof -
  obtain a b where a: "default_shard_amount par = Return a" "a = 2 ^ b" "16 \<le> a" "a \<le> usize_max"
      "thread_count par * 16 \<le> a" "thread_count par = 1 \<longrightarrow> a = 16"
    by (rule default_amount [OF assms])
  have p: "is_power_of_two a" using a(2) by (auto simp: is_power_of_two_iff)
  have n: "NeoCache_new T par hash 100 = with_capacity_and_hasher_and_shard_amount T 100 hash a"
    by (simp add: NeoCache_new_def with_capacity_and_hasher_def a(1))
  have "reduced_shard_amount 100 a = Return (if thread_count par < 2 then 16 else 32)"
  proof (cases "thread_count par < 2")
    case True
    then have "thread_count par = 1" using assms by (simp add: threads_ok_def)
    then show ?thesis using a(6) by (simp add: reduced_shard_amount_def)
  next
    case False
    then have "100 < 4 * a" using a(5) by simp
    then have "100 div a < 4" using a(3) by (simp add: div_less_iff_less_mult)
    then show ?thesis using False by (simp add: reduced_shard_amount_def next_power_of_two_Return) (simp add: pow2_from.simps)
  qed
  from new_rule [OF _ _ p a(4) this] a(3) show ?thesis
    unfolding n by (auto simp: usize_max_def room_100_def per_shard_cap_def div_ceil_def elim!: yields_mono)
qed

lemma new_100_rule:
  assumes "threads_ok par"
  shows "yields (lift_run (NeoCache_new T par hash 100)) (\<lambda>c. \<exists>p \<ge> 4. has_room T hash rt_wf p Map.empty c)"
  by (rule yields_mono [OF new_100_room [OF assms]]) (auto intro!: exI [of _ "room_100 par"] simp: room_100_def)

section \<open>Insertion\<close>

lemma home_dom:
  assumes ok: "cache_ok T hash rt_wf c"
  shows "dom (shard_map T (home c k)) = {j \<in> dom (cache_vals T c). key_shard c j = key_shard c k}"
proof -
  have i: "key_shard c k < shard_count c" using home_okD(1) [OF ok, of k] by (simp add: shard_count_def)
  show ?thesis
    using cache_ok_shard(3) [OF ok i] by (auto simp: cache_vals_home home_def shard_vals_def)
qed

lemma room_not_full:
  assumes "has_room T hash rt_wf p m c" and "card {j \<in> dom m. key_shard c j = key_shard c k} < p \<or> p = 0"
  shows "\<not> shard_full (home c k)"
proof -
  have ok: "cache_ok T hash rt_wf c" and m: "cache_vals T c = m" and td: "cache_tidy T c"
      and p: "per_shard_cap (cache_capacity c) (shard_count c) = p"
    using assms(1) by (simp_all add: has_room_def has_def)
  note h = home_okD [OF ok, of k]
  have "tidy T (home c k)" using td h(1) by (simp add: cache_tidy_def home_def shard_count_def)
  from tidy_live [OF h(2) this] have "live (home c k) = card (dom (shard_map T (home c k)))"
    using shard_len_card [OF h(2)] by simp
  then show ?thesis using assms(2) h(3) p by (auto simp: shard_full_def home_dom [OF ok] m)
qed

lemma insert_rule:
  assumes room: "has_room T hash rt_wf p m c"
    and fits: "m k = None \<Longrightarrow> p = 0 \<and> card (dom m) < usize_max \<or> card {j \<in> dom m. key_shard c j = key_shard c k} < p"
  shows "yields (nc_insert T c k v) (\<lambda>(r, c'). r = m k \<and> has_room T hash rt_wf p (m(k \<mapsto> v)) c' \<and> same_config c c')"
proof -
  have ok: "cache_ok T hash rt_wf c" and m: "cache_vals T c = m" and td: "cache_tidy T c"
      and p: "per_shard_cap (cache_capacity c) (shard_count c) = p"
    using room by (simp_all add: has_room_def has_def)
  have "\<exists>c'. nc_insert T c k v = returns (m k, c') \<and> cache_ok T hash rt_wf c' \<and> same_config c c' \<and>
      cache_vals T c' = m(k \<mapsto> v)"
  proof (cases "cache_map T c k")
    case (Some e)
    then have "m k = Some (entry_val e)" by (simp add: m [symmetric] cache_map_def cache_vals_def shard_vals_def)
    then show ?thesis using nc_insert_present [OF ok Some, of v] m by auto
  next
    case None
    then have abs: "m k = None" by (simp add: m [symmetric] cache_map_def cache_vals_def shard_vals_def)
    have "small_live (home c k) < usize_max" if "cache_capacity c = 0"
      using unbounded_room [OF ok that, of k] fits [OF abs] p that m by (auto simp: per_shard_cap_def)
    moreover have "\<not> shard_full (home c k)" using room_not_full [OF room] fits [OF abs] by blast
    ultimately show ?thesis using nc_insert_absent [OF ok, of k v] abs m by (auto split: option.splits)
  qed
  then obtain c' where c': "nc_insert T c k v = returns (m k, c')" "cache_ok T hash rt_wf c'" "same_config c c'"
      "cache_vals T c' = m(k \<mapsto> v)" by blast
  moreover have "cache_tidy T c'" using tidy_step [OF ok td, of "Op_insert k v"] c'(1) by simp
  ultimately show ?thesis using p by (simp add: has_room_def has_def same_config_def)
qed

section \<open>Lookups and updates\<close>

lemma has_card: "has T hash rt_wf m c \<Longrightarrow> card (dom m) \<le> usize_max \<Longrightarrow> nc_len T c = returns (card (dom m), c)"
  using nc_len_spec [of c] by (simp add: has_def)

lemma contains_rule:
  assumes "has T hash rt_wf m c"
  shows "yields (nc_contains_key T c k) (\<lambda>(r, c'). r = (m k \<noteq> None) \<and> has T hash rt_wf m c')"
  using nc_contains_key_spec [of c k] assms by (auto simp: has_def)

lemma remove_rule:
  assumes "has T hash rt_wf m c"
  shows "yields (nc_remove T c k) (\<lambda>(r, c'). r = map_option (Pair k) (m k) \<and> has T hash rt_wf (m(k := None)) c')"
  using nc_remove_spec [of c k] assms by (auto simp: has_def)

lemma remove_if_rule:
  assumes "has T hash rt_wf m c"
  shows "yields (nc_remove_if T c k f) (\<lambda>(r, c').
    r = (case m k of Some v \<Rightarrow> if f k v then Some (k, v) else None | None \<Rightarrow> None) \<and>
    has T hash rt_wf (case m k of Some v \<Rightarrow> if f k v then m(k := None) else m | None \<Rightarrow> m) c')"
  using nc_remove_if_spec [of c k f] assms by (auto simp: has_def)

lemma clear_rule:
  assumes "has T hash rt_wf m c"
  shows "yields (nc_clear T c) (\<lambda>(u, c'). has T hash rt_wf Map.empty c')"
  using nc_clear_spec [of c] assms by (auto simp: has_def)

lemma retain_rule:
  assumes "has T hash rt_wf m c" and "\<And>st k v. case f st k v of (keep, v', st') \<Rightarrow> (keep, v') = q k v"
  shows "yields (nc_retain T c f st) (\<lambda>(st', c'). has T hash rt_wf (retained q m) c')"
  using nc_retain_spec [where c = c and f = f and p = q and st = st, OF _ assms(2)] assms(1) by (auto simp: has_def)

lemma or_insert_rule:
  assumes room: "has_room T hash rt_wf p m c" and cap: "0 < p"
    and fits: "m k = None \<Longrightarrow> card {j \<in> dom m. key_shard c j = key_shard c k} < p"
  shows "yields (nc_call T (Or_insert k v) c) (\<lambda>(a, c').
    has T hash rt_wf (case m k of None \<Rightarrow> m(k \<mapsto> v) | Some w \<Rightarrow> m) c' \<and> (m k = None \<longrightarrow> has_room T hash rt_wf p (m(k \<mapsto> v)) c'))"
proof -
  have ok: "cache_ok T hash rt_wf c" and m: "cache_vals T c = m"
      and p: "per_shard_cap (cache_capacity c) (shard_count c) = p"
    using room by (simp_all add: has_room_def has_def)
  have c: "nc_room T (Suc 0) c" using cap p by (simp add: nc_room_def per_shard_cap_def split: if_splits)
  show ?thesis
  proof (cases "cache_map T c k")
    case None
    then have abs: "m k = None" by (simp add: m [symmetric] cache_map_def cache_vals_def shard_vals_def)
    have "yields (nc_insert T c k v) (\<lambda>(r, c'). r = m k \<and> has_room T hash rt_wf p (m(k \<mapsto> v)) c' \<and> same_config c c')"
      using fits by (intro insert_rule [OF room]) simp
    then show ?thesis
      using vacant_or_insert [OF ok c None, of v] abs
      by (auto simp: yields_def has_room_has simp del: nc_call.simps)
  next
    case (Some e)
    then have pr: "m k = Some (entry_val e)" by (simp add: m [symmetric] cache_map_def cache_vals_def shard_vals_def)
    obtain a c' where a: "nc_call T (Or_insert k v) c = returns (a, c')" "cache_ok T hash rt_wf c'"
        "lossy_step (0 < cache_capacity c) (key_shard c) (Or_insert k v) a (cache_vals T c) (cache_vals T c')"
      using lossy_or_insert [OF ok c, of k v] by blast
    from a(3) have "cache_vals T c' = m" by (auto simp: lossy_step_def pr m)
    with a(1,2) show ?thesis by (auto simp: yields_def has_def pr simp del: nc_call.simps)
  qed
qed

section \<open>Loops of insertions\<close>

text \<open>With room for all of its keys in every shard, a loop of insertions evicts nothing.\<close>

lemma insert_each_rule:
  assumes room: "has_room T hash rt_wf p Map.empty c" and d: "distinct (map fst ps)"
    and fits: "p = 0 \<and> length ps \<le> usize_max \<or> (\<forall>i. card {k \<in> fst ` set ps. key_shard c k = i} \<le> p)"
  shows "yields (comp_for (\<lambda>x c. comp_bind (nc_insert T c (fst x) (snd x)) (\<lambda>(_, c'). returns c')) ps c)
    (\<lambda>c'. has_room T hash rt_wf p (map_of ps) c' \<and> same_config c c')"
proof (rule comp_for_prefix [where I = "\<lambda>ys c'. has_room T hash rt_wf p (map_of ys) c' \<and> same_config c c'"])
  show "has_room T hash rt_wf p (map_of []) c \<and> same_config c c" using room by simp
next
  fix ys x zs s
  assume ps: "ps = ys @ x # zs" and "has_room T hash rt_wf p (map_of ys) s \<and> same_config c s"
  then have r: "has_room T hash rt_wf p (map_of ys) s" and s: "same_config c s" by simp_all
  have x: "fst x \<notin> fst ` set ys" using d ps by auto
  have "p = 0 \<and> card (dom (map_of ys)) < usize_max \<or> card {j \<in> dom (map_of ys). key_shard s j = key_shard s (fst x)} < p"
  proof (cases "p = 0 \<and> length ps \<le> usize_max")
    case True
    have "card (dom (map_of ys)) \<le> length ys" using card_length [of "map fst ys"] by (simp add: dom_map_of_conv_image_fst)
    then show ?thesis using True ps by auto
  next
    case False
    let ?K = "{j \<in> dom (map_of ys). key_shard s j = key_shard s (fst x)}"
    have "insert (fst x) ?K \<subseteq> {k \<in> fst ` set ps. key_shard c k = key_shard s (fst x)}"
      using ps s by (auto simp: dom_map_of_conv_image_fst same_config_key_shard)
    then have "card (insert (fst x) ?K) \<le> card {k \<in> fst ` set ps. key_shard c k = key_shard s (fst x)}"
      by (intro card_mono) simp_all
    also have "\<dots> \<le> p" using fits False by blast
    finally show ?thesis using x by (simp add: dom_map_of_conv_image_fst)
  qed
  then have "yields (nc_insert T s (fst x) (snd x)) (\<lambda>(r, c'). r = map_of ys (fst x) \<and>
      has_room T hash rt_wf p ((map_of ys)(fst x \<mapsto> snd x)) c' \<and> same_config s c')"
    by (rule insert_rule [OF r])
  moreover have "map_of (ys @ [x]) = (map_of ys)(fst x \<mapsto> snd x)"
    using x map_add_comm [of "[fst x \<mapsto> snd x]" "map_of ys"] by (cases x) (simp add: dom_map_of_conv_image_fst)
  moreover have "same_config c c'" if "same_config s c'" for c' using s that by (simp add: same_config_def)
  ultimately show "yields (comp_bind (nc_insert T s (fst x) (snd x)) (\<lambda>(_, c'). returns c'))
      (\<lambda>c'. has_room T hash rt_wf p (map_of (ys @ [x])) c' \<and> same_config c c')"
    by (auto elim!: yields_mono)
qed

text \<open>In any bounded cache a loop of insertions returns and keeps the invariant and the configuration.\<close>

lemma insert_each_bounded:
  assumes "cache_ok T hash rt_wf c" and "0 < cache_capacity c"
  shows "yields (comp_for (\<lambda>x c. comp_bind (nc_insert T c (fst x) (snd x)) (\<lambda>(_, c'). returns c')) ps c)
    (\<lambda>c'. cache_ok T hash rt_wf c' \<and> same_config c c')"
proof (rule comp_for_inv [where I = "\<lambda>c'. cache_ok T hash rt_wf c' \<and> same_config c c'"])
  fix x s
  assume "cache_ok T hash rt_wf s \<and> same_config c s"
  then have s: "cache_ok T hash rt_wf s" "same_config c s" "nc_room T (Suc 0) s"
    using assms(2) by (simp_all add: same_config_def nc_room_def)
  obtain c' where "nc_insert T s (fst x) (snd x) = returns (cache_vals T s (fst x), c')" "cache_ok T hash rt_wf c'"
      "same_config s c'"
    using lossy_insert [OF s(1,3)] by blast
  then show "yields (comp_bind (nc_insert T s (fst x) (snd x)) (\<lambda>(_, c'). returns c'))
      (\<lambda>c'. cache_ok T hash rt_wf c' \<and> same_config c c')"
    using s(2) by (simp add: same_config_def)
qed (simp add: assms)

end

end
