(* ===== verification/Crate_Tests.thy ===== *)
theory Crate_Tests
  imports Call_Rules
begin

text \<open>
  The unit tests of \<open>src/lib.rs\<close> as programs over the model, for any hash table, any hasher (each
  test map draws a random one) and any parallelism. An assertion that fails panics. A guard
  that a statement returns and drops is dropped at the end of the statement. Numbers are
  small, so they are natural numbers here; string slices are strings.
\<close>

definition assert_that :: "bool \<Rightarrow> unit comp" where
  "assert_that b = (if b then returns () else Some (Panic Assert_failed))"

definition opt_unwrap :: "'a option \<Rightarrow> 'a comp" where
  "opt_unwrap r = (case r of Some x \<Rightarrow> returns x
     | None \<Rightarrow> Some (Panic (Unwrap_failed ''called `Option::unwrap()` on a `None` value'')))"

text \<open>\<open>*map.get(k).unwrap()\<close> and \<open>*map.try_get(k).unwrap()\<close>.\<close>

definition deref_get :: "('k, 'v, 't) table \<Rightarrow> ('k, 't) NeoCache \<Rightarrow> 'k \<Rightarrow> ('v \<times> ('k, 't) NeoCache) comp" where
  "deref_get T c k = comp_bind (comp_bind (pub_get T c k) unwrap_ref) (\<lambda>(r, c1).
     returns (ref_value T c1 r, drop_read_guard c1 (ref_shard r)))"

definition deref_try_get :: "('k, 'v, 't) table \<Rightarrow> ('k, 't) NeoCache \<Rightarrow> 'k \<Rightarrow> ('v \<times> ('k, 't) NeoCache) comp" where
  "deref_try_get T c k = comp_bind (lift_run (pub_try_get T c k)) (\<lambda>(x, c1).
     comp_bind (lift_run (tr_unwrap x)) (\<lambda>r.
     returns (ref_value T c1 r, drop_read_guard c1 (ref_shard r))))"

text \<open>\<open>map.get(k).is_some()\<close>, and \<open>let _ = map.get(k)\<close> when the answer is ignored.\<close>

definition get_dropped :: "('k, 'v, 't) table \<Rightarrow> ('k, 't) NeoCache \<Rightarrow> 'k \<Rightarrow> (bool \<times> ('k, 't) NeoCache) comp" where
  "get_dropped T c k = comp_bind (pub_get T c k) (\<lambda>(r, c1). case r of
     None \<Rightarrow> returns (False, c1) | Some r \<Rightarrow> returns (True, drop_read_guard c1 (ref_shard r)))"

text \<open>\<open>map.entry(k).or_insert(v);\<close>\<close>

definition or_insert_dropped :: "('k, 'v, 't) table \<Rightarrow> ('k, 't) NeoCache \<Rightarrow> 'k \<Rightarrow> 'v \<Rightarrow> ('k, 't) NeoCache comp" where
  "or_insert_dropped T c k v = comp_bind (pub_entry T c k) (\<lambda>(en, c1).
     comp_bind (entry_or_insert T c1 en v) (\<lambda>(r, c2). lift_run (drop_write_guard c2 (ref_shard r))))"

text \<open>\<open>for i in 0..n { map.insert(i, i); }\<close>\<close>

definition insert_range :: "(nat, nat, 't) table \<Rightarrow> nat \<Rightarrow> (nat, 't) NeoCache \<Rightarrow> (nat, 't) NeoCache comp" where
  "insert_range T n c = comp_for (\<lambda>i c. comp_bind (pub_insert T c i i) (\<lambda>(_, c'). returns c')) [0..<n] c"

definition get_times :: "('k, 'v, 't) table \<Rightarrow> nat \<Rightarrow> 'k \<Rightarrow> ('k, 't) NeoCache \<Rightarrow> ('k, 't) NeoCache comp" where
  "get_times T n k c = comp_for (\<lambda>_ c. comp_bind (get_dropped T c k) (\<lambda>(_, c'). returns c')) [0..<n] c"

section \<open>The tests\<close>

definition test_insert_and_get :: "(string, nat, 't) table \<Rightarrow> usize option \<Rightarrow> (string \<Rightarrow> u64) \<Rightarrow> unit comp" where
  "test_insert_and_get T par h =
     comp_bind (lift_run (NeoCache_new T par h 100)) (\<lambda>c.
     comp_bind (pub_insert T c ''hello'' 42) (\<lambda>(_, c).
     comp_bind (deref_get T c ''hello'') (\<lambda>(v, c).
     assert_that (v = 42))))"

definition test_insert_returns_old_value :: "(string, nat, 't) table \<Rightarrow> usize option \<Rightarrow> (string \<Rightarrow> u64) \<Rightarrow> unit comp" where
  "test_insert_returns_old_value T par h =
     comp_bind (lift_run (NeoCache_new T par h 100)) (\<lambda>c.
     comp_bind (pub_insert T c ''k'' 1) (\<lambda>(r, c). comp_bind (assert_that (r = None)) (\<lambda>_.
     comp_bind (pub_insert T c ''k'' 2) (\<lambda>(r, c). comp_bind (assert_that (r = Some 1)) (\<lambda>_.
     comp_bind (deref_get T c ''k'') (\<lambda>(v, c).
     assert_that (v = 2)))))))"

definition test_remove :: "(nat, string, 't) table \<Rightarrow> usize option \<Rightarrow> (nat \<Rightarrow> u64) \<Rightarrow> unit comp" where
  "test_remove T par h =
     comp_bind (lift_run (NeoCache_new T par h 100)) (\<lambda>c.
     comp_bind (pub_insert T c 1 ''a'') (\<lambda>(_, c).
     comp_bind (pub_remove T c 1) (\<lambda>(r, c). comp_bind (opt_unwrap r) (\<lambda>(k, v).
     comp_bind (assert_that (k = 1)) (\<lambda>_.
     comp_bind (assert_that (v = ''a'')) (\<lambda>_.
     comp_bind (get_dropped T c 1) (\<lambda>(found, c).
     assert_that (\<not> found))))))))"

definition test_get_bumps_freq :: "(string, nat, 't) table \<Rightarrow> usize option \<Rightarrow> (string \<Rightarrow> u64) \<Rightarrow> unit comp" where
  "test_get_bumps_freq T par h =
     comp_bind (lift_run (NeoCache_new T par h 100)) (\<lambda>c.
     comp_bind (pub_insert T c ''key'' 0) (\<lambda>(_, c).
     comp_bind (get_times T 5 ''key'' c) (\<lambda>c.
     comp_bind (nc_contains_key T c ''key'') (\<lambda>(found, c).
     assert_that found))))"

definition test_eviction_respects_capacity :: "(nat, nat, 't) table \<Rightarrow> (nat \<Rightarrow> u64) \<Rightarrow> unit comp" where
  "test_eviction_respects_capacity T h =
     (let cap = 64 in
     comp_bind (lift_run (with_shard_amount T h cap 4)) (\<lambda>c.
     comp_bind (insert_range T 200 c) (\<lambda>c.
     comp_bind (pub_len T c) (\<lambda>(n, c).
     assert_that (n \<le> cap)))))"

definition test_entry_or_insert :: "(string, nat, 't) table \<Rightarrow> usize option \<Rightarrow> (string \<Rightarrow> u64) \<Rightarrow> unit comp" where
  "test_entry_or_insert T par h =
     comp_bind (lift_run (NeoCache_new T par h 100)) (\<lambda>c.
     comp_bind (or_insert_dropped T c ''k'' 1) (\<lambda>c.
     comp_bind (or_insert_dropped T c ''k'' 99) (\<lambda>c.
     comp_bind (deref_get T c ''k'') (\<lambda>(v, c).
     assert_that (v = 1)))))"

definition test_retain :: "(nat, nat, 't) table \<Rightarrow> usize option \<Rightarrow> (nat \<Rightarrow> u64) \<Rightarrow> unit comp" where
  "test_retain T par h =
     comp_bind (lift_run (NeoCache_new T par h 100)) (\<lambda>c.
     comp_bind (insert_range T 10 c) (\<lambda>c.
     comp_bind (pub_retain T c (\<lambda>_ k v. (k mod 2 = 0, v, ())) ()) (\<lambda>(_, c).
     comp_bind (pub_len T c) (\<lambda>(n, c). comp_bind (assert_that (n = 5)) (\<lambda>_.
     comp_bind (comp_for (\<lambda>i c. comp_bind (nc_contains_key T c i) (\<lambda>(found, c').
         comp_bind (assert_that found) (\<lambda>_. returns c'))) [0, 2, 4, 6, 8] c) (\<lambda>_.
     returns ()))))))"

definition test_iter_count :: "(nat, nat, 't) table \<Rightarrow> usize option \<Rightarrow> (nat \<Rightarrow> u64) \<Rightarrow> unit comp" where
  "test_iter_count T par h =
     comp_bind (lift_run (new_unbounded T par h)) (\<lambda>c.
     comp_bind (insert_range T 20 c) (\<lambda>c.
     comp_bind (nc_for_each T (\<lambda>n _. Ok (n + 1) :: (nat, unit) result) c 0) (\<lambda>(r, c).
     assert_that (r = Ok 20))))"

definition test_into_iter :: "(nat, string, 't) table \<Rightarrow> usize option \<Rightarrow> (nat \<Rightarrow> u64) \<Rightarrow> unit comp" where
  "test_into_iter T par h =
     comp_bind (lift_run (NeoCache_new T par h 100)) (\<lambda>c.
     comp_bind (pub_insert T c 1 ''a'') (\<lambda>(_, c).
     comp_bind (pub_insert T c 2 ''b'') (\<lambda>(_, c).
     comp_bind (nc_into_iter T (\<lambda>ps p. ps @ [p]) c []) (\<lambda>pairs.
     assert_that (sort_key fst pairs = [(1, ''a''), (2, ''b'')])))))"

definition test_clear :: "(nat, nat, 't) table \<Rightarrow> usize option \<Rightarrow> (nat \<Rightarrow> u64) \<Rightarrow> unit comp" where
  "test_clear T par h =
     comp_bind (lift_run (NeoCache_new T par h 100)) (\<lambda>c.
     comp_bind (insert_range T 10 c) (\<lambda>c.
     comp_bind (nc_clear T c) (\<lambda>(_, c).
     comp_bind (pub_len T c) (\<lambda>(n, c).
     assert_that (n = 0)))))"

text \<open>The guard \<open>_lock\<close> lives to the end of the test.\<close>

definition test_try_get :: "(string, nat, 't) table \<Rightarrow> usize option \<Rightarrow> (string \<Rightarrow> u64) \<Rightarrow> unit comp" where
  "test_try_get T par h =
     comp_bind (lift_run (NeoCache_new T par h 100)) (\<lambda>c.
     comp_bind (pub_insert T c ''x'' 7) (\<lambda>(_, c).
     comp_bind (deref_try_get T c ''x'') (\<lambda>(v, c). comp_bind (assert_that (v = 7)) (\<lambda>_.
     comp_bind (pub_get_mut T c ''x'') (\<lambda>(lock, c).
     comp_bind (lift_run (pub_try_get T c ''x'')) (\<lambda>(x, c). comp_bind (assert_that (is_locked x)) (\<lambda>_.
     case lock of None \<Rightarrow> returns ()
     | Some r \<Rightarrow> comp_bind (lift_run (drop_write_guard c (ref_shard r))) (\<lambda>_. returns ()))))))))"

definition test_remove_if :: "(nat, nat, 't) table \<Rightarrow> usize option \<Rightarrow> (nat \<Rightarrow> u64) \<Rightarrow> unit comp" where
  "test_remove_if T par h =
     comp_bind (lift_run (NeoCache_new T par h 100)) (\<lambda>c.
     comp_bind (pub_insert T c 1 10) (\<lambda>(_, c).
     comp_bind (pub_remove_if T c 1 (\<lambda>_ v. v > 5)) (\<lambda>(r, c). comp_bind (assert_that (r \<noteq> None)) (\<lambda>_.
     comp_bind (pub_remove_if T c 1 (\<lambda>_ v. v > 5)) (\<lambda>(r, c).
     assert_that (r = None))))))"

definition test_unbounded_grows_without_eviction :: "(nat, nat, 't) table \<Rightarrow> usize option \<Rightarrow> (nat \<Rightarrow> u64) \<Rightarrow> unit comp" where
  "test_unbounded_grows_without_eviction T par h =
     comp_bind (lift_run (new_unbounded T par h)) (\<lambda>c.
     comp_bind (insert_range T 1000 c) (\<lambda>c.
     comp_bind (pub_len T c) (\<lambda>(n, c).
     assert_that (n = 1000))))"

definition test_replace_entry_returns_old_and_stores_new ::
    "(nat, string, 't) table \<Rightarrow> usize option \<Rightarrow> (nat \<Rightarrow> u64) \<Rightarrow> unit comp" where
  "test_replace_entry_returns_old_and_stores_new T par h =
     comp_bind (lift_run (NeoCache_new T par h 100)) (\<lambda>c.
     comp_bind (pub_insert T c 1 ''original'') (\<lambda>(_, c).
     comp_bind (get_times T 3 1 c) (\<lambda>c.
     comp_bind (pub_entry T c 1) (\<lambda>(en, c).
     comp_bind (case en of Occupied occ \<Rightarrow> lift_run (occ_replace_entry T c occ ''replaced'')
                | Vacant e \<Rightarrow> Some (Panic (Unwrap_failed ''key must be present''))) (\<lambda>(old_pair, c).
     comp_bind (assert_that (old_pair = (1, ''original''))) (\<lambda>_.
     comp_bind (deref_get T c 1) (\<lambda>(v, c). comp_bind (assert_that (v = ''replaced'')) (\<lambda>_.
     comp_bind (pub_len T c) (\<lambda>(n, c).
     assert_that (n = 1))))))))))"

section \<open>Rules for the statements of the tests\<close>

lemmas test_defs = pub_insert_def pub_get_def pub_get_mut_def pub_try_get_def pub_remove_def pub_remove_if_def
  pub_len_def pub_retain_def pub_entry_def

lemma yields_assert [simp]: "yields (assert_that b) Q \<longleftrightarrow> b \<and> Q ()"
  by (simp add: assert_that_def)

lemma yields_unwrap [simp]: "yields (opt_unwrap r) Q \<longleftrightarrow> (\<exists>x. r = Some x \<and> Q x)"
  by (simp add: opt_unwrap_def split: option.split)

lemma passed: "yields m (\<lambda>u. True) \<Longrightarrow> m = returns ()"
  by (simp add: yields_def)

lemma get_dropped_contains: "get_dropped T c k = nc_contains_key T c k"
  by (simp add: get_dropped_def nc_contains_key_def pub_get_def)

lemma deref_get_view:
  "deref_get T c k = comp_bind (nc_view T c k (\<lambda>_ v. v)) (\<lambda>(r, c'). comp_bind (opt_unwrap r) (\<lambda>v. returns (v, c')))"
proof -
  have "deref_get T c k = comp_bind (nc_get T c k) (\<lambda>x. comp_bind (unwrap_ref x) (\<lambda>(r, c1).
      returns (ref_value T c1 r, drop_read_guard c1 (ref_shard r))))"
    by (simp add: deref_get_def pub_get_def comp_bind_assoc)
  also have "\<dots> = comp_bind (nc_view T c k (\<lambda>_ v. v)) (\<lambda>(r, c'). comp_bind (opt_unwrap r) (\<lambda>v. returns (v, c')))"
    unfolding nc_view_def comp_bind_assoc
    by (rule arg_cong [where f = "comp_bind (nc_get T c k)"])
      (auto simp: fun_eq_iff unwrap_ref_def opt_unwrap_def ref_value_def split_def split: option.split)
  finally show ?thesis .
qed

lemma or_insert_dropped_call:
  "or_insert_dropped T c k v = comp_bind (nc_call T (Or_insert k v) c) (\<lambda>(a, c'). returns c')"
  by (simp add: or_insert_dropped_def pub_entry_def comp_bind_assoc split_def)

context shard_table
begin

lemma deref_get_rule:
  assumes "has T hash rt_wf m c" and "m k = Some v"
  shows "yields (deref_get T c k) (\<lambda>(x, c'). x = v \<and> has T hash rt_wf m c')"
  using nc_view_spec [of c k "\<lambda>_ v. v"] assms by (auto simp: has_def deref_get_view)

lemma get_times_rule:
  assumes "has T hash rt_wf m c"
  shows "yields (get_times T n k c) (has T hash rt_wf m)"
  unfolding get_times_def
proof (rule comp_for_inv [where I = "has T hash rt_wf m"])
  show "has T hash rt_wf m c" by (rule assms)
next
  fix i s assume "has T hash rt_wf m s"
  from contains_rule [OF this, of k]
  show "yields (comp_bind (get_dropped T s k) (\<lambda>(_, c'). returns c')) (has T hash rt_wf m)"
    by (auto simp: get_dropped_contains elim!: yields_mono)
qed

lemma deref_try_get_rule:
  assumes "has T hash rt_wf m c" and "m k = Some v"
  shows "yields (deref_try_get T c k) (\<lambda>(x, c'). x = v \<and> has T hash rt_wf m c')"
proof -
  have ok: "cache_ok T hash rt_wf c" and m: "cache_vals T c = m" using assms(1) by (simp_all add: has_def)
  obtain e where e: "cache_map T c k = Some e" "v = entry_val e"
    using assms(2) m by (auto simp: cache_map_def cache_vals_def shard_vals_def)
  show ?thesis
    by (rule nc_get_hit [OF ok e(1)])
      (simp add: deref_try_get_def pub_try_get_def ref_value_def ref_pair_hit [OF ok] drop_hit_guard [OF ok] has_def m e(2))
qed

text \<open>While the holder of a \<open>RefMut\<close> keeps it, a \<open>try_get\<close> of the same key reports \<open>Locked\<close>.\<close>

lemma locked_rule:
  assumes "has T hash rt_wf m c" and "m k = Some v"
  shows "yields (nc_get_mut T c k) (\<lambda>(lock, c1). nc_try_get T c1 k = Return (Locked, c1) \<and>
    (\<exists>r c2. lock = Some r \<and> drop_write_guard c1 (ref_shard r) = Return c2))"
proof -
  have ok: "cache_ok T hash rt_wf c" and m: "cache_vals T c = m" using assms(1) by (simp_all add: has_def)
  obtain e where e: "cache_map T c k = Some e"
    using assms(2) m by (auto simp: cache_map_def cache_vals_def shard_vals_def)
  have i: "key_shard c k < length (shards c)" by (rule home_okD(1) [OF ok])
  show ?thesis
    by (rule nc_get_hit [OF ok e]) (simp add: key_readers_wait word_at_def i hit_state_facts [OF ok] drop_hit_guard [OF ok])
qed

lemma into_iter_rule:
  assumes "has T hash rt_wf m c"
  shows "yields (nc_into_iter T (\<lambda>ps p. ps @ [p]) c []) (\<lambda>ps. distinct (map fst ps) \<and> map_of ps = m)"
proof -
  have ok: "cache_ok T hash rt_wf c" and m: "cache_vals T c = m" using assms(1) by (simp_all add: has_def)
  let ?ps = "concat (map (into_pairs T) (shard_list c))"
  have s: "mset ?ps = mset (cache_pairs T c)" by (rule into_pairs_mset [OF ok])
  have d: "distinct (map fst ?ps)" using cache_pairs_distinct [OF ok] distinct_mset_map [OF s] by blast
  have "map_of ?ps = m" using map_of_mset_eq [OF s d] cache_pairs_map [OF ok] m by simp
  moreover have "foldl (\<lambda>ps p. ps @ [p]) xs ys = xs @ ys" for xs ys :: "('k \<times> 'v) list"
    by (induction ys arbitrary: xs) simp_all
  ultimately show ?thesis using d by (simp add: nc_into_iter_spec [OF cache_okD(3) [OF ok]])
qed

lemma iter_count_rule:
  assumes "has T hash rt_wf m c"
  shows "nc_for_each T (\<lambda>n _. Ok (n + 1) :: (nat, unit) result) c 0 = returns (Ok (card (dom m)), c)"
proof -
  have ok: "cache_ok T hash rt_wf c" and m: "cache_vals T c = m" using assms(1) by (simp_all add: has_def)
  have "try_fold (\<lambda>n _. Ok (n + 1) :: (nat, unit) result) a ps = Ok (a + length ps)" for a and ps :: "('k \<times> 'v) list"
    by (induction ps arbitrary: a) simp_all
  moreover have "card (dom m) = length (cache_pairs T c)"
    using distinct_card [OF cache_pairs_distinct [OF ok]] cache_pairs_map [OF ok] m
    by (metis dom_map_of_conv_image_fst length_map list.set_map)
  ultimately show ?thesis
    by (simp add: nc_for_each_spec [OF cache_okD(3) [OF ok] cache_ok_count [OF ok]])
qed

lemma replace_rule:
  assumes "has T hash rt_wf m c" and "m k = Some v"
  shows "yields (nc_entry T c k) (\<lambda>(en, c1). \<exists>occ c2. en = Occupied occ \<and>
    occ_replace_entry T c1 occ w = Return ((k, v), c2) \<and> has T hash rt_wf (m(k \<mapsto> w)) c2)"
proof -
  have ok: "cache_ok T hash rt_wf c" and m: "cache_vals T c = m" using assms(1) by (simp_all add: has_def)
  obtain e where e: "cache_map T c k = Some e" "v = entry_val e"
    using assms(2) m by (auto simp: cache_map_def cache_vals_def shard_vals_def)
  obtain oe s where en: "nc_entry T c k = returns (Occupied oe, hit_state c k ONE_WRITER s)"
    and oe: "occupied_at T c k e s oe" "cache_ok T hash rt_wf (put_shard c (key_shard c k) s)"
      "cache_map T (put_shard c (key_shard c k) s) = cache_map T c"
    by (rule nc_entry_occupied [OF ok e(1), of undefined])
  show ?thesis by (rule occ_replace_spec [OF ok oe, of w]) (simp add: en has_def e(2) m)
qed

end

lemma insert_range_conv:
  "insert_range T n c = comp_for (\<lambda>x c. comp_bind (nc_insert T c (fst x) (snd x)) (\<lambda>(_, c'). returns c'))
     (map (\<lambda>i. (i, i)) [0..<n]) c"
  by (simp add: insert_range_def comp_for_map pub_insert_def)

lemma insert_range_rule:
  assumes "shard_table T hash tok sok" and "has_room T hash tok p Map.empty c"
    and "p = 0 \<and> n \<le> usize_max \<or> (\<forall>i. card {k \<in> {..<n}. key_shard c k = i} \<le> p)"
  shows "yields (insert_range T n c) (\<lambda>c'. has_room T hash tok p (\<lambda>k. if k < n then Some k else None) c' \<and> same_config c c')"
proof -
  have m: "map_of (map (\<lambda>i. (i, i)) [0..<n]) = (\<lambda>k. if k < n then Some k else None)"
    by (simp add: map_of_map_restrict restrict_map_def fun_eq_iff comp_def)
  have s: "fst ` set (map (\<lambda>i. (i, i)) [0..<n]) = {..<n}" by force
  have "yields (insert_range T n c) (\<lambda>c'. has_room T hash tok p (map_of (map (\<lambda>i. (i, i)) [0..<n])) c' \<and> same_config c c')"
    unfolding insert_range_conv using assms(3)
    by (intro shard_table.insert_each_rule [OF assms(1,2)]) (unfold s, simp_all add: comp_def)
  then show ?thesis unfolding m .
qed

end
