(* ===== verification/Crate_Test_Properties.thy ===== *)
theory Crate_Test_Properties
  imports Crate_Tests
begin

text \<open>
  The unit tests of \<open>src/lib.rs\<close> pass for every hasher and every parallelism (theory
  \<open>Integration_Tests\<close> states it together with the integration tests), with one exception:
  whether the test of \<open>retain\<close> passes depends on how the random hasher spreads its ten keys.
\<close>

section \<open>Each test passes\<close>

lemma few_fit:
  "finite (dom m) \<Longrightarrow> card (dom m) < p \<Longrightarrow> card {j \<in> dom m. hm j = hm k} < (p::nat)"
  by (rule le_less_trans [OF card_mono]) auto

text \<open>The start of most tests: a cache for 100 entries and one insertion into it.\<close>

lemma new_insert_rule:
  assumes "shard_table T hash tok sok" and "threads_ok par"
  shows "yields (lift_run (NeoCache_new T par hash 100)) (\<lambda>c. yields (nc_insert T c k v) (\<lambda>(r, c').
    r = None \<and> (\<exists>p \<ge> 4. has_room T hash tok p [k \<mapsto> v] c')))"
proof (rule yields_mono [OF shard_table.new_100_rule [OF assms]])
  fix c assume "\<exists>p \<ge> 4. has_room T hash tok p Map.empty c"
  then obtain p where p: "4 \<le> p" "has_room T hash tok p Map.empty c" by blast
  show "yields (nc_insert T c k v) (\<lambda>(r, c'). r = None \<and> (\<exists>p \<ge> 4. has_room T hash tok p [k \<mapsto> v] c'))"
    by (rule yields_mono [OF shard_table.insert_rule [OF assms(1) p(2)]]) (use p(1) in auto)
qed

text \<open>A test whose first two statements are these passes if the rest of it does.\<close>

lemma after_new_insert:
  assumes "shard_table T hash tok sok" and "threads_ok par"
    and "\<And>p c. 4 \<le> p \<Longrightarrow> has_room T hash tok p [k \<mapsto> v] c \<Longrightarrow> yields (rest None c) (\<lambda>u. True)"
  shows "comp_bind (lift_run (NeoCache_new T par hash 100)) (\<lambda>c. comp_bind (pub_insert T c k v) (\<lambda>(r, c). rest r c)) = returns ()"
proof (rule passed)
  show "yields (comp_bind (lift_run (NeoCache_new T par hash 100)) (\<lambda>c.
      comp_bind (pub_insert T c k v) (\<lambda>(r, c). rest r c))) (\<lambda>u. True)"
    unfolding yields_simps(4) pub_insert_def
    by (rule yields_mono [OF new_insert_rule [OF assms(1,2)]], erule yields_mono) (auto intro: assms(3))
qed

lemma insert_and_get_passes:
  assumes "shard_table T hash tok sok" and "threads_ok par"
  shows "test_insert_and_get T par hash = returns ()"
  unfolding test_insert_and_get_def
  by (rule after_new_insert [OF assms],
      drule shard_table.deref_get_rule [OF assms(1) has_room_has, where k = "''hello''"]) (auto elim!: yields_mono)

lemma insert_returns_old_value_passes:
  assumes "shard_table T hash tok sok" and "threads_ok par"
  shows "test_insert_returns_old_value T par hash = returns ()"
  unfolding test_insert_returns_old_value_def
proof (rule after_new_insert [OF assms], simp only: yields_simps yields_assert pub_insert_def, rule conjI [OF refl])
  fix p c
  assume "has_room T hash tok p [''k'' \<mapsto> 1] c"
  from shard_table.insert_rule [OF assms(1) this, of "''k''" 2]
  have "yields (nc_insert T c ''k'' 2) (\<lambda>(r, c'). r = Some 1 \<and> has_room T hash tok p [''k'' \<mapsto> 2] c')"
    by (auto elim!: yields_mono)
  then show "yields (nc_insert T c ''k'' 2) (\<lambda>r. yields (case r of (r, c) \<Rightarrow> comp_bind (assert_that (r = Some 1)) (\<lambda>_.
     comp_bind (deref_get T c ''k'') (\<lambda>(v, c). assert_that (v = 2)))) (\<lambda>u. True))"
    by (rule yields_mono) (auto dest!: shard_table.deref_get_rule [OF assms(1) has_room_has, where k = "''k''"] elim!: yields_mono)
qed

lemma remove_passes:
  assumes "shard_table T hash tok sok" and "threads_ok par"
  shows "test_remove T par hash = returns ()"
  unfolding test_remove_def
  by (rule after_new_insert [OF assms], drule shard_table.remove_rule [OF assms(1) has_room_has, where k = 1])
    (auto simp: pub_remove_def get_dropped_contains dest!: shard_table.contains_rule [OF assms(1), where k = 1] elim!: yields_mono)

lemma get_bumps_freq_passes:
  assumes "shard_table T hash tok sok" and "threads_ok par"
  shows "test_get_bumps_freq T par hash = returns ()"
  unfolding test_get_bumps_freq_def
  by (rule after_new_insert [OF assms],
      drule shard_table.get_times_rule [OF assms(1) has_room_has, where k = "''key''" and n = 5])
    (auto dest!: shard_table.contains_rule [OF assms(1), where k = "''key''"] elim!: yields_mono)

lemma try_get_passes:
  assumes "shard_table T hash tok sok" and "threads_ok par"
  shows "test_try_get T par hash = returns ()"
  unfolding test_try_get_def
  by (rule after_new_insert [OF assms], drule shard_table.deref_try_get_rule [OF assms(1) has_room_has, where k = "''x''"])
    (auto simp: pub_get_mut_def pub_try_get_def dest!: shard_table.locked_rule [OF assms(1), where k = "''x''"] elim!: yields_mono)

lemma remove_if_passes:
  assumes "shard_table T hash tok sok" and "threads_ok par"
  shows "test_remove_if T par hash = returns ()"
  unfolding test_remove_if_def pub_remove_if_def
  by (rule after_new_insert [OF assms],
      drule shard_table.remove_if_rule [OF assms(1) has_room_has, where k = 1 and f = "\<lambda>_ v. 5 < v"])
    (auto dest!: shard_table.remove_if_rule [OF assms(1), where k = 1 and f = "\<lambda>_ v. 5 < v"] elim!: yields_mono)

lemma replace_entry_passes:
  assumes "shard_table T hash tok sok" and "threads_ok par"
  shows "test_replace_entry_returns_old_and_stores_new T par hash = returns ()"
  unfolding test_replace_entry_returns_old_and_stores_new_def pub_entry_def pub_len_def
proof (rule after_new_insert [OF assms])
  fix p c
  assume "has_room T hash tok p [1 \<mapsto> ''original''] c"
  note got = shard_table.get_times_rule [OF assms(1) has_room_has [OF this], of 3 1]
  have "yields (deref_get T c2 1) (\<lambda>(v, c). v = ''replaced'' \<and> nc_len T c = returns (1, c))"
    if "has T hash tok [1 \<mapsto> ''replaced''] c2" for c2
  proof -
    have "yields (deref_get T c2 1) (\<lambda>(v, c). v = ''replaced'' \<and> has T hash tok [1 \<mapsto> ''replaced''] c)"
      by (rule shard_table.deref_get_rule [OF assms(1) that]) simp
    then show ?thesis
      by (rule yields_mono) (auto simp: usize_max_def dest!: shard_table.has_card [OF assms(1)])
  qed
  then have entry: "yields (nc_entry T c1 1) (\<lambda>(en, c1). \<exists>occ c2. en = Occupied occ \<and>
      occ_replace_entry T c1 occ ''replaced'' = Return ((1, ''original''), c2) \<and>
      yields (deref_get T c2 1) (\<lambda>(v, c). v = ''replaced'' \<and> nc_len T c = returns (1, c)))"
    if "has T hash tok [1 \<mapsto> ''original''] c1" for c1
    using shard_table.replace_rule [OF assms(1) that, of 1 "''original''" "''replaced''"]
    by (auto elim!: yields_mono)
  show "yields (comp_bind (get_times T 3 1 c) (\<lambda>c. comp_bind (nc_entry T c 1) (\<lambda>(en, c).
     comp_bind (case en of Occupied occ \<Rightarrow> lift_run (occ_replace_entry T c occ ''replaced'')
                | Vacant e \<Rightarrow> Some (Panic (Unwrap_failed ''key must be present''))) (\<lambda>(old_pair, c).
     comp_bind (assert_that (old_pair = (1, ''original''))) (\<lambda>_.
     comp_bind (deref_get T c 1) (\<lambda>(v, c). comp_bind (assert_that (v = ''replaced'')) (\<lambda>_.
     comp_bind (nc_len T c) (\<lambda>(n, c). assert_that (n = 1))))))))) (\<lambda>u. True)"
    unfolding yields_simps(4)
    by (rule yields_mono [OF got], drule entry, erule yields_mono) (auto elim!: yields_mono)
qed

lemma sort_two:
  assumes "distinct (map fst ps)" and "map_of ps = [k \<mapsto> v, l \<mapsto> w]" and "k < (l :: nat)"
  shows "sort_key fst ps = [(k, v), (l, w)]"
proof -
  have "set ps = {(k, v), (l, w)}"
  proof (rule set_eqI)
    fix x :: "nat \<times> 'a"
    have "x \<in> set ps \<longleftrightarrow> map_of ps (fst x) = Some (snd x)" using assms(1) by (cases x) simp
    then show "x \<in> set ps \<longleftrightarrow> x \<in> {(k, v), (l, w)}" using assms(2,3) by (cases x) auto
  qed
  then have "mset ps = mset [(k, v), (l, w)]"
    using assms(1,3) by (subst set_eq_iff_mset_eq_distinct [symmetric]) (simp_all add: distinct_map)
  then have "length ps = 2" by (metis length_Cons list.size(3) numeral_2_eq_2 size_mset)
  then obtain x y where "ps = [x, y]" by (auto simp: numeral_2_eq_2 length_Suc_conv)
  with \<open>set ps = {(k, v), (l, w)}\<close> assms(3) show ?thesis by (auto simp: insort_key.simps doubleton_eq_iff)
qed

lemma into_iter_passes:
  assumes "shard_table T hash tok sok" and "threads_ok par"
  shows "test_into_iter T par hash = returns ()"
  unfolding test_into_iter_def pub_insert_def [of T _ 2]
proof (rule after_new_insert [OF assms])
  fix p c
  assume p: "4 \<le> p" and room: "has_room T hash tok p [1 \<mapsto> ''a''] c"
  have "card {j \<in> dom [1::nat \<mapsto> ''a'']. key_shard c j = key_shard c 2} < p" using p by (intro few_fit) simp_all
  then have "yields (nc_insert T c 2 ''b'') (\<lambda>(r, c'). r = [1::nat \<mapsto> ''a''] 2 \<and>
      has_room T hash tok p ([1 \<mapsto> ''a''](2 \<mapsto> ''b'')) c' \<and> same_config c c')"
    by (intro shard_table.insert_rule [OF assms(1) room] disjI2)
  moreover have "yields (nc_into_iter T (\<lambda>ps p. ps @ [p]) c' []) (\<lambda>ps. sort_key fst ps = [(1, ''a''), (2, ''b'')])"
    if "has_room T hash tok p ([1 \<mapsto> ''a''](2 \<mapsto> ''b'')) c'" for c'
    using shard_table.into_iter_rule [OF assms(1) has_room_has [OF that]]
    by (auto elim!: yields_mono intro: sort_two)
  ultimately show "yields (comp_bind (nc_insert T c 2 ''b'') (\<lambda>(_, c).
     comp_bind (nc_into_iter T (\<lambda>ps p. ps @ [p]) c []) (\<lambda>pairs.
     assert_that (sort_key fst pairs = [(1, ''a''), (2, ''b'')])))) (\<lambda>u. True)"
    by (auto elim!: yields_mono)
qed

lemma entry_or_insert_passes:
  assumes "shard_table T hash tok sok" and "threads_ok par"
  shows "test_entry_or_insert T par hash = returns ()"
proof (rule passed)
  have new: "yields (nc_call T (Or_insert ''k'' 1) c) (\<lambda>(a, c'). has_room T hash tok p [''k'' \<mapsto> 1] c')"
    if "4 \<le> p" "has_room T hash tok p Map.empty c" for p c
    using shard_table.or_insert_rule [OF assms(1) that(2), of "''k''" 1] that(1) by (auto elim!: yields_mono simp del: nc_call.simps)
  have old: "yields (nc_call T (Or_insert ''k'' 99) c) (\<lambda>(a, c'). has T hash tok [''k'' \<mapsto> 1] c')"
    if "4 \<le> p" "has_room T hash tok p [''k'' \<mapsto> 1] c" for p c
    using shard_table.or_insert_rule [OF assms(1) that(2), of "''k''" 99] that(1) by (auto elim!: yields_mono simp del: nc_call.simps)
  show "yields (test_entry_or_insert T par hash) (\<lambda>u. True)"
    unfolding test_entry_or_insert_def or_insert_dropped_call yields_simps(4)
    by (rule yields_mono [OF shard_table.new_100_rule [OF assms]], elim exE conjE, frule (1) new, erule yields_mono,
        simp only: split_paired_all prod.case yields_simps, drule (1) old, erule yields_mono)
      (auto dest!: shard_table.deref_get_rule [OF assms(1), where k = "''k''"] elim!: yields_mono)
qed

lemma clear_passes:
  assumes "shard_table T hash tok sok" and "threads_ok par"
  shows "test_clear T par hash = returns ()"
proof (rule passed)
  have ins: "yields (insert_range T 10 c) (\<lambda>c'. has T hash tok (cache_vals T c') c')"
    if "4 \<le> p" "has_room T hash tok p Map.empty c" for p c
  proof -
    have "0 < cache_capacity c" "cache_ok T hash tok c"
      using that by (auto simp: has_room_def has_def per_shard_cap_def split: if_splits)
    from shard_table.insert_each_bounded [OF assms(1) this(2,1), of "map (\<lambda>i. (i, i)) [0..<10]"]
    show ?thesis by (auto simp: insert_range_conv has_def elim!: yields_mono simp del: upt_rec_numeral)
  qed
  show "yields (test_clear T par hash) (\<lambda>u. True)"
    unfolding test_clear_def yields_simps(4) pub_len_def
    by (rule yields_mono [OF shard_table.new_100_rule [OF assms]], elim exE conjE, drule (1) ins, erule yields_mono,
        drule shard_table.clear_rule [OF assms(1)], erule yields_mono)
      (auto dest!: shard_table.has_card [OF assms(1)])
qed

lemma unbounded_new_rule:
  assumes "shard_table T hash tok sok" and "threads_ok par"
  shows "yields (lift_run (new_unbounded T par hash)) (has_room T hash tok 0 Map.empty)"
proof -
  obtain a b where a: "default_shard_amount par = Return a" "a = 2 ^ b" "16 \<le> a" "a \<le> usize_max"
    by (rule default_amount [OF assms(2)])
  have n: "new_unbounded T par hash = with_capacity_and_hasher_and_shard_amount T 0 hash a"
    by (simp add: new_unbounded_def with_capacity_and_hasher_def a(1))
  have "yields (lift_run (with_capacity_and_hasher_and_shard_amount T 0 hash a))
      (\<lambda>c. has_room T hash tok (per_shard_cap 0 a) Map.empty c \<and> shard_count c = a \<and> cache_capacity c = 0)"
    using a by (intro shard_table.new_rule [OF assms(1)]) (auto simp: is_power_of_two_iff reduced_shard_amount_def)
  then show ?thesis unfolding n by (auto simp: per_shard_cap_def elim!: yields_mono)
qed

lemma unbounded_insert_rule:
  assumes "shard_table T hash tok sok" and "threads_ok par" and "n \<le> usize_max"
  shows "yields (lift_run (new_unbounded T par hash)) (\<lambda>c. yields (insert_range T n c)
    (\<lambda>c'. has T hash tok (\<lambda>k. if k < n then Some k else None) c'))"
proof (rule yields_mono [OF unbounded_new_rule [OF assms(1,2)]])
  fix c assume "has_room T hash tok 0 Map.empty c"
  from insert_range_rule [OF assms(1) this, of n] assms(3)
  show "yields (insert_range T n c) (has T hash tok (\<lambda>k. if k < n then Some k else None))"
    by (auto simp: has_room_has elim!: yields_mono)
qed

lemma dom_range: "dom (\<lambda>k. if k < n then Some k else None) = {..<n :: nat}"
  by (auto split: if_splits)

lemma iter_count_passes:
  assumes "shard_table T hash tok sok" and "threads_ok par"
  shows "test_iter_count T par hash = returns ()"
proof (rule passed)
  have "20 \<le> usize_max" by (simp add: usize_max_def)
  note ins = unbounded_insert_rule [OF assms this]
  show "yields (test_iter_count T par hash) (\<lambda>u. True)"
    unfolding test_iter_count_def yields_simps(4)
    by (rule yields_mono [OF ins], erule yields_mono, drule shard_table.iter_count_rule [OF assms(1)]) (simp add: dom_range)
qed

lemma unbounded_passes:
  assumes "shard_table T hash tok sok" and "threads_ok par"
  shows "test_unbounded_grows_without_eviction T par hash = returns ()"
proof (rule passed)
  have n: "1000 \<le> usize_max" by (simp add: usize_max_def)
  from unbounded_insert_rule [OF assms this] show "yields (test_unbounded_grows_without_eviction T par hash) (\<lambda>u. True)"
    unfolding test_unbounded_grows_without_eviction_def yields_simps(4) pub_len_def
    by (elim yields_mono) (use n in \<open>simp add: shard_table.has_card [OF assms(1)] dom_range\<close>)
qed

text \<open>A cache for 64 entries in four shards, whatever is inserted into it.\<close>

lemma capacity_64_rule:
  assumes "shard_table T hash tok sok"
  shows "yields (lift_run (with_shard_amount T hash 64 4)) (\<lambda>c. yields (insert_range T n c)
    (\<lambda>c'. \<exists>m \<le> 64. nc_len T c' = returns (m, c')))"
proof -
  have "is_power_of_two 4" by code_simp
  then have new: "yields (lift_run (with_shard_amount T hash 64 4))
      (\<lambda>c. cache_ok T hash tok c \<and> shard_count c = 4 \<and> cache_capacity c = 64)"
    using shard_table.new_rule [OF assms(1), of 64 4 4]
    by (auto simp: with_shard_amount_def usize_max_def reduced_shard_amount_def has_room_def has_def elim!: yields_mono)
  have "yields (insert_range T n c) (\<lambda>c'. \<exists>m \<le> 64. nc_len T c' = returns (m, c'))"
    if c: "cache_ok T hash tok c \<and> shard_count c = 4 \<and> cache_capacity c = 64" for c
  proof -
    have "\<exists>m \<le> 64. nc_len T c' = returns (m, c')" if c': "cache_ok T hash tok c'" "same_config c c'" for c'
    proof -
      have "(\<Sum>i < 4. shard_len T (shard_at c' i)) \<le> (\<Sum>i < (4::nat). 16)"
      proof (rule sum_mono)
        fix i :: nat assume "i \<in> {..<4}"
        then have i: "i < shard_count c'" using c c'(2) by (simp add: same_config_def)
        have "shard_cap (shard_at c' i) = 16"
          using shard_table.cache_ok_shard(2) [OF assms(1) c'(1) i] c c'(2) by (simp add: same_config_def per_shard_cap_def div_ceil_def)
        then show "shard_len T (shard_at c' i) \<le> 16"
          using shard_table.shard_len_bound [OF assms(1) shard_table.cache_ok_shard(1) [OF assms(1) c'(1) i]] by simp
      qed
      then have "card (dom (cache_vals T c')) \<le> 64"
        using shard_table.cache_card [OF assms(1) c'(1)] c c'(2) by (simp add: same_config_def)
      then show ?thesis using shard_table.nc_len_spec [OF assms(1) c'(1)] by (auto simp: usize_max_def)
    qed
    then show ?thesis
      using shard_table.insert_each_bounded [OF assms(1), of c "map (\<lambda>i. (i, i)) [0..<n]"] c
      by (auto simp: insert_range_conv elim!: yields_mono)
  qed
  with new show ?thesis by (rule yields_mono)
qed

lemma eviction_passes:
  assumes "shard_table T hash tok sok"
  shows "test_eviction_respects_capacity T hash = returns ()"
proof (rule passed)
  show "yields (test_eviction_respects_capacity T hash) (\<lambda>u. True)"
    unfolding test_eviction_respects_capacity_def Let_def yields_simps(4) pub_len_def
    by (rule yields_mono [OF capacity_64_rule [OF assms]], erule yields_mono) auto
qed

section \<open>The test of retain\<close>

text \<open>Ten keys do not always fit: a shard holds only \<open>room_100 par\<close> of them.\<close>

definition keys_fit :: "('k, 't) NeoCache \<Rightarrow> 'k set \<Rightarrow> nat \<Rightarrow> bool" where
  "keys_fit c ks p \<longleftrightarrow> (\<forall>i < shard_count c. card {k \<in> ks. key_shard c k = i} \<le> p)"

lemma retained_even:
  "retained (\<lambda>k v. (k mod 2 = 0, v)) (\<lambda>k. if k < n then Some k else None) =
   (\<lambda>k. if k < n \<and> even k then Some k else None)"
  by (auto simp: retained_def fun_eq_iff even_iff_mod_2_eq_zero)

lemma even_tenth: "{k. k < 10 \<and> even k} = {0, 2, 4, 6, 8 :: nat}"
proof -
  have "{k. k < 10 \<and> even k} = set (filter even [0..<10 :: nat])" by auto
  also have "filter even [0..<10 :: nat] = [0, 2, 4, 6, 8]" by code_simp
  finally show ?thesis by simp
qed

lemma retain_passes:
  assumes tab: "shard_table T hash tok sok" and "threads_ok par"
    and fits: "\<And>c. NeoCache_new T par hash 100 = Return c \<Longrightarrow> keys_fit c {..<10} (room_100 par)"
  shows "test_retain T par hash = returns ()"
proof (rule passed)
  let ?m = "\<lambda>k. if k < 10 then Some k else None" and ?e = "\<lambda>k. if k < 10 \<and> even k then Some k else None :: nat option"
  obtain c where c: "NeoCache_new T par hash 100 = Return c" "has_room T hash tok (room_100 par) Map.empty c"
    using shard_table.new_100_room [OF assms(1,2)] by (auto simp: yields_def)
  have "card {k \<in> {..<10}. key_shard c k = i} \<le> room_100 par" for i
  proof (cases "i < shard_count c")
    case False
    have "key_shard c k \<noteq> i" for k
      using shard_table.home_okD(1) [OF tab, of c k] c(2) False by (auto simp: has_room_def has_def shard_count_def)
    then show ?thesis by simp
  qed (use fits [OF c(1)] in \<open>simp add: keys_fit_def\<close>)
  then have ins: "yields (insert_range T 10 c) (has T hash tok ?m)"
    by (intro yields_mono [OF insert_range_rule [OF tab c(2)]]) (auto simp: has_room_has)
  have ret: "yields (nc_retain T c' (\<lambda>_ k v. (k mod 2 = 0, v, ())) ()) (\<lambda>(u, c'). has T hash tok ?e c')"
    if "has T hash tok ?m c'" for c'
    using shard_table.retain_rule [OF tab that, where f = "\<lambda>_ k v. (k mod 2 = 0, v, ())" and q = "\<lambda>k v. (k mod 2 = 0, v)"
      and st = "()"] by (simp add: retained_even)
  have len: "nc_len T c' = returns (5, c')" if "has T hash tok ?e c'" for c'
  proof -
    have "dom ?e = {k. k < 10 \<and> even k}" by (auto split: if_splits)
    then have "card (dom ?e) = 5" by (simp add: even_tenth)
    then show ?thesis using shard_table.has_card [OF tab that] by (simp add: usize_max_def)
  qed
  have "yields (comp_bind (nc_contains_key T c' i) (\<lambda>(found, c'). comp_bind (assert_that found) (\<lambda>_. returns c'))) (has T hash tok ?e)"
    if "i \<in> set [0, 2, 4, 6, 8]" "has T hash tok ?e c'" for i c'
    using shard_table.contains_rule [OF tab that(2), of i] that(1) by (auto elim!: yields_mono)
  note loop = comp_for_inv [where I = "has T hash tok ?e", OF this]
  show "yields (test_retain T par hash) (\<lambda>u. True)"
    unfolding test_retain_def yields_simps(4) pub_retain_def pub_len_def c(1) lift_run.simps yields_simps(1)
    by (rule yields_mono [OF ins], drule ret, erule yields_mono) (auto simp: len simp del: comp_for.simps intro!: yields_mono [OF loop])
qed

lemma retain_fails:
  assumes tab: "shard_table T hash tok sok" and "threads_ok par" and many: "2 \<le> thread_count par" and h: "\<And>k. hash k = h"
  shows "test_retain T par hash = Some (Panic Assert_failed)"
proof -
  obtain c where c: "NeoCache_new T par hash 100 = Return c" "has_room T hash tok 4 Map.empty c"
    using shard_table.new_100_room [OF assms(1,2)] many by (auto simp: yields_def room_100_def)
  have cap: "0 < cache_capacity c" "cache_ok T hash tok c"
    using c(2) by (auto simp: has_room_def has_def per_shard_cap_def split: if_splits)
  obtain c1 where c1: "insert_range T 10 c = returns c1" "cache_ok T hash tok c1" "same_config c c1"
    using shard_table.insert_each_bounded [OF tab cap(2,1), of "map (\<lambda>i. (i, i)) [0..<10]"]
    by (auto simp: yields_def insert_range_conv simp del: upt_rec_numeral)
  have "card (dom (cache_vals T c1)) \<le> 4"
  proof -
    have "key_shard c1 k = key_shard c1 0" for k
      using shard_table.cache_okD(1) [OF tab c1(2)] h by (simp add: key_shard_def)
    then have "dom (cache_vals T c1) = dom (shard_map T (home c1 0))"
      using shard_table.home_dom [OF tab c1(2), of 0] by auto
    moreover have "shard_cap (home c1 0) = 4"
      using shard_table.home_okD(3) [OF tab c1(2), of 0] c(2) c1(3) by (simp add: has_room_def same_config_def)
    ultimately show ?thesis
      using shard_table.shard_len_bound [OF tab shard_table.home_okD(2) [OF tab c1(2), of 0]]
        shard_table.shard_len_card [OF tab shard_table.home_okD(2) [OF tab c1(2), of 0]] by simp
  qed
  moreover obtain u c2 where c2: "nc_retain T c1 (\<lambda>_ k v. (k mod 2 = 0, v, ())) () = returns (u, c2)" "cache_ok T hash tok c2"
      "cache_vals T c2 = retained (\<lambda>k v. (k mod 2 = 0, v)) (cache_vals T c1)"
    using shard_table.nc_retain_spec [OF tab c1(2), where f = "\<lambda>_ k v. (k mod 2 = 0, v, ())"
      and p = "\<lambda>k v. (k mod 2 = 0, v)" and st = "()"] by auto
  moreover have "card (dom (cache_vals T c2)) \<le> card (dom (cache_vals T c1))"
  proof (rule card_mono)
    show "finite (dom (cache_vals T c1))" by (rule shard_table.cache_dom_finite [OF tab c1(2)])
    show "dom (cache_vals T c2) \<subseteq> dom (cache_vals T c1)"
      unfolding c2(3) by (auto simp: retained_def split: option.splits bool.splits)
  qed
  ultimately have "nc_len T c2 = returns (card (dom (cache_vals T c2)), c2)" "card (dom (cache_vals T c2)) \<noteq> 5"
    using shard_table.nc_len_spec [OF tab c2(2)] by (simp_all add: usize_max_def)
  then show ?thesis
    by (simp add: test_retain_def pub_retain_def pub_len_def c(1) c1(1) c2(1) assert_that_def)
qed

section \<open>The property\<close>

text \<open>C40:
  The test of \<open>retain\<close> depends on the hasher. It inserts ten keys into a cache for 100 entries
  and expects all five even ones to survive. It passes if no shard gets more of the ten keys
  than it has room for; but with two or more threads a shard has room for four entries, and
  under a hasher that sends all keys to one shard the assertion on the length fails.
\<close>

theorem test_retain_depends_on_hasher:
  assumes "shard_table T hash tok sok" and "threads_ok par"
  shows "((\<forall>c. NeoCache_new T par hash 100 = Return c \<longrightarrow> keys_fit c {..<10} (room_100 par)) \<longrightarrow>
      test_retain T par hash = returns ()) \<and>
    (2 \<le> thread_count par \<and> (\<exists>h. \<forall>k. hash k = h) \<longrightarrow> test_retain T par hash = Some (Panic Assert_failed))"
  using retain_passes [OF assms] retain_fails [OF assms] by blast

theorem test_retain_depends_on_hasher_witness:
  "test_retain slot_table (Some 8) (\<lambda>k. 0) = Some (Panic Assert_failed)"
proof -
  have "threads_ok (Some 8)" "2 \<le> thread_count (Some 8)" by (simp_all add: threads_ok_def thread_count_def)
  with test_retain_depends_on_hasher [OF slot_shard.shard_table_axioms, of "Some 8" "\<lambda>k. 0"] show ?thesis by simp
qed

end
