(* ===== verification/Integration_Tests.thy ===== *)
theory Integration_Tests
  imports Crate_Test_Properties Scan_Resistance
begin

text \<open>
  The tests of \<open>tests/concurrent.rs\<close> that run in one thread, as programs over the model, in the way of
  theory \<open>Crate_Tests\<close>, and that they pass.
\<close>

definition capacity_contract_exact_divisor :: "(nat, nat, 't) table \<Rightarrow> (nat \<Rightarrow> u64) \<Rightarrow> unit comp" where
  "capacity_contract_exact_divisor T h =
     comp_bind (lift_run (with_shard_amount T h 64 4)) (\<lambda>c.
     comp_bind (insert_range T (64 * 3) c) (\<lambda>c.
     comp_bind (pub_len T c) (\<lambda>(n, c).
     assert_that (n \<le> 64))))"

definition unbounded_no_eviction :: "(nat, nat, 't) table \<Rightarrow> usize option \<Rightarrow> (nat \<Rightarrow> u64) \<Rightarrow> unit comp" where
  "unbounded_no_eviction T par h =
     comp_bind (lift_run (new_unbounded T par h)) (\<lambda>c.
     comp_bind (insert_range T 1000 c) (\<lambda>c.
     comp_bind (pub_len T c) (\<lambda>(n, c).
     assert_that (n = 1000))))"

definition hot_key_survives_eviction :: "(nat, nat, 't) table \<Rightarrow> (nat \<Rightarrow> u64) \<Rightarrow> unit comp" where
  "hot_key_survives_eviction T h =
     comp_bind (lift_run (with_shard_amount T h 32 4)) (\<lambda>c.
     comp_bind (pub_insert T c 0 999) (\<lambda>(_, c).
     comp_bind (get_times T 5 0 c) (\<lambda>c.
     comp_bind (comp_for (\<lambda>i c. comp_bind (pub_insert T c i i) (\<lambda>(_, c'). returns c')) [1..<200] c) (\<lambda>c.
     comp_bind (get_dropped T c 0) (\<lambda>(found, c).
     assert_that found)))))"

definition ghost_set_promotes_on_reinsertion :: "(nat, nat, 't) table \<Rightarrow> (nat \<Rightarrow> u64) \<Rightarrow> unit comp" where
  "ghost_set_promotes_on_reinsertion T h =
     comp_bind (lift_run (with_shard_amount T h 8 4)) (\<lambda>c.
     comp_bind (insert_range T 40 c) (\<lambda>c.
     comp_bind (pub_insert T c 0 42) (\<lambda>(_, c).
     comp_bind (pub_get T c 0) (\<lambda>(r, c). case r of
       None \<Rightarrow> returns ()
     | Some v \<Rightarrow> assert_that (ref_value T c v = 42)))))"

definition remove_then_reinsert :: "(nat, nat, 't) table \<Rightarrow> usize option \<Rightarrow> (nat \<Rightarrow> u64) \<Rightarrow> unit comp" where
  "remove_then_reinsert T par h =
     comp_bind (lift_run (new_unbounded T par h)) (\<lambda>c.
     comp_bind (pub_insert T c 1 10) (\<lambda>(_, c).
     comp_bind (pub_remove T c 1) (\<lambda>(r, c). comp_bind (assert_that (map_option snd r = Some 10)) (\<lambda>_.
     comp_bind (get_dropped T c 1) (\<lambda>(found, c). comp_bind (assert_that (\<not> found)) (\<lambda>_.
     comp_bind (pub_insert T c 1 20) (\<lambda>(_, c).
     comp_bind (deref_get T c 1) (\<lambda>(v, c).
     assert_that (v = 20)))))))))"

definition retain_correctness :: "(nat, nat, 't) table \<Rightarrow> usize option \<Rightarrow> (nat \<Rightarrow> u64) \<Rightarrow> unit comp" where
  "retain_correctness T par h =
     comp_bind (lift_run (new_unbounded T par h)) (\<lambda>c.
     comp_bind (insert_range T 20 c) (\<lambda>c.
     comp_bind (pub_retain T c (\<lambda>_ k v. (v mod 2 = 0, v, ())) ()) (\<lambda>(_, c).
     comp_bind (pub_len T c) (\<lambda>(n, c). comp_bind (assert_that (n = 10)) (\<lambda>_.
     comp_bind (comp_for (\<lambda>i c. comp_bind (nc_contains_key T c i) (\<lambda>(found, c').
         comp_bind (assert_that (if i mod 2 = 0 then found else \<not> found)) (\<lambda>_. returns c'))) [0..<20] c) (\<lambda>_.
     returns ()))))))"

section \<open>The tests pass\<close>

text \<open>Rules for the statements of a longer test, one after the other.\<close>

lemma yields_bind: "yields m P \<Longrightarrow> (\<And>r. P r \<Longrightarrow> yields (f r) Q) \<Longrightarrow> yields (comp_bind m f) Q"
  by (auto elim: yields_mono)

lemma yields_bind_pair:
  "yields m (\<lambda>(r, c). P r c) \<Longrightarrow> (\<And>r c. P r c \<Longrightarrow> yields (f r c) Q) \<Longrightarrow> yields (comp_bind m (\<lambda>(r, c). f r c)) Q"
  by (auto elim!: yields_mono)

lemma yields_check: "b \<Longrightarrow> yields m Q \<Longrightarrow> yields (comp_bind (assert_that b) (\<lambda>_. m)) Q"
  by simp

lemma capacity_contract_passes:
  assumes "shard_table T hash tok sok"
  shows "capacity_contract_exact_divisor T hash = returns ()"
proof (rule passed)
  show "yields (capacity_contract_exact_divisor T hash) (\<lambda>u. True)"
    unfolding capacity_contract_exact_divisor_def yields_simps(4) pub_len_def
    by (rule yields_mono [OF capacity_64_rule [OF assms]], erule yields_mono) auto
qed

lemma unbounded_no_eviction_passes:
  assumes "shard_table T hash tok sok" and "threads_ok par"
  shows "unbounded_no_eviction T par hash = returns ()"
  using unbounded_passes [OF assms] unfolding unbounded_no_eviction_def test_unbounded_grows_without_eviction_def .

lemma retain_correctness_passes:
  assumes tab: "shard_table T hash tok sok" and par: "threads_ok par"
  shows "retain_correctness T par hash = returns ()"
proof (rule passed)
  let ?m = "\<lambda>k. if k < 20 then Some k else None" and ?e = "\<lambda>k. if k < 20 \<and> even k then Some k else None :: nat option"
  have "20 \<le> usize_max" by (simp add: usize_max_def)
  note ins = unbounded_insert_rule [OF tab par this]
  have "retained (\<lambda>k v. (v mod 2 = 0, v)) ?m = ?e" by (auto simp: retained_def fun_eq_iff even_iff_mod_2_eq_zero)
  then have ret: "yields (nc_retain T c (\<lambda>_ k v. (v mod 2 = 0, v, ())) ()) (\<lambda>(u, c'). has T hash tok ?e c')"
    if "has T hash tok ?m c" for c
    using shard_table.retain_rule [OF tab that, where f = "\<lambda>_ k v. (v mod 2 = 0, v, ())" and q = "\<lambda>k v. (v mod 2 = 0, v)"
      and st = "()"] by simp
  have len: "nc_len T c = returns (10, c)" if "has T hash tok ?e c" for c
  proof -
    have "dom ?e = set (filter even [0..<20])" by (auto split: if_splits)
    moreover have "filter even [0..<20 :: nat] = [0, 2, 4, 6, 8, 10, 12, 14, 16, 18]" by code_simp
    ultimately have "card (dom ?e) = 10" by simp
    then show ?thesis using shard_table.has_card [OF tab that] by (simp add: usize_max_def)
  qed
  have "yields (comp_bind (nc_contains_key T c i) (\<lambda>(found, c').
      comp_bind (assert_that (if i mod 2 = 0 then found else \<not> found)) (\<lambda>_. returns c'))) (has T hash tok ?e)"
    if "i \<in> set [0..<20]" "has T hash tok ?e c" for i c
    using shard_table.contains_rule [OF tab that(2), of i] that(1)
    by (auto elim!: yields_mono simp: even_iff_mod_2_eq_zero simp del: upt_rec_numeral)
  note loop = comp_for_inv [where I = "has T hash tok ?e", OF this]
  show "yields (retain_correctness T par hash) (\<lambda>u. True)"
    unfolding retain_correctness_def yields_simps(4) pub_retain_def pub_len_def
    by (rule yields_mono [OF ins], erule yields_mono, drule ret, erule yields_mono)
      (auto simp: len simp del: comp_for.simps upt_rec_numeral intro!: yields_mono [OF loop])
qed

text \<open>An insertion into an unbounded cache, whatever was removed before.\<close>

context shard_table
begin

lemma unbounded_insert:
  assumes ok: "cache_ok T hash rt_wf c" and "cache_capacity c = 0" and "card (dom (cache_vals T c)) < usize_max"
  shows "yields (nc_insert T c k v) (\<lambda>(r, c'). cache_ok T hash rt_wf c' \<and> same_config c c' \<and> cache_vals T c' = (cache_vals T c)(k \<mapsto> v))"
proof -
  have "nc_room T (Suc 0) c" using assms by (simp add: nc_room_def)
  from lossy_insert [OF ok this, of k v] assms(2) show ?thesis by (auto simp: lossy_step_def)
qed

lemma bounded_insert:
  assumes ok: "cache_ok T hash rt_wf c" and "0 < cache_capacity c"
  shows "yields (nc_insert T c k v) (\<lambda>(r, c'). cache_ok T hash rt_wf c' \<and> cache_vals T c' k = Some v)"
proof -
  have "nc_room T (Suc 0) c" using assms by (simp add: nc_room_def)
  from lossy_insert [OF ok this, of k v] show ?thesis by (auto simp: lossy_step_def split: if_splits)
qed

lemma get_value:
  assumes ok: "cache_ok T hash rt_wf c" and "cache_vals T c k = Some v"
  shows "yields (nc_get T c k) (\<lambda>(r, c'). \<exists>x. r = Some x \<and> ref_value T c' x = v)"
proof -
  obtain e where e: "cache_map T c k = Some e" "entry_val e = v"
    using assms(2) by (auto simp: cache_map_def cache_vals_def shard_vals_def)
  show ?thesis
    by (rule nc_get_hit [OF ok e(1)]) (simp add: ref_value_def ref_pair_hit [OF ok] e(2))
qed

end

lemma remove_then_reinsert_passes:
  assumes tab: "shard_table T hash tok sok" and par: "threads_ok par"
  shows "remove_then_reinsert T par hash = returns ()"
proof (rule passed)
  have new: "yields (lift_run (new_unbounded T par hash)) (\<lambda>c. cache_ok T hash tok c \<and> cache_capacity c = 0 \<and> cache_vals T c = Map.empty)"
    by (rule yields_mono [OF unbounded_new_rule [OF tab par]])
      (auto simp: has_room_def has_def per_shard_cap_def div_ceil_def split: if_splits)
  have big: "1 < usize_max" by (simp add: usize_max_def)
  have ins: "yields (nc_insert T c 1 v) (\<lambda>(r, c'). cache_ok T hash tok c' \<and> cache_capacity c' = 0 \<and> cache_vals T c' = [1 \<mapsto> v])"
    if "cache_ok T hash tok c \<and> cache_capacity c = 0 \<and> cache_vals T c = Map.empty" for c and v :: nat
    using shard_table.unbounded_insert [OF tab, of c 1 v] that big by (auto simp: same_config_def elim!: yields_mono)
  have rem: "yields (nc_remove T c 1) (\<lambda>(r, c'). r = Some (1, v) \<and> cache_ok T hash tok c' \<and> cache_capacity c' = 0 \<and> cache_vals T c' = Map.empty)"
    if "cache_ok T hash tok c \<and> cache_capacity c = 0 \<and> cache_vals T c = [1 \<mapsto> v]" for c and v :: nat
    using shard_table.nc_remove_spec [OF tab, of c 1] that by (auto simp: same_config_def)
  have miss: "yields (get_dropped T c 1) (\<lambda>(r, c'). \<not> r \<and> cache_ok T hash tok c' \<and> cache_capacity c' = 0 \<and> cache_vals T c' = Map.empty)"
    if "cache_ok T hash tok c \<and> cache_capacity c = 0 \<and> cache_vals T c = Map.empty" for c
    using shard_table.nc_contains_key_spec [OF tab, of c 1] that by (auto simp: same_config_def get_dropped_contains)
  have hit: "yields (deref_get T c 1) (\<lambda>(r, c'). r = 20)"
    if "cache_ok T hash tok c \<and> cache_capacity c = 0 \<and> cache_vals T c = [1 \<mapsto> 20]" for c
    using shard_table.deref_get_rule [OF tab, of "[1 \<mapsto> 20]" c 1 20] that by (auto simp: has_def elim!: yields_mono)
  show "yields (remove_then_reinsert T par hash) (\<lambda>u. True)"
    unfolding remove_then_reinsert_def pub_insert_def pub_remove_def
    by (rule yields_bind [OF new], rule yields_bind_pair [OF ins [where v = 10]], assumption, rule yields_bind_pair [OF rem [where v = 10]],
        assumption, rule yields_check, simp, rule yields_bind_pair [OF miss], simp, rule yields_check, simp,
        rule yields_bind_pair [OF ins [where v = 20]], simp, rule yields_bind_pair [OF hit]) simp_all
qed

lemma ghost_set_promotes_passes:
  assumes tab: "shard_table T hash tok sok"
  shows "ghost_set_promotes_on_reinsertion T hash = returns ()"
proof (rule passed)
  have "is_power_of_two 4" by code_simp
  moreover have "reduced_shard_amount 8 4 = Return 2" by code_simp
  ultimately have new: "yields (lift_run (with_shard_amount T hash 8 4)) (\<lambda>c. cache_ok T hash tok c \<and> 0 < cache_capacity c)"
    using shard_table.new_rule [OF tab, of 8 4 2]
    by (auto simp: with_shard_amount_def usize_max_def has_room_def has_def elim!: yields_mono)
  have ins: "yields (insert_range T 40 c) (\<lambda>c'. cache_ok T hash tok c' \<and> 0 < cache_capacity c')"
    if "cache_ok T hash tok c \<and> 0 < cache_capacity c" for c
    using shard_table.insert_each_bounded [OF tab, of c "map (\<lambda>i. (i, i)) [0..<40]"] that
    by (auto simp: insert_range_conv same_config_def elim!: yields_mono simp del: upt_rec_numeral)
  have again: "yields (nc_insert T c 0 42) (\<lambda>(r, c'). cache_ok T hash tok c' \<and> cache_vals T c' 0 = Some 42)"
    if "cache_ok T hash tok c \<and> 0 < cache_capacity c" for c
    using shard_table.bounded_insert [OF tab] that by blast
  show "yields (ghost_set_promotes_on_reinsertion T hash) (\<lambda>u. True)"
    unfolding ghost_set_promotes_on_reinsertion_def yields_simps(4) pub_insert_def pub_get_def
    by (rule yields_mono [OF new], drule ins, erule yields_mono, drule again, erule yields_mono)
      (auto dest!: shard_table.get_value [OF tab] elim!: yields_mono)
qed

section \<open>The hot key\<close>

text \<open>Loops of the tests as runs of calls.\<close>

lemma comp_for_run:
  "comp_for (\<lambda>x c. comp_bind (step (op x) c) (\<lambda>(_, c'). returns c')) xs c =
    comp_bind (comp_run step (map op xs) c) (\<lambda>(_, c'). returns c')"
  by (induction xs arbitrary: c) (simp_all add: comp_bind_assoc split_def)

lemma get_dropped_lookup:
  "comp_bind (get_dropped T c k) (\<lambda>(_, c'). returns c') = comp_bind (nc_step T (Op_lookup k) c) (\<lambda>(_, c'). returns c')"
  by (simp add: get_dropped_def pub_get_def nc_view_def comp_bind_assoc split_def,
      rule arg_cong [where f = "comp_bind (nc_get T c k)"]) (simp add: fun_eq_iff split: option.split prod.split)

lemma get_times_run:
  "get_times T n k c = comp_bind (comp_run (nc_step T) (replicate n (Op_lookup k)) c) (\<lambda>(_, c'). returns c')"
  unfolding get_times_def get_dropped_lookup
  using comp_for_run [of "nc_step T" "\<lambda>_. Op_lookup k" "[0..<n]" c] by (simp add: map_replicate_const)

lemma hot_key_survives_passes:
  assumes tab: "shard_table T hash tok sok" and inj: "inj_on hash {..<200}"
  shows "hot_key_survives_eviction T hash = returns ()"
proof -
  let ?ks = "[1..<200 :: nat]"
  have args: "32 \<le> usize_max" "1 < (4::nat)" "is_power_of_two 4" "4 \<le> usize_max" by (simp_all add: usize_max_def, code_simp)
  have amount: "reduced_shard_amount 32 4 = Return 4" by (simp add: reduced_shard_amount_def)
  obtain c where c: "with_capacity_and_hasher_and_shard_amount T 32 hash 4 = Return c" "has_room T hash tok 8 Map.empty c"
      "shard_count c = 4" "cache_capacity c = 32"
    using shard_table.new_rule [OF tab args amount] by (auto simp: yields_def per_shard_cap_def div_ceil_def)
  then have ok: "cache_ok T hash tok c" "cache_tidy T c" "cache_vals T c = Map.empty" by (simp_all add: has_room_def has_def)
  have "distinct (map hash (0 # ?ks))" using inj by (fastforce simp: distinct_map inj_on_def)
  note fresh = shard_table.new_fresh [OF tab args c(1) this]
  have ready: "scan_ready T d"
    if "cache_ok T hash tok d" "cache_tidy T d" "dom (cache_vals T d) \<subseteq> {0}" "same_config c d" for d
    using that c(3,4) by (intro shard_table.one_ready [OF tab, where k = 0]) (simp_all add: same_config_def per_shard_cap_def div_ceil_def)
  obtain c1 where c1: "nc_insert T c 0 999 = returns (None, c1)" "has_room T hash tok 8 [0 \<mapsto> 999] c1" "same_config c c1"
    using shard_table.insert_rule [OF tab c(2), of 0 999] by (auto simp: yields_def)
  then have ok1: "cache_ok T hash tok c1" "cache_tidy T c1" "cache_vals T c1 = [0 \<mapsto> 999]" by (simp_all add: has_room_def has_def)
  have "scan_ready T c" using ok by (intro ready) simp_all
  from shard_table.scan_step(2) [OF tab ok(1) this fresh] c1(1) have "fresh_for T c1 ?ks" by simp
  from shard_table.lookups_hot [OF tab ok1(1,2) this, of 0 4] ok1(3) obtain rs c2 where
    c2: "comp_run (nc_step T) (replicate 5 (Op_lookup 0)) c1 = returns (rs, c2)" "reads_to T hash tok 0 ?ks c1 c2"
    by (auto simp: eval_nat_numeral simp del: comp_run.simps)
  note r = c2(2) [unfolded reads_to_def]
  have "same_config c c2" using r c1(3) by (simp add: same_config_def)
  then have "scan_ready T c2" using r ok1(3) by (intro ready) simp_all
  moreover have "nc_room T (length (map (\<lambda>i. (i, i)) ?ks)) c2" using r c1(3) c(4) by (simp add: nc_room_def same_config_def)
  moreover have "fresh_for T c2 (map fst (map (\<lambda>i. (i, i)) ?ks))" using r by (simp add: comp_def)
  ultimately obtain rs' c3 where
    c3: "comp_run (nc_step T) (map (\<lambda>i. Op_insert i i) ?ks) c2 = returns (rs', c3)" "cache_ok T hash tok c3" "cache_vals T c3 0 = Some 999"
    using shard_table.scan_run [OF tab, of c2 "map (\<lambda>i. (i, i)) ?ks"] r ok1(3)
    by (auto simp: comp_def simp del: comp_run.simps upt_rec_numeral)
  have "comp_for (\<lambda>i c. comp_bind (nc_insert T c i i) (\<lambda>(_, c'). returns c')) ?ks c2 = returns c3"
    using comp_for_run [of "nc_step T" "\<lambda>i. Op_insert i i" ?ks c2] c3(1) by (simp del: upt_rec_numeral)
  then show ?thesis
    using shard_table.nc_contains_key_spec [OF tab c3(2), of 0] c3(3)
    by (auto simp: hot_key_survives_eviction_def with_shard_amount_def c(1) pub_insert_def c1(1) get_times_run c2(1)
      get_dropped_contains assert_that_def simp del: upt_rec_numeral comp_run.simps comp_for.simps)
qed

section \<open>The property\<close>

text \<open>C38:
  Thirteen unit tests of \<open>src/lib.rs\<close> (\<open>test_insert_and_get\<close>, \<open>test_insert_returns_old_value\<close>, \<open>test_remove\<close>,
  \<open>test_get_bumps_freq\<close>, \<open>test_eviction_respects_capacity\<close>, \<open>test_entry_or_insert\<close>, \<open>test_iter_count\<close>,
  \<open>test_into_iter\<close>, \<open>test_clear\<close>, \<open>test_try_get\<close>, \<open>test_remove_if\<close>,
  \<open>test_unbounded_grows_without_eviction\<close>, \<open>test_replace_entry_returns_old_and_stores_new\<close>) and five
  tests of \<open>tests/concurrent.rs\<close> that use one thread (\<open>capacity_contract_exact_divisor\<close>, \<open>unbounded_no_eviction\<close>,
  \<open>ghost_set_promotes_on_reinsertion\<close>, \<open>remove_then_reinsert\<close>, \<open>retain_correctness\<close>) pass for every hash
  table, every hasher and every parallelism whose default shard amount does not overflow: no assertion
  fails, no call panics and none blocks. A sixth, \<open>hot_key_survives_eviction\<close>, passes for every hasher
  that tells its 200 keys apart. \<open>test_retain\<close> is not among them: it can fail, and has a property of its own. Neither are
  the test that compares the hashes of borrowed and owned keys, which the model identifies, nor
  \<open>tests/coverage.rs\<close>.
\<close>

theorem crate_tests_pass:
  assumes "shard_table T hash tok sok" and "shard_table T' hash' tok' sok'" and "shard_table T'' hash'' tok'' sok''"
    and "threads_ok par"
  shows "test_insert_and_get T par hash = returns () \<and> test_insert_returns_old_value T par hash = returns () \<and>
    test_get_bumps_freq T par hash = returns () \<and> test_entry_or_insert T par hash = returns () \<and>
    test_try_get T par hash = returns () \<and>
    test_remove T' par hash' = returns () \<and> test_into_iter T' par hash' = returns () \<and>
    test_replace_entry_returns_old_and_stores_new T' par hash' = returns () \<and>
    test_eviction_respects_capacity T'' hash'' = returns () \<and> test_iter_count T'' par hash'' = returns () \<and>
    test_clear T'' par hash'' = returns () \<and> test_remove_if T'' par hash'' = returns () \<and>
    test_unbounded_grows_without_eviction T'' par hash'' = returns () \<and>
    capacity_contract_exact_divisor T'' hash'' = returns () \<and> unbounded_no_eviction T'' par hash'' = returns () \<and>
    (inj_on hash'' {..<200} \<longrightarrow> hot_key_survives_eviction T'' hash'' = returns ()) \<and>
    ghost_set_promotes_on_reinsertion T'' hash'' = returns () \<and> remove_then_reinsert T'' par hash'' = returns () \<and>
    retain_correctness T'' par hash'' = returns ()"
  using insert_and_get_passes [OF assms(1,4)] insert_returns_old_value_passes [OF assms(1,4)] get_bumps_freq_passes [OF assms(1,4)]
    entry_or_insert_passes [OF assms(1,4)] try_get_passes [OF assms(1,4)] remove_passes [OF assms(2,4)]
    into_iter_passes [OF assms(2,4)] replace_entry_passes [OF assms(2,4)] eviction_passes [OF assms(3)]
    iter_count_passes [OF assms(3,4)] clear_passes [OF assms(3,4)] remove_if_passes [OF assms(3,4)] unbounded_passes [OF assms(3,4)]
    capacity_contract_passes [OF assms(3)] unbounded_no_eviction_passes [OF assms(3,4)] hot_key_survives_passes [OF assms(3)]
    ghost_set_promotes_passes [OF assms(3)] remove_then_reinsert_passes [OF assms(3,4)] retain_correctness_passes [OF assms(3,4)]
  by blast

theorem crate_tests_pass_witness:
  "test_insert_and_get slot_table (Some 8) (\<lambda>s. of_nat (length s)) = returns () \<and>
   test_remove slot_table (Some 8) of_nat = returns () \<and>
   test_eviction_respects_capacity slot_table of_nat = returns () \<and>
   hot_key_survives_eviction slot_table of_nat = returns ()"
proof -
  have "inj_on (of_nat :: nat \<Rightarrow> u64) {..<200}"
    by (rule inj_onI) (simp add: word_of_nat_eq_iff take_bit_nat_eq_self)
  moreover have "threads_ok (Some 8)" by (simp add: threads_ok_def thread_count_def)
  note crate_tests_pass [OF slot_shard.shard_table_axioms slot_shard.shard_table_axioms slot_shard.shard_table_axioms this]
  ultimately show ?thesis by blast
qed

end
