(* ===== verification/Concurrent_Tests.thy ===== *)
theory Concurrent_Tests
  imports Composed_Properties Integration_Tests
begin

text \<open>
  The tests of \<open>tests/concurrent.rs\<close> that spawn threads, over the model in which the threads run
  the lock protocol one atomic access at a time. A test builds a map, spawns its threads, joins them
  (every thread has returned) and checks assertions on the map, which is at rest then. The
  barrier only makes collisions more likely. Numbers are small, so they are natural numbers here.
  The main thread that checks the assertions is alone then: no word has a holder (a stale bit for
  parked writers may be left, which no lock operation waits for), so the checks run on the words at rest.
\<close>

text \<open>\<open>concurrent_inserts_all_visible\<close>: the closure of thread \<open>t\<close>, and the assertions.\<close>

definition inserter :: "nat \<Rightarrow> (nat, nat) api_method list" where
  "inserter t = (if t < 8 then map (\<lambda>i. One (Insert i (i * 2))) [t * 1000..<t * 1000 + 1000] else [])"

definition check_inserted :: "(nat, nat, 't) table \<Rightarrow> (nat, 't) NeoCache \<Rightarrow> unit comp" where
  "check_inserted T c = comp_bind (comp_for (\<lambda>i c. comp_bind (deref_get T c i) (\<lambda>(v, c').
     comp_bind (assert_that (v = i * 2)) (\<lambda>_. returns c'))) [0..<8 * 1000] c) (\<lambda>_. returns ())"

text \<open>\<open>concurrent_entry_increments\<close>\<close>

definition incrementer :: "nat \<Rightarrow> (string, nat) api_method list" where
  "incrementer t = (if t < 8 then map (\<lambda>_. One (And_modify ''counter'' (\<lambda>v. v + 1))) [0..<500] else [])"

definition check_counter :: "(string, nat, 't) table \<Rightarrow> (string, 't) NeoCache \<Rightarrow> unit comp" where
  "check_counter T c = comp_bind (deref_get T c ''counter'') (\<lambda>(total, c'). assert_that (total = 8 * 500))"

text \<open>
  \<open>concurrent_readers_and_writer\<close>: reader \<open>t\<close> goes through the keys \<open>rounds t\<close> times until it sees
  the flag; the writer is the main thread, number 6 here.
\<close>

definition reader_or_writer :: "(nat \<Rightarrow> nat) \<Rightarrow> nat \<Rightarrow> (nat, nat) api_method list" where
  "reader_or_writer rounds t =
     (if t < 6 then concat (map (\<lambda>_. map (\<lambda>i. One (Lookup i)) [0..<100]) [0..<rounds t])
      else if t = 6 then map (\<lambda>i. One (Insert (i mod 100) i)) [0..<200] else [])"

section \<open>Runs that have ended\<close>

lemma calls_of_thread: "calls_of (thread c (map One calls)) = calls"
  by (induction calls) (simp_all add: thread_def calls_of_program guarded_def Let_def)

text \<open>Threads whose methods are single calls on keys.\<close>

definition on_key :: "('k, 'v) call \<Rightarrow> bool" where
  "on_key call \<longleftrightarrow> (\<exists>k. \<forall>hm. call_shard hm call = hm k)"

lemma on_key_simps [simp]: "on_key (Insert k v)" "on_key (And_modify k f)" "on_key (Lookup k)"
  by (auto simp: on_key_def)

context shard_table
begin

lemma key_calls_ok:
  assumes "cache_ok T hash rt_wf c" and "\<forall>call \<in> set calls. on_key call"
  shows "\<forall>m \<in> set (map One calls). method_ok (key_shard c) (shard_count c) m"
  using assms home_okD(1) [OF assms(1)] by (force simp: on_key_def shard_count_def)

lemma finished_run:
  assumes run: "composed_run T (composed_start c progs) Z" and ok: "cache_ok T hash rt_wf c" and room: "roomy T c progs"
    and progs: "\<And>w. disciplined (key_shard c) (length (shards c)) Map.empty (progs w)" and fin: "\<And>w. \<not> unfinished Z w"
  shows "cache_ok T hash rt_wf (at_rest (cache (core Z)))"
    and "lossy_run (0 < cache_capacity c) (key_shard c) (map snd (effects (core Z)))
      (cache_vals T c) (cache_vals T (at_rest (cache (core Z))))"
    and "map fst (own_effects (effects (core Z)) w) = calls_of (progs w)"
proof -
  from composed_runs [OF run ok room progs] obtain S where S: "runs_to T (started c progs) S" "matches Z S" by blast
  then have same: "same_but_words (core Z) S" by (simp add: matches_def)
  note eqs = same_but_wordsD [OF same] and inv = steady_runs [OF S(1) ok room progs]
  show "cache_ok T hash rt_wf (at_rest (cache (core Z)))" using steadyD(1) [OF inv] eqs(3) by simp
  show "lossy_run (0 < cache_capacity c) (key_shard c) (map snd (effects (core Z)))
      (cache_vals T c) (cache_vals T (at_rest (cache (core Z))))" using steadyD(8) [OF inv] eqs by simp
  have "todo (workers S w) = []" "phase (workers S w) = Ready" using fin [of w] by (simp_all add: unfinished_def eqs(1))
  then show "map fst (own_effects (effects (core Z)) w) = calls_of (progs w)"
    using steadyD(6) [OF inv, of w] by (simp add: worker_ok_def eqs(2))
qed

end

text \<open>An unbounded cache after a run of insertions that agree on the value of a key, and of updates of one key.\<close>

lemma lossy_inserts:
  assumes "lossy_run False hm es m m'" and "\<forall>e \<in> set es. \<exists>k. fst e = Insert k (f k)"
  shows "m' = (\<lambda>k. if Insert k (f k) \<in> fst ` set es then Some (f k) else m k)"
  using assms
proof (induction es arbitrary: m)
  case (Cons e es)
  obtain k a where e: "e = (Insert k (f k), a)" using Cons.prems(2) by (cases e) auto
  then have "lossy_run False hm es (m(k \<mapsto> f k)) m'" using Cons.prems(1) by (auto simp: lossy_step_def)
  from Cons.IH [OF this] Cons.prems(2) show ?case by (auto simp: e fun_eq_iff)
qed simp

lemma lossy_modifies:
  assumes "lossy_run False hm es m m'" and "\<forall>e \<in> set es. fst e = And_modify k f"
  shows "m' = m(k := map_option (f ^^ length es) (m k))"
  using assms
proof (induction es arbitrary: m)
  case (Cons e es)
  obtain a where e: "e = (And_modify k f, a)" using Cons.prems(2) by (cases e) auto
  then have "lossy_run False hm es (m(k := map_option f (m k))) m'" using Cons.prems(1) by (auto simp: lossy_step_def)
  from Cons.IH [OF this] Cons.prems(2) show ?case
    by (simp add: option.map_comp comp_def funpow_swap1 fun_eq_iff)
qed (simp add: option.map_id0)

lemma own_effects_set: "e \<in> set (own_effects es w) \<longleftrightarrow> (w, e) \<in> set es"
  by (force simp: own_effects_def)

text \<open>A few calls per thread do not overflow a counter.\<close>

lemma roomy_few:
  assumes "\<And>t. n \<le> t \<Longrightarrow> calls t = []" and "\<And>t. length (calls t) \<le> l" and "card (dom (cache_vals T c)) + n * l \<le> usize_max"
  shows "roomy T c (\<lambda>t. thread c (map One (calls t)))"
proof -
  let ?W = "{t. calls t \<noteq> []}"
  have sub: "?W \<subseteq> {..<n}" using assms(1) by (auto simp: not_le [symmetric])
  then have fin: "finite ?W" by (rule finite_subset) simp
  have "(\<Sum>t \<in> ?W. length (calls t)) \<le> (\<Sum>t \<in> {..<n}. length (calls t))" by (rule sum_mono2 [OF _ sub]) simp_all
  also have "\<dots> \<le> n * l" using sum_mono [of "{..<n}" "\<lambda>t. length (calls t)" "\<lambda>_. l"] assms(2) by simp
  finally show ?thesis using assms(3) fin by (simp add: roomy_def calls_of_thread)
qed

context shard_table
begin

text \<open>What is known of the threads of a test when all have been joined.\<close>

lemma joined:
  assumes "composed_run T (composed_start c (\<lambda>t. thread c (map One (calls t)))) Z" and "\<And>t. \<not> unfinished Z t"
    and ok: "cache_ok T hash rt_wf c" and cap: "cache_capacity c = 0"
    and few: "\<And>t. length (calls t) = (if t < n then l else 0)" "card (dom (cache_vals T c)) + n * l \<le> usize_max"
    and keys: "\<And>t. \<forall>call \<in> set (calls t). on_key call"
  shows "cache_ok T hash rt_wf (at_rest (cache (core Z)))"
    and "lossy_run False (key_shard c) (map snd (effects (core Z))) (cache_vals T c) (cache_vals T (at_rest (cache (core Z))))"
    and "fst ` set (map snd (effects (core Z))) = (\<Union>t. set (calls t))" and "length (effects (core Z)) = n * l"
proof -
  have "roomy T c (\<lambda>t. thread c (map One (calls t)))" using few by (intro roomy_few [of n calls l]) (auto simp flip: length_0_conv)
  note r = finished_run [OF assms(1) ok this thread_ok(1) [OF key_calls_ok [OF ok keys]] assms(2)]
  show "cache_ok T hash rt_wf (at_rest (cache (core Z)))"
    "lossy_run False (key_shard c) (map snd (effects (core Z))) (cache_vals T c) (cache_vals T (at_rest (cache (core Z))))"
    using r(1,2) cap by simp_all
  have own: "map fst (own_effects (effects (core Z)) t) = calls t" for t using r(3) by (simp add: calls_of_thread)
  then have "fst ` set (own_effects (effects (core Z)) t) = set (calls t)" for t by (metis list.set_map)
  moreover have "set (map snd (effects (core Z))) = (\<Union>t. set (own_effects (effects (core Z)) t))"
    by (force simp: own_effects_set)
  ultimately show "fst ` set (map snd (effects (core Z))) = (\<Union>t. set (calls t))" by (simp add: image_UN)
  have len: "length (own_effects (effects (core Z)) t) = (if t < n then l else 0)" for t using own few(1) by (metis length_map)
  have "length (effects (core Z)) = (\<Sum>t \<in> {..<n}. length (own_effects (effects (core Z)) t))"
    using len by (intro length_effects) (simp_all flip: length_0_conv)
  then show "length (effects (core Z)) = n * l" by (simp add: len)
qed

end

section \<open>The tests pass\<close>

lemma unbounded_capacity: "has_room T hash tok 0 m c \<Longrightarrow> cache_capacity c = 0"
  by (auto simp: has_room_def per_shard_cap_def div_ceil_def split: if_splits)

lemma inserts_pass:
  assumes tab: "shard_table T hash tok sok" and c: "has_room T hash tok 0 Map.empty c"
    and run: "composed_run T (composed_start c (\<lambda>t. thread c (inserter t))) Z" and fin: "\<And>t. \<not> unfinished Z t"
  shows "check_inserted T (at_rest (cache (core Z))) = returns ()"
proof (rule passed)
  define calls :: "nat \<Rightarrow> (nat, nat) call list" where
    "calls t = (if t < 8 then map (\<lambda>i. Insert i (i * 2)) [t * 1000..<t * 1000 + 1000] else [])" for t
  have prog: "inserter t = map One (calls t)" for t by (simp add: inserter_def calls_def del: upt_rec_numeral)
  have ok: "cache_ok T hash tok c" and v: "cache_vals T c = Map.empty" using c by (simp_all add: has_room_def has_def)
  note j = shard_table.joined [OF tab run [unfolded prog] fin ok unbounded_capacity [OF c], of 8 1000]
  have few: "length (calls t) = (if t < 8 then 1000 else 0)" "\<forall>call \<in> set (calls t). on_key call" for t
    by (auto simp: calls_def)
  have n: "card (dom (cache_vals T c)) + 8 * 1000 \<le> usize_max" by (simp add: v usize_max_def)
  have in_calls: "Insert k (k * 2) \<in> (\<Union>t. set (calls t)) \<longleftrightarrow> k < 8000" for k
    by (auto simp: calls_def intro!: exI [of _ "k div 1000"] split: if_splits)
  have "\<forall>e \<in> set (map snd (effects (core Z))). \<exists>k. fst e = Insert k (k * 2)"
  proof
    fix e assume "e \<in> set (map snd (effects (core Z)))"
    then have "fst e \<in> (\<Union>t. set (calls t))" using j(3) [OF few(1) n few(2)] by blast
    then show "\<exists>k. fst e = Insert k (k * 2)" by (auto simp: calls_def split: if_splits)
  qed
  from lossy_inserts [OF j(2) [OF few(1) n few(2)] this, unfolded j(3) [OF few(1) n few(2)] in_calls v]
  have "cache_vals T (at_rest (cache (core Z))) = (\<lambda>k. if k < 8000 then Some (k * 2) else None)" .
  then have h: "has T hash tok (\<lambda>k. if k < 8000 then Some (k * 2) else None) (at_rest (cache (core Z)))"
    using j(1) [OF few(1) n few(2)] by (simp add: has_def)
  have "yields (comp_for (\<lambda>i c. comp_bind (deref_get T c i) (\<lambda>(v, c').
      comp_bind (assert_that (v = i * 2)) (\<lambda>_. returns c'))) [0..<8 * 1000] (at_rest (cache (core Z))))
      (has T hash tok (\<lambda>k. if k < 8000 then Some (k * 2) else None))"
  proof (rule comp_for_inv)
    show "has T hash tok (\<lambda>k. if k < 8000 then Some (k * 2) else None) (at_rest (cache (core Z)))" by (rule h)
  next
    fix i s assume i: "i \<in> set [0..<8 * 1000]" and s: "has T hash tok (\<lambda>k. if k < 8000 then Some (k * 2) else None) s"
    have "yields (deref_get T s i) (\<lambda>(x, c'). x = i * 2 \<and> has T hash tok (\<lambda>k. if k < 8000 then Some (k * 2) else None) c')"
      using i by (intro shard_table.deref_get_rule [OF tab s]) simp
    then show "yields (comp_bind (deref_get T s i) (\<lambda>(v, c'). comp_bind (assert_that (v = i * 2)) (\<lambda>_. returns c')))
        (has T hash tok (\<lambda>k. if k < 8000 then Some (k * 2) else None))"
      unfolding yields_simps(4) by (rule yields_mono) auto
  qed
  then show "yields (check_inserted T (at_rest (cache (core Z)))) (\<lambda>u. True)"
    unfolding check_inserted_def yields_simps(4) by (rule yields_mono) simp
qed

lemma increments_pass:
  assumes tab: "shard_table T hash tok sok" and c: "has_room T hash tok 0 [''counter'' \<mapsto> 0] c"
    and run: "composed_run T (composed_start c (\<lambda>t. thread c (incrementer t))) Z" and fin: "\<And>t. \<not> unfinished Z t"
  shows "check_counter T (at_rest (cache (core Z))) = returns ()"
proof (rule passed)
  define calls :: "nat \<Rightarrow> (string, nat) call list" where
    "calls t = (if t < 8 then map (\<lambda>_. And_modify ''counter'' (\<lambda>v. v + 1)) [0..<500] else [])" for t
  have prog: "incrementer t = map One (calls t)" for t by (simp add: incrementer_def calls_def comp_def del: upt_rec_numeral)
  have ok: "cache_ok T hash tok c" and v: "cache_vals T c = [''counter'' \<mapsto> 0]" using c by (simp_all add: has_room_def has_def)
  note j = shard_table.joined [OF tab run [unfolded prog] fin ok unbounded_capacity [OF c], of 8 500]
  have few: "length (calls t) = (if t < 8 then 500 else 0)" "\<forall>call \<in> set (calls t). on_key call" for t
    by (auto simp: calls_def)
  have n: "card (dom (cache_vals T c)) + 8 * 500 \<le> usize_max" by (simp add: v usize_max_def)
  have "\<forall>e \<in> set (map snd (effects (core Z))). fst e = And_modify ''counter'' (\<lambda>v. v + 1)"
  proof
    fix e assume "e \<in> set (map snd (effects (core Z)))"
    then have "fst e \<in> (\<Union>t. set (calls t))" using j(3) [OF few(1) n few(2)] by blast
    then show "fst e = And_modify ''counter'' (\<lambda>v. v + 1)" by (auto simp: calls_def split: if_splits)
  qed
  from lossy_modifies [OF j(2) [OF few(1) n few(2)] this]
  have "cache_vals T (at_rest (cache (core Z))) = [''counter'' \<mapsto> ((\<lambda>v. v + 1) ^^ 4000) 0]"
    using j(4) [OF few(1) n few(2)] by (simp add: v)
  moreover have "((\<lambda>v. v + 1) ^^ m) (0 :: nat) = m" for m by (induction m) simp_all
  ultimately have h: "has T hash tok [''counter'' \<mapsto> 4000] (at_rest (cache (core Z)))"
    using j(1) [OF few(1) n few(2)] by (simp add: has_def)
  from shard_table.deref_get_rule [OF tab h, of "''counter''" 4000]
  show "yields (check_counter T (at_rest (cache (core Z)))) (\<lambda>u. True)"
    unfolding check_counter_def yields_simps(4) by (auto elim!: yields_mono)
qed

text \<open>Readers and a writer: whatever they have done so far, some thread can go on.\<close>

lemma readers_pass:
  assumes tab: "shard_table T hash tok sok" and c: "has_room T hash tok 0 (\<lambda>k. if k < 100 then Some k else None) c"
    and rounds: "\<And>t. rounds t \<le> 10 ^ 12" and run: "composed_run T (composed_start c (\<lambda>t. thread c (reader_or_writer rounds t))) Z"
    and left: "unfinished Z w"
  shows "\<exists>u Z'. composed_step T u Z Z'"
proof -
  define calls :: "nat \<Rightarrow> (nat, nat) call list" where
    "calls t = (if t < 6 then concat (map (\<lambda>_. map Lookup [0..<100]) [0..<rounds t])
      else if t = 6 then map (\<lambda>i. Insert (i mod 100) i) [0..<200] else [])" for t
  have prog: "reader_or_writer rounds t = map One (calls t)" for t
    by (simp add: reader_or_writer_def calls_def map_concat comp_def del: upt_rec_numeral)
  have ok: "cache_ok T hash tok c" and v: "card (dom (cache_vals T c)) = 100"
    using c by (simp_all add: has_room_def has_def dom_range)
  have len: "length (calls t) \<le> 100 * 10 ^ 12" for t
    using rounds [of t] by (simp add: calls_def length_concat comp_def sum_list_triv del: upt_rec_numeral)
  have room: "roomy T c (\<lambda>t. thread c (map One (calls t)))"
    using v len by (intro roomy_few [of 7 calls "100 * 10 ^ 12"]) (auto simp: calls_def usize_max_def)
  have ms: "\<forall>t. \<forall>m \<in> set (map One (calls t)). method_ok (key_shard c) (shard_count c) m"
    by (intro allI shard_table.key_calls_ok [OF tab ok]) (auto simp: calls_def)
  have sub: "{t. map One (calls t) \<noteq> []} \<subseteq> {..<7}" by (auto simp: calls_def split: if_splits)
  have few: "finite {t. map One (calls t) \<noteq> []}" "card {t. map One (calls t) \<noteq> []} < 2 ^ 62 - 2"
    using finite_subset [OF sub] card_mono [OF _ sub] by simp_all
  from threads_progress [OF tab ok room ms few run [unfolded prog]] left show ?thesis by blast
qed

section \<open>The property\<close>

text \<open>C39:
  The integration tests with threads pass, with the lock protocol run one atomic access at a time
  in any interleaving. After eight threads have inserted a thousand keys each, every key is
  there with its value; after eight threads have each incremented a counter 500 times through the
  entry API, no update is lost; and six readers and a writer never get stuck: as long as one of
  them has not returned, some thread can take a step.
\<close>

theorem concurrent_tests_pass:
  assumes tab: "shard_table T hash tok sok" and tab': "shard_table T' hash' tok' sok'" and par: "threads_ok par"
    and rounds: "\<forall>t. rounds t \<le> 10 ^ 12"
  shows "(\<exists>c. new_unbounded T par hash = Return c \<and>
      (\<forall>Z. composed_run T (composed_start c (\<lambda>t. thread c (inserter t))) Z \<and> (\<forall>t. \<not> unfinished Z t) \<longrightarrow>
        check_inserted T (at_rest (cache (core Z))) = returns ())) \<and>
    (\<exists>c0 c. new_unbounded T' par hash' = Return c0 \<and> pub_insert T' c0 ''counter'' 0 = returns (None, c) \<and>
      (\<forall>Z. composed_run T' (composed_start c (\<lambda>t. thread c (incrementer t))) Z \<and> (\<forall>t. \<not> unfinished Z t) \<longrightarrow>
        check_counter T' (at_rest (cache (core Z))) = returns ())) \<and>
    (\<exists>c0 c. new_unbounded T par hash = Return c0 \<and> insert_range T 100 c0 = returns c \<and>
      (\<forall>Z w. composed_run T (composed_start c (\<lambda>t. thread c (reader_or_writer rounds t))) Z \<and> unfinished Z w \<longrightarrow>
        (\<exists>u Z'. composed_step T u Z Z')))"
proof (intro conjI)
  obtain c where c: "new_unbounded T par hash = Return c" "has_room T hash tok 0 Map.empty c"
    using unbounded_new_rule [OF tab par] by (auto simp: yields_def)
  then show "\<exists>c. new_unbounded T par hash = Return c \<and>
      (\<forall>Z. composed_run T (composed_start c (\<lambda>t. thread c (inserter t))) Z \<and> (\<forall>t. \<not> unfinished Z t) \<longrightarrow>
        check_inserted T (at_rest (cache (core Z))) = returns ())"
    using inserts_pass [OF tab] by blast
  have r: "rounds t \<le> 10 ^ 12" for t using rounds by blast
  have "100 \<le> usize_max" by (simp add: usize_max_def)
  then obtain d where "insert_range T 100 c = returns d" "has_room T hash tok 0 (\<lambda>k. if k < 100 then Some k else None) d"
    using insert_range_rule [OF tab c(2), of 100] by (auto simp: yields_def)
  then show "\<exists>c0 c. new_unbounded T par hash = Return c0 \<and> insert_range T 100 c0 = returns c \<and>
      (\<forall>Z w. composed_run T (composed_start c (\<lambda>t. thread c (reader_or_writer rounds t))) Z \<and> unfinished Z w \<longrightarrow>
        (\<exists>u Z'. composed_step T u Z Z'))"
    using c(1) readers_pass [where rounds = rounds, OF tab _ r] by blast
next
  obtain c0 where c0: "new_unbounded T' par hash' = Return c0" "has_room T' hash' tok' 0 Map.empty c0"
    using unbounded_new_rule [OF tab' par] by (auto simp: yields_def)
  obtain c where "pub_insert T' c0 ''counter'' 0 = returns (None, c)" "has_room T' hash' tok' 0 [''counter'' \<mapsto> 0] c"
    using shard_table.insert_rule [OF tab' c0(2), of "''counter''" 0] by (auto simp: yields_def pub_insert_def usize_max_def)
  then show "\<exists>c0 c. new_unbounded T' par hash' = Return c0 \<and> pub_insert T' c0 ''counter'' 0 = returns (None, c) \<and>
      (\<forall>Z. composed_run T' (composed_start c (\<lambda>t. thread c (incrementer t))) Z \<and> (\<forall>t. \<not> unfinished Z t) \<longrightarrow>
        check_counter T' (at_rest (cache (core Z))) = returns ())"
    using c0(1) increments_pass [OF tab'] by blast
qed

theorem concurrent_tests_pass_witness:
  "\<exists>c. new_unbounded (slot_table :: (nat, nat, _) table) (Some 8) of_nat = Return c \<and>
    (\<forall>Z. composed_run slot_table (composed_start c (\<lambda>t. thread c (inserter t))) Z \<and> (\<forall>t. \<not> unfinished Z t) \<longrightarrow>
      check_inserted slot_table (at_rest (cache (core Z))) = returns ())"
proof -
  have "threads_ok (Some 8)" "\<forall>t. (\<lambda>_. 1000) t \<le> (10 :: nat) ^ 12" by (simp_all add: threads_ok_def thread_count_def)
  from concurrent_tests_pass [OF slot_shard.shard_table_axioms slot_shard.shard_table_axioms [of "\<lambda>s. of_nat (length s)"] this]
  show ?thesis by blast
qed

end
