(* ===== verification/Bound_Properties.thy ===== *)
theory Bound_Properties
  imports Composed_Properties Call_Rules
begin

text \<open>
  The bounds of a cache as what is true after any calls: of the whole cache after any run of
  calls on a new one, and of each shard in every state that threads reach from a new one.
\<close>

section \<open>Runs of calls\<close>

definition calls_ok :: "('k, 't) NeoCache \<Rightarrow> ('k, 'v) call list \<Rightarrow> bool" where
  "calls_ok c calls \<longleftrightarrow> (\<forall>call \<in> set calls. call_shard (key_shard c) call < length (shards c))"

context shard_table
begin

lemma room_after_call:
  assumes ok: "cache_ok T hash rt_wf c" and room: "nc_room T (Suc n) c" and cfg: "same_config c c'"
    and st: "lossy_step (0 < cache_capacity c) (key_shard c) call a (cache_vals T c) (cache_vals T c')"
  shows "nc_room T n c'"
  using lossy_step_card [OF st cache_dom_finite [OF ok]] room cfg by (auto simp: nc_room_def same_config_def)

lemma calls_return:
  assumes "cache_ok T hash rt_wf c" and "nc_room T (length calls) c" and "calls_ok c calls"
  shows "\<exists>as c'. comp_run (nc_call T) calls c = returns (as, c') \<and> cache_ok T hash rt_wf c' \<and> same_config c c'"
  using assms
proof (induction calls arbitrary: c)
  case (Cons call calls)
  note ok = Cons.prems(1)
  have room: "nc_room T (Suc (length calls)) c" using Cons.prems(2) by simp
  then have one: "nc_room T (Suc 0) c" by (auto simp: nc_room_def)
  have "call_shard (key_shard c) call < length (shards c)" using Cons.prems(3) by (simp add: calls_ok_def)
  from nc_call_lossy [OF ok one this] obtain a c1 where
    c1: "nc_call T call c = returns (a, c1)" "cache_ok T hash rt_wf c1" "same_config c c1"
      "lossy_step (0 < cache_capacity c) (key_shard c) call a (cache_vals T c) (cache_vals T c1)" by blast
  have "calls_ok c1 calls"
    using Cons.prems(3) c1(3) same_config_key_shard [OF c1(3)] by (simp add: calls_ok_def same_config_def shard_count_def)
  from Cons.IH [OF c1(2) room_after_call [OF ok room c1(3,4)] this] c1(1,3) show ?case
    by (auto simp: same_config_def simp del: nc_call.simps)
qed simp

end

section \<open>The properties\<close>

text \<open>C17:
  Whatever calls are made on a new bounded cache (insertions, entry insertions, removals,
  lookups, updates, and \<open>clear\<close>, \<open>retain\<close>, \<open>alter_all\<close>, \<open>shrink_to_fit\<close>, \<open>len\<close> and iteration shard by
  shard), they return, and the cache never holds more than \<open>cache_capacity + shard_count - 1\<close>
  entries, the bound that \<open>README.md\<close> states; each shard stays within its own capacity.
\<close>

theorem capacity_bound:
  assumes tab: "shard_table T hash tok sok"
    and new: "with_capacity_and_hasher_and_shard_amount T cap hash n = Return c"
    and args: "0 < cap" "cap \<le> usize_max" "n \<le> usize_max" and calls: "calls_ok c calls"
  shows "\<exists>as c'. comp_run (nc_call T) calls c = returns (as, c') \<and>
    card (dom (cache_vals T c')) \<le> cap + shard_count c - 1 \<and>
    (\<forall>i < shard_count c. shard_len T (shard_at c' i) \<le> per_shard_cap cap (shard_count c))"
proof -
  have n: "1 < n" "is_power_of_two n"
    using new by (auto simp: with_capacity_and_hasher_and_shard_amount_def split: if_splits)
  have ok: "cache_ok T hash tok c" "cache_capacity c = cap"
    using shard_table.constructor_ok [OF tab args(2) n args(3)] new by (metis run.inject(1))+
  then have "nc_room T (length calls) c" using args(1) by (simp add: nc_room_def)
  from shard_table.calls_return [OF tab ok(1) this calls] obtain as c' where
    c': "comp_run (nc_call T) calls c = returns (as, c')" "cache_ok T hash tok c'" "same_config c c'" by blast
  then have cfg: "cache_capacity c' = cap" "shard_count c' = shard_count c" using ok(2) by (simp_all add: same_config_def)
  have "shard_len T (shard_at c' i) \<le> per_shard_cap cap (shard_count c)" if "i < shard_count c" for i
  proof -
    note s = shard_table.cache_ok_shard(1,2) [OF tab c'(2), of i]
    have "shard_cap (shard_at c' i) = per_shard_cap cap (shard_count c)" "0 < per_shard_cap cap (shard_count c)"
      using s(2) that cfg args(1) by (simp_all add: per_shard_cap_def)
    then show ?thesis using shard_table.shard_len_bound [OF tab s(1)] that cfg(2) by simp
  qed
  then show ?thesis using shard_table.cache_card_bound [OF tab c'(2)] args(1) cfg c'(1) by auto
qed

theorem capacity_bound_witness:
  "\<exists>as c'. comp_run (nc_call slot_table) [Insert 1 ''a'', Or_insert 2 ''b'', Insert 3 ''c'', Remove 1, Insert 4 ''d'', Insert 5 ''e'', Insert 6 ''f''] demo_new =
      returns (as, c') \<and> card (dom (cache_vals slot_table c')) \<le> 5"
proof -
  let ?calls = "[Insert 1 ''a'', Or_insert 2 ''b'', Insert 3 ''c'', Remove 1, Insert 4 ''d'', Insert 5 ''e'', Insert 6 ''f''] :: (nat, string) call list"
  have args: "(0::nat) < 4" "(4::nat) \<le> usize_max" "(2::nat) \<le> usize_max" by (simp_all add: usize_max_def)
  have "calls_ok demo_new ?calls" using slot_shard.home_okD(1) [OF demo_states_ok(1)] by (simp add: calls_ok_def)
  moreover have "shard_count demo_new = 2" by code_simp
  ultimately show ?thesis
    using capacity_bound [OF slot_shard.shard_table_axioms demo_new_Return args, of ?calls]
    by (auto simp del: comp_run.simps nc_call.simps)
qed

text \<open>C25:
  The bounds of a shard hold while threads are at work: let any threads share a new bounded cache and run
  their programs over the lock protocol, one atomic access at a time. In every state they reach, the
  table of each shard holds no more entries than its counters say, the counters are within
  the capacity of the shard, the ghost set is within its limit, and no frequency exceeds \<open>MAX_FREQ\<close>.
\<close>

theorem shard_bounds:
  assumes tab: "shard_table T hash tok sok"
    and new: "with_capacity_and_hasher_and_shard_amount T cap hash n = Return c"
    and args: "0 < cap" "cap \<le> usize_max" "n \<le> usize_max"
    and progs: "\<forall>w. disciplined (key_shard c) (length (shards c)) Map.empty (progs w)"
    and run: "composed_run T (composed_start c progs) Z" and i: "i < shard_count (cache (core Z))"
    and s: "s = shard_at (cache (core Z)) i"
  shows "shard_len T s \<le> small_live s + main_live s \<and> small_live s + main_live s \<le> shard_cap s \<and>
    shard_cap s = per_shard_cap cap (shard_count (cache (core Z))) \<and> card (ghost_set s) \<le> shard_cap s \<and>
    (\<forall>k e. shard_map T s k = Some e \<longrightarrow> entry_freq e \<le> MAX_FREQ)"
proof -
  have n: "1 < n" "is_power_of_two n"
    using new by (auto simp: with_capacity_and_hasher_and_shard_amount_def split: if_splits)
  have ok: "cache_ok T hash tok c" "cache_capacity c = cap"
    using shard_table.constructor_ok [OF tab args(2) n args(3)] new by (metis run.inject(1))+
  then have room: "roomy T c progs" using args(1) by (simp add: roomy_def)
  from shard_table.composed_runs [OF tab run ok(1) room spec [OF progs]] obtain S where
    S: "runs_to T (started c progs) S" "matches Z S" by blast
  note inv = shard_table.steady_runs [OF tab S(1) ok(1) room spec [OF progs]]
  have rest: "at_rest (cache S) = at_rest (cache (core Z))"
    using S(2) same_but_wordsD(3) [of "core Z" S] by (simp add: matches_def)
  have d: "cache_ok T hash tok (at_rest (cache (core Z)))" "cache_capacity (at_rest (cache (core Z))) = cap"
    using shard_table.steadyD(1,3) [OF tab inv] ok(2) at_rest_frame(5) [of "cache S"] unfolding rest by simp_all
  have at: "shard_at (at_rest (cache (core Z))) i = s" using i s by (simp add: shard_count_def)
  note sh = shard_table.cache_ok_shard(1,2) [OF tab d(1), of i, unfolded at d(2) at_rest_frame(2), OF i]
  have pos: "0 < shard_cap s" using sh(2) args(1) by (simp add: per_shard_cap_def)
  have "entry_freq e \<le> MAX_FREQ" if "shard_map T s k = Some e" for k e
    using sh(1) that by (auto simp: shard_inv_def queues_ok_def entry_ok_def MAX_FREQ_def word_le_nat_alt)
  moreover have "card (ghost_set s) \<le> shard_cap s"
    using sh(1) pos by (auto simp: shard_inv_def ghost_ok_def dest: caps_facts)
  ultimately show ?thesis using shard_table.shard_len_bound [OF tab sh(1)] pos sh(2) by (simp add: live_def)
qed

theorem shard_bounds_witness:
  "shard_len slot_table (shard_at (cache (core (composed_start demo_new (\<lambda>w. thread demo_new (demo_methods w))))) 0) \<le> 2"
proof -
  let ?progs = "\<lambda>w. thread demo_new (demo_methods w)"
  have args: "(0::nat) < 4" "(4::nat) \<le> usize_max" "(2::nat) \<le> usize_max" by (simp_all add: usize_max_def)
  have "\<forall>m \<in> set (demo_methods w). method_ok (key_shard demo_new) (shard_count demo_new) m" for w
    using slot_shard.home_okD(1) [OF demo_states_ok(1)] by (auto simp: demo_methods_def shard_count_def)
  then have progs: "\<forall>w. disciplined (key_shard demo_new) (length (shards demo_new)) Map.empty (?progs w)"
    using thread_ok(1) by blast
  have n: "shard_count demo_new = 2" "per_shard_cap 4 2 = 2" by code_simp+
  then have "0 < shard_count (cache (core (composed_start demo_new ?progs)))" by (simp add: composed_start_def started_def)
  from shard_bounds [OF slot_shard.shard_table_axioms demo_new_Return args progs composed_run.start this refl] n
  show ?thesis by (simp add: composed_start_def started_def)
qed

end
