(* ===== verification/S3_Fifo.thy ===== *)
theory S3_Fifo
  imports Shard_Calls
begin

text \<open>
  The eviction policy without the hash table: a shard as a finite map with two queues of keys, a
  ghost set and two counters. Every call is a function on that state. The refinement below says that
  the code, on any table that satisfies the interface of \<open>Raw_Table\<close>, computes exactly this function:
  what a cache answers and evicts does not depend on how the table places, moves or finds its elements.
\<close>

section \<open>The policy\<close>

record ('k, 'v) s3fifo =
  q_map :: "'k \<rightharpoonup> 'v CacheEntry"
  q_small :: "'k list"
  q_main :: "'k list"
  q_ghost :: "u64 set"
  q_small_live :: nat
  q_main_live :: nat
  q_cap :: nat

text \<open>The keys from the first one that is in the map.\<close>

definition from_live :: "('k \<rightharpoonup> 'e) \<Rightarrow> 'k list \<Rightarrow> 'k list" where
  "from_live m ks = dropWhile (\<lambda>k. m k = None) ks"

definition remember :: "u64 \<Rightarrow> ('k, 'v) s3fifo \<Rightarrow> ('k, 'v) s3fifo" where
  "remember h q = q\<lparr>q_ghost := insert h (if q_cap q \<le> card (q_ghost q) then {} else q_ghost q)\<rparr>"

text \<open>A second chance for the main queue's oldest keys that were read, eviction of the first that was not.\<close>

partial_function (option) q_evict_main :: "('k, 'v) s3fifo \<Rightarrow> ('k, 'v) s3fifo option" where
  "q_evict_main q = (case from_live (q_map q) (q_main q) of
     [] \<Rightarrow> Some (q\<lparr>q_main := []\<rparr>)
   | k # ks \<Rightarrow> (case q_map q k of
       None \<Rightarrow> None
     | Some e \<Rightarrow>
         if 0 < entry_freq e
         then q_evict_main (q\<lparr>q_map := (q_map q)(k \<mapsto> e\<lparr>entry_freq := entry_freq e - 1\<rparr>), q_main := ks @ [k]\<rparr>)
         else Some (q\<lparr>q_map := (q_map q)(k := None), q_main := ks, q_main_live := q_main_live q - 1\<rparr>)))"

text \<open>The small queue's oldest key moves to the main queue if it was read, and is evicted and remembered otherwise.\<close>

definition q_evict_small :: "('k \<Rightarrow> u64) \<Rightarrow> ('k, 'v) s3fifo \<Rightarrow> ('k, 'v) s3fifo option" where
  "q_evict_small hash q = (case from_live (q_map q) (q_small q) of
     [] \<Rightarrow> q_evict_main (q\<lparr>q_small := []\<rparr>)
   | k # ks \<Rightarrow> (case q_map q k of
       None \<Rightarrow> None
     | Some e \<Rightarrow> Some (
         if 0 < entry_freq e
         then q\<lparr>q_map := (q_map q)(k \<mapsto> e\<lparr>entry_loc := LOC_MAIN\<rparr>), q_small := ks, q_main := q_main q @ [k],
                q_small_live := q_small_live q - 1, q_main_live := q_main_live q + 1\<rparr>
         else remember (hash k) (q\<lparr>q_map := (q_map q)(k := None), q_small := ks, q_small_live := q_small_live q - 1\<rparr>))))"

definition q_evict :: "('k \<Rightarrow> u64) \<Rightarrow> ('k, 'v) s3fifo \<Rightarrow> ('k, 'v) s3fifo option" where
  "q_evict hash q =
     (if fst (shard_caps (q_cap q)) \<le> q_small_live q then q_evict_small hash q else q_evict_main q)"

partial_function (option) q_make_room :: "('k \<Rightarrow> u64) \<Rightarrow> ('k, 'v) s3fifo \<Rightarrow> ('k, 'v) s3fifo option" where
  "q_make_room hash q =
     (if q_cap q = 0 \<or> q_small_live q + q_main_live q < q_cap q then Some q
      else Option.bind (q_evict hash q) (q_make_room hash))"

declare q_evict_main.simps [code] q_make_room.simps [code]

text \<open>A key that is remembered goes straight to the main queue.\<close>

definition q_enqueue :: "u8 \<Rightarrow> 'k \<Rightarrow> ('k, 'v) s3fifo \<Rightarrow> ('k, 'v) s3fifo" where
  "q_enqueue l k q =
     (if l = LOC_MAIN then q\<lparr>q_main := q_main q @ [k], q_main_live := q_main_live q + 1\<rparr>
      else q\<lparr>q_small := q_small q @ [k], q_small_live := q_small_live q + 1\<rparr>)"

definition q_add :: "('k \<Rightarrow> u64) \<Rightarrow> 'k \<Rightarrow> 'v \<Rightarrow> ('k, 'v) s3fifo \<Rightarrow> ('k, 'v) s3fifo option" where
  "q_add hash k v q =
     (let l = (if hash k \<in> q_ghost q then LOC_MAIN else LOC_SMALL)
      in map_option (\<lambda>q'. q_enqueue l k (q'\<lparr>q_map := (q_map q')(k \<mapsto> CacheEntry_new v l)\<rparr>))
           (q_make_room hash (q\<lparr>q_ghost := q_ghost q - {hash k}\<rparr>)))"

section \<open>The policy of a shard\<close>

definition policy :: "('k, 'v, 't) table \<Rightarrow> ('k, 't) ShardData \<Rightarrow> ('k, 'v) s3fifo" where
  "policy T s = \<lparr>q_map = shard_map T s, q_small = small_keys s, q_main = main_keys s, q_ghost = ghost_set s,
     q_small_live = small_live s, q_main_live = main_live s, q_cap = shard_cap s\<rparr>"

text \<open>What eviction needs of a shard, and keeps.\<close>

definition sound :: "('k, 'v, 't) table \<Rightarrow> ('k \<Rightarrow> u64) \<Rightarrow> ('t \<Rightarrow> bool) \<Rightarrow> ('k, 't) ShardData \<Rightarrow> bool" where
  "sound T hash tok s \<longleftrightarrow> table_ok T tok s \<and> caps_ok s \<and>
     small_hashes s = map hash (small_keys s) \<and> main_hashes s = map hash (main_keys s)"

lemma shard_inv_sound: "shard_inv T hash tok s \<Longrightarrow> sound T hash tok s"
  by (simp add: shard_inv_def sound_def queues_ok_def)

lemma policy_simps [simp]:
  "q_map (policy T s) = shard_map T s" "q_small (policy T s) = small_keys s" "q_main (policy T s) = main_keys s"
  "q_ghost (policy T s) = ghost_set s" "q_small_live (policy T s) = small_live s"
  "q_main_live (policy T s) = main_live s" "q_cap (policy T s) = shard_cap s"
  by (simp_all add: policy_def)

lemma pop_live_exhausted:
  "pop_live T m hs ks = (None, hs', ks') \<Longrightarrow> length hs = length ks \<Longrightarrow> hs' = [] \<and> ks' = []"
  by (induction T m hs ks rule: pop_live.induct) (auto split: option.splits)

context shard_table
begin

text \<open>The loop that pops the queue in lock-step finds the first live key.\<close>

lemma pop_live_from_live:
  assumes tab: "table_ok T rt_wf s" and pop: "pop_live T (raw_map s) (map hash ks) ks = (r, hs', ks')"
  shows "case r of
      None \<Rightarrow> from_live (shard_map T s) ks = [] \<and> hs' = [] \<and> ks' = []
    | Some (h, k, b) \<Rightarrow> h = hash k \<and> hs' = map hash ks' \<and> from_live (shard_map T s) ks = k # ks' \<and>
        b \<in> set (rt_iter T (raw_map s)) \<and>
        (\<exists>e. rt_as_ref T (raw_map s) b = (k, e) \<and> shard_map T s k = Some e)"
proof (cases r)
  case None
  then have p: "pop_live T (raw_map s) (map hash ks) ks = (None, hs', ks')" using pop by simp
  have "from_live (shard_map T s) ks = []"
    using pop_live_NoneD [OF tab p] by (auto simp: from_live_def)
  with None pop_live_exhausted [OF p] show ?thesis by simp
next
  case (Some x)
  obtain h k b where x: "x = (h, k, b)" by (metis prod_cases3)
  from pop [unfolded Some x] show ?thesis
  proof (rule pop_live_SomeE [OF tab])
    fix st e
    assume a: "ks = st @ k # ks'" "\<And>j. j \<in> set st \<Longrightarrow> shard_map T s j = None" "shard_map T s k = Some e"
      and b: "h = hash k" "hs' = map hash ks'" "b \<in> set (rt_iter T (raw_map s))" "rt_as_ref T (raw_map s) b = (k, e)"
    have "from_live (shard_map T s) ks = k # ks'"
      using a unfolding from_live_def a(1) by (subst dropWhile_append2) auto
    with a(3) b show ?thesis by (simp add: Some x)
  qed
qed

text \<open>Dropping the stale pairs of a queue that has no live key.\<close>

lemma sound_idle:
  assumes "sound T hash rt_wf s"
  shows "sound T hash rt_wf (s\<lparr>small_hashes := [], small_keys := []\<rparr>) \<and>
      keeps_slots slot_ok s (s\<lparr>small_hashes := [], small_keys := []\<rparr>) \<and>
      policy T (s\<lparr>small_hashes := [], small_keys := []\<rparr>) = policy T s\<lparr>q_small := []\<rparr>"
    and "sound T hash rt_wf (s\<lparr>main_hashes := [], main_keys := []\<rparr>) \<and>
      keeps_slots slot_ok s (s\<lparr>main_hashes := [], main_keys := []\<rparr>) \<and>
      policy T (s\<lparr>main_hashes := [], main_keys := []\<rparr>) = policy T s\<lparr>q_main := []\<rparr>"
  using assms by (simp_all add: sound_def table_ok_def caps_ok_def policy_def shard_map_def keeps_slots_def)

lemma evict_main_step:
  assumes sd: "sound T hash rt_wf s"
    and pop: "pop_live T (raw_map s) (main_hashes s) (main_keys s) = (Some (h, k, b), hs, ks)"
    and b: "rt_as_ref T (raw_map s) b = (k', e)" and f: "0 < entry_freq e"
  defines "s1 \<equiv> s\<lparr>raw_map := rt_write T (raw_map s) b (k', e\<lparr>entry_freq := entry_freq e - 1\<rparr>),
      main_hashes := hs @ [h], main_keys := ks @ [k]\<rparr>"
  shows "sound T hash rt_wf s1" and "keeps_slots slot_ok s s1" and "q_evict_main (policy T s) = q_evict_main (policy T s1)"
proof -
  have tab: "table_ok T rt_wf s" and hs: "main_hashes s = map hash (main_keys s)" using sd by (simp_all add: sound_def)
  from pop_live_from_live [OF tab pop [unfolded hs]] b have
    p: "h = hash k" "hs = map hash ks" "from_live (shard_map T s) (main_keys s) = k # ks"
      "b \<in> set (rt_iter T (raw_map s))" "rt_as_ref T (raw_map s) b = (k, e)" "shard_map T s k = Some e" "k' = k"
    by auto
  note w = shard_write [OF tab p(4,5), of s1 "e\<lparr>entry_freq := entry_freq e - 1\<rparr>"]
  show "sound T hash rt_wf s1" using sd w(1) p(1,2,7) by (simp add: sound_def s1_def caps_ok_def)
  show "keeps_slots slot_ok s s1" using w(3) p(7) by (simp add: s1_def)
  have "policy T s1 = policy T s\<lparr>q_map := (shard_map T s)(k \<mapsto> e\<lparr>entry_freq := entry_freq e - 1\<rparr>), q_main := ks @ [k]\<rparr>"
    using w(2) p(7) by (simp add: policy_def s1_def)
  then show "q_evict_main (policy T s) = q_evict_main (policy T s1)"
    using p(3,6) f by (simp add: q_evict_main.simps [of "policy T s"])
qed

lemma evict_main_end:
  assumes sd: "sound T hash rt_wf s"
    and pop: "pop_live T (raw_map s) (main_hashes s) (main_keys s) = (Some (h, k, b), hs, ks)"
    and b: "rt_as_ref T (raw_map s) b = (k', e)" and f: "\<not> 0 < entry_freq e" and n: "usize_sub (main_live s) 1 = Return n"
  defines "s1 \<equiv> s\<lparr>raw_map := snd (rt_remove T (raw_map s) b), main_hashes := hs, main_keys := ks, main_live := n\<rparr>"
  shows "sound T hash rt_wf s1 \<and> keeps_slots slot_ok s s1 \<and> q_evict_main (policy T s) = Some (policy T s1)"
proof -
  have tab: "table_ok T rt_wf s" and hs: "main_hashes s = map hash (main_keys s)" using sd by (simp_all add: sound_def)
  from pop_live_from_live [OF tab pop [unfolded hs]] b have
    p: "h = hash k" "hs = map hash ks" "from_live (shard_map T s) (main_keys s) = k # ks"
      "b \<in> set (rt_iter T (raw_map s))" "rt_as_ref T (raw_map s) b = (k, e)" "shard_map T s k = Some e"
    by auto
  note w = shard_remove [OF tab p(4,5), of s1]
  have "n = main_live s - 1" using n by (auto simp: usize_sub_def split: if_splits)
  then have "policy T s1 = policy T s\<lparr>q_map := (shard_map T s)(k := None), q_main := ks, q_main_live := main_live s - 1\<rparr>"
    using w(2) by (simp add: policy_def s1_def)
  then have "q_evict_main (policy T s) = Some (policy T s1)"
    using p(3,6) f by (simp add: q_evict_main.simps [of "policy T s"])
  moreover have "sound T hash rt_wf s1" using sd w(1) p(2) by (simp add: sound_def s1_def caps_ok_def)
  ultimately show ?thesis using w(3) by (simp add: s1_def)
qed

lemma evict_main_policy:
  assumes "evict_from_main T s = returns s1" and "sound T hash rt_wf s"
  shows "sound T hash rt_wf s1 \<and> keeps_slots slot_ok s s1 \<and> q_evict_main (policy T s) = Some (policy T s1)"
proof -
  have "T' = T \<longrightarrow> sound T hash rt_wf s \<longrightarrow> (\<forall>s1. y = Return s1 \<longrightarrow>
      sound T hash rt_wf s1 \<and> keeps_slots slot_ok s s1 \<and> q_evict_main (policy T s) = Some (policy T s1))"
    if "evict_from_main T' s = Some y" for T' y
    using that
  proof (induction rule: evict_from_main.raw_induct [rotated, consumes 1, case_names step])
    case (step rec T' s y)
    show ?case
    proof (intro impI allI)
      fix s1 assume T': "T' = T" and sd: "sound T hash rt_wf s" and y: "y = Return s1"
      have tab: "table_ok T rt_wf s" and hs: "main_hashes s = map hash (main_keys s)" using sd by (simp_all add: sound_def)
      obtain r hs' ks' where pop: "pop_live T (raw_map s) (main_hashes s) (main_keys s) = (r, hs', ks')"
        by (metis prod_cases3)
      show "sound T hash rt_wf s1 \<and> keeps_slots slot_ok s s1 \<and> q_evict_main (policy T s) = Some (policy T s1)"
      proof (cases r)
        case None
        then have s1: "s1 = s\<lparr>main_hashes := hs', main_keys := ks'\<rparr>" using step(2) pop y T' by simp
        have "from_live (shard_map T s) (main_keys s) = []" "hs' = []" "ks' = []"
          using pop_live_from_live [OF tab pop [unfolded hs]] None by simp_all
        then show ?thesis using sound_idle(2) [OF sd] s1 q_evict_main.simps [of "policy T s"] by simp
      next
        case (Some x)
        obtain h k b where x: "x = (h, k, b)" by (metis prod_cases3)
        obtain k' e where ke: "rt_as_ref T (raw_map s) b = (k', e)" by fastforce
        note pop = pop [unfolded Some x]
        show ?thesis
        proof (cases "0 < entry_freq e")
          case True
          note st = evict_main_step [OF sd pop ke True]
          from step(2) True have "rec T (s\<lparr>raw_map := rt_write T (raw_map s) b (k', e\<lparr>entry_freq := entry_freq e - 1\<rparr>),
              main_hashes := hs' @ [h], main_keys := ks' @ [k]\<rparr>) = Some (Return s1)"
            by (simp add: T' pop ke y)
          from step(1) [OF this] st keeps_slots_trans [OF st(2)] show ?thesis by simp
        next
          case False
          with step(2) obtain n where n: "usize_sub (main_live s) 1 = Return n"
            and s1: "s1 = s\<lparr>raw_map := snd (rt_remove T (raw_map s) b), main_hashes := hs', main_keys := ks', main_live := n\<rparr>"
            by (auto simp: T' pop ke y split: run.splits)
          from evict_main_end [OF sd pop ke False n] show ?thesis unfolding s1 .
        qed
      qed
    qed
  qed
  with assms show ?thesis by blast
qed

lemma evict_small_head:
  assumes ev: "evict_from_small T s = returns s1" and sd: "sound T hash rt_wf s" and cap: "shard_cap s \<noteq> 0"
    and pop: "pop_live T (raw_map s) (small_hashes s) (small_keys s) = (Some (h, k, b), hs, ks)"
  shows "sound T hash rt_wf s1 \<and> keeps_slots slot_ok s s1 \<and> q_evict_small hash (policy T s) = Some (policy T s1)"
proof -
  have tab: "table_ok T rt_wf s" and hs: "small_hashes s = map hash (small_keys s)" using sd by (simp_all add: sound_def)
  have gc: "ghost_cap s = shard_cap s" using sd cap by (auto simp: sound_def dest: caps_facts)
  obtain e where q: "h = hash k" "hs = map hash ks" "from_live (shard_map T s) (small_keys s) = k # ks"
      "b \<in> set (rt_iter T (raw_map s))" "rt_as_ref T (raw_map s) b = (k, e)" "shard_map T s k = Some e"
    using pop_live_from_live [OF tab pop [unfolded hs]] by auto
  note ev = ev [unfolded evict_from_small_def pop, simplified]
  show ?thesis
  proof (cases "0 < entry_freq e")
    case True
    from ev have s1: "s1 = s\<lparr>small_hashes := hs, small_keys := ks,
        raw_map := rt_write T (raw_map s) b (k, e\<lparr>entry_loc := LOC_MAIN\<rparr>), small_live := small_live s - 1,
        main_hashes := main_hashes s @ [h], main_keys := main_keys s @ [k], main_live := main_live s + 1\<rparr>"
      using True by (auto simp: Let_def q(5) comp_bind_returns_iff usize_sub_def usize_add_def split: if_splits)
    then have "raw_map s1 = rt_write T (raw_map s) b (k, e\<lparr>entry_loc := LOC_MAIN\<rparr>)" by simp
    note w = shard_write [OF tab q(4,5) this]
    have "policy T s1 = policy T s\<lparr>q_map := (shard_map T s)(k \<mapsto> e\<lparr>entry_loc := LOC_MAIN\<rparr>), q_small := ks,
        q_main := main_keys s @ [k], q_small_live := small_live s - 1, q_main_live := main_live s + 1\<rparr>"
      using w(2) by (simp add: policy_def s1)
    moreover have "sound T hash rt_wf s1" using sd w(1) q(1,2) by (simp add: sound_def caps_ok_def s1)
    ultimately show ?thesis using w(3) q(3,6) True by (simp add: q_evict_small_def)
  next
    case False
    from ev have s1: "s1 = add_to_ghost h (s\<lparr>small_hashes := hs, small_keys := ks,
        small_live := small_live s - 1, raw_map := snd (rt_remove T (raw_map s) b)\<rparr>)"
      using False by (auto simp: Let_def q(5) comp_bind_returns_iff usize_sub_def split: if_splits)
    then have "raw_map s1 = snd (rt_remove T (raw_map s) b)" by simp
    note d = shard_remove [OF tab q(4,5) this]
    have "policy T s1 = remember (hash k) (policy T s\<lparr>q_map := (shard_map T s)(k := None), q_small := ks,
        q_small_live := small_live s - 1\<rparr>)"
      using d(2) gc q(1) by (simp add: policy_def s1 remember_def) (simp add: add_to_ghost_def Let_def)
    moreover have "sound T hash rt_wf s1" using sd d(1) q(1,2) by (simp add: sound_def caps_ok_def s1)
    ultimately show ?thesis using d(3) q(3,6) False by (simp add: q_evict_small_def)
  qed
qed

lemma evict_small_policy:
  assumes ev: "evict_from_small T s = returns s1" and sd: "sound T hash rt_wf s" and cap: "shard_cap s \<noteq> 0"
  shows "sound T hash rt_wf s1 \<and> keeps_slots slot_ok s s1 \<and> q_evict_small hash (policy T s) = Some (policy T s1)"
proof -
  obtain r hs ks where pop: "pop_live T (raw_map s) (small_hashes s) (small_keys s) = (r, hs, ks)" by (metis prod_cases3)
  show ?thesis
  proof (cases r)
    case None
    have tab: "table_ok T rt_wf s" and eq: "small_hashes s = map hash (small_keys s)" using sd by (simp_all add: sound_def)
    have e: "from_live (shard_map T s) (small_keys s) = []" "hs = []" "ks = []"
      using pop_live_from_live [OF tab pop [unfolded eq]] None by simp_all
    then have "evict_from_main T (s\<lparr>small_hashes := [], small_keys := []\<rparr>) = returns s1"
      using ev pop None by (simp add: evict_from_small_def)
    from evict_main_policy [OF this] show ?thesis
      using sound_idle(1) [OF sd] e(1) keeps_slots_trans [of slot_ok s "s\<lparr>small_hashes := [], small_keys := []\<rparr>" s1]
      by (simp add: q_evict_small_def)
  next
    case (Some x)
    then show ?thesis using evict_small_head [OF ev sd cap] pop by (cases x) simp
  qed
qed

lemma evict_one_policy:
  assumes ev: "evict_one T s = returns s1" and sd: "sound T hash rt_wf s" and cap: "shard_cap s \<noteq> 0"
  shows "sound T hash rt_wf s1 \<and> keeps_slots slot_ok s s1 \<and> q_evict hash (policy T s) = Some (policy T s1)"
proof -
  have "small_cap s = fst (shard_caps (shard_cap s))"
    using sd by (auto simp: sound_def caps_ok_def dest: arg_cong [where f = fst])
  then show ?thesis
    using ev evict_small_policy [OF _ sd cap, of s1] evict_main_policy [OF _ sd, of s1]
    by (simp add: evict_one_def q_evict_def split: if_splits)
qed

lemma make_room_policy:
  assumes "evict_while_full T s = returns s1" and "sound T hash rt_wf s"
  shows "sound T hash rt_wf s1 \<and> keeps_slots slot_ok s s1 \<and> q_make_room hash (policy T s) = Some (policy T s1)"
proof -
  have "T' = T \<longrightarrow> sound T hash rt_wf s \<longrightarrow> (\<forall>s1. y = Return s1 \<longrightarrow>
      sound T hash rt_wf s1 \<and> keeps_slots slot_ok s s1 \<and> q_make_room hash (policy T s) = Some (policy T s1))"
    if "evict_while_full T' s = Some y" for T' y
    using that
  proof (induction rule: evict_while_full.raw_induct [rotated, consumes 1, case_names step])
    case (step rec T' s y)
    show ?case
    proof (intro impI allI)
      fix s1 assume T': "T' = T" and sd: "sound T hash rt_wf s" and y: "y = Return s1"
      show "sound T hash rt_wf s1 \<and> keeps_slots slot_ok s s1 \<and> q_make_room hash (policy T s) = Some (policy T s1)"
      proof (cases "shard_cap s = 0 \<or> small_live s + main_live s < shard_cap s")
        case True
        then have "s1 = s"
          using step(2) y by (auto simp: total_live_def usize_add_def split: if_splits)
        with True sd show ?thesis by (simp add: q_make_room.simps [of hash "policy T s"])
      next
        case False
        with step(2) obtain s2 where e: "evict_one T s = returns s2" and r: "rec T s2 = Some (Return s1)"
          by (auto simp: T' y total_live_def usize_add_def split: if_splits option.splits run.splits)
        note o = evict_one_policy [OF e sd]
        then show ?thesis
          using step(1) [OF r] False keeps_slots_trans [of slot_ok s s2 s1] by (auto simp: q_make_room.simps [of hash "policy T s"])
      qed
    qed
  qed
  with assms show ?thesis by blast
qed

lemma insert_new_policy:
  assumes ins: "insert_new T (hash k) k slot v s = returns (b, s2)" and inv: "shard_inv T hash rt_wf s"
    and slot: "slot_ok (raw_map s) (hash k) slot" and absent: "shard_map T s k = None"
  shows "q_add hash k v (policy T s) = Some (policy T s2)"
proof -
  define s0 where "s0 = s\<lparr>ghost_set := ghost_set s - {hash k}\<rparr>"
  define l where "l = (if hash k \<in> ghost_set s then LOC_MAIN else LOC_SMALL)"
  have g: "ghost_remove (hash k) s = (hash k \<in> ghost_set s, s0)" by (simp add: ghost_remove_def s0_def)
  note g0 = ghost_remove_inv [OF inv g]
  obtain s1 vict where e: "evict_while_full T s0 = returns s1"
    "case vict of None \<Rightarrow> s1 = s0 | Some j \<Rightarrow> shard_map T s0 j \<noteq> None \<and> shard_vals T s1 = (shard_vals T s0)(j := None)"
    using evict_for_insert [OF g0(1)] by blast
  note r = make_room_policy [OF e(1) shard_inv_sound [OF g0(1)]]
  have "shard_vals T s0 k = None" using absent g0(6) by (simp add: shard_vals_def)
  then have "shard_vals T s1 k = None" using e(2) by (auto split: option.splits)
  then have a1: "rt_lookup T (raw_map s1) k = None" by (simp add: shard_vals_def shard_map_def)
  obtain b' t where t: "rt_insert_in_slot T (raw_map s1) (hash k) slot (k, CacheEntry_new v l) = (b', t)" by fastforce
  have wf: "rt_wf (raw_map s1)" "rt_keys_distinct T (raw_map s1)" using r by (simp_all add: sound_def table_ok_def)
  have sl: "slot_ok (raw_map s1) (hash k) slot" using r slot g0(3) by (simp add: keeps_slots_def)
  note i = insert_lookup(3) [OF wf a1 sl t]
  have "enqueue l (hash k) k (s1\<lparr>raw_map := t\<rparr>) = Return s2"
    using ins e(1) t by (auto simp: insert_new_def g l_def Let_def comp_bind_returns_iff)
  then have "policy T s2 = q_enqueue l k (policy T s1\<lparr>q_map := (shard_map T s1)(k \<mapsto> CacheEntry_new v l)\<rparr>)"
    using i by (auto simp: enqueue_def q_enqueue_def policy_def shard_map_def run_simps usize_add_def split: if_splits)
  moreover have "policy T s0 = policy T s\<lparr>q_ghost := ghost_set s - {hash k}\<rparr>"
    by (simp add: s0_def policy_def shard_map_def)
  ultimately show ?thesis using r by (simp add: q_add_def l_def Let_def)
qed

end

section \<open>Calls\<close>

text \<open>
  Every call but iteration (whose order the table chooses). \<open>q_drop\<close> is a removal: the map loses the key, the
  counter of its queue is lowered, and its pair stays in the queue.
\<close>

definition q_write :: "'k \<Rightarrow> 'v CacheEntry \<Rightarrow> ('k, 'v) s3fifo \<Rightarrow> ('k, 'v) s3fifo" where
  "q_write k e q = q\<lparr>q_map := (q_map q)(k \<mapsto> e)\<rparr>"

definition q_drop :: "'k \<Rightarrow> 'v CacheEntry \<Rightarrow> ('k, 'v) s3fifo \<Rightarrow> ('k, 'v) s3fifo" where
  "q_drop k e q =
     (if is_small e then q\<lparr>q_map := (q_map q)(k := None), q_small_live := q_small_live q - 1\<rparr>
      else q\<lparr>q_map := (q_map q)(k := None), q_main_live := q_main_live q - 1\<rparr>)"

definition with_value :: "'v \<Rightarrow> 'v CacheEntry \<Rightarrow> 'v CacheEntry" where
  "with_value v e = e\<lparr>entry_value := sv_new v\<rparr>"

definition q_retain :: "('k \<Rightarrow> 'v \<Rightarrow> bool \<times> 'v) \<Rightarrow> ('k, 'v) s3fifo \<Rightarrow> ('k, 'v) s3fifo" where
  "q_retain f q = q\<lparr>
     q_map := (\<lambda>k. case q_map q k of None \<Rightarrow> None | Some e \<Rightarrow>
       (case f k (entry_val e) of (keep, v) \<Rightarrow> if keep then Some (with_value v e) else None)),
     q_small_live := q_small_live q -
       card {k. \<exists>e. q_map q k = Some e \<and> \<not> fst (f k (entry_val e)) \<and> is_small e},
     q_main_live := q_main_live q -
       card {k. \<exists>e. q_map q k = Some e \<and> \<not> fst (f k (entry_val e)) \<and> \<not> is_small e}\<rparr>"

fun q_call :: "('k \<Rightarrow> u64) \<Rightarrow> ('k, 'v) call \<Rightarrow> ('k, 'v) s3fifo \<Rightarrow> (('k, 'v) answer \<times> ('k, 'v) s3fifo) option" where
  "q_call hash (Insert k v) q = (case q_map q k of
     Some e \<Rightarrow> Some (Value (Some (entry_val e)), q_write k (with_value v e) q)
   | None \<Rightarrow> map_option (Pair (Value None)) (q_add hash k v q))"
| "q_call hash (Remove k) q = (case q_map q k of
     Some e \<Rightarrow> Some (Value (Some (entry_val e)), q_drop k e q) | None \<Rightarrow> Some (Value None, q))"
| "q_call hash (Remove_if k p) q = (case q_map q k of
     Some e \<Rightarrow> if p k (entry_val e) then Some (Value (Some (entry_val e)), q_drop k e q) else Some (Value None, q)
   | None \<Rightarrow> Some (Value None, q))"
| "q_call hash (Remove_if_mut k p) q = (case q_map q k of
     Some e \<Rightarrow> (case p k (entry_val e) of
       (True, v) \<Rightarrow> Some (Value (Some v), q_drop k e q)
     | (False, v) \<Rightarrow> Some (Value None, q_write k (with_value v e) q))
   | None \<Rightarrow> Some (Value None, q))"
| "q_call hash (Alter k f) q = (case q_map q k of
     Some e \<Rightarrow> Some (Unit, q_write k (with_value (f k (entry_val e)) (bump_freq e)) q) | None \<Rightarrow> Some (Unit, q))"
| "q_call hash (Or_insert k v) q = (case q_map q k of
     Some e \<Rightarrow> Some (Value (Some (entry_val e)), q)
   | None \<Rightarrow> map_option (Pair (Value (Some v))) (q_add hash k v q))"
| "q_call hash (And_modify k f) q = (case q_map q k of
     Some e \<Rightarrow> Some (Unit, q_write k (with_value (f (entry_val e)) e) q) | None \<Rightarrow> Some (Unit, q))"
| "q_call hash (Lookup k) q = (case q_map q k of
     Some e \<Rightarrow> Some (Value (Some (entry_val e)), q_write k (bump_freq e) q) | None \<Rightarrow> Some (Value None, q))"
| "q_call hash (Clear_at i) q = Some (Unit, q\<lparr>q_map := Map.empty, q_small := [], q_main := [], q_ghost := {},
     q_small_live := 0, q_main_live := 0\<rparr>)"
| "q_call hash (Retain_at i f) q = Some (Unit, q_retain f q)"
| "q_call hash (Alter_at i f) q = Some (Unit, q_retain (\<lambda>k v. (True, f k v)) q)"
| "q_call hash (Shrink_at i) q = Some (Unit, q)"
| "q_call hash (Len_at i) q = Some (Count (card (dom (q_map q))), q)"
| "q_call hash (Visit_at i) q = None"

end
