(* ===== verification/Policy_Refinement.thy ===== *)
theory Policy_Refinement
  imports S3_Fifo
begin

text \<open>
  Every call of the code on a shard is the call of theory \<open>S3_Fifo\<close> on the shard's policy, and hence every run
  of calls on a cache is the run of the policy on its shards.
\<close>

fun visits :: "('k, 'v) call \<Rightarrow> bool" where
  "visits (Visit_at i) = True"
| "visits _ = False"

section \<open>Table operations as policy operations\<close>

context shard_table
begin

lemma find_policy:
  assumes inv: "shard_inv T hash rt_wf s"
  obtains (miss) "rt_find T (raw_map s) (hash k) (key_eq k) = None" and "shard_map T s k = None"
    | (hit) b e where "rt_find T (raw_map s) (hash k) (key_eq k) = Some b" and "b \<in> set (rt_iter T (raw_map s))"
        and "rt_as_ref T (raw_map s) b = (k, e)" and "shard_map T s k = Some e"
proof (cases "rt_find T (raw_map s) (hash k) (key_eq k)")
  case None
  with find_key_None [OF inv_tab(1) [OF inv]] show thesis by (intro miss) (simp_all add: shard_map_def)
next
  case (Some b)
  from find_key_Some [OF inv_tab(1,2) [OF inv] Some] hit [OF Some] show thesis by (auto simp: shard_map_def)
qed

lemma slot_policy:
  assumes inv: "shard_inv T hash rt_wf s"
  obtains (hit) b t e where "rt_find_or_find_insert_slot T (raw_map s) (hash k) (key_eq k) (elem_hash hash) = (Ok b, t)"
      and "shard_inv T hash rt_wf (s\<lparr>raw_map := t\<rparr>)" and "policy T (s\<lparr>raw_map := t\<rparr>) = policy T s"
      and "b \<in> set (rt_iter T t)" and "rt_as_ref T t b = (k, e)" and "shard_map T s k = Some e"
    | (miss) slot t where "rt_find_or_find_insert_slot T (raw_map s) (hash k) (key_eq k) (elem_hash hash) = (Err slot, t)"
      and "shard_inv T hash rt_wf (s\<lparr>raw_map := t\<rparr>)" and "policy T (s\<lparr>raw_map := t\<rparr>) = policy T s"
      and "slot_ok t (hash k) slot" and "shard_map T s k = None"
proof -
  obtain r t where f: "rt_find_or_find_insert_slot T (raw_map s) (hash k) (key_eq k) (elem_hash hash) = (r, t)" by fastforce
  note wf = inv_tab(1,2) [OF inv]
  note f' = find_or_slot_lookup [OF wf f]
  have i: "shard_inv T hash rt_wf (s\<lparr>raw_map := t\<rparr>)"
    using inv f' by (intro shard_inv_rehash) (simp_all add: shard_map_def)
  have p: "policy T (s\<lparr>raw_map := t\<rparr>) = policy T s" using f'(3) by (simp add: policy_def shard_map_def)
  show thesis
  proof (cases r)
    case (Ok b)
    from find_or_slot_Ok_lookup [OF wf f [unfolded Ok]] obtain e where
      "b \<in> set (rt_iter T t)" "rt_as_ref T t b = (k, e)" "rt_lookup T (raw_map s) k = Some e" by blast
    with f Ok i p show thesis by (intro hit) (simp_all add: shard_map_def)
  next
    case (Err slot)
    from find_or_slot_Err_lookup [OF wf f [unfolded Err]] f Err i p show thesis
      by (intro miss) (simp_all add: shard_map_def)
  qed
qed

lemma write_policy:
  assumes "table_ok T rt_wf s" and "b \<in> set (rt_iter T (raw_map s))" and "rt_as_ref T (raw_map s) b = (k, e)"
  defines "s' e' \<equiv> s\<lparr>raw_map := rt_write T (raw_map s) b (k, e')\<rparr>"
  shows "policy T (s' e') = q_write k e' (policy T s)" and "table_ok T rt_wf (s' e')"
    and "b \<in> set (rt_iter T (raw_map (s' e')))" and "rt_as_ref T (raw_map (s' e')) b = (k, e')"
proof -
  note w = shard_write [OF assms(1-3), of "s' e'" e']
  show "policy T (s' e') = q_write k e' (policy T s)" using w(2) by (simp add: policy_def q_write_def s'_def)
  show "table_ok T rt_wf (s' e')" using w(1) by (simp add: s'_def)
  have "rt_wf (raw_map s)" using assms(1) by (simp add: table_ok_def)
  from write_bucket [OF this assms(2), of "(k, e')"] assms(2,3)
  show "b \<in> set (rt_iter T (raw_map (s' e')))" "rt_as_ref T (raw_map (s' e')) b = (k, e')" by (simp_all add: s'_def)
qed

lemma q_write_twice [simp]: "q_write k e (q_write k e' q) = q_write k e q"
  by (simp add: q_write_def)

lemma q_drop_written [simp]: "is_small e' = is_small e \<Longrightarrow> q_drop k e' (q_write k e' q) = q_drop k e q"
  by (simp add: q_drop_def q_write_def)

lemma remove_policy:
  assumes "table_ok T rt_wf s" and "b \<in> set (rt_iter T (raw_map s))" and "rt_as_ref T (raw_map s) b = (k, e)"
  shows "fst (remove_found T b s) = (k, entry_val e)" and "policy T (snd (remove_found T b s)) = q_drop k e (policy T s)"
proof -
  have wf: "rt_wf (raw_map s)" "rt_keys_distinct T (raw_map s)" using assms(1) by (simp_all add: table_ok_def)
  note r = remove_lookup(1,4) [OF wf assms(2,3)]
  then show "fst (remove_found T b s) = (k, entry_val e)"
    by (simp add: remove_found_def Let_def split_def entry_val_def)
  show "policy T (snd (remove_found T b s)) = q_drop k e (policy T s)"
    using r(2) by (simp add: remove_found_def Let_def split_def assms(3) live_dec_def q_drop_def policy_def shard_map_def
        is_small_def saturating_sub_def)
qed

section \<open>Calls on a key\<close>

lemma insert_policy:
  assumes "shard_inv T hash rt_wf s" and "call_body T hash (Insert k v) s = returns (a, s1)"
  shows "q_call hash (Insert k v) (policy T s) = Some (a, policy T s1)"
  using assms(1)
proof (cases rule: slot_policy [of s k])
  case (hit b t e)
  then show ?thesis
    using assms(2) write_policy(1) [OF inv_tab(3) [OF hit(2)], of b k e "with_value v e"]
    by (auto simp: insert_locked_def with_value_def entry_val_def)
next
  case (miss slot t)
  then obtain b where "insert_new T (hash k) k slot v (s\<lparr>raw_map := t\<rparr>) = returns (b, s1)" "a = Value None"
    using assms(2) by (auto simp: insert_locked_def comp_bind_returns_iff)
  then show ?thesis
    using insert_new_policy [of k slot v "s\<lparr>raw_map := t\<rparr>" b s1] miss policy_simps(1) [of T "s\<lparr>raw_map := t\<rparr>"] by simp
qed

lemma or_insert_policy:
  assumes "shard_inv T hash rt_wf s" and "call_body T hash (Or_insert k v) s = returns (a, s1)"
    and room: "shard_cap s = 0 \<Longrightarrow> small_live s < usize_max"
  shows "q_call hash (Or_insert k v) (policy T s) = Some (a, policy T s1)"
  using assms(1)
proof (cases rule: slot_policy [of s k])
  case (hit b t e)
  then show ?thesis
    using assms(2) by (auto simp: value_at_def bucket_pair_def entry_val_def Let_def)
next
  case (miss slot t)
  have m: "shard_map T (s\<lparr>raw_map := t\<rparr>) k = None" using miss(3,5) policy_simps(1) [of T "s\<lparr>raw_map := t\<rparr>"] by simp
  have sl: "slot_ok (raw_map (s\<lparr>raw_map := t\<rparr>)) (hash k) slot" using miss(4) by simp
  obtain b where i: "insert_new T (hash k) k slot v (s\<lparr>raw_map := t\<rparr>) = returns (b, s1)" and a: "a = Value (Some (value_at T s1 b))"
    using assms(2) miss(1) by (auto simp: comp_bind_returns_iff)
  have "rt_as_ref T (raw_map s1) b = (k, CacheEntry_new v (if hash k \<in> ghost_set s then LOC_MAIN else LOC_SMALL))"
    using insert_new_total [OF miss(2) m sl, of v] room i by auto
  then have "a = Value (Some v)" using a by (simp add: value_at_def bucket_pair_def CacheEntry_new_def)
  then show ?thesis using insert_new_policy [OF i miss(2) sl m] miss by simp
qed

lemma key_call_policy:
  assumes "shard_inv T hash rt_wf s" and "call_body T hash call s = returns (a, s1)"
    and "call \<in> {Remove k, Remove_if k p, Remove_if_mut k pm, Alter k f, Lookup k}"
  shows "q_call hash call (policy T s) = Some (a, policy T s1)"
  using assms(1)
proof (cases rule: find_policy [of s k])
  case miss
  with assms(2,3) show ?thesis
    by (auto simp: remove_locked_def remove_if_locked_def remove_if_mut_locked_def get_locked_def)
next
  case (hit b e)
  note w = write_policy [OF inv_tab(3) [OF assms(1)] hit(2,3)]
  note r = remove_policy [OF inv_tab(3) [OF assms(1)] hit(2,3)]
  consider "call = Remove k" | "call = Remove_if k p" | "call = Remove_if_mut k pm" | "call = Alter k f" | "call = Lookup k"
    using assms(3) by blast
  then show ?thesis
  proof cases
    case 1
    with assms(2) hit r show ?thesis by (auto simp: remove_locked_def split_def Let_def)
  next
    case 2
    with assms(2) hit r show ?thesis
      by (cases "p k (entry_val e)") (auto simp: remove_if_locked_def split_def Let_def entry_val_def)
  next
    case 3
    obtain verdict v where v: "pm k (entry_val e) = (verdict, v)" by fastforce
    note rv = remove_policy [OF w(2-4) [of "with_value v e"], simplified]
    from 3 assms(2) hit v rv w(1) [of "with_value v e"] show ?thesis
      by (cases verdict) (auto simp: remove_if_mut_locked_def split_def Let_def entry_val_def with_value_def)
  next
    case 4
    note wv = write_policy [OF w(2-4) [of "bump_freq e"], of "with_value (f k (entry_val e)) (bump_freq e)", simplified]
    from 4 assms(2) hit wv w [of "bump_freq e"] show ?thesis
      by (auto simp: get_locked_def split_def Let_def entry_val_def with_value_def)
  next
    case 5
    with assms(2) hit w [of "bump_freq e"] show ?thesis
      by (auto simp: get_locked_def split_def Let_def entry_val_def value_at_def bucket_pair_def)
  qed
qed

lemma and_modify_policy:
  assumes "shard_inv T hash rt_wf s" and "call_body T hash (And_modify k f) s = returns (a, s1)"
  shows "q_call hash (And_modify k f) (policy T s) = Some (a, policy T s1)"
  using assms(1)
proof (cases rule: slot_policy [of s k])
  case (hit b t e)
  then show ?thesis
    using assms(2) write_policy(1) [OF inv_tab(3) [OF hit(2)], of b k e "with_value (f (entry_val e)) e"]
    by (auto simp: with_value_def entry_val_def)
qed (use assms(2) in auto)

end

section \<open>Calls on a shard\<close>

text \<open>Retaining key by key: the entries of the keys in \<open>K\<close> are visited, the others wait.\<close>

definition q_visit :: "('k \<Rightarrow> 'v \<Rightarrow> bool \<times> 'v) \<Rightarrow> 'k \<Rightarrow> 'v CacheEntry \<Rightarrow> ('k, 'v) s3fifo \<Rightarrow> ('k, 'v) s3fifo" where
  "q_visit f k e q = (case f k (entry_val e) of (keep, v) \<Rightarrow> if keep then q_write k (with_value v e) q else q_drop k e q)"

definition dropped :: "('k \<Rightarrow> 'v \<Rightarrow> bool \<times> 'v) \<Rightarrow> ('v CacheEntry \<Rightarrow> bool) \<Rightarrow> 'k set \<Rightarrow> ('k \<rightharpoonup> 'v CacheEntry) \<Rightarrow> 'k set" where
  "dropped f P K m = {k \<in> K. \<exists>e. m k = Some e \<and> \<not> fst (f k (entry_val e)) \<and> P e}"

definition q_retain_on :: "'k set \<Rightarrow> ('k \<Rightarrow> 'v \<Rightarrow> bool \<times> 'v) \<Rightarrow> ('k, 'v) s3fifo \<Rightarrow> ('k, 'v) s3fifo" where
  "q_retain_on K f q = q\<lparr>
     q_map := (\<lambda>k. if k \<in> K then q_map (q_retain f q) k else q_map q k),
     q_small_live := q_small_live q - card (dropped f is_small K (q_map q)),
     q_main_live := q_main_live q - card (dropped f (Not \<circ> is_small) K (q_map q))\<rparr>"

lemma q_retain_on_empty [simp]: "q_retain_on {} f q = q"
  by (simp add: q_retain_on_def dropped_def)

lemma q_retain_on_dom: "dom (q_map q) \<subseteq> K \<Longrightarrow> q_retain_on K f q = q_retain f q"
proof -
  assume K: "dom (q_map q) \<subseteq> K"
  then have "dropped f P K (q_map q) = {k. \<exists>e. q_map q k = Some e \<and> \<not> fst (f k (entry_val e)) \<and> P e}" for P
    by (auto simp: dropped_def)
  moreover have "(\<lambda>k. if k \<in> K then q_map (q_retain f q) k else q_map q k) = q_map (q_retain f q)"
  proof -
    have "q_map q k = None" if "k \<notin> K" for k using K that by auto
    then show ?thesis by (auto simp: fun_eq_iff q_retain_def)
  qed
  ultimately show ?thesis by (simp add: q_retain_on_def) (simp add: q_retain_def)
qed

lemma dropped_insert:
  assumes "q_map q k = Some e" and "k \<notin> K" and "finite K"
  shows "card (dropped f P (insert k K) (q_map q)) =
    (if \<not> fst (f k (entry_val e)) \<and> P e then 1 else 0) + card (dropped f P K (q_map q))"
proof -
  have "dropped f P (insert k K) (q_map q) =
      (if \<not> fst (f k (entry_val e)) \<and> P e then insert k (dropped f P K (q_map q)) else dropped f P K (q_map q))"
    using assms(1) by (auto simp: dropped_def)
  moreover have "finite (dropped f P K (q_map q))" "k \<notin> dropped f P K (q_map q)" using assms by (simp_all add: dropped_def)
  ultimately show ?thesis by simp
qed

lemma q_retain_on_insert:
  assumes k: "q_map q k = Some e" "k \<notin> K" "finite K"
  shows "q_retain_on K f (q_visit f k e q) = q_retain_on (insert k K) f q"
proof -
  obtain keep v where f: "f k (entry_val e) = (keep, v)" by fastforce
  have m: "q_map (q_visit f k e q) = (q_map q)(k := (if keep then Some (with_value v e) else None))"
    by (simp add: q_visit_def f q_write_def q_drop_def)
  have "dropped f P K (q_map (q_visit f k e q)) = dropped f P K (q_map q)" for P
    using k(2) by (auto simp: dropped_def m)
  moreover have "(\<lambda>j. if j \<in> K then q_map (q_retain f (q_visit f k e q)) j else q_map (q_visit f k e q) j) =
      (\<lambda>j. if j \<in> insert k K then q_map (q_retain f q) j else q_map q j)"
    using k(1,2) f by (auto simp: fun_eq_iff q_retain_def m)
  ultimately show ?thesis
    unfolding q_retain_on_def dropped_insert [OF k]
    by (simp add: q_visit_def f q_write_def q_drop_def)
qed

context shard_table
begin

lemma retain_buckets_policy:
  assumes "shard_inv T hash rt_wf s" and "set bs \<subseteq> set (rt_iter T (raw_map s))" and "distinct bs"
  shows "policy T (snd (retain_buckets T (unit_closure f) bs () s)) =
    q_retain_on (fst ` rt_as_ref T (raw_map s) ` set bs) f (policy T s)"
  using assms
proof (induction bs arbitrary: s)
  case (Cons b bs)
  note inv = Cons.prems(1)
  obtain k e where ke: "rt_as_ref T (raw_map s) b = (k, e)" by fastforce
  obtain keep v where f: "f k (entry_val e) = (keep, v)" by fastforce
  have b: "b \<in> set (rt_iter T (raw_map s))" using Cons.prems(2) by simp
  define s1 where "s1 = s\<lparr>raw_map := rt_write T (raw_map s) b (k, e\<lparr>entry_value := sv_new v\<rparr>)\<rparr>"
  define s2 where "s2 = (if keep then s1 else live_dec (entry_loc e) (s1\<lparr>raw_map := rt_erase T (raw_map s1) b\<rparr>))"
  note st = retain_step [OF inv b ke, where keep = keep and v' = v, folded s1_def, folded s2_def]
  note w = write_policy [OF inv_tab(3) [OF inv] b ke, of "with_value v e", unfolded with_value_def, folded s1_def]
  have wf1: "rt_wf (raw_map s1)" "rt_keys_distinct T (raw_map s1)" using w(2) by (simp_all add: table_ok_def)
  have "policy T s2 = q_visit f k e (policy T s)"
  proof (cases keep)
    case True
    then show ?thesis using w(1) f by (simp add: s2_def q_visit_def with_value_def)
  next
    case False
    have "rt_lookup T (rt_erase T (raw_map s1) b) = (shard_map T s)(k := None)"
      using remove_lookup(4) [OF wf1 w(3,4)] erase [OF wf1(1) w(3)] arg_cong [OF w(1), where f = q_map]
      by (simp add: q_write_def shard_map_def)
    then show ?thesis
      using False f by (simp add: s2_def q_visit_def q_drop_def live_dec_def policy_def is_small_def s1_def shard_map_def
          saturating_sub_def)
  qed
  moreover have keeps: "b' \<in> set (rt_iter T (raw_map s2)) \<and> rt_as_ref T (raw_map s2) b' = rt_as_ref T (raw_map s) b'"
    if "b' \<in> set bs" for b'
    using that Cons.prems(2,3) by (intro st(4)) auto
  moreover have "retain_buckets T (unit_closure f) (b # bs) () s = retain_buckets T (unit_closure f) bs () s2"
    by (simp add: ke f unit_closure_def s2_def s1_def entry_val_def Let_def flip: entry_val_def)
  moreover have "policy T (snd (retain_buckets T (unit_closure f) bs () s2)) =
      q_retain_on (fst ` rt_as_ref T (raw_map s2) ` set bs) f (policy T s2)"
    using Cons.IH [OF st(1)] keeps Cons.prems(3) by auto
  moreover have "fst ` rt_as_ref T (raw_map s2) ` set bs = fst ` rt_as_ref T (raw_map s) ` set bs"
    unfolding image_image by (intro image_cong refl) (simp add: keeps)
  moreover have "k \<notin> fst ` rt_as_ref T (raw_map s) ` set bs"
  proof
    assume "k \<in> fst ` rt_as_ref T (raw_map s) ` set bs"
    then obtain b' where b': "b' \<in> set bs" "fst (rt_as_ref T (raw_map s) b') = k" by auto
    then have "b' = b" using bucket_eqI [OF inv_tab(1,2) [OF inv], of b' b] Cons.prems(2) ke by auto
    with b'(1) Cons.prems(3) show False by simp
  qed
  moreover have "q_map (policy T s) k = Some e"
    using lookup_bucket [OF inv_tab(2) [OF inv] b ke] by (simp add: shard_map_def)
  ultimately show ?case using q_retain_on_insert [of "policy T s" k e] ke by simp
qed simp

lemma retain_policy:
  assumes inv: "shard_inv T hash rt_wf s"
  shows "policy T (snd (retain_locked T (unit_closure f) () s)) = q_retain f (policy T s)"
proof -
  have "dom (shard_map T s) \<subseteq> fst ` rt_as_ref T (raw_map s) ` set (rt_iter T (raw_map s))"
    by (simp add: shard_map_def rt_lookup_def dom_map_of_conv_image_fst rt_contents_def)
  then show ?thesis
    using retain_buckets_policy [OF inv order_refl iter_distinct [OF inv_tab(1) [OF inv]], of f]
    by (simp add: retain_locked_def q_retain_on_dom)
qed

lemma shard_call_policy:
  assumes inv: "shard_inv T hash rt_wf s" and body: "call_body T hash call s = returns (a, s1)"
    and call: "call \<in> {Clear_at i, Retain_at i f, Alter_at i g, Shrink_at i, Len_at i}"
  shows "q_call hash call (policy T s) = Some (a, policy T s1)"
proof -
  have "policy T (clear_all T s) = policy T s\<lparr>q_map := Map.empty, q_small := [], q_main := [], q_ghost := {},
      q_small_live := 0, q_main_live := 0\<rparr>"
    using clear_all_spec(3) [OF inv] by (simp add: policy_def) (simp add: clear_all_def)
  moreover have "policy T (map_shrink_to T n hash s) = policy T s" for n
    using map_shrink_to_spec(3) [OF inv, of n] by (simp add: policy_def) (simp add: map_shrink_to_def)
  moreover have "shard_len T s = card (dom (shard_map T s))"
    using card_dom_lookup [OF inv_tab(1,2) [OF inv]] by (simp add: shard_len_def shard_map_def)
  ultimately show ?thesis
    using body call by (auto simp: retain_policy [OF inv] alter_shard_retain)
qed

lemma call_policy:
  assumes "shard_inv T hash rt_wf s" and "call_body T hash call s = returns (a, s1)" and "\<not> visits call"
    and "\<And>k v. call = Or_insert k v \<Longrightarrow> shard_cap s = 0 \<Longrightarrow> small_live s < usize_max"
  shows "q_call hash call (policy T s) = Some (a, policy T s1)"
proof (cases call)
  case (Insert k v)
  with insert_policy [OF assms(1)] assms(2) show ?thesis by simp
next
  case (Or_insert k v)
  with or_insert_policy [OF assms(1)] assms(2,4) show ?thesis by simp
next
  case (And_modify k f)
  with and_modify_policy [OF assms(1)] assms(2) show ?thesis by simp
next
  case (Visit_at i)
  with assms(3) show ?thesis by simp
qed (use key_call_policy [OF assms(1,2)] shard_call_policy [OF assms(1,2)] in blast)+

end

end
