(* ===== verification/Policy_Properties.thy ===== *)
theory Policy_Properties
  imports Policy_Refinement Bound_Properties
begin

text \<open>
  A cache over any hash table is the policy of theory \<open>S3_Fifo\<close>, run on one state per shard; and what the
  methods that only move the storage about (\<open>try_reserve\<close>, \<open>shrink_to_fit\<close>, \<open>clone\<close>) leave
  unchanged.
\<close>

definition policies :: "('k, 'v, 't) table \<Rightarrow> ('k, 't) NeoCache \<Rightarrow> ('k, 'v) s3fifo list" where
  "policies T c = map (policy T) (shard_list c)"

text \<open>A run of calls, each on the state of its shard; \<open>hm\<close> is the shard of a key.\<close>

fun q_run :: "('k \<Rightarrow> u64) \<Rightarrow> ('k \<Rightarrow> usize) \<Rightarrow> ('k, 'v) call list \<Rightarrow> ('k, 'v) s3fifo list
    \<Rightarrow> (('k, 'v) answer list \<times> ('k, 'v) s3fifo list) option" where
  "q_run hash hm [] qs = Some ([], qs)"
| "q_run hash hm (call # calls) qs =
     (case q_call hash call (qs ! call_shard hm call) of
        None \<Rightarrow> None
      | Some (a, q) \<Rightarrow> map_option (\<lambda>(as, qs'). (a # as, qs')) (q_run hash hm calls (qs[call_shard hm call := q])))"

text \<open>What cloning does to a shard's state: the values are cloned, frequencies and queues are kept.\<close>

definition q_clone :: "('v \<Rightarrow> 'v) \<Rightarrow> ('k, 'v) s3fifo \<Rightarrow> ('k, 'v) s3fifo" where
  "q_clone vcl q = q\<lparr>q_map := (\<lambda>k. map_option (\<lambda>e. with_value (vcl (entry_val e)) e) (q_map q k))\<rparr>"

lemma CacheEntry_clone_eq: "CacheEntry_clone vcl = (\<lambda>e. with_value (vcl (entry_val e)) e)"
  by (simp add: fun_eq_iff CacheEntry_clone_def with_value_def entry_val_def)

lemma q_clone_id: "q_clone (\<lambda>v. v) q = q"
  by (simp add: q_clone_def with_value_def entry_val_def sv_new_def option.map_ident)

context shard_table
begin

lemma nc_call_policy:
  assumes ok: "cache_ok T hash rt_wf c" and room: "nc_room T (Suc 0) c"
    and i: "call_shard (key_shard c) call < length (shards c)"
    and call: "nc_call T call c = returns (a, c1)" and nv: "\<not> visits call"
  defines "j \<equiv> call_shard (key_shard c) call"
  shows "\<exists>q. q_call hash call (policies T c ! j) = Some (a, q) \<and> policies T c1 = (policies T c)[j := q]"
proof -
  have j: "j < shard_count c" using i by (simp add: j_def shard_count_def)
  note s = cache_ok_shard(1,2) [OF ok j]
  have h: "hasher c = hash" "quiet c" using ok by (simp_all add: cache_ok_def)
  have "nc_call T call c = run_section T call j c" using i by (intro nc_call_section h(2)) (simp_all add: j_def)
  then have "run_section T call j c = returns (a, c1)" using call by simp
  then obtain s1 where b: "call_body T hash call (shard_at c j) = returns (a, s1)" and c1: "c1 = put_shard c j s1"
    using h(1) by (auto simp: run_section_def comp_bind_returns_iff)
  have "small_live (shard_at c j) < usize_max" if "call = Or_insert k v" "shard_cap (shard_at c j) = 0" for k v
  proof -
    have "cache_capacity c = 0" using s(2) that(2) by (simp add: per_shard_cap_def split: if_splits)
    from room_small_live [OF ok room this, of k] show ?thesis using that(1) by (simp add: j_def home_def)
  qed
  from call_policy [OF s(1) b nv this] j
  have "q_call hash call (policies T c ! j) = Some (a, policy T s1)" by (simp add: policies_def shard_list_nth)
  moreover have "policies T c1 = (policies T c)[j := policy T s1]"
    using j by (simp add: policies_def c1 with_shards_put [OF h(2)] map_update)
  ultimately show ?thesis by blast
qed

lemma run_policy:
  assumes "cache_ok T hash rt_wf c" and "nc_room T (length calls) c" and "calls_ok c calls"
    and "\<forall>call \<in> set calls. \<not> visits call" and "comp_run (nc_call T) calls c = returns (as, c')"
  shows "q_run hash (key_shard c) calls (policies T c) = Some (as, policies T c')"
  using assms
proof (induction calls arbitrary: c as)
  case (Cons call calls)
  note ok = Cons.prems(1)
  have room: "nc_room T (Suc (length calls)) c" using Cons.prems(2) by simp
  then have one: "nc_room T (Suc 0) c" by (auto simp: nc_room_def)
  have i: "call_shard (key_shard c) call < length (shards c)" using Cons.prems(3) by (simp add: calls_ok_def)
  from nc_call_lossy [OF ok one i] obtain a c1 where
    c1: "nc_call T call c = returns (a, c1)" "cache_ok T hash rt_wf c1" "same_config c c1"
      "lossy_step (0 < cache_capacity c) (key_shard c) call a (cache_vals T c) (cache_vals T c1)" by blast
  have ks: "key_shard c1 = key_shard c" by (rule same_config_key_shard [OF c1(3)])
  have "calls_ok c1 calls"
    using Cons.prems(3) c1(3) ks by (simp add: calls_ok_def same_config_def shard_count_def)
  moreover obtain as' where "comp_run (nc_call T) calls c1 = returns (as', c')" "as = a # as'"
    using Cons.prems(5) c1(1) by (auto simp: comp_bind_returns_iff simp del: nc_call.simps)
  ultimately have "q_run hash (key_shard c) calls (policies T c1) = Some (as', policies T c')" "as = a # as'"
    using Cons.IH [OF c1(2) room_after_call [OF ok room c1(3,4)]] Cons.prems(4) ks by simp_all
  moreover obtain q where "q_call hash call (policies T c ! call_shard (key_shard c) call) = Some (a, q)"
      "policies T c1 = (policies T c)[call_shard (key_shard c) call := q]"
    using nc_call_policy [OF ok one i c1(1)] Cons.prems(4) by auto
  ultimately show ?case by simp
qed simp

text \<open>Two caches of equal configuration and equal policies cannot be told apart by calls.\<close>

lemma same_policies_same_answers:
  assumes "cache_ok T hash rt_wf c" and "nc_room T (length calls) c" and "calls_ok c calls"
    and "\<forall>call \<in> set calls. \<not> visits call"
    and d: "cache_ok T hash rt_wf d" "same_config c d" "policies T d = policies T c" "cache_map T d = cache_map T c"
  shows "\<exists>as c' d'. comp_run (nc_call T) calls c = returns (as, c') \<and> comp_run (nc_call T) calls d = returns (as, d') \<and>
    policies T d' = policies T c'"
proof -
  have "cache_vals T d = cache_vals T c"
    using d(4) by (simp add: cache_vals_def cache_map_def shard_vals_def fun_eq_iff)
  then have room: "nc_room T (length calls) d" using assms(2) d(2) by (simp add: nc_room_def same_config_def)
  have ks: "key_shard d = key_shard c" by (rule same_config_key_shard [OF d(2)])
  then have calls: "calls_ok d calls" using assms(3) d(2) by (simp add: calls_ok_def same_config_def shard_count_def)
  obtain as c' where c': "comp_run (nc_call T) calls c = returns (as, c')" using calls_return [OF assms(1-3)] by blast
  obtain as' d' where d': "comp_run (nc_call T) calls d = returns (as', d')" using calls_return [OF d(1) room calls] by blast
  from run_policy [OF assms(1-4) c'] run_policy [OF d(1) room calls assms(4) d'] c' d'
  show ?thesis by (simp add: ks d(3))
qed

lemma policies_put:
  "quiet c \<Longrightarrow> i < shard_count c \<Longrightarrow> policies T (put_shard c i s) = (policies T c)[i := policy T s]"
  by (simp add: policies_def with_shards_put map_update)

lemma try_reserve_policies:
  assumes "cache_ok T hash rt_wf c" and "set is \<subseteq> {..<shard_count c}"
  shows "\<exists>r c'. try_reserve_from T n is c = returns (r, c') \<and> cache_ok T hash rt_wf c' \<and> same_config c c' \<and>
    cache_map T c' = cache_map T c \<and> policies T c' = policies T c"
  using assms
proof (induction "is" arbitrary: c)
  case (Cons i "is")
  note ok = Cons.prems(1)
  have i: "i < shard_count c" using Cons.prems(2) by simp
  have h: "hasher c = hash" "quiet c" using ok by (simp_all add: cache_ok_def)
  obtain r s where r: "map_try_reserve T n hash (shard_at c i) = (r, s)" by fastforce
  note m = map_try_reserve_spec [OF cache_ok_shard(1) [OF ok i] r]
  note p = cache_ok_put_same_map [OF ok i m]
  have "policy T s = policy T (shard_at c i)"
    using m(3) r by (auto simp: policy_def map_try_reserve_def split: prod.splits)
  then have q: "policies T (put_shard c i s) = policies T c"
    using i by (simp add: policies_put [OF h(2)]) (simp add: policies_def list_update_same_conv shard_list_nth)
  have "with_write c i (\<lambda>s. returns (map_try_reserve T n (hasher c) s)) = returns (r, put_shard c i s)"
    using i r h(1) by (simp add: with_write_quiet [OF h(2)] shard_count_def)
  moreover obtain r' c' where "try_reserve_from T n is (put_shard c i s) = returns (r', c')"
      "cache_ok T hash rt_wf c'" "same_config (put_shard c i s) c'" "cache_map T c' = cache_map T (put_shard c i s)"
      "policies T c' = policies T (put_shard c i s)"
    using Cons.IH [OF p(1)] Cons.prems(2) by (auto simp: shard_count_def)
  ultimately show ?case
    using p q same_config_trans [OF same_config_put] by (cases r) auto
qed auto

lemma shrink_policies:
  assumes ok: "cache_ok T hash rt_wf c" and c': "nc_shrink_to_fit T c = returns ((), c')"
  shows "policies T c' = policies T c"
proof -
  let ?ss = "map (\<lambda>s. map_shrink_to T (rt_len T (raw_map s)) hash s) (shard_list c)"
  have "policy T (map_shrink_to T m hash s) = policy T s" if "s \<in> set (shard_list c)" for s m
  proof -
    have "shard_inv T hash rt_wf s"
      using that cache_ok_shard(1) [OF ok] by (auto simp: in_set_conv_nth shard_list_nth)
    from map_shrink_to_spec(3) [OF this, of m] show ?thesis by (simp add: policy_def) (simp add: map_shrink_to_def)
  qed
  moreover have "c' = with_shards c ?ss" using nc_shrink_to_fit_eq [OF ok] c' by simp
  ultimately show ?thesis by (simp add: policies_def)
qed

lemma clone_policies:
  assumes ok: "cache_ok T hash rt_wf c" and d: "nc_clone T vcl c = returns (d, c')"
  shows "policies T d = map (q_clone vcl) (policies T c)"
proof -
  have "policy T (ShardData_clone T vcl s) = q_clone vcl (policy T s)" if "s \<in> set (shard_list c)" for s
  proof -
    have "shard_inv T hash rt_wf s"
      using that cache_ok_shard(1) [OF ok] by (auto simp: in_set_conv_nth shard_list_nth)
    from ShardData_clone_spec(3) [OF this, of vcl]
    have "shard_map T (ShardData_clone T vcl s) = (\<lambda>k. map_option (\<lambda>e. with_value (vcl (entry_val e)) e) (shard_map T s k))"
      by (simp add: CacheEntry_clone_eq comp_def)
    then show ?thesis by (simp add: policy_def q_clone_def) (simp add: ShardData_clone_def)
  qed
  moreover have "d = with_shards c (map (ShardData_clone T vcl) (shard_list c))" using nc_clone_eq [OF ok, of vcl] d by auto
  ultimately show ?thesis by (simp add: policies_def)
qed

end

section \<open>The properties\<close>

text \<open>C3:
  A cache is the S3-FIFO policy, whatever the hash table does. Run any calls on a cache over any table that satisfies the
  interface of \<open>Raw_Table\<close> (insertion, the three removals, \<open>alter\<close>, \<open>or_insert\<close>, \<open>and_modify\<close>,
  lookup, and \<open>clear\<close>, \<open>retain\<close>, \<open>alter_all\<close>, \<open>shrink_to_fit\<close> and \<open>len\<close> shard by shard; not iteration, whose order is the
  table's): they return, and the answers and the state they leave (values, frequencies, queues, ghost sets, counters) are
  those of the policy machine \<open>q_run\<close>, which has finite maps and lists of keys only.
\<close>

theorem policy_refinement:
  assumes "shard_table T hash tok sok" and "cache_ok T hash tok c" and "nc_room T (length calls) c" and "calls_ok c calls"
    and "\<forall>call \<in> set calls. \<not> visits call"
  shows "\<exists>as c'. comp_run (nc_call T) calls c = returns (as, c') \<and>
    q_run hash (key_shard c) calls (policies T c) = Some (as, policies T c')"
  using shard_table.calls_return [OF assms(1-4)] shard_table.run_policy [OF assms] by blast

definition demo_calls :: "(nat, string) call list" where
  "demo_calls = [Insert 3 ''c'', Lookup 1, Or_insert 4 ''d'', Remove 2, Alter 1 (\<lambda>k v. v @ v), Insert 5 ''e'', Insert 2 ''b'', Len_at 0]"

lemma demo_calls_ok:
  "nc_room slot_table (length demo_calls) demo_full" "calls_ok demo_full demo_calls" "\<forall>call \<in> set demo_calls. \<not> visits call"
proof -
  have "shard_count demo_full = 2" by code_simp
  then show "calls_ok demo_full demo_calls"
    using slot_shard.home_okD(1) [OF demo_states_ok(3)] by (simp add: calls_ok_def demo_calls_def shard_count_def)
qed (simp_all add: nc_room_def demo_calls_def demo_states_ok(7))

theorem policy_refinement_witness:
  "\<exists>as c'. comp_run (nc_call slot_table) demo_calls demo_full = returns (as, c') \<and>
    q_run demo_hash (key_shard demo_full) demo_calls (policies slot_table demo_full) = Some (as, policies slot_table c')"
  by (rule policy_refinement [OF slot_shard.shard_table_axioms demo_states_ok(3) demo_calls_ok])

text \<open>Two new caches with the same arguments over different tables answer any calls alike.\<close>

lemma new_policies:
  assumes "shard_table T hash tok sok" and "with_capacity_and_hasher_and_shard_amount T cap hash n = Return c"
  shows "\<exists>sh m. reduced_shard_amount cap n = Return m \<and> usize_sub ptr_size_bits (ncb m) = Return sh \<and>
    shift c = sh \<and> hasher c = hash \<and> cache_capacity c = cap \<and> length (shards c) = m \<and>
    policies T c = replicate m \<lparr>q_map = Map.empty, q_small = [], q_main = [], q_ghost = {},
      q_small_live = 0, q_main_live = 0, q_cap = per_shard_cap cap m\<rparr>"
proof -
  have "policy T (ShardData_new T 0 p) = \<lparr>q_map = Map.empty, q_small = [], q_main = [], q_ghost = {},
      q_small_live = 0, q_main_live = 0, q_cap = p\<rparr>" for p
    using shard_table.new_shard_empty [OF assms(1), of 0 p] by (simp add: policy_def) (simp add: ShardData_new_def split_beta)
  with assms(2) show ?thesis
    by (cases "cap = 0") (auto simp: with_capacity_and_hasher_and_shard_amount_def run_simps policies_def shard_list_def
        per_shard_cap_def comp_def map_replicate_const Let_def split: if_splits)
qed

lemma table_independent:
  assumes tab: "shard_table T hash tok sok" "shard_table T' hash tok' sok'"
    and new: "with_capacity_and_hasher_and_shard_amount T cap hash n = Return c"
      "with_capacity_and_hasher_and_shard_amount T' cap hash n = Return c'"
    and args: "cap \<le> usize_max" "n \<le> usize_max" "cap = 0 \<Longrightarrow> length calls \<le> usize_max"
    and calls: "calls_ok c calls" "\<forall>call \<in> set calls. \<not> visits call"
  shows "\<exists>as d d'. comp_run (nc_call T) calls c = returns (as, d) \<and> comp_run (nc_call T') calls c' = returns (as, d') \<and>
    policies T d = policies T' d'"
proof -
  have n: "1 < n" "is_power_of_two n"
    using new(1) by (auto simp: with_capacity_and_hasher_and_shard_amount_def split: if_splits)
  have ok: "cache_ok T hash tok c" "cache_vals T c = Map.empty" "cache_ok T' hash tok' c'" "cache_vals T' c' = Map.empty"
    using shard_table.constructor_ok [OF tab(1) args(1) n args(2)] shard_table.constructor_ok [OF tab(2) args(1) n args(2)] new
    by (metis run.inject(1))+
  note p = new_policies [OF tab(1) new(1)] new_policies [OF tab(2) new(2)]
  then have same: "policies T' c' = policies T c" "key_shard c' = key_shard c" "length (shards c') = length (shards c)"
    "cache_capacity c = cap" "cache_capacity c' = cap"
    by (auto simp: key_shard_def determine_shard_def fun_eq_iff)
  have room: "nc_room T (length calls) c" "nc_room T' (length calls) c'" "calls_ok c' calls"
    using ok(2,4) args(3) same calls(1) by (simp_all add: nc_room_def calls_ok_def)
  obtain as d where d: "comp_run (nc_call T) calls c = returns (as, d)"
    using shard_table.calls_return [OF tab(1) ok(1) room(1) calls(1)] by blast
  obtain as' d' where d': "comp_run (nc_call T') calls c' = returns (as', d')"
    using shard_table.calls_return [OF tab(2) ok(3) room(2,3)] by blast
  from shard_table.run_policy [OF tab(1) ok(1) room(1) calls d] shard_table.run_policy [OF tab(2) ok(3) room(2,3) calls(2) d'] d d'
  show ?thesis by (auto simp: same(1,2))
qed

text \<open>C33:
  Storage management is unobservable. After \<open>try_reserve\<close> (whether it succeeds or fails half-way) and after
  \<open>shrink_to_fit\<close>, any later calls give the answers they would have given without it and leave the same policy state.
  A clone has the queues, ghost sets, counters, frequencies and queue positions of the original and the clones of its values; with a
  value type whose \<open>clone\<close> is the identity it answers any later calls as the original does. The original is not changed.
\<close>

theorem storage_unobservable:
  assumes "shard_table T hash tok sok" and "cache_ok T hash tok c" and "nc_room T (length calls) c" and "calls_ok c calls"
    and "\<forall>call \<in> set calls. \<not> visits call"
  shows "\<exists>as c'. comp_run (nc_call T) calls c = returns (as, c') \<and>
    (\<exists>r d d'. nc_try_reserve T c n = returns (r, d) \<and> comp_run (nc_call T) calls d = returns (as, d') \<and>
      policies T d' = policies T c') \<and>
    (\<exists>d d'. nc_shrink_to_fit T c = returns ((), d) \<and> comp_run (nc_call T) calls d = returns (as, d') \<and>
      policies T d' = policies T c') \<and>
    (\<exists>d. nc_clone T vcl c = returns (d, c) \<and> cache_ok T hash tok d \<and> policies T d = map (q_clone vcl) (policies T c)) \<and>
    (\<exists>d d'. nc_clone T (\<lambda>v. v) c = returns (d, c) \<and> comp_run (nc_call T) calls d = returns (as, d') \<and>
      policies T d' = policies T c')"
proof -
  note same = shard_table.same_policies_same_answers [OF assms]
  have "set [0..<shard_count c] \<subseteq> {..<shard_count c}" by auto
  from shard_table.try_reserve_policies [OF assms(1,2) this, of n] obtain r d where
    d: "nc_try_reserve T c n = returns (r, d)" "cache_ok T hash tok d" "same_config c d" "policies T d = policies T c"
      "cache_map T d = cache_map T c" unfolding nc_try_reserve_def by blast
  obtain e where e: "nc_shrink_to_fit T c = returns ((), e)" "cache_ok T hash tok e" "same_config c e" "cache_map T e = cache_map T c"
    using shard_table.nc_shrink_to_fit_spec [OF assms(1,2)] by blast
  note e' = shard_table.shrink_policies [OF assms(1,2) e(1)]
  have cl: "\<exists>d. nc_clone T f c = returns (d, c) \<and> cache_ok T hash tok d \<and> same_config c d \<and>
      policies T d = map (q_clone f) (policies T c) \<and> cache_map T d = map_option (CacheEntry_clone f) \<circ> cache_map T c" for f
    using shard_table.nc_clone_spec [OF assms(1,2), of f] shard_table.clone_policies [OF assms(1,2)] by blast
  have clone_id: "map_option (CacheEntry_clone (\<lambda>v. v)) \<circ> m = m" for m :: "'a \<rightharpoonup> 'b CacheEntry"
  proof
    show "(map_option (CacheEntry_clone (\<lambda>v. v)) \<circ> m) k = m k" for k by (cases "m k") simp_all
  qed
  obtain g where g: "nc_clone T (\<lambda>v. v) c = returns (g, c)" "cache_ok T hash tok g" "same_config c g"
      "policies T g = policies T c" "cache_map T g = cache_map T c"
    using cl [of "\<lambda>v. v"] clone_id by (auto simp: q_clone_id map_idI)
  show ?thesis
    using same [OF d(2-5)] same [OF e(2,3) e' e(4)] same [OF g(2-5)] d(1) e(1) g(1) cl [of vcl] by fastforce
qed

theorem storage_unobservable_witness:
  "\<exists>as c'. comp_run (nc_call slot_table) demo_calls demo_full = returns (as, c') \<and>
    (\<exists>r d d'. nc_try_reserve slot_table demo_full 7 = returns (r, d) \<and> comp_run (nc_call slot_table) demo_calls d = returns (as, d') \<and>
      policies slot_table d' = policies slot_table c') \<and>
    (\<exists>d. nc_clone slot_table rev demo_full = returns (d, demo_full) \<and>
      policies slot_table d = map (q_clone rev) (policies slot_table demo_full))"
  using storage_unobservable [OF slot_shard.shard_table_axioms demo_states_ok(3) demo_calls_ok, of 7 rev] by blast

end
