(* ===== verification/Spec2Isabelle.thy ===== *)
theory Spec2Isabelle
  imports Cache_Properties Cache_Refinement Guard_Properties Bulk_Properties Eviction_Properties Counter_Drift
    Lock_Properties Entry_Properties Iter_Properties Read_Only_Properties Serde_Properties Ref_Properties
    Concurrent_Properties Composed_Properties Shared_Iter_Properties Freq_Protocol Scan_Resistance Map_Trait Ref_Views
    Integration_Tests Concurrent_Tests Bound_Properties Policy_Properties
begin

text \<open>
  \<^bold>\<open>NeoCache\<close> is a concurrent hash map for Rust with a bounded size: an array of shards,
  each a hash table behind a reader-writer lock together with the state of the S3-FIFO
  eviction policy. This development models the crate (\<open>src/src\<close>) and proves what its parts
  promise. Paths below are relative to that directory.

  \<^bold>\<open>The program and its model.\<close>

  \<^item> \<open>util.rs\<close> (theory \<open>Cache_Entry\<close>): the value cell \<open>SharedValue\<close>, \<open>CacheEntry\<close> (a value,
    a frequency counter that saturates at \<open>MAX_FREQ\<close>, the queue the entry is in), and
    \<open>map_in_place_2\<close>, which aborts the process when its closure panics. Theory \<open>Freq_Protocol\<close> has
    the loop of \<open>bump_freq\<close> as several readers run it at once.
  \<^item> \<open>shard.rs\<close> (theory \<open>Shard\<close>): \<open>ShardData\<close> is a record with the fields of the struct.
    Both FIFO queues are pairs of parallel lists, as in the code, which leaves stale pairs in
    them when an entry is removed; the ghost set is a set of hashes. \<open>evict_from_small\<close>,
    \<open>evict_from_main\<close>, \<open>evict_one\<close>, \<open>add_to_ghost\<close>, \<open>clear_all\<close>, the capacities and the
    reservations are one definition each.
  \<^item> \<open>lib.rs\<close>: theory \<open>Shard_Ops\<close> has the bodies that run under a shard's lock (\<open>_insert\<close>,
    \<open>_remove\<close>, \<open>_remove_if\<close>, \<open>_remove_if_mut\<close>, \<open>_get\<close>, \<open>_retain\<close>); theory \<open>Neo_Cache\<close> has the
    record \<open>NeoCache\<close>, the constructors, \<open>determine_shard\<close>, the guards, every method and every
    operator, and theory \<open>Neo_Api\<close> the public methods that forward to them, \<open>Debug\<close> and
    \<open>into_par_iter\<close> of \<open>rayon_impl.rs\<close>. A method that returns a guard leaves the shard locked in
    the state it returns.
  \<^item> \<open>t.rs\<close> (theory \<open>Map_Trait\<close>): the trait as a record of methods, its provided methods, and the
    implementation for \<open>NeoCache\<close>.
  \<^item> \<open>lock.rs\<close>: theory \<open>Raw_Lock\<close> has each method on the 64-bit state word as one thread runs
    it undisturbed (what the sequential model of the cache uses); theory \<open>Lock_Protocol\<close> has
    the protocol under any interleaving, one step per atomic access; theory \<open>Lock_Wakeup\<close> adds
    that a parked thread sleeps until it is unparked.
  \<^item> Threads: theory \<open>Shard_Calls\<close> has the calls of \<open>lib.rs\<close> and the entry API as sections under
    the lock of one shard (a call on a key has one, an operation on all shards one per shard);
    theory \<open>Concurrent_Cache\<close> has workers that share a cache. A worker runs a list of actions:
    take a read or write guard, run a section under it, downgrade it, drop it; it may hold several
    guards, and the steps of different workers interleave freely. A section that writes computes
    on the data it saw at its first step and stores the result at its last; a lookup and an
    iteration read through their references at later steps. \<open>Concurrent_Steps\<close> has the invariant,
    \<open>Concurrent_Progress\<close> the absence of deadlock for guards taken in ascending order, and
    \<open>Concurrent_Methods\<close> the methods as programs of such actions: \<open>clear\<close>, \<open>retain\<close>,
    \<open>shrink_to_fit\<close> and \<open>len\<close> shard by shard, the iterators with the guard of the next shard taken
    before the last is dropped. In these theories taking a guard is one step, which gets the lock or
    waits. Theory \<open>Composed_Threads\<close> replaces that step by the code of \<open>lock.rs\<close>: every shard has the
    word and the program points of \<open>Lock_Protocol\<close> with the parking of \<open>Lock_Wakeup\<close>, and a thread
    takes, downgrades and drops a guard one atomic access at a time. \<open>Composed_Simulation\<close> shows
    that every step of it is one or no step over the atomic lock, \<open>Composed_Readers\<close> that fewer than
    \<open>2\<^sup>6\<^sup>2 - 2\<close> threads never run into the panic for too many readers.
  \<^item> \<open>try_result.rs\<close> (theory \<open>Try_Result\<close>), \<open>mapref/entry.rs\<close> (theory \<open>Entry_Api\<close>),
    \<open>mapref/one.rs\<close> (theory \<open>Map_Ref\<close>), \<open>iter.rs\<close> with \<open>alter_all\<close> (theory \<open>Neo_Iter\<close>),
    \<open>read_only.rs\<close> (theory \<open>Read_Only\<close>), \<open>ser.rs\<close> (theory \<open>Serde\<close>). Theory \<open>Shared_Iter\<close> has the
    iterators again with the references of \<open>mapref/multiple.rs\<close> that share their guard through
    an \<open>Arc\<close>, and the schedules in which such references are kept, moved and dropped. Theory
    \<open>Ref_Views\<close> has \<open>Deref\<close>, \<open>Debug\<close>, \<open>Display\<close> and \<open>AsRef\<close> of the references and the plain accessors.
  \<^item> The unit tests at the end of \<open>lib.rs\<close> (theory \<open>Crate_Tests\<close>) and the integration tests of
    \<open>../tests/concurrent.rs\<close> (theories \<open>Integration_Tests\<close> and, for those that spawn threads,
    \<open>Concurrent_Tests\<close>) are programs over the model.

  \<^bold>\<open>Effects.\<close> Theory \<open>Prelude\<close> has the outcomes: \<open>'a run\<close> returns or panics, and \<open>'a comp\<close>
  adds never returning (\<open>None\<close>): an endless loop, or waiting for a lock that an outstanding
  guard holds. Counters are natural numbers with the checked arithmetic of a debug build;
  hashes and lock words are 64-bit words. Loops that need an argument to end
  (\<open>evict_from_main\<close>, \<open>evict_while_full\<close>, the iterators, \<open>visit_entries\<close>) are partial
  functions into \<open>'a comp\<close>, and that they return is proved, so no fuel is used anywhere.

  \<^bold>\<open>Code outside the crate.\<close> \<open>hashbrown::raw::RawTable\<close> is the parameter \<open>T\<close>, a record of
  the calls the crate makes, with its documented behaviour as the locale \<open>raw_table\<close> (theory
  \<open>Raw_Table\<close>). Theory \<open>Slot_Table\<close> interprets it by an executable open-addressing table,
  which the witnesses run (theory \<open>Demo_Cache\<close>). One of its laws, that an insert slot stays valid while
  other elements are removed, is what \<open>docs/internals.md\<close> of the repository documents; the
  insertion paths rest on it. Cloning a table clones its elements with the crate's own \<open>CacheEntry::clone\<close>, on
  top of a clone function for values that is a parameter; a cloned key is equal to the key. The \<open>BuildHasher\<close> is a function from keys to
  words; a borrowed lookup key is the key it stands for. A serde format is the locale
  \<open>serde_format\<close>, interpreted by lists. For safety \<open>parking_lot_core\<close> is over-approximated: a
  parked thread may be woken at any time; for liveness it is taken as documented: \<open>park\<close> tests
  and sleeps in one step, \<open>unpark_one\<close> wakes one parked writer, any of them, and \<open>unpark_all\<close> every
  parked reader. \<open>compare_exchange_weak\<close> may fail at any time. What rayon's \<open>par_bridge\<close> does with
  the items of an iterator is any schedule. \<open>available_parallelism\<close> is an argument.

  \<^bold>\<open>Interfaces.\<close> The locale \<open>shard_table\<close> (theory \<open>Shard_Eviction\<close>) is the raw table seen by
  a shard; the lemmas on shards and caches are proved in it, and the properties are stated
  over it with the hypothesis \<open>shard_table T hash tok sok\<close>. The locale \<open>lossy_map\<close> (theory
  \<open>Cache_Refinement\<close>) is what a client of a cache relies on; \<open>shard_table\<close> is a sublocale of
  it through the methods of \<open>NeoCache\<close>, and likewise of \<open>map_trait\<close> (theory \<open>Map_Trait\<close>), the
  contract of the methods that the provided methods of the trait call. The locale \<open>atomic_guards\<close>
  (theory \<open>Atomic_Lock\<close>) is the lock as its users see it; the protocol provides it. Theory \<open>Call_Rules\<close> has
  rules for straight-line programs over a cache (\<open>yields\<close>: returns and satisfies), one per call.

  \<^bold>\<open>Invariants.\<close> \<open>shard_inv\<close> (theory \<open>Shard_Invariant\<close>) says that the table is well formed
  with distinct keys, that every entry has a pair in the queue of its location, that the live
  counters cover the entries and stay within the capacity, and that frequencies and ghost set
  are bounded. \<open>cache_inv\<close> (theory \<open>Neo_Cache_Inv\<close>) says that every shard satisfies it,
  that shift and shard count fit together and that every key is in the shard its hash
  selects; \<open>cache_ok\<close> adds that no lock is held. Every method preserves them. \<open>tidy\<close> (theory
  \<open>Shard_Tidy\<close>) says that the queues have no stale pair and the counters are exact; insertion,
  lookup and clear preserve it, removal does not. \<open>conc_inv\<close> (theory \<open>Concurrent_Cache\<close>) ties the lock
  words to the guards the workers hold and the cache at rest to the sections that took effect; \<open>wake_ok\<close>
  (theory \<open>Lock_Wakeup\<close>) names a waker for every sleeper; \<open>live_ok\<close> (theory \<open>Shared_Iter_Inv\<close>) ties
  strong counts, lock words and live references together.

  \<^bold>\<open>What is shown.\<close>

  \<^item> Refinement (\<open>Cache_Refinement\<close>): over any sequence of calls a bounded cache answers as a
    map that may forget entries, and an unbounded one exactly as a map.
  \<^item> The policy (\<open>S3_Fifo\<close>, \<open>Policy_Refinement\<close>, \<open>Policy_Properties\<close>): a specification of S3-FIFO on finite
    maps and lists of keys, with no hash table; the code over any table computes exactly its answers and its
    states, so that two tables cannot be told apart by calls, and reserving, shrinking and cloning cannot be
    observed.
  \<^item> Bounds (\<open>Bound_Properties\<close>): whatever calls are made on a new cache, and in every state that
    threads reach over the lock protocol, the cache and its shards stay within their capacities, the ghost sets
    within their limits and the frequencies below \<open>MAX_FREQ\<close>.
  \<^item> Threads (\<open>Concurrent_Properties\<close>): whatever guards threads hold, their sections are
    serializable, with the answers of a single-threaded run in the order of their effects; a
    bounded cache loses at most one entry of the same shard per new key, an unbounded one
    nothing. Run one after the other, the sections of a method are the method. Threads that
    call methods, iterations included, all return, whatever the schedule; threads that hold a
    guard of their own choice while they take another may deadlock.
  \<^item> Threads over the lock protocol (\<open>Composed_Properties\<close>): with races, spinning and parking inside
    the locks the sections are still serializable, and as long as a thread has not returned, some
    thread is awake and can take a step.
  \<^item> Eviction (\<open>Shard_Eviction\<close>, \<open>Eviction_Policy\<close>, \<open>Eviction_Properties\<close>): the loops end
    without a panic, a full shard loses exactly one entry, the main queue follows the clock
    algorithm and the small queue is a FIFO with promotion and ghost set. A scan over new keys does not push out the keys in use
    (\<open>Scan_Resistance\<close>).
  \<^item> Methods (\<open>Cache_Properties\<close>, \<open>Bulk_Properties\<close>): each method on each of its branches,
    the error branches included.
  \<^item> Guards and lock (\<open>Guard_Blocking\<close>, \<open>Guard_Properties\<close>, \<open>Lock_Properties\<close>): what every method
    does while a reference is held: it waits for ever, reports \<open>Locked\<close>, or does not get past the locked shard; mutual exclusion, exact reader count and absence of
    assertion failures in every reachable state of the protocol; no wake-up is lost; the
    sequential functions, in which spinning and parking are never returning, are executions of the protocol. Concurrent bumps of a frequency are
    as many sequential ones (\<open>Freq_Protocol\<close>).
  \<^item> Entries, references, iterators, view, serde (\<open>Entry_Properties\<close>, \<open>Ref_Properties\<close>,
    \<open>Iter_Properties\<close>, \<open>Read_Only_Properties\<close>, \<open>Serde_Properties\<close>), the trait (\<open>Map_Trait\<close>), and
    iterations under every schedule (\<open>Shared_Iter_Properties\<close>): no two live references alias, and
    every lock is released in the end.
  \<^item> Tests (\<open>Crate_Test_Properties\<close>, \<open>Integration_Tests\<close>, \<open>Concurrent_Tests\<close>): the modelled unit tests and the tests of
    \<open>tests/concurrent.rs\<close> pass for every
    hash table, hasher and parallelism, except that the unit test of \<open>retain\<close> needs a hasher that
    spreads its keys and the test of a hot key one that tells its keys apart. The unit test that compares the hashes of
    borrowed and owned keys is not modelled.
  \<^item> A defect (\<open>Counter_Drift\<close>): a key that is removed and inserted again is queued twice;
    eviction through the stale pair charges the wrong live counter, which can stay too high
    in an empty shard; an example is evaluated. Without removals the
    counters are exact (\<open>Counter_Exact\<close>).

  \<^bold>\<open>What is not modelled.\<close> Memory orderings (every atomic access is sequentially
  consistent). Fairness: over the atomic lock every thread returns; over the lock protocol a
  thread may spin or be overtaken for ever, and only that the threads together never get stuck is
  shown. The threads of the models call the methods that wait; the \<open>try_\<close> methods are covered by the
  sequential model and by the protocol of the lock. Failure to allocate
  memory (the shard vector of a constructor, a queue that grows). Overflow of an \<open>Arc\<close> count; \<open>Send\<close> and \<open>Sync\<close>
  declarations, type parameters and imports; the loom tests (which explore the lock by
  themselves), the coverage tests and the benches.
\<close>

end
